(* ===== verification/Prelude.thy ===== *)
theory Prelude
  imports Main "HOL-Library.Word"
begin

text \<open>
  Shared vocabulary of the development: machine types, the faults a C++ operation can end in,
  the result type \<open>'a res\<close> with its sequencing operator, and the list and word lemmas that more
  than one component uses, and the interface of a step relation with an invariant.  Every raise, failed assertion and access the C++ standard leaves
  undefined is a value \<open>Inl fault\<close>, so that "the operation returns" is a statement the kernel
  checks.
\<close>

unbundle bit_operations_syntax

text \<open>Facts of the form: an operation keeps the invariant of the state it works on.\<close>

named_theorems keeps

section \<open>Machine types\<close>

type_synonym byte = "8 word"
type_synonym u16 = "16 word"
type_synonym u32 = "32 word"
type_synonym u64 = "64 word"

text \<open>
  Sizes and positions (\<open>size_t\<close>) are natural numbers below \<open>2 ^ 64\<close>; a subtraction of the source
  that can go below zero is written with \<open>sz_sub\<close>, which wraps as the unsigned type does.
\<close>

definition sz_sub :: "nat \<Rightarrow> nat \<Rightarrow> nat" where
  "sz_sub a b = (if b \<le> a then a - b else 2 ^ 64 - (b - a))"

lemma sz_sub_le [simp]: "b \<le> a \<Longrightarrow> sz_sub a b = a - b"
  by (simp add: sz_sub_def)

section \<open>Faults and results\<close>

datatype fault =
    NullDeref          \<comment> \<open>a null pointer is dereferenced\<close>
  | OutOfRange         \<comment> \<open>\<open>std::out_of_range\<close> is thrown\<close>
  | OutOfBounds        \<comment> \<open>an access outside the object it points into\<close>
  | Indeterminate      \<comment> \<open>an uninitialised value is used\<close>
  | DivByZero
  | SignedOverflow
  | BadShift           \<comment> \<open>a shift by at least the width of the type\<close>
  | AssertFail         \<comment> \<open>\<open>GUDOV_ASSERT\<close>\<close>
  | InvalidArgument    \<comment> \<open>\<open>std::invalid_argument\<close> is thrown\<close>
  | LogicError         \<comment> \<open>\<open>std::logic_error\<close> is thrown\<close>
  | EraseEnd           \<comment> \<open>\<open>erase(end())\<close> on a standard container\<close>
  | LengthError        \<comment> \<open>\<open>std::length_error\<close> is thrown\<close>
  | Diverges           \<comment> \<open>a call or loop that does not return, or whose fuel is spent\<close>

type_synonym 'a res = "fault + 'a"

definition bindR :: "'a res \<Rightarrow> ('a \<Rightarrow> 'b res) \<Rightarrow> 'b res" where
  "bindR m f = (case m of Inl e \<Rightarrow> Inl e | Inr x \<Rightarrow> f x)"

lemma bindR_simps [simp]:
  "bindR (Inl e) f = Inl e"
  "bindR (Inr x) f = f x"
  by (simp_all add: bindR_def)

lemma bindR_assoc: "bindR (bindR m f) g = bindR m (\<lambda>x. bindR (f x) g)"
  by (cases m) simp_all

lemma bindR_eq_Inr: "bindR m f = Inr y \<longleftrightarrow> (\<exists>x. m = Inr x \<and> f x = Inr y)"
  by (cases m) simp_all

lemma bindR_InrE [elim!]:
  assumes "bindR m f = Inr y"
  obtains x where "m = Inr x" "f x = Inr y"
  using assms by (auto simp: bindR_eq_Inr)

lemma bindR_cong [fundef_cong]:
  "m = m' \<Longrightarrow> (\<And>x. m' = Inr x \<Longrightarrow> f x = f' x) \<Longrightarrow> bindR m f = bindR m' f'"
  by (cases m') simp_all

definition requireR :: "bool \<Rightarrow> fault \<Rightarrow> unit res" where
  "requireR b e = (if b then Inr () else Inl e)"

lemma requireR_simps [simp]:
  "requireR True e = Inr ()"
  "requireR False e = Inl e"
  by (simp_all add: requireR_def)

lemma requireR_eq_Inr [simp]: "requireR b e = Inr u \<longleftrightarrow> b"
  by (simp add: requireR_def)

section \<open>List lemmas\<close>

definition overwrite :: "'a list \<Rightarrow> nat \<Rightarrow> 'a list \<Rightarrow> 'a list" where
  "overwrite xs n ys = take n xs @ ys @ drop (n + length ys) xs"

lemma length_overwrite [simp]:
  "n + length ys \<le> length xs \<Longrightarrow> length (overwrite xs n ys) = length xs"
  by (simp add: overwrite_def)

lemma overwrite_Nil [simp]: "overwrite xs n [] = xs"
  by (simp add: overwrite_def)

lemma overwrite_append_left:
  "n + length ys \<le> length xs \<Longrightarrow> overwrite (xs @ zs) n ys = overwrite xs n ys @ zs"
  by (simp add: overwrite_def)

lemma overwrite_append_right:
  "length xs \<le> n \<Longrightarrow> overwrite (xs @ zs) n ys = xs @ overwrite zs (n - length xs) ys"
  by (simp add: overwrite_def)

lemma overwrite_split:
  "n + length (ys @ zs) \<le> length xs \<Longrightarrow>
    overwrite xs n (ys @ zs) = overwrite (overwrite xs n ys) (n + length ys) zs"
  by (cases "ys = []") (auto simp: overwrite_def add.assoc add.commute add.left_commute)

lemma nth_overwrite:
  "n + length ys \<le> length xs \<Longrightarrow> i < length xs \<Longrightarrow>
    overwrite xs n ys ! i = (if n \<le> i \<and> i < n + length ys then ys ! (i - n) else xs ! i)"
  by (auto simp: overwrite_def nth_append)

lemma take_drop_overwrite:
  "n + length ys \<le> length xs \<Longrightarrow> take (length ys) (drop n (overwrite xs n ys)) = ys"
  by (simp add: overwrite_def)

lemma those_map_Some [simp]: "those (map Some xs) = Some xs"
  by (induction xs) simp_all

lemma length_concat_uniform: "\<forall>x\<in>set xss. length x = k \<Longrightarrow> length (concat xss) = length xss * k"
  by (induction xss) auto

lemma concat_replicate_const: "concat (replicate k (replicate n x)) = replicate (k * n) x"
  by (induction k) (simp_all add: replicate_add)

lemma take_Suc_drop_nth: "c < length xs \<Longrightarrow> drop c xs = xs ! c # drop (Suc c) xs"
  by (simp add: Cons_nth_drop_Suc)

lemma find_snoc:
  "find P (xs @ [x]) = (case find P xs of None \<Rightarrow> if P x then Some x else None | Some y \<Rightarrow> Some y)"
  by (induction xs) auto

lemma find_SomeD: "find P xs = Some x \<Longrightarrow> x \<in> set xs \<and> P x"
  by (induction xs) (auto split: if_splits)

lemma sum_list_map_update:
  fixes f :: "'a \<Rightarrow> nat"
  shows "i < length xs \<Longrightarrow>
    sum_list (map f (xs[i := y])) + f (xs ! i) = sum_list (map f xs) + f y"
  by (induction xs arbitrary: i) (auto split: nat.splits)

lemma member_le_sum_list_map: "x \<in> set xs \<Longrightarrow> f x \<le> (sum_list (map f xs) :: nat)"
  by (induction xs) auto

section \<open>Word lemmas\<close>

text \<open>The value of an integer after conversion to \<open>int\<close>.\<close>

definition to_int32 :: "int \<Rightarrow> int" where
  "to_int32 x = sint (word_of_int x :: 32 word)"

lemma to_int32_small [simp]: "- (2 ^ 31) \<le> x \<Longrightarrow> x < 2 ^ 31 \<Longrightarrow> to_int32 x = x"
  by (simp add: to_int32_def sint_sbintrunc' signed_take_bit_int_eq_self)

lemma to_int32_range: "- (2 ^ 31) \<le> to_int32 x \<and> to_int32 x < 2 ^ 31"
  using sint_range_size [of "word_of_int x :: 32 word"] by (simp add: to_int32_def word_size)

lemma sint_ucast_small:
  assumes "unat (t :: 64 word) < 2 ^ 31"
  shows "sint (ucast t :: 32 word) = int (unat t)"
proof -
  have u: "uint t < 2 ^ 31" using assms by (metis of_nat_less_iff of_nat_numeral of_nat_power uint_nat)
  have "sint (ucast t :: 32 word) = signed_take_bit 31 (uint t)"
    by (subst signed_ucast_eq) simp
  also have "\<dots> = uint t" using u by (intro signed_take_bit_int_eq_self) (auto intro: order_trans [of _ 0])
  finally show ?thesis by simp
qed

lemma sint_word64_small: "- (2 ^ 63) \<le> x \<Longrightarrow> x < 2 ^ 63 \<Longrightarrow> sint (word_of_int x :: 64 word) = x"
  by (simp add: sint_sbintrunc' signed_take_bit_int_eq_self)

section \<open>Transition systems\<close>

text \<open>
  What the components that are step relations share: an invariant that the initial state has and every
  step keeps holds in every state that is reached; and when every step from a state with the invariant
  lowers a rank, no run goes on for ever.
\<close>

locale transition_system =
  fixes init :: 's
    and step :: "'s \<Rightarrow> 's \<Rightarrow> bool"
    and inv :: "'s \<Rightarrow> bool"
  assumes inv_init: "inv init"
    and inv_step: "step s s' \<Longrightarrow> inv s \<Longrightarrow> inv s'"
begin

lemma reachable_inv: "step\<^sup>*\<^sup>* init s \<Longrightarrow> inv s"
  by (induction rule: rtranclp_induct) (auto simp: inv_init intro: inv_step)

end

locale ranked_system = transition_system +
  fixes rank :: "'s \<Rightarrow> nat"
  assumes rank_step: "step s s' \<Longrightarrow> inv s \<Longrightarrow> rank s' < rank s"
begin

lemma no_infinite_run: "inv (f 0) \<Longrightarrow> \<exists>n. \<not> step (f n) (f (Suc n))"
proof (rule ccontr)
  assume "inv (f 0)" and "\<not> (\<exists>n. \<not> step (f n) (f (Suc n)))"
  then have run: "step (f n) (f (Suc n))" for n by blast
  have inv: "inv (f n)" for n by (induction n) (auto simp: \<open>inv (f 0)\<close> intro: inv_step [OF run])
  have "rank (f n) + n \<le> rank (f 0)" for n
  proof (induction n)
    case (Suc n)
    then show ?case using rank_step [OF run inv, of n] by simp
  qed simp
  from this [of "Suc (rank (f 0))"] show False by simp
qed

end

end
