(* ===== verification/Endian.thy ===== *)
theory Endian
  imports Prelude
begin

text \<open>
  Byte order (\<open>gudov/endian.h\<close>).  The object representation of an integer on the little-endian
  host the build selects (\<open>GUDOV_BYTE_ORDER == GUDOV_LITTLE_ENDIAN\<close>) is \<open>word_bytes\<close>, least
  significant byte first; \<open>bytes_word\<close> reads one back.  \<open>ByteSwap\<close> reverses it, as
  \<open>bswap_16/32/64\<close> do.  The main facts: the representation is a bijection on words whose width is
  a multiple of eight, and \<open>ByteSwap\<close> is an involution.
\<close>

section \<open>Constants and object representation\<close>

definition GUDOV_LITTLE_ENDIAN :: nat where "GUDOV_LITTLE_ENDIAN = 1"
definition GUDOV_BIG_ENDIAN :: nat where "GUDOV_BIG_ENDIAN = 2"
definition GUDOV_BYTE_ORDER :: nat where "GUDOV_BYTE_ORDER = GUDOV_LITTLE_ENDIAN"

lemmas endian_defs = GUDOV_LITTLE_ENDIAN_def GUDOV_BIG_ENDIAN_def GUDOV_BYTE_ORDER_def

definition word_bytes :: "'a::len word \<Rightarrow> byte list" where
  "word_bytes w = map (\<lambda>i. ucast (drop_bit (8 * i) w)) [0..<LENGTH('a) div 8]"

definition bytes_word :: "byte list \<Rightarrow> 'a::len word" where
  "bytes_word bs = foldr (\<lambda>b w. ucast b OR push_bit 8 w) bs 0"

section \<open>Swapping\<close>

definition ByteSwap :: "'a::len word \<Rightarrow> 'a word" where
  "ByteSwap value = bytes_word (rev (word_bytes value))"

definition ByteSwapOnLittleEndian :: "'a::len word \<Rightarrow> 'a word" where
  "ByteSwapOnLittleEndian t =
     (if GUDOV_BYTE_ORDER = GUDOV_BIG_ENDIAN then t else ByteSwap t)"

definition ByteSwapOnBigEndian :: "'a::len word \<Rightarrow> 'a word" where
  "ByteSwapOnBigEndian t =
     (if GUDOV_BYTE_ORDER = GUDOV_BIG_ENDIAN then ByteSwap t else t)"

section \<open>Laws\<close>

lemma length_word_bytes [simp]: "length (word_bytes (w :: 'a::len word)) = LENGTH('a) div 8"
  by (simp add: word_bytes_def)

lemma bytes_word_Nil [simp]: "bytes_word [] = 0"
  by (simp add: bytes_word_def)

lemma bytes_word_Cons: "bytes_word (b # bs) = ucast b OR push_bit 8 (bytes_word bs)"
  by (simp add: bytes_word_def)

lemma bit_bytes_word:
  "bit (bytes_word bs :: 'a::len word) k \<longleftrightarrow>
     k < LENGTH('a) \<and> k div 8 < length bs \<and> bit (bs ! (k div 8)) (k mod 8)"
proof (induction bs arbitrary: k)
  case Nil
  then show ?case by simp
next
  case (Cons b bs)
  show ?case
  proof (cases "k < 8")
    case True
    then show ?thesis
      by (auto simp: bytes_word_Cons bit_or_iff bit_push_bit_iff bit_ucast_iff)
  next
    case False
    then have "k div 8 = Suc ((k - 8) div 8)" and "k mod 8 = (k - 8) mod 8"
      by (simp_all add: le_div_geq le_mod_geq)
    moreover have "\<not> bit b k" using False
      using bit_imp_le_length [of b k] by auto
    ultimately show ?thesis using False Cons.IH [of "k - 8"]
      by (auto simp: bytes_word_Cons bit_or_iff bit_push_bit_iff bit_ucast_iff)
  qed
qed

lemma nth_word_bytes:
  "i < LENGTH('a) div 8 \<Longrightarrow> word_bytes (w :: 'a::len word) ! i = ucast (drop_bit (8 * i) w)"
  by (simp add: word_bytes_def)

lemma bytes_word_word_bytes [simp]:
  assumes "8 dvd LENGTH('a::len)"
  shows "bytes_word (word_bytes w) = (w :: 'a word)"
proof (rule bit_word_eqI)
  fix k assume k: "k < LENGTH('a)"
  then have "k div 8 < LENGTH('a) div 8"
    using assms by (auto simp: less_mult_imp_div_less elim!: dvdE)
  then show "bit (bytes_word (word_bytes w) :: 'a word) k = bit w k"
    using k by (simp add: bit_bytes_word nth_word_bytes bit_ucast_iff bit_drop_bit_eq)
qed

lemma word_bytes_bytes_word [simp]:
  assumes "8 dvd LENGTH('a::len)" and "length bs = LENGTH('a) div 8"
  shows "word_bytes (bytes_word bs :: 'a word) = bs"
proof (rule nth_equalityI)
  show "length (word_bytes (bytes_word bs :: 'a word)) = length bs"
    using assms by simp
next
  fix i assume "i < length (word_bytes (bytes_word bs :: 'a word))"
  then have i: "i < LENGTH('a) div 8" by simp
  show "word_bytes (bytes_word bs :: 'a word) ! i = bs ! i"
  proof (rule bit_word_eqI)
    fix k assume k: "k < LENGTH(8)"
    have "8 * i + k < LENGTH('a)"
      using i k assms(1) by (auto elim!: dvdE)
    moreover have "(8 * i + k) div 8 = i" and "(8 * i + k) mod 8 = k"
      using k by simp_all
    ultimately show "bit (word_bytes (bytes_word bs :: 'a word) ! i) k = bit (bs ! i) k"
      using i k assms(2)
      by (simp add: nth_word_bytes bit_ucast_iff bit_drop_bit_eq bit_bytes_word)
  qed
qed

lemma word_bytes_ByteSwap:
  "8 dvd LENGTH('a::len) \<Longrightarrow> word_bytes (ByteSwap (w :: 'a word)) = rev (word_bytes w)"
  by (simp add: ByteSwap_def)

lemma ByteSwap_ByteSwap [simp]:
  "8 dvd LENGTH('a::len) \<Longrightarrow> ByteSwap (ByteSwap w) = (w :: 'a word)"
  by (simp add: ByteSwap_def)

lemma ByteSwapOn_host [simp]:
  "ByteSwapOnLittleEndian t = ByteSwap t"
  "ByteSwapOnBigEndian t = t"
  by (simp_all add: ByteSwapOnLittleEndian_def ByteSwapOnBigEndian_def endian_defs)

text \<open>Where the bits go.\<close>

lemma bit_ByteSwap:
  fixes w :: "'a::len word"
  assumes "8 dvd LENGTH('a)"
  shows "bit (ByteSwap w) k \<longleftrightarrow> k < LENGTH('a) \<and> bit w (8 * (LENGTH('a) div 8 - 1 - k div 8) + k mod 8)"
proof (cases "k < LENGTH('a)")
  case True
  then have k: "k div 8 < LENGTH('a) div 8" using assms by (auto simp: less_mult_imp_div_less)
  then have i: "LENGTH('a) div 8 - 1 - k div 8 < LENGTH('a) div 8" by simp
  have "rev (word_bytes w) ! (k div 8) = word_bytes w ! (LENGTH('a) div 8 - 1 - k div 8)"
    using k by (simp add: rev_nth)
  then show ?thesis using True k i
    by (simp add: ByteSwap_def bit_bytes_word nth_word_bytes bit_ucast_iff bit_drop_bit_eq)
qed (simp add: ByteSwap_def bit_bytes_word)

lemma ByteSwap_bitwise:
  fixes v w :: "'a::len word"
  assumes "8 dvd LENGTH('a)"
  shows "ByteSwap (v OR w) = ByteSwap v OR ByteSwap w" "ByteSwap (v AND w) = ByteSwap v AND ByteSwap w"
    "ByteSwap (NOT v) = NOT (ByteSwap v)"
proof -
  show "ByteSwap (v OR w) = ByteSwap v OR ByteSwap w" "ByteSwap (v AND w) = ByteSwap v AND ByteSwap w"
    by (rule bit_word_eqI, simp add: bit_ByteSwap [OF assms] bit_or_iff bit_and_iff)+
  show "ByteSwap (NOT v) = NOT (ByteSwap v)"
  proof (rule bit_word_eqI)
    fix k assume k: "k < LENGTH('a)"
    then have "k div 8 < LENGTH('a) div 8" using assms by (auto simp: less_mult_imp_div_less)
    then have "8 * (LENGTH('a) div 8 - 1 - k div 8) + k mod 8 < 8 * (LENGTH('a) div 8)"
      by (simp add: algebra_simps)
    then show "bit (ByteSwap (NOT v)) k = bit (NOT (ByteSwap v)) k"
      using k assms by (simp add: bit_ByteSwap bit_not_iff)
  qed
qed

end
