(* ===== verification/Byte_Buffer.thy ===== *)
theory Byte_Buffer
  imports Prelude
begin

text \<open>
  The contract of a seekable byte buffer: what the typed encoders and decoders rely on.  A buffer
  has a position, a limit (the bytes written so far) and cells; a write puts its bytes at the
  position and moves it, a read of at least one byte returns the cells at the position or throws
  \<open>out_of_range\<close>, a seek moves the position only.  The client lemmas say how encoded regions
  survive and are read back; they are proved once here and used on \<open>ByteArray\<close> through its
  interpretation.
\<close>

definition region :: "(nat \<Rightarrow> byte option) \<Rightarrow> nat \<Rightarrow> nat \<Rightarrow> byte list \<Rightarrow> bool" where
  "region cs lim p bs \<longleftrightarrow> p + length bs \<le> lim \<and> (\<forall>i < length bs. cs (p + i) = Some (bs ! i))"

lemma region_Nil [simp]: "region cs lim p [] \<longleftrightarrow> p \<le> lim"
  by (simp add: region_def)

lemma region_append:
  "region cs lim p (bs @ bs') \<longleftrightarrow> region cs lim p bs \<and> region cs lim (p + length bs) bs'"
proof
  assume l: "region cs lim p (bs @ bs')"
  have "cs (p + length bs + i) = Some (bs' ! i)" if "i < length bs'" for i
    using l that by (auto simp: region_def nth_append add.assoc dest: spec [of _ "length bs + i"])
  moreover have "cs (p + i) = Some (bs ! i)" if "i < length bs" for i
    using l that by (auto simp: region_def nth_append dest: spec [of _ i])
  ultimately show "region cs lim p bs \<and> region cs lim (p + length bs) bs'"
    using l by (simp add: region_def)
next
  assume r: "region cs lim p bs \<and> region cs lim (p + length bs) bs'"
  have "cs (p + i) = Some ((bs @ bs') ! i)" if "i < length (bs @ bs')" for i
  proof (cases "i < length bs")
    case False
    then have "cs (p + length bs + (i - length bs)) = Some (bs' ! (i - length bs))"
      using r that False
      by (simp only: region_def length_append)
    with False show ?thesis by (simp add: nth_append)
  qed (use r in \<open>simp add: region_def nth_append\<close>)
  with r show "region cs lim p (bs @ bs')" by (simp add: region_def)
qed

lemma region_Cons:
  "region cs lim p (b # bs) \<longleftrightarrow> p < lim \<and> cs p = Some b \<and> region cs lim (Suc p) bs"
  using region_append [of cs lim p "[b]" bs] by (auto simp: region_def)

lemma map_region: "region cs lim p bs \<Longrightarrow> map cs [p..<p + length bs] = map Some bs"
  by (rule nth_equalityI) (auto simp: region_def)

locale byte_buffer =
  fixes inv :: "'s \<Rightarrow> bool"
    and pos :: "'s \<Rightarrow> nat"
    and lim :: "'s \<Rightarrow> nat"
    and cells :: "'s \<Rightarrow> nat \<Rightarrow> byte option"
    and cfg :: "'s \<Rightarrow> 'e"
    and wr :: "byte list \<Rightarrow> 's \<Rightarrow> 's res"
    and rd :: "nat \<Rightarrow> 's \<Rightarrow> (byte option list \<times> 's) res"
    and seek :: "nat \<Rightarrow> 's \<Rightarrow> 's res"
  assumes pos_le: "inv s \<Longrightarrow> pos s \<le> lim s"
    and wr_ok: "inv s \<Longrightarrow> \<exists>s'. wr bs s = Inr s' \<and> inv s' \<and> pos s' = pos s + length bs \<and>
      lim s' = max (lim s) (pos s + length bs) \<and> cfg s' = cfg s \<and>
      (\<forall>i. cells s' i = (if pos s \<le> i \<and> i < pos s + length bs then Some (bs ! (i - pos s))
                         else cells s i))"
    and rd_ok: "inv s \<Longrightarrow> 0 < n \<Longrightarrow> pos s + n \<le> lim s \<Longrightarrow>
      \<exists>s'. rd n s = Inr (map (cells s) [pos s..<pos s + n], s') \<and> inv s' \<and>
        pos s' = pos s + n \<and> lim s' = lim s \<and> cfg s' = cfg s \<and> cells s' = cells s"
    and rd_short: "inv s \<Longrightarrow> lim s < pos s + n \<Longrightarrow> rd n s = Inl OutOfRange"
    and seek_ok: "inv s \<Longrightarrow> v \<le> lim s \<Longrightarrow>
      \<exists>s'. seek v s = Inr s' \<and> inv s' \<and> pos s' = v \<and> lim s' = lim s \<and> cfg s' = cfg s \<and>
        cells s' = cells s"
begin

lemma wr_region:
  assumes "inv s"
  obtains s' where "wr bs s = Inr s'" "inv s'" "pos s' = pos s + length bs"
    "lim s' = max (lim s) (pos s + length bs)" "cfg s' = cfg s"
    "region (cells s') (lim s') (pos s) bs"
    "\<And>p xs. region (cells s) (lim s) p xs \<Longrightarrow> p + length xs \<le> pos s \<Longrightarrow>
       region (cells s') (lim s') p xs"
proof -
  from wr_ok [OF assms, of bs] obtain s' where
    s': "wr bs s = Inr s'" "inv s'" "pos s' = pos s + length bs"
      "lim s' = max (lim s) (pos s + length bs)" "cfg s' = cfg s"
    and cs: "\<And>i. cells s' i = (if pos s \<le> i \<and> i < pos s + length bs then Some (bs ! (i - pos s))
                               else cells s i)"
    by blast
  have "region (cells s') (lim s') (pos s) bs"
    using s' cs by (simp add: region_def)
  moreover have "region (cells s') (lim s') p xs"
    if "region (cells s) (lim s) p xs" "p + length xs \<le> pos s" for p xs
    using that s' cs by (auto simp: region_def)
  ultimately show thesis using that s' by blast
qed

lemma rd_region:
  assumes "inv s" "region (cells s) (lim s) (pos s) bs" "bs \<noteq> []"
  obtains s' where "rd (length bs) s = Inr (map Some bs, s')" "inv s'"
    "pos s' = pos s + length bs" "lim s' = lim s" "cfg s' = cfg s" "cells s' = cells s"
proof -
  have "pos s + length bs \<le> lim s" "0 < length bs"
    using assms by (simp_all add: region_def)
  from rd_ok [OF assms(1) this(2) this(1)] show thesis
    using that assms(2) by (auto simp: map_region)
qed

text \<open>Writing, seeking back and reading returns what was written.\<close>

lemma write_seek_read:
  assumes "inv s" "bs \<noteq> []"
  shows "bindR (wr bs s) (\<lambda>s1. bindR (seek (pos s) s1) (\<lambda>s2.
           bindR (rd (length bs) s2) (\<lambda>(cs, _). Inr cs))) = Inr (map Some bs)"
proof -
  obtain s1 where s1: "wr bs s = Inr s1" "inv s1" "lim s1 = max (lim s) (pos s + length bs)"
    and reg: "region (cells s1) (lim s1) (pos s) bs"
    using wr_region [OF assms(1), of bs] by metis
  then obtain s2 where s2: "seek (pos s) s1 = Inr s2" "inv s2" "pos s2 = pos s" "lim s2 = lim s1"
    "cells s2 = cells s1"
    using seek_ok [of s1 "pos s"] by (metis le_add1 max.coboundedI2)
  then obtain s3 where "rd (length bs) s2 = Inr (map Some bs, s3)"
    using rd_region [of s2 bs] reg assms(2) by metis
  with s1 s2 show ?thesis by simp
qed

end

end
