(* ===== verification/ByteArray.thy ===== *)
theory ByteArray
  imports Endian Byte_Buffer
begin

text \<open>
  The chunked byte buffer (\<open>gudov/bytearray.{h,cpp}\<close>).  The chain of heap nodes hanging off
  \<open>root_\<close> is the list \<open>nodes\<close>, a node pointer is an index into it and \<open>None\<close> is the null pointer.
  A cell of a node is \<open>None\<close> until it is written, because \<open>new char[s]\<close> leaves it uninitialised.

  The theory models construction, growth, raw reads and writes, seeking, clearing, the scatter/gather
  views and the file operations.  Its lemmas show that every operation keeps the representation
  invariant \<open>ba_wf\<close> and refines the flat array \<open>concat (nodes b)\<close>: a write overwrites a range of it,
  a read returns a range of it, growth appends to it.
\<close>

section \<open>State\<close>

type_synonym cell = "byte option"

record bytearray =
  base_size :: nat
  position :: nat
  capacity :: nat
  ba_size :: nat
  endian :: nat
  nodes :: "cell list list"
  cur :: "nat option"

definition newNode :: "nat \<Rightarrow> cell list" where
  "newNode s = replicate s None"

definition newByteArray :: "nat \<Rightarrow> bytearray" where
  "newByteArray baseSize =
     \<lparr>base_size = baseSize, position = 0, capacity = baseSize, ba_size = 0,
      endian = GUDOV_LITTLE_ENDIAN, nodes = [newNode baseSize], cur = Some 0\<rparr>"

definition GetReadSize :: "bytearray \<Rightarrow> nat" where
  "GetReadSize ba = sz_sub (ba_size ba) (position ba)"

definition GetCapacity :: "bytearray \<Rightarrow> nat" where
  "GetCapacity ba = sz_sub (capacity ba) (position ba)"

section \<open>Nodes and node pointers\<close>

definition deref :: "cell list list \<Rightarrow> nat option \<Rightarrow> cell list res" where
  "deref ns p = (case p of None \<Rightarrow> Inl NullDeref
     | Some c \<Rightarrow> if c < length ns then Inr (ns ! c) else Inl NullDeref)"

definition next_node :: "cell list list \<Rightarrow> nat \<Rightarrow> nat option" where
  "next_node ns c = (if Suc c < length ns then Some (Suc c) else None)"

definition node_put :: "cell list list \<Rightarrow> nat \<Rightarrow> nat \<Rightarrow> cell list \<Rightarrow> cell list list res" where
  "node_put ns c npos bs =
     (if npos + length bs \<le> length (ns ! c) then Inr (ns[c := overwrite (ns ! c) npos bs])
      else Inl OutOfBounds)"

definition node_get :: "cell list list \<Rightarrow> nat \<Rightarrow> nat \<Rightarrow> nat \<Rightarrow> cell list res" where
  "node_get ns c npos n =
     (if npos + n \<le> length (ns ! c) then Inr (take n (drop npos (ns ! c)))
      else Inl OutOfBounds)"

section \<open>Growth and the copy loops\<close>

definition AddCapacity :: "nat \<Rightarrow> bytearray \<Rightarrow> bytearray res" where
  "AddCapacity len ba =
     (if len = 0 then Inr ba
      else let old_capacity = GetCapacity ba in
        if old_capacity \<ge> len then Inr ba
        else if base_size ba = 0 then Inl DivByZero
        else if nodes ba = [] then Inl NullDeref
        else let rest = len - old_capacity;
                 count = (rest + base_size ba - 1) div base_size ba;
                 first = (if count = 0 then None else Some (length (nodes ba)))
             in Inr (ba\<lparr>nodes := nodes ba @ replicate count (newNode (base_size ba)),
                        capacity := capacity ba + count * base_size ba,
                        cur := (if old_capacity = 0 then first else cur ba)\<rparr>))"

function write_loop ::
  "cell list list \<Rightarrow> nat option \<Rightarrow> nat \<Rightarrow> nat \<Rightarrow> nat \<Rightarrow> cell list \<Rightarrow>
     (cell list list \<times> nat option \<times> nat) res" where
  "write_loop ns cu npos ncap pos buf =
     (if buf = [] then Inr (ns, cu, pos)
      else case cu of None \<Rightarrow> Inl NullDeref
      | Some c \<Rightarrow>
        (if length buf \<le> ncap then
           bindR (node_put ns c npos buf) (\<lambda>ns'.
             Inr (ns', if length (ns ! c) = npos + length buf then next_node ns c else Some c,
                  pos + length buf))
         else
           bindR (node_put ns c npos (take ncap buf)) (\<lambda>ns'.
             bindR (deref ns' (next_node ns c)) (\<lambda>nd.
               write_loop ns' (next_node ns c) 0 (length nd) (pos + ncap) (drop ncap buf)))))"
  by pat_completeness auto
termination
  by (relation "measure (\<lambda>(ns, cu, _). case cu of None \<Rightarrow> 0 | Some c \<Rightarrow> length ns - c)")
     (auto simp: node_put_def deref_def next_node_def split: if_splits option.splits)

declare write_loop.simps [simp del]

function read_loop ::
  "cell list list \<Rightarrow> nat option \<Rightarrow> nat \<Rightarrow> nat \<Rightarrow> nat \<Rightarrow> nat \<Rightarrow> (cell list \<times> nat option \<times> nat) res" where
  "read_loop ns cu npos ncap pos len =
     (if len = 0 then Inr ([], cu, pos)
      else case cu of None \<Rightarrow> Inl NullDeref
      | Some c \<Rightarrow>
        (if len \<le> ncap then
           bindR (node_get ns c npos len) (\<lambda>bs.
             Inr (bs, if length (ns ! c) = npos + len then next_node ns c else Some c,
                  pos + len))
         else
           bindR (node_get ns c npos ncap) (\<lambda>bs.
             bindR (deref ns (next_node ns c)) (\<lambda>nd.
               bindR (read_loop ns (next_node ns c) 0 (length nd) (pos + ncap) (len - ncap))
                 (\<lambda>(bs', cu', pos'). Inr (bs @ bs', cu', pos'))))))"
  by pat_completeness auto
termination
  by (relation "measure (\<lambda>(ns, cu, _). case cu of None \<Rightarrow> 0 | Some c \<Rightarrow> length ns - c)")
     (auto simp: deref_def next_node_def split: if_splits option.splits)

declare read_loop.simps [simp del]

section \<open>Reading, writing, seeking\<close>

definition Write :: "byte list \<Rightarrow> bytearray \<Rightarrow> bytearray res" where
  "Write buf ba0 =
     (if buf = [] then Inr ba0
      else bindR (AddCapacity (length buf) ba0) (\<lambda>ba.
        if base_size ba = 0 then Inl DivByZero
        else let npos = position ba mod base_size ba in
          bindR (deref (nodes ba) (cur ba)) (\<lambda>nd.
            bindR (write_loop (nodes ba) (cur ba) npos (sz_sub (length nd) npos) (position ba)
                     (map Some buf))
              (\<lambda>(ns, cu, pos).
                Inr (ba\<lparr>nodes := ns, cur := cu, position := pos,
                        ba_size := (if pos > ba_size ba then pos else ba_size ba)\<rparr>)))))"

definition Read :: "nat \<Rightarrow> bytearray \<Rightarrow> (cell list \<times> bytearray) res" where
  "Read len ba =
     (if len > GetReadSize ba then Inl OutOfRange
      else if base_size ba = 0 then Inl DivByZero
      else let npos = position ba mod base_size ba in
        bindR (deref (nodes ba) (cur ba)) (\<lambda>nd.
          bindR (read_loop (nodes ba) (cur ba) npos (sz_sub (length nd) npos) (position ba) len)
            (\<lambda>(bs, cu, pos). Inr (bs, ba\<lparr>cur := cu, position := pos\<rparr>))))"

text \<open>The overload with an explicit position starts from \<open>cur_\<close>, whatever the position is.\<close>

definition ReadAt :: "nat \<Rightarrow> nat \<Rightarrow> bytearray \<Rightarrow> cell list res" where
  "ReadAt len pos ba =
     (if len > sz_sub (ba_size ba) pos then Inl OutOfRange
      else if base_size ba = 0 then Inl DivByZero
      else let npos = pos mod base_size ba in
        bindR (deref (nodes ba) (cur ba)) (\<lambda>nd.
          bindR (read_loop (nodes ba) (cur ba) npos (sz_sub (length nd) npos) pos len)
            (\<lambda>(bs, _, _). Inr bs)))"

function seek_loop :: "cell list list \<Rightarrow> nat option \<Rightarrow> nat \<Rightarrow> nat option res" where
  "seek_loop ns cu v =
     bindR (deref ns cu) (\<lambda>nd. case cu of None \<Rightarrow> Inl NullDeref | Some c \<Rightarrow>
       (if v > length nd then seek_loop ns (next_node ns c) (v - length nd)
        else Inr (if v = length nd then next_node ns c else Some c)))"
  by pat_completeness auto
termination
  by (relation "measure (\<lambda>(ns, cu, _). case cu of None \<Rightarrow> 0 | Some c \<Rightarrow> Suc (length ns) - c)")
     (auto simp: deref_def next_node_def split: if_splits option.splits)

declare seek_loop.simps [simp del]

definition SetPosition :: "nat \<Rightarrow> bytearray \<Rightarrow> bytearray res" where
  "SetPosition v ba =
     (if v > capacity ba then Inl OutOfRange
      else bindR (seek_loop (nodes ba) (Some 0) v) (\<lambda>cu.
        Inr (ba\<lparr>position := v, ba_size := (if v > ba_size ba then v else ba_size ba),
                cur := cu\<rparr>)))"

definition Clear :: "bytearray \<Rightarrow> bytearray" where
  "Clear ba = ba\<lparr>position := 0, ba_size := 0, capacity := base_size ba,
                 nodes := take 1 (nodes ba), cur := Some 0\<rparr>"

definition IsLittleEndian :: "bytearray \<Rightarrow> bool" where
  "IsLittleEndian ba \<longleftrightarrow> endian ba = GUDOV_LITTLE_ENDIAN"

definition SetIsLittleEndian :: "bool \<Rightarrow> bytearray \<Rightarrow> bytearray" where
  "SetIsLittleEndian val ba =
     ba\<lparr>endian := (if val then GUDOV_LITTLE_ENDIAN else GUDOV_BIG_ENDIAN)\<rparr>"

definition ba_ToString :: "bytearray \<Rightarrow> cell list res" where
  "ba_ToString ba =
     (if GetReadSize ba = 0 then Inr [] else ReadAt (GetReadSize ba) (position ba) ba)"


section \<open>Representation invariant\<close>

definition uniform :: "nat \<Rightarrow> 'a list list \<Rightarrow> bool" where
  "uniform b ns \<longleftrightarrow> (\<forall>x\<in>set ns. length x = b)"

definition ptr_of :: "nat \<Rightarrow> nat \<Rightarrow> nat \<Rightarrow> nat option" where
  "ptr_of n b p = (if p div b < n then Some (p div b) else None)"

definition ba_wf :: "bytearray \<Rightarrow> bool" where
  "ba_wf ba \<longleftrightarrow> 0 < base_size ba \<and> nodes ba \<noteq> [] \<and> uniform (base_size ba) (nodes ba) \<and>
     capacity ba = length (nodes ba) * base_size ba \<and>
     position ba \<le> ba_size ba \<and> ba_size ba \<le> capacity ba \<and>
     cur ba = ptr_of (length (nodes ba)) (base_size ba) (position ba) \<and>
     (endian ba = GUDOV_LITTLE_ENDIAN \<or> endian ba = GUDOV_BIG_ENDIAN)"

definition flat :: "bytearray \<Rightarrow> cell list" where
  "flat ba = concat (nodes ba)"

lemma uniform_nth [simp]: "uniform b ns \<Longrightarrow> c < length ns \<Longrightarrow> length (ns ! c) = b"
  by (simp add: uniform_def)

lemma uniform_update:
  "uniform b ns \<Longrightarrow> length x = b \<Longrightarrow> uniform b (ns[c := x])"
  by (auto simp: uniform_def dest: set_update_subset_insert [THEN subsetD])

lemma length_concat_uniform': "uniform b ns \<Longrightarrow> length (concat ns) = length ns * b"
  by (simp add: uniform_def length_concat_uniform)

lemma uniform_take: "uniform b ns \<Longrightarrow> uniform b (take c ns)"
  by (auto simp: uniform_def dest: in_set_takeD)

lemma length_concat_take:
  "uniform b ns \<Longrightarrow> c \<le> length ns \<Longrightarrow> length (concat (take c ns)) = c * b"
  using length_concat_uniform' [OF uniform_take, of b ns c] by simp

lemma concat_split_at:
  "c < length ns \<Longrightarrow> concat ns = concat (take c ns) @ ns ! c @ concat (drop (Suc c) ns)"
  by (metis append_take_drop_id concat.simps(2) concat_append take_Suc_drop_nth)

lemma concat_update_node:
  assumes "uniform b ns" "c < length ns" "npos + length bs \<le> b"
  shows "concat (ns[c := overwrite (ns ! c) npos bs]) = overwrite (concat ns) (c * b + npos) bs"
proof -
  let ?pre = "concat (take c ns)" and ?post = "concat (drop (Suc c) ns)"
  have len: "length ?pre = c * b"
    using assms(1,2) by (simp add: length_concat_take)
  have "concat (ns[c := overwrite (ns ! c) npos bs]) = ?pre @ overwrite (ns ! c) npos bs @ ?post"
    using assms(2) by (simp add: upd_conv_take_nth_drop)
  also have "\<dots> = overwrite (?pre @ ns ! c @ ?post) (c * b + npos) bs"
    using len assms by (simp add: overwrite_append_right overwrite_append_left)
  finally show ?thesis using assms(2) by (simp add: concat_split_at [of c ns])
qed

lemma concat_node_range:
  assumes "uniform b ns" "c < length ns" "npos + n \<le> b"
  shows "take n (drop npos (ns ! c)) = take n (drop (c * b + npos) (concat ns))"
proof -
  have "length (concat (take c ns)) = c * b"
    using assms(1,2) by (simp add: length_concat_take)
  then show ?thesis
    using assms by (simp add: concat_split_at [of c ns])
qed

lemma ptr_of_step:
  assumes "0 < b" "npos + n \<le> b" "0 < n" "c < len"
  shows "ptr_of len b (c * b + npos + n) =
           (if b = npos + n then (if Suc c < len then Some (Suc c) else None) else Some c)"
proof (cases "b = npos + n")
  case True
  then have "c * b + npos + n = Suc c * b" by simp
  with True assms(1) show ?thesis by (simp add: ptr_of_def del: mult_Suc)
next
  case False
  with assms have "npos + n < b" by simp
  then have "(c * b + npos + n) div b = c"
    using assms(1) by (simp add: add.assoc)
  with False assms show ?thesis by (simp add: ptr_of_def)
qed

lemma write_loop_correct:
  assumes "uniform b ns" "0 < b" "c < length ns" "npos < b" "npos + ncap = b"
    and "c * b + npos + length buf \<le> length ns * b" "buf \<noteq> []"
  shows "\<exists>ns'. write_loop ns (Some c) npos ncap pos buf =
           Inr (ns', ptr_of (length ns) b (c * b + npos + length buf), pos + length buf) \<and>
         concat ns' = overwrite (concat ns) (c * b + npos) buf \<and> uniform b ns' \<and>
         length ns' = length ns"
  using assms
proof (induction buf arbitrary: ns c npos ncap pos rule: length_induct)
  case (1 buf)
  note uni = \<open>uniform b ns\<close> and c = \<open>c < length ns\<close>
  show ?case
  proof (cases "length buf \<le> ncap")
    case True
    then show ?thesis using "1.prems"
      by (subst write_loop.simps)
         (auto simp: node_put_def next_node_def ptr_of_step concat_update_node
            intro: uniform_update)
  next
    case False
    let ?ns = "ns[c := overwrite (ns ! c) npos (take ncap buf)]"
    have room: "c * b + b < length ns * b"
      using False "1.prems" by auto
    then have nxt: "Suc c < length ns"
      by (metis add.commute mult_Suc mult_less_cancel2)
    have uni': "uniform b ?ns"
      using False "1.prems" by (intro uniform_update) simp_all
    have cat: "concat ?ns = overwrite (concat ns) (c * b + npos) (take ncap buf)"
      using False "1.prems" by (intro concat_update_node) auto
    have "\<exists>ns'. write_loop ?ns (Some (Suc c)) 0 b (pos + ncap) (drop ncap buf) =
        Inr (ns', ptr_of (length ?ns) b (Suc c * b + 0 + length (drop ncap buf)),
             pos + ncap + length (drop ncap buf)) \<and>
        concat ns' = overwrite (concat ?ns) (Suc c * b + 0) (drop ncap buf) \<and> uniform b ns' \<and>
        length ns' = length ?ns"
      using "1.IH" False "1.prems" nxt uni' by (intro "1.IH" [rule_format]) auto
    then obtain ns' where
      loop: "write_loop ?ns (Some (Suc c)) 0 b (pos + ncap) (drop ncap buf) =
        Inr (ns', ptr_of (length ns) b (c * b + npos + length buf), pos + length buf)"
      and cat': "concat ns' = overwrite (concat ?ns) (c * b + npos + ncap) (drop ncap buf)"
      and "uniform b ns'" "length ns' = length ns"
      using False "1.prems" by (auto simp: add.assoc add.commute add.left_commute)
    moreover have "concat ns' = overwrite (concat ns) (c * b + npos) buf"
      using cat cat' False "1.prems" length_concat_uniform' [OF uni]
        overwrite_split [of "c * b + npos" "take ncap buf" "drop ncap buf" "concat ns"]
      by simp
    moreover have "write_loop ns (Some c) npos ncap pos buf =
        write_loop ?ns (Some (Suc c)) 0 b (pos + ncap) (drop ncap buf)"
      using False "1.prems" nxt
      by (subst write_loop.simps) (simp add: node_put_def next_node_def deref_def uniform_nth [OF uni'])
    ultimately show ?thesis by auto
  qed
qed

lemma read_loop_correct:
  assumes "uniform b ns" "0 < b" "c < length ns" "npos < b" "npos + ncap = b"
    and "c * b + npos + n \<le> length ns * b" "0 < n"
  shows "read_loop ns (Some c) npos ncap pos n =
           Inr (take n (drop (c * b + npos) (concat ns)),
                ptr_of (length ns) b (c * b + npos + n), pos + n)"
  using assms
proof (induction n arbitrary: c npos ncap pos rule: less_induct)
  case (less n)
  note uni = \<open>uniform b ns\<close>
  show ?case
  proof (cases "n \<le> ncap")
    case True
    then show ?thesis using less.prems
      by (subst read_loop.simps)
         (auto simp: node_get_def next_node_def ptr_of_step concat_node_range)
  next
    case False
    have "c * b + b < length ns * b"
      using False less.prems by auto
    then have nxt: "Suc c < length ns"
      by (metis add.commute mult_Suc mult_less_cancel2)
    have rec: "read_loop ns (Some (Suc c)) 0 b (pos + ncap) (n - ncap) =
        Inr (take (n - ncap) (drop (Suc c * b + 0) (concat ns)),
             ptr_of (length ns) b (Suc c * b + 0 + (n - ncap)), pos + ncap + (n - ncap))"
      using False less.prems nxt by (intro less.IH) auto
    have "take ncap (drop npos (ns ! c)) @ take (n - ncap) (drop (c * b + b) (concat ns)) =
        take n (drop (c * b + npos) (concat ns))"
    proof -
      have "take n (drop (c * b + npos) (concat ns)) =
          take ncap (drop (c * b + npos) (concat ns)) @
          take (n - ncap) (drop ncap (drop (c * b + npos) (concat ns)))"
        using False by (metis le_add_diff_inverse linorder_linear take_add)
      moreover have "ncap + (c * b + npos) = c * b + b"
        using less.prems by simp
      ultimately show ?thesis
        using less.prems concat_node_range [of b ns c npos ncap] by simp
    qed
    moreover have "Suc c * b + (n - ncap) = c * b + npos + n"
      using False less.prems by simp
    ultimately show ?thesis
      using False less.prems nxt rec
      by (subst read_loop.simps)
         (simp add: node_get_def next_node_def deref_def add.commute)
  qed
qed

lemma seek_loop_correct:
  assumes "uniform b ns" "0 < b" "c < length ns" "v \<le> (length ns - c) * b"
  shows "seek_loop ns (Some c) v = Inr (ptr_of (length ns) b (c * b + v))"
  using assms
proof (induction v arbitrary: c rule: less_induct)
  case (less v)
  show ?case
  proof (cases "v > b")
    case True
    have nxt: "Suc c < length ns"
    proof (rule ccontr)
      assume "\<not> Suc c < length ns"
      then have "length ns - c = 1" using less.prems by simp
      then show False using less.prems True by simp
    qed
    have "seek_loop ns (Some (Suc c)) (v - b) = Inr (ptr_of (length ns) b (Suc c * b + (v - b)))"
    proof (rule less.IH)
      have "(length ns - c) * b = (length ns - Suc c) * b + b"
        using nxt by (metis Suc_diff_Suc Suc_lessD add.commute mult_Suc)
      then show "v - b \<le> (length ns - Suc c) * b" using less.prems True by simp
    qed (use less.prems True nxt in auto)
    then show ?thesis using True less.prems nxt
      by (subst seek_loop.simps) (simp add: deref_def next_node_def add.commute)
  next
    case False
    have "ptr_of (length ns) b (c * b + v) =
        (if v = b then (if Suc c < length ns then Some (Suc c) else None) else Some c)"
      using False less.prems ptr_of_step [of b 0 v c "length ns"]
      by (cases "v = 0") (auto simp: ptr_of_def)
    then show ?thesis using False less.prems
      by (subst seek_loop.simps) (auto simp: deref_def next_node_def)
  qed
qed

section \<open>Operations against the flat array\<close>

lemma newByteArray_wf: "0 < n \<Longrightarrow> ba_wf (newByteArray n)"
  by (simp add: ba_wf_def newByteArray_def newNode_def uniform_def ptr_of_def)

lemma length_flat: "ba_wf ba \<Longrightarrow> length (flat ba) = capacity ba"
  by (simp add: ba_wf_def flat_def length_concat_uniform')

lemma AddCapacity_correct:
  assumes "ba_wf ba"
  obtains ba' k where "AddCapacity n ba = Inr ba'" "ba_wf ba'"
    "flat ba' = flat ba @ replicate k None"
    "position ba' = position ba" "ba_size ba' = ba_size ba" "endian ba' = endian ba"
    "base_size ba' = base_size ba" "position ba + n \<le> capacity ba'"
proof (cases "n = 0 \<or> GetCapacity ba \<ge> n")
  case True
  then show ?thesis
    using assms that [of ba 0] by (auto simp: AddCapacity_def ba_wf_def GetCapacity_def)
next
  case False
  let ?b = "base_size ba" and ?old = "GetCapacity ba"
  let ?cnt = "(n - ?old + ?b - 1) div ?b"
  let ?ba = "ba\<lparr>nodes := nodes ba @ replicate ?cnt (newNode ?b),
                 capacity := capacity ba + ?cnt * ?b,
                 cur := (if ?old = 0 then if ?cnt = 0 then None else Some (length (nodes ba))
                         else cur ba)\<rparr>"
  have wf: "0 < ?b" "capacity ba = length (nodes ba) * ?b" "position ba \<le> capacity ba"
    and cur: "cur ba = ptr_of (length (nodes ba)) ?b (position ba)"
    and old: "?old = capacity ba - position ba"
    using assms by (simp_all add: ba_wf_def GetCapacity_def)
  have cnt: "n - ?old \<le> ?cnt * ?b" "0 < ?cnt"
    using wf(1) False
      dividend_less_div_times [of ?b "n - ?old + ?b - 1"]
    by (auto simp: div_greater_zero_iff)
  have add: "AddCapacity n ba = Inr ?ba"
    using False assms by (simp add: AddCapacity_def ba_wf_def Let_def)
  have "cur ?ba = ptr_of (length (nodes ?ba)) ?b (position ba)"
  proof (cases "?old = 0")
    case True
    then have "position ba div ?b = length (nodes ba)"
      using wf old by simp
    then show ?thesis using True cnt(2) by (simp add: ptr_of_def)
  next
    case False
    then have "position ba < length (nodes ba) * ?b" using wf old by simp
    then have "position ba div ?b < length (nodes ba)" by (rule less_mult_imp_div_less)
    then show ?thesis using False cur by (simp add: ptr_of_def)
  qed
  then have "ba_wf ?ba"
    using assms by (auto simp: ba_wf_def uniform_def newNode_def algebra_simps)
  moreover have "flat ?ba = flat ba @ replicate (?cnt * ?b) None"
    by (simp add: flat_def newNode_def concat_replicate_const)
  moreover have "position ba + n \<le> capacity ?ba"
    using cnt wf old by simp
  ultimately show ?thesis using add that [of ?ba "?cnt * ?b"] by simp
qed

text \<open>The node \<open>cur_\<close> points to, when the position is inside the capacity.\<close>

lemma cur_node:
  assumes "ba_wf ba" "position ba < capacity ba"
  defines "c \<equiv> position ba div base_size ba" and "npos \<equiv> position ba mod base_size ba"
  shows "cur ba = Some c" "c < length (nodes ba)" "npos < base_size ba"
    "c * base_size ba + npos = position ba"
    "deref (nodes ba) (cur ba) = Inr (nodes ba ! c)"
    "sz_sub (length (nodes ba ! c)) npos = base_size ba - npos"
proof -
  have b: "0 < base_size ba" and cap: "capacity ba = length (nodes ba) * base_size ba"
    and uni: "uniform (base_size ba) (nodes ba)"
    and cur: "cur ba = ptr_of (length (nodes ba)) (base_size ba) (position ba)"
    using assms(1) by (simp_all add: ba_wf_def)
  show c: "c < length (nodes ba)"
    using assms(2) cap by (simp add: c_def less_mult_imp_div_less)
  show "cur ba = Some c" using c cur by (simp add: ptr_of_def c_def)
  then show "deref (nodes ba) (cur ba) = Inr (nodes ba ! c)"
    using c by (simp add: deref_def)
  show "npos < base_size ba" using b by (simp add: npos_def)
  then show "sz_sub (length (nodes ba ! c)) npos = base_size ba - npos"
    using uniform_nth [OF uni c] by simp
  show "c * base_size ba + npos = position ba" by (simp add: c_def npos_def)
qed

lemma Write_flat:
  assumes "ba_wf ba"
  obtains ba' k where "Write bs ba = Inr ba'" "ba_wf ba'"
    "position ba' = position ba + length bs"
    "ba_size ba' = max (ba_size ba) (position ba + length bs)"
    "endian ba' = endian ba" "base_size ba' = base_size ba"
    "flat ba' = overwrite (flat ba @ replicate k None) (position ba) (map Some bs)"
    "position ba + length bs \<le> length (flat ba) + k"
proof (cases "bs = []")
  case True
  then show ?thesis using assms that [of ba 0]
    by (auto simp: Write_def ba_wf_def max_def flat_def length_concat_uniform')
next
  case False
  obtain ba1 k where add: "AddCapacity (length bs) ba = Inr ba1" and wf1: "ba_wf ba1"
    and eqs: "position ba1 = position ba" "ba_size ba1 = ba_size ba" "endian ba1 = endian ba"
      "base_size ba1 = base_size ba" "flat ba1 = flat ba @ replicate k None"
    and room: "position ba + length bs \<le> capacity ba1"
    using AddCapacity_correct [OF assms, of "length bs"] by metis
  let ?b = "base_size ba1" and ?p = "position ba1"
  have "?p < capacity ba1" using False room eqs by (cases bs) auto
  note node = cur_node [OF wf1 this]
  have uni: "uniform ?b (nodes ba1)" and cap: "capacity ba1 = length (nodes ba1) * ?b"
    and b: "0 < ?b" and pos: "?p \<le> ba_size ba1" "ba_size ba1 \<le> capacity ba1"
    using wf1 by (simp_all add: ba_wf_def)
  obtain ns where
    loop: "write_loop (nodes ba1) (Some (?p div ?b)) (?p mod ?b) (?b - ?p mod ?b) ?p (map Some bs) =
      Inr (ns, ptr_of (length (nodes ba1)) ?b (?p + length bs), ?p + length bs)"
    and cat: "concat ns = overwrite (concat (nodes ba1)) ?p (map Some bs)"
    and uni': "uniform ?b ns" and len: "length ns = length (nodes ba1)"
    using write_loop_correct [OF uni b node(2) node(3), of "?b - ?p mod ?b" "map Some bs" ?p]
      node False room eqs cap by (auto simp: less_imp_le)
  let ?ba' = "ba1\<lparr>nodes := ns, cur := ptr_of (length ns) ?b (?p + length bs),
      position := ?p + length bs, ba_size := max (ba_size ba1) (?p + length bs)\<rparr>"
  have "Write bs ba = Inr ?ba'"
    using False add b node loop len
    by (auto simp: Write_def Let_def max_def)
  moreover have "ba_wf ?ba'"
    using wf1 uni' len room eqs by (auto simp: ba_wf_def)
  moreover have "length (flat ba1) = capacity ba1" by (rule length_flat [OF wf1])
  ultimately show ?thesis
    using that [of ?ba' k] eqs cat room by (simp add: flat_def)
qed

lemma Read_flat:
  assumes "ba_wf ba" "0 < n" "position ba + n \<le> ba_size ba"
  obtains ba' where "Read n ba = Inr (take n (drop (position ba) (flat ba)), ba')" "ba_wf ba'"
    "position ba' = position ba + n" "ba_size ba' = ba_size ba" "endian ba' = endian ba"
    "base_size ba' = base_size ba" "flat ba' = flat ba"
proof -
  let ?b = "base_size ba" and ?p = "position ba"
  have uni: "uniform ?b (nodes ba)" and cap: "capacity ba = length (nodes ba) * ?b"
    and b: "0 < ?b" and pos: "?p \<le> ba_size ba" "ba_size ba \<le> capacity ba"
    using assms(1) by (simp_all add: ba_wf_def)
  have "?p < capacity ba" using assms pos by simp
  note node = cur_node [OF assms(1) this]
  have loop: "read_loop (nodes ba) (Some (?p div ?b)) (?p mod ?b) (?b - ?p mod ?b) ?p n =
      Inr (take n (drop ?p (flat ba)), ptr_of (length (nodes ba)) ?b (?p + n), ?p + n)"
    using read_loop_correct [OF uni b node(2) node(3), of "?b - ?p mod ?b" n ?p]
      node assms cap pos by (simp add: less_imp_le flat_def)
  let ?ba' = "ba\<lparr>cur := ptr_of (length (nodes ba)) ?b (?p + n), position := ?p + n\<rparr>"
  have "Read n ba = Inr (take n (drop ?p (flat ba)), ?ba')"
    using assms b node loop pos by (simp add: Read_def GetReadSize_def Let_def)
  moreover have "ba_wf ?ba'" using assms by (simp add: ba_wf_def)
  ultimately show thesis using that [of ?ba'] by (simp add: flat_def)
qed

lemma SetPosition_flat:
  assumes "ba_wf ba" "v \<le> capacity ba"
  obtains ba' where "SetPosition v ba = Inr ba'" "ba_wf ba'" "position ba' = v"
    "ba_size ba' = max (ba_size ba) v" "endian ba' = endian ba" "base_size ba' = base_size ba"
    "flat ba' = flat ba" "nodes ba' = nodes ba"
proof -
  let ?b = "base_size ba"
  let ?ba' = "ba\<lparr>position := v, ba_size := max (ba_size ba) v,
                 cur := ptr_of (length (nodes ba)) ?b v\<rparr>"
  have "seek_loop (nodes ba) (Some 0) v = Inr (ptr_of (length (nodes ba)) ?b v)"
    using seek_loop_correct [of ?b "nodes ba" 0 v] assms by (simp add: ba_wf_def)
  then have "SetPosition v ba = Inr ?ba'"
    using assms by (auto simp: SetPosition_def max_def)
  moreover have "ba_wf ?ba'" using assms by (simp add: ba_wf_def)
  ultimately show thesis using that [of ?ba'] by (simp add: flat_def)
qed

lemma Clear_wf: "ba_wf ba \<Longrightarrow> ba_wf (Clear ba)"
  by (cases "nodes ba") (auto simp: ba_wf_def Clear_def uniform_def ptr_of_def)

lemma SetIsLittleEndian_wf: "ba_wf ba \<Longrightarrow> ba_wf (SetIsLittleEndian v ba)"
  by (simp add: ba_wf_def SetIsLittleEndian_def)

section \<open>The buffer contract\<close>

definition ba_cell :: "bytearray \<Rightarrow> nat \<Rightarrow> cell" where
  "ba_cell ba i = (if i < length (flat ba) then flat ba ! i else None)"

lemma map_ba_cell: "p + n \<le> length (flat ba) \<Longrightarrow>
    map (ba_cell ba) [p..<p + n] = take n (drop p (flat ba))"
  by (rule nth_equalityI) (auto simp: ba_cell_def)

lemma Write_cells:
  assumes "ba_wf ba"
  shows "\<exists>ba'. Write bs ba = Inr ba' \<and> ba_wf ba' \<and> position ba' = position ba + length bs \<and>
    ba_size ba' = max (ba_size ba) (position ba + length bs) \<and>
    (endian ba', base_size ba') = (endian ba, base_size ba) \<and>
    (\<forall>i. ba_cell ba' i = (if position ba \<le> i \<and> i < position ba + length bs
            then Some (bs ! (i - position ba)) else ba_cell ba i))"
proof -
  obtain ba' k where w: "Write bs ba = Inr ba'" "ba_wf ba'"
      "position ba' = position ba + length bs"
      "ba_size ba' = max (ba_size ba) (position ba + length bs)"
      "endian ba' = endian ba" "base_size ba' = base_size ba"
    and flat: "flat ba' = overwrite (flat ba @ replicate k None) (position ba) (map Some bs)"
    and room: "position ba + length bs \<le> length (flat ba) + k"
    using Write_flat [OF assms, of bs] by metis
  have "ba_cell ba' i = (if position ba \<le> i \<and> i < position ba + length bs
      then Some (bs ! (i - position ba)) else ba_cell ba i)" for i
    using room by (auto simp: ba_cell_def flat nth_overwrite nth_append)
  with w show ?thesis by auto
qed

interpretation ba: byte_buffer ba_wf position ba_size ba_cell
  "\<lambda>ba. (endian ba, base_size ba)" Write Read SetPosition
proof (unfold_locales, goal_cases)
  case (1 s)
  then show ?case by (simp add: ba_wf_def)
next
  case (2 s bs)
  then show ?case by (rule Write_cells)
next
  case (3 s n)
  then have "position s + n \<le> length (flat s)"
    by (simp add: length_flat) (simp add: ba_wf_def)
  moreover obtain s' where "Read n s = Inr (take n (drop (position s) (flat s)), s')" "ba_wf s'"
    "position s' = position s + n" "ba_size s' = ba_size s" "endian s' = endian s"
    "base_size s' = base_size s" "flat s' = flat s"
    using Read_flat [OF 3] by metis
  ultimately show ?case by (auto simp: map_ba_cell ba_cell_def)
next
  case (4 s n)
  then show ?case by (auto simp: Read_def GetReadSize_def ba_wf_def)
next
  case (5 s v)
  then have "v \<le> capacity s" by (simp add: ba_wf_def)
  then obtain s' where "SetPosition v s = Inr s'" "ba_wf s'" "position s' = v"
    "ba_size s' = max (ba_size s) v" "endian s' = endian s" "base_size s' = base_size s"
    "flat s' = flat s"
    using SetPosition_flat [OF 5(1)] by metis
  with 5 show ?case by (auto simp: ba_cell_def max_def)
qed

section \<open>Sequences of operations\<close>

datatype ba_op = OpWrite "byte list" | OpRead nat | OpSeek nat | OpClear | OpEndian bool

fun ba_exec :: "ba_op \<Rightarrow> bytearray \<Rightarrow> bytearray res" where
  "ba_exec (OpWrite bs) ba = Write bs ba"
| "ba_exec (OpRead n) ba = bindR (Read n ba) (\<lambda>(_, ba'). Inr ba')"
| "ba_exec (OpSeek v) ba = SetPosition v ba"
| "ba_exec OpClear ba = Inr (Clear ba)"
| "ba_exec (OpEndian v) ba = Inr (SetIsLittleEndian v ba)"

text \<open>
  One call from a client that catches \<open>out_of_range\<close>: the thrown exception leaves the buffer as it
  was, any other fault ends the run.
\<close>

inductive ba_reach :: "nat \<Rightarrow> bytearray \<Rightarrow> bool" for n where
  start: "ba_reach n (newByteArray n)"
| step: "ba_reach n ba \<Longrightarrow> ba_exec op ba = Inr ba' \<Longrightarrow> ba_reach n ba'"
| thrown: "ba_reach n ba \<Longrightarrow> ba_exec op ba = Inl OutOfRange \<Longrightarrow> ba_reach n ba"

lemma Read_zero:
  assumes "ba_wf ba"
  shows "Read 0 ba = (if position ba < capacity ba then Inr ([], ba) else Inl NullDeref)"
proof (cases "position ba < capacity ba")
  case True
  note node = cur_node [OF assms True]
  then show ?thesis using True assms
    by (simp add: Read_def read_loop.simps [of _ _ _ _ _ 0] ba_wf_def)
next
  case False
  then have "position ba = length (nodes ba) * base_size ba" and "0 < base_size ba"
    using assms by (auto simp: ba_wf_def)
  then have "cur ba = None" using assms by (simp add: ba_wf_def ptr_of_def)
  then show ?thesis using False assms by (simp add: Read_def deref_def ba_wf_def)
qed

lemma ba_exec_wf:
  assumes "ba_wf ba" "ba_exec op ba = Inr ba'"
  shows "ba_wf ba'"
proof (cases op)
  case (OpWrite bs)
  with assms Write_cells [OF assms(1), of bs] show ?thesis by auto
next
  case (OpRead n)
  show ?thesis
  proof (cases "0 < n \<and> position ba + n \<le> ba_size ba")
    case True
    then show ?thesis using OpRead assms ba.rd_ok [of ba n] by auto
  next
    case False
    then show ?thesis using OpRead assms Read_zero [of ba] ba.rd_short [of ba n]
      by (cases "n = 0") (auto split: if_splits)
  qed
next
  case (OpSeek v)
  then have "v \<le> capacity ba" using assms by (simp add: SetPosition_def split: if_splits)
  from SetPosition_flat [OF assms(1) this] show ?thesis using OpSeek assms by auto
qed (use assms in \<open>auto intro: Clear_wf SetIsLittleEndian_wf\<close>)

section \<open>Properties\<close>

text \<open>
  C1. A write refines the flat array.  In a well-formed buffer \<open>Write\<close> always returns, keeps the
  representation invariant, advances the position by the number of bytes, raises the size to the
  position if needed, appends fresh (uninitialised) cells when it has to grow, and replaces exactly
  the cells from the old position on by the bytes written, across node boundaries.
\<close>

theorem Write_refines:
  assumes "ba_wf ba"
  shows "\<exists>ba' k. Write bs ba = Inr ba' \<and> ba_wf ba' \<and>
    position ba' = position ba + length bs \<and>
    ba_size ba' = max (ba_size ba) (position ba + length bs) \<and>
    flat ba' = overwrite (flat ba @ replicate k None) (position ba) (map Some bs) \<and>
    position ba + length bs \<le> length (flat ba) + k"
  using Write_flat [OF assms, of bs] by metis

lemma newByteArray_2_wf: "ba_wf (newByteArray 2)"
  by (rule newByteArray_wf) simp

theorem Write_refines_witness:
  "\<exists>ba' k. Write [1, 2, 3] (newByteArray 2) = Inr ba' \<and> ba_wf ba' \<and> position ba' = 3 \<and>
     flat ba' = overwrite (flat (newByteArray 2) @ replicate k None) 0 [Some 1, Some 2, Some 3]"
  using Write_refines [OF newByteArray_2_wf, of "[1, 2, 3]"]
  by (auto simp: newByteArray_def)

text \<open>
  C2. A read of at least one byte returns exactly the cells from the position on, advances the
  position and nothing else, or throws \<open>out_of_range\<close> when fewer bytes than asked for have been
  written.
\<close>

theorem Read_refines:
  assumes "ba_wf ba" "0 < n"
  shows "if position ba + n \<le> ba_size ba
    then \<exists>ba'. Read n ba = Inr (take n (drop (position ba) (flat ba)), ba') \<and> ba_wf ba' \<and>
      position ba' = position ba + n \<and> ba_size ba' = ba_size ba \<and> flat ba' = flat ba
    else Read n ba = Inl OutOfRange"
proof (cases "position ba + n \<le> ba_size ba")
  case True
  show ?thesis by (rule Read_flat [OF assms True]) (use True in auto)
next
  case False
  then show ?thesis using ba.rd_short [of ba n] assms by simp
qed

theorem Read_refines_witness:
  "Read 1 (newByteArray 2) = Inl OutOfRange"
  using Read_refines [OF newByteArray_2_wf, of 1] by (simp add: newByteArray_def)

text \<open>
  C9. The representation invariant holds in every state a client can reach from the constructor
  with a positive base size, through any sequence of writes, reads, seeks, clears and byte-order
  changes, including those that throw.
\<close>

theorem reachable_wf:
  assumes "ba_reach n ba" "0 < n"
  shows "ba_wf ba"
  using assms
  by (induction rule: ba_reach.induct) (auto intro: newByteArray_wf ba_exec_wf)

theorem reachable_wf_witness: "ba_wf (Clear (newByteArray 2))"
proof -
  have "ba_reach 2 (Clear (newByteArray 2))"
    by (rule ba_reach.step [OF ba_reach.start, of OpClear]) simp
  then show ?thesis by (rule reachable_wf) simp
qed

text \<open>
  A read of zero bytes is not always harmless: when the position is at the end of the capacity,
  \<open>cur_\<close> is null and \<open>Read\<close> dereferences it before looking at the length.
\<close>

theorem Read_zero_faults:
  assumes "ba_wf ba"
  shows "Read 0 ba = Inl NullDeref \<longleftrightarrow> position ba = capacity ba"
  using assms Read_zero [OF assms] by (auto simp: ba_wf_def)

theorem Read_zero_faults_witness:
  "Read 0 (newByteArray 2) \<noteq> Inl NullDeref"
  using Read_zero_faults [OF newByteArray_2_wf] by (simp add: newByteArray_def)

end
