(* ===== verification/ByteArray_Codec.thy ===== *)
theory ByteArray_Codec
  imports ByteArray
begin

text \<open>
  The typed readers and writers of \<open>ByteArray\<close> (\<open>gudov/bytearray.cpp\<close>, lines 45 to 283): fixed-width
  integers in either byte order, zigzag and variable-length integers, floats by their bit pattern,
  and length-prefixed strings.  Signed values are words read in two's complement; a string is its
  list of bytes.  Each encoder is shown to write a fixed image and each decoder to read that image
  back, which gives round trips for single values and for whole messages.
\<close>

section \<open>Fixed-width integers\<close>

definition writeF :: "'a::len word \<Rightarrow> bytearray \<Rightarrow> bytearray res" where
  "writeF value ba =
     Write (word_bytes (if endian ba \<noteq> GUDOV_BYTE_ORDER then ByteSwap value else value)) ba"

definition WriteFint8 :: "8 word \<Rightarrow> bytearray \<Rightarrow> bytearray res" where
  "WriteFint8 value ba = Write (word_bytes value) ba"
definition WriteFuint8 :: "8 word \<Rightarrow> bytearray \<Rightarrow> bytearray res" where
  "WriteFuint8 value ba = Write (word_bytes value) ba"
definition WriteFint16 :: "16 word \<Rightarrow> bytearray \<Rightarrow> bytearray res" where
  "WriteFint16 = writeF"
definition WriteFuint16 :: "16 word \<Rightarrow> bytearray \<Rightarrow> bytearray res" where
  "WriteFuint16 = writeF"
definition WriteFint32 :: "32 word \<Rightarrow> bytearray \<Rightarrow> bytearray res" where
  "WriteFint32 = writeF"
definition WriteFuint32 :: "32 word \<Rightarrow> bytearray \<Rightarrow> bytearray res" where
  "WriteFuint32 = writeF"
definition WriteFint64 :: "64 word \<Rightarrow> bytearray \<Rightarrow> bytearray res" where
  "WriteFint64 = writeF"
definition WriteFuint64 :: "64 word \<Rightarrow> bytearray \<Rightarrow> bytearray res" where
  "WriteFuint64 = writeF"

text \<open>A typed variable filled by \<open>Read\<close>; using it is a fault if a byte of it is indeterminate.\<close>

definition cells_bytes :: "cell list \<Rightarrow> byte list res" where
  "cells_bytes cs = (case those cs of None \<Rightarrow> Inl Indeterminate | Some bs \<Rightarrow> Inr bs)"

definition readF :: "bytearray \<Rightarrow> ('a::len word \<times> bytearray) res" where
  "readF ba = bindR (Read (LENGTH('a) div 8) ba) (\<lambda>(cs, ba').
     bindR (cells_bytes cs) (\<lambda>bs. let v = bytes_word bs in
       Inr (if endian ba' = GUDOV_BYTE_ORDER then v else ByteSwap v, ba')))"

definition ReadFint8 :: "bytearray \<Rightarrow> (8 word \<times> bytearray) res" where
  "ReadFint8 ba = bindR (Read 1 ba) (\<lambda>(cs, ba').
     bindR (cells_bytes cs) (\<lambda>bs. Inr (bytes_word bs, ba')))"
definition ReadFuint8 :: "bytearray \<Rightarrow> (8 word \<times> bytearray) res" where
  "ReadFuint8 ba = bindR (Read 1 ba) (\<lambda>(cs, ba').
     bindR (cells_bytes cs) (\<lambda>bs. Inr (bytes_word bs, ba')))"
definition ReadFint16 :: "bytearray \<Rightarrow> (16 word \<times> bytearray) res" where
  "ReadFint16 = readF"
definition ReadFuint16 :: "bytearray \<Rightarrow> (16 word \<times> bytearray) res" where
  "ReadFuint16 = readF"
definition ReadFint32 :: "bytearray \<Rightarrow> (32 word \<times> bytearray) res" where
  "ReadFint32 = readF"
definition ReadFuint32 :: "bytearray \<Rightarrow> (32 word \<times> bytearray) res" where
  "ReadFuint32 = readF"
definition ReadFint64 :: "bytearray \<Rightarrow> (64 word \<times> bytearray) res" where
  "ReadFint64 = readF"
definition ReadFuint64 :: "bytearray \<Rightarrow> (64 word \<times> bytearray) res" where
  "ReadFuint64 = readF"

section \<open>Zigzag and variable-length integers\<close>

definition EncodeZigzag32 :: "32 word \<Rightarrow> 32 word res" where
  "EncodeZigzag32 v =
     (if sint v < 0 then
        (if sint v = - (2 ^ 31) then Inl SignedOverflow else Inr ((- v) * 2 - 1))
      else if sint v * 2 < 2 ^ 31 then Inr (v * 2) else Inl SignedOverflow)"

definition EncodeZigzag64 :: "64 word \<Rightarrow> 64 word res" where
  "EncodeZigzag64 v =
     (if sint v < 0 then
        (if sint v = - (2 ^ 63) then Inl SignedOverflow else Inr ((- v) * 2 - 1))
      else if sint v * 2 < 2 ^ 63 then Inr (v * 2) else Inl SignedOverflow)"

definition DecodeZigzag32 :: "32 word \<Rightarrow> 32 word" where
  "DecodeZigzag32 v = (drop_bit 1 v) XOR (- (v AND 1))"

definition DecodeZigzag64 :: "64 word \<Rightarrow> 64 word" where
  "DecodeZigzag64 v = (drop_bit 1 v) XOR (- (v AND 1))"

text \<open>
  The loop that fills \<open>uint8_t tmp[n]\<close>; \<open>tmp\<close> is the part filled so far, and storing past its
  \<open>n\<close> elements is a fault.
\<close>

function varint_loop :: "nat \<Rightarrow> byte list \<Rightarrow> 'a::len word \<Rightarrow> byte list res" where
  "varint_loop n tmp value =
     (if length tmp < n then
        (if 0x80 \<le> value
         then varint_loop n (tmp @ [ucast ((value AND 0x7F) OR 0x80)]) (drop_bit 7 value)
         else Inr (tmp @ [ucast value]))
      else Inl OutOfBounds)"
  by pat_completeness auto
termination
  by (relation "measure (\<lambda>(n, tmp, _). n - length tmp)") auto

declare varint_loop.simps [simp del]

definition WriteUint32 :: "32 word \<Rightarrow> bytearray \<Rightarrow> bytearray res" where
  "WriteUint32 value ba = bindR (varint_loop 5 [] value) (\<lambda>tmp. Write tmp ba)"

definition WriteInt32 :: "32 word \<Rightarrow> bytearray \<Rightarrow> bytearray res" where
  "WriteInt32 value ba = bindR (EncodeZigzag32 value) (\<lambda>v. WriteUint32 v ba)"

definition WriteUint64 :: "64 word \<Rightarrow> bytearray \<Rightarrow> bytearray res" where
  "WriteUint64 value ba = bindR (varint_loop 10 [] value) (\<lambda>tmp. Write tmp ba)"

definition WriteInt64 :: "64 word \<Rightarrow> bytearray \<Rightarrow> bytearray res" where
  "WriteInt64 value ba = bindR (EncodeZigzag64 value) (\<lambda>v. WriteUint64 v ba)"

function ReadUint32_loop :: "nat \<Rightarrow> 32 word \<Rightarrow> bytearray \<Rightarrow> (32 word \<times> bytearray) res" where
  "ReadUint32_loop i result ba =
     (if i < 32 then
        bindR (ReadFuint8 ba) (\<lambda>(b, ba').
          if b < 0x80 then Inr (result OR push_bit i (ucast b), ba')
          else ReadUint32_loop (i + 7) (result OR push_bit i (ucast (b AND 0x7F))) ba')
      else Inr (result, ba))"
  by pat_completeness auto
termination by (relation "measure (\<lambda>(i, _). 32 - i)") auto

declare ReadUint32_loop.simps [simp del]

definition ReadUint32 :: "bytearray \<Rightarrow> (32 word \<times> bytearray) res" where
  "ReadUint32 ba = ReadUint32_loop 0 0 ba"

definition ReadInt32 :: "bytearray \<Rightarrow> (32 word \<times> bytearray) res" where
  "ReadInt32 ba = bindR (ReadUint32 ba) (\<lambda>(v, ba'). Inr (DecodeZigzag32 v, ba'))"

text \<open>\<open>ReadUint64\<close> shifts a \<open>uint32_t\<close>: the high bits are lost and a shift by 32 or more is undefined.\<close>

definition shl32 :: "byte \<Rightarrow> nat \<Rightarrow> 64 word res" where
  "shl32 b i = (if i < 32 then Inr (ucast (push_bit i (ucast b :: 32 word))) else Inl BadShift)"

function ReadUint64_loop :: "nat \<Rightarrow> 64 word \<Rightarrow> bytearray \<Rightarrow> (64 word \<times> bytearray) res" where
  "ReadUint64_loop i result ba =
     (if i < 64 then
        bindR (ReadFuint8 ba) (\<lambda>(b, ba').
          if b < 0x80 then bindR (shl32 b i) (\<lambda>x. Inr (result OR x, ba'))
          else bindR (shl32 (b AND 0x7F) i) (\<lambda>x. ReadUint64_loop (i + 7) (result OR x) ba'))
      else Inr (result, ba))"
  by pat_completeness auto
termination by (relation "measure (\<lambda>(i, _). 64 - i)") auto

declare ReadUint64_loop.simps [simp del]

definition ReadUint64 :: "bytearray \<Rightarrow> (64 word \<times> bytearray) res" where
  "ReadUint64 ba = ReadUint64_loop 0 0 ba"

definition ReadInt64 :: "bytearray \<Rightarrow> (64 word \<times> bytearray) res" where
  "ReadInt64 ba = bindR (ReadUint64 ba) (\<lambda>(v, ba'). Inr (DecodeZigzag64 v, ba'))"

section \<open>Floats and strings\<close>

text \<open>A \<open>float\<close> or \<open>double\<close> is its object representation, which is all \<open>memcpy\<close> moves.\<close>

definition WriteFloat :: "32 word \<Rightarrow> bytearray \<Rightarrow> bytearray res" where
  "WriteFloat value ba = WriteFuint32 value ba"
definition WriteDouble :: "64 word \<Rightarrow> bytearray \<Rightarrow> bytearray res" where
  "WriteDouble value ba = WriteFuint64 value ba"
definition ReadFloat :: "bytearray \<Rightarrow> (32 word \<times> bytearray) res" where
  "ReadFloat ba = ReadFuint32 ba"
definition ReadDouble :: "bytearray \<Rightarrow> (64 word \<times> bytearray) res" where
  "ReadDouble ba = ReadFuint64 ba"

definition WriteStringF16 :: "byte list \<Rightarrow> bytearray \<Rightarrow> bytearray res" where
  "WriteStringF16 value ba = bindR (WriteFuint16 (of_nat (length value)) ba) (Write value)"
definition WriteStringF32 :: "byte list \<Rightarrow> bytearray \<Rightarrow> bytearray res" where
  "WriteStringF32 value ba = bindR (WriteFuint32 (of_nat (length value)) ba) (Write value)"
definition WriteStringF64 :: "byte list \<Rightarrow> bytearray \<Rightarrow> bytearray res" where
  "WriteStringF64 value ba = bindR (WriteFuint64 (of_nat (length value)) ba) (Write value)"
definition WriteStringVint :: "byte list \<Rightarrow> bytearray \<Rightarrow> bytearray res" where
  "WriteStringVint value ba = bindR (WriteUint64 (of_nat (length value)) ba) (Write value)"
definition WriteStringWithoutLength :: "byte list \<Rightarrow> bytearray \<Rightarrow> bytearray res" where
  "WriteStringWithoutLength value ba = Write value ba"

definition read_str :: "nat \<Rightarrow> bytearray \<Rightarrow> (byte list \<times> bytearray) res" where
  "read_str n ba = bindR (Read n ba) (\<lambda>(cs, ba').
     bindR (cells_bytes cs) (\<lambda>bs. Inr (bs, ba')))"

definition ReadStringF16 :: "bytearray \<Rightarrow> (byte list \<times> bytearray) res" where
  "ReadStringF16 ba = bindR (ReadFuint16 ba) (\<lambda>(n, ba'). read_str (unat n) ba')"
definition ReadStringF32 :: "bytearray \<Rightarrow> (byte list \<times> bytearray) res" where
  "ReadStringF32 ba = bindR (ReadFuint32 ba) (\<lambda>(n, ba'). read_str (unat n) ba')"
definition ReadStringF64 :: "bytearray \<Rightarrow> (byte list \<times> bytearray) res" where
  "ReadStringF64 ba = bindR (ReadFuint64 ba) (\<lambda>(n, ba'). read_str (unat n) ba')"
definition ReadStringVint :: "bytearray \<Rightarrow> (byte list \<times> bytearray) res" where
  "ReadStringVint ba = bindR (ReadUint64 ba) (\<lambda>(n, ba'). read_str (unat n) ba')"

section \<open>Images and decoders\<close>

text \<open>
  \<open>decodes rd img v\<close>: wherever the bytes \<open>img\<close> stand at the position, \<open>rd\<close> returns \<open>v\<close>, moves past
  them and changes nothing else.
\<close>

definition decodes :: "(bytearray \<Rightarrow> ('v \<times> bytearray) res) \<Rightarrow> (nat \<Rightarrow> byte list) \<Rightarrow> 'v \<Rightarrow> bool" where
  "decodes rd img v \<longleftrightarrow> (\<forall>ba. ba_wf ba \<longrightarrow>
     region (ba_cell ba) (ba_size ba) (position ba) (img (endian ba)) \<longrightarrow>
     (\<exists>ba'. rd ba = Inr (v, ba') \<and> ba_wf ba' \<and>
        position ba' = position ba + length (img (endian ba)) \<and> ba_size ba' = ba_size ba \<and>
        endian ba' = endian ba \<and> ba_cell ba' = ba_cell ba))"

lemma decodesI:
  assumes "\<And>ba. ba_wf ba \<Longrightarrow> region (ba_cell ba) (ba_size ba) (position ba) (img (endian ba)) \<Longrightarrow>
     \<exists>ba'. rd ba = Inr (v, ba') \<and> ba_wf ba' \<and>
        position ba' = position ba + length (img (endian ba)) \<and> ba_size ba' = ba_size ba \<and>
        endian ba' = endian ba \<and> ba_cell ba' = ba_cell ba"
  shows "decodes rd img v"
  using assms by (simp add: decodes_def)

lemma decodesE:
  assumes "decodes rd img v" "ba_wf ba"
    "region (ba_cell ba) (ba_size ba) (position ba) (img (endian ba))"
  obtains ba' where "rd ba = Inr (v, ba')" "ba_wf ba'"
    "position ba' = position ba + length (img (endian ba))" "ba_size ba' = ba_size ba"
    "endian ba' = endian ba" "ba_cell ba' = ba_cell ba"
  using assms unfolding decodes_def by blast

lemma decodes_bind:
  assumes "decodes r1 i1 v1" "decodes (r2 v1) i2 v2"
  shows "decodes (\<lambda>ba. bindR (r1 ba) (\<lambda>(x, ba'). r2 x ba')) (\<lambda>e. i1 e @ i2 e) v2"
proof (rule decodesI)
  fix ba assume wf: "ba_wf ba"
    and reg: "region (ba_cell ba) (ba_size ba) (position ba) (i1 (endian ba) @ i2 (endian ba))"
  obtain b1 where b1: "r1 ba = Inr (v1, b1)" "ba_wf b1"
    "position b1 = position ba + length (i1 (endian ba))" "ba_size b1 = ba_size ba"
    "endian b1 = endian ba" "ba_cell b1 = ba_cell ba"
    using decodesE [OF assms(1) wf] reg by (auto simp: region_append)
  obtain b2 where "r2 v1 b1 = Inr (v2, b2)" "ba_wf b2"
    "position b2 = position b1 + length (i2 (endian ba))" "ba_size b2 = ba_size ba"
    "endian b2 = endian ba" "ba_cell b2 = ba_cell ba"
    using decodesE [OF assms(2) b1(2)] reg b1 by (auto simp: region_append)
  then show "\<exists>ba'. bindR (r1 ba) (\<lambda>(x, ba'). r2 x ba') = Inr (v2, ba') \<and> ba_wf ba' \<and>
      position ba' = position ba + length (i1 (endian ba) @ i2 (endian ba)) \<and>
      ba_size ba' = ba_size ba \<and> endian ba' = endian ba \<and> ba_cell ba' = ba_cell ba"
    using b1 by simp
qed

lemma decodes_map:
  assumes "decodes rd img v"
  shows "decodes (\<lambda>ba. bindR (rd ba) (\<lambda>(x, ba'). Inr (f x, ba'))) img (f v)"
  using assms unfolding decodes_def by fastforce

lemma cells_bytes_Some [simp]: "cells_bytes (map Some bs) = Inr bs"
  by (simp add: cells_bytes_def)

text \<open>A non-empty run of bytes is read back by \<open>Read\<close>.\<close>

lemma decodes_read_str:
  assumes "bs \<noteq> []"
  shows "decodes (read_str (length bs)) (\<lambda>_. bs) bs"
proof (rule decodesI)
  fix ba assume "ba_wf ba" "region (ba_cell ba) (ba_size ba) (position ba) bs"
  then obtain ba' where "Read (length bs) ba = Inr (map Some bs, ba')" "ba_wf ba'"
    "position ba' = position ba + length bs" "ba_size ba' = ba_size ba"
    "(endian ba', base_size ba') = (endian ba, base_size ba)" "ba_cell ba' = ba_cell ba"
    using ba.rd_region [of ba bs] assms by metis
  then show "\<exists>ba'. read_str (length bs) ba = Inr (bs, ba') \<and> ba_wf ba' \<and>
      position ba' = position ba + length bs \<and> ba_size ba' = ba_size ba \<and>
      endian ba' = endian ba \<and> ba_cell ba' = ba_cell ba"
    by (auto simp: read_str_def)
qed

definition fixed_img :: "'a::len word \<Rightarrow> nat \<Rightarrow> byte list" where
  "fixed_img v e = word_bytes (if e \<noteq> GUDOV_BYTE_ORDER then ByteSwap v else v)"

lemma length_fixed_img [simp]: "length (fixed_img (v :: 'a::len word) e) = LENGTH('a) div 8"
  by (simp add: fixed_img_def)

lemma writeF_img: "writeF v ba = Write (fixed_img v (endian ba)) ba"
  by (simp add: writeF_def fixed_img_def)

lemma decodes_readF:
  assumes "8 dvd LENGTH('a::len)"
  shows "decodes readF (fixed_img v) (v :: 'a word)"
proof (rule decodesI)
  fix ba assume wf: "ba_wf ba"
    and reg: "region (ba_cell ba) (ba_size ba) (position ba) (fixed_img v (endian ba))"
  have "LENGTH('a) div 8 \<noteq> 0"
    using assms by (metis dvd_div_eq_0_iff len_not_eq_0)
  then have ne: "fixed_img v (endian ba) \<noteq> []"
    by (metis length_fixed_img list.size(3))
  obtain ba' where
    rd: "Read (length (fixed_img v (endian ba))) ba = Inr (map Some (fixed_img v (endian ba)), ba')"
    and st: "ba_wf ba'" "position ba' = position ba + length (fixed_img v (endian ba))"
      "ba_size ba' = ba_size ba" "(endian ba', base_size ba') = (endian ba, base_size ba)"
      "ba_cell ba' = ba_cell ba"
    by (rule ba.rd_region [OF wf reg ne])
  have "readF ba = Inr (v, ba')"
    using rd st(4) assms by (simp add: readF_def fixed_img_def)
  with st(1-3,5) st(4) [THEN Pair_inject] show "\<exists>ba'. readF ba = Inr (v, ba') \<and> ba_wf ba' \<and>
      position ba' = position ba + length (fixed_img v (endian ba)) \<and> ba_size ba' = ba_size ba \<and>
      endian ba' = endian ba \<and> ba_cell ba' = ba_cell ba"
    by blast
qed

lemma word_bytes_byte [simp]: "word_bytes (v :: 8 word) = [v]"
  by (simp add: word_bytes_def)

lemma bytes_word_single [simp]: "bytes_word [b] = (b :: 8 word)"
  using bytes_word_word_bytes [of b] by simp

lemma decodes_ReadFuint8: "decodes ReadFuint8 (\<lambda>_. [v]) v"
proof -
  have "ReadFuint8 = (\<lambda>ba. bindR (read_str (length [v]) ba) (\<lambda>(bs, ba'). Inr (bytes_word bs, ba')))"
    by (simp add: fun_eq_iff ReadFuint8_def read_str_def bindR_assoc case_prod_beta' bindR_def
          split: sum.splits)
  moreover have "decodes \<dots> (\<lambda>_. [v]) (bytes_word [v])"
    by (intro decodes_map decodes_read_str) simp
  ultimately show ?thesis by simp
qed

section \<open>Zigzag\<close>

lemma bit_double_word:
  "bit (2 * v) n \<longleftrightarrow> 0 < n \<and> n < LENGTH('a) \<and> bit (v :: 'a::len word) (n - 1)"
  by (auto simp: bit_double_iff possible_bit_word)

lemma zigzag_neg:
  assumes "bit (v :: 'a::len word) (LENGTH('a) - 1)"
  shows "(drop_bit 1 ((- v) * 2 - 1)) XOR (- (((- v) * 2 - 1) AND 1)) = v"
proof -
  have eq: "(- v) * 2 - 1 = 2 * (NOT v) OR 1"
  proof -
    have "2 * (NOT v) OR 1 = 2 * (NOT v) + 1"
      by (rule disjunctive_add [symmetric]) (auto simp: bit_double_word bit_1_iff)
    also have "\<dots> = (- v) * 2 - 1"
      by (simp add: not_eq_complement algebra_simps)
    finally show ?thesis by simp
  qed
  have low: "(2 * (NOT v) OR 1) AND 1 = (1 :: 'a word)"
    by (rule bit_word_eqI) (auto simp: bit_and_iff bit_or_iff bit_double_word bit_1_iff)
  have "drop_bit 1 (2 * (NOT v) OR 1) = NOT v"
  proof (rule bit_word_eqI)
    fix n assume n: "n < LENGTH('a)"
    then have "Suc n < LENGTH('a) \<or> n = LENGTH('a) - 1" by linarith
    then show "bit (drop_bit 1 (2 * (NOT v) OR 1)) n = bit (NOT v) n"
      using assms n by (auto simp: bit_drop_bit_eq bit_or_iff bit_double_word bit_1_iff bit_not_iff)
  qed
  with low show ?thesis unfolding eq by simp
qed

lemma zigzag_nonneg:
  assumes top: "\<not> bit v (LENGTH('a) - 1)"
  shows "(drop_bit 1 ((v :: 'a::len word) * 2)) XOR (- ((v * 2) AND 1)) = v"
proof -
  have "drop_bit 1 (2 * v) = v"
  proof (rule bit_word_eqI)
    fix n assume n: "n < LENGTH('a)"
    then have "Suc n < LENGTH('a) \<or> n = LENGTH('a) - 1" by linarith
    then show "bit (drop_bit 1 (2 * v)) n = bit v n"
      using top n by (auto simp: bit_drop_bit_eq bit_double_word)
  qed
  moreover have "2 * v AND 1 = 0"
    by (rule bit_word_eqI) (auto simp: bit_and_iff bit_double_word bit_1_iff)
  ultimately show ?thesis by (simp add: mult.commute)
qed

lemma DecodeZigzag32_Encode: "EncodeZigzag32 v = Inr u \<Longrightarrow> DecodeZigzag32 u = v"
  using zigzag_neg [of v] zigzag_nonneg [of v] bit_last_iff [of v]
  by (auto simp: EncodeZigzag32_def DecodeZigzag32_def split: if_splits)

lemma DecodeZigzag64_Encode: "EncodeZigzag64 v = Inr u \<Longrightarrow> DecodeZigzag64 u = v"
  using zigzag_neg [of v] zigzag_nonneg [of v] bit_last_iff [of v]
  by (auto simp: EncodeZigzag64_def DecodeZigzag64_def split: if_splits)

section \<open>Variable-length integers\<close>

text \<open>The reference encoding: seven bits per byte, least significant group first.\<close>

fun leb128 :: "nat \<Rightarrow> byte list" where
  "leb128 n = (if n < 128 then [of_nat n] else of_nat (128 + n mod 128) # leb128 (n div 128))"

declare leb128.simps [simp del]

lemma leb128_not_Nil [simp]: "leb128 n \<noteq> []"
  by (subst leb128.simps) simp

lemma length_leb128: "n < 128 ^ k \<Longrightarrow> 0 < k \<Longrightarrow> length (leb128 n) \<le> k"
proof (induction n arbitrary: k rule: leb128.induct)
  case (1 n)
  show ?case
  proof (cases "n < 128")
    case True
    then show ?thesis using "1.prems" by (subst leb128.simps) simp
  next
    case False
    then obtain k' where k: "k = Suc k'" "0 < k'"
      using "1.prems" by (cases k) (use gr0I in fastforce)+
    then have "length (leb128 (n div 128)) \<le> k'"
      using "1.prems" False by (intro "1.IH") (auto simp: less_mult_imp_div_less mult.commute)
    then show ?thesis using False k by (subst leb128.simps) simp
  qed
qed

lemma and_127: "(w AND 0x7F) = take_bit 7 (w :: 'a::len word)"
  by (simp add: take_bit_eq_mask mask_eq_exp_minus_1)

lemma take_bit_7_of_nat: "take_bit 7 w = (of_nat (unat w mod 128) :: 'a::len word)"
proof -
  have "unat w mod 128 = take_bit 7 (unat w)" by (simp add: take_bit_eq_mod)
  then show ?thesis by (simp add: take_bit_of_nat [symmetric])
qed

lemma low7_or_128:
  "(w AND 0x7F) OR 0x80 = (of_nat (128 + unat w mod 128) :: 'a::len word)"
proof -
  have b128: "bit (128 :: 'a word) k \<Longrightarrow> k = 7" for k
    using bit_exp_iff [where 'a = "'a word", of 7 k] by simp
  have "take_bit 7 w OR 128 = take_bit 7 w + 128"
    by (rule disjunctive_add [symmetric]) (metis b128 bit_take_bit_iff less_irrefl)
  then show ?thesis by (simp add: and_127 take_bit_7_of_nat add.commute)
qed

lemma ucast_of_nat_byte:
  "n < 256 \<Longrightarrow> 8 \<le> LENGTH('a::len) \<Longrightarrow> (ucast (of_nat n :: 'a word) :: byte) = of_nat n"
proof -
  assume n: "n < 256" and l: "8 \<le> LENGTH('a)"
  have "(256 :: nat) \<le> 2 ^ LENGTH('a)"
    using power_increasing [OF l, of "2 :: nat"] by simp
  with n show ?thesis by (simp add: unsigned_of_nat take_bit_nat_eq_self)
qed

lemma varint_loop_leb128:
  assumes "8 \<le> LENGTH('a::len)" "length tmp + length (leb128 (unat w)) \<le> n"
  shows "varint_loop n tmp (w :: 'a word) = Inr (tmp @ leb128 (unat w))"
  using assms(2)
proof (induction "unat w" arbitrary: w tmp rule: less_induct)
  case less
  have "unat (0x80 :: 'a word) = 128"
  proof -
    have "(256 :: nat) \<le> 2 ^ LENGTH('a)"
      using power_increasing [OF assms(1), of "2 :: nat"] by simp
    then show ?thesis by (simp add: unsigned_numeral take_bit_nat_eq_self)
  qed
  then have cmp: "0x80 \<le> w \<longleftrightarrow> 128 \<le> unat w" by (simp add: word_le_nat_alt)
  have room: "length tmp < n"
    using less.prems by (cases "leb128 (unat w)") auto
  show ?case
  proof (cases "128 \<le> unat w")
    case True
    have dv: "unat (drop_bit 7 w) = unat w div 128"
      using unat_drop_bit_eq [of 7 w] drop_bit_eq_div [of 7 "unat w"] by simp
    have eq: "leb128 (unat w) = of_nat (128 + unat w mod 128) # leb128 (unat (drop_bit 7 w))"
      using True by (subst leb128.simps) (simp add: dv)
    have "varint_loop n (tmp @ [of_nat (128 + unat w mod 128)]) (drop_bit 7 w) =
        Inr ((tmp @ [of_nat (128 + unat w mod 128)]) @ leb128 (unat (drop_bit 7 w)))"
      using True less.prems by (intro less.hyps) (simp_all add: dv eq)
    moreover have "(ucast ((w AND 0x7F) OR 0x80) :: byte) = of_nat (128 + unat w mod 128)"
      unfolding low7_or_128 by (rule ucast_of_nat_byte) (use assms(1) in auto)
    ultimately show ?thesis
      using room True by (subst varint_loop.simps) (simp add: cmp eq)
  next
    case False
    then have "leb128 (unat w) = [of_nat (unat w)]" by (subst leb128.simps) simp
    moreover have "\<not> 0x80 \<le> w" using False cmp by simp
    ultimately show ?thesis using room by (subst varint_loop.simps) simp
  qed
qed

text \<open>Hence \<open>tmp[5]\<close> and \<open>tmp[10]\<close> are large enough.\<close>

lemma varint32: "varint_loop 5 [] (w :: 32 word) = Inr (leb128 (unat w))"
proof -
  have "length (leb128 (unat w)) \<le> 5"
    by (rule length_leb128) (use unsigned_less [where 'a = nat, of w] in simp_all)
  then show ?thesis using varint_loop_leb128 [of "[]" w 5] by simp
qed

lemma varint64: "varint_loop 10 [] (w :: 64 word) = Inr (leb128 (unat w))"
proof -
  have "length (leb128 (unat w)) \<le> 10"
    by (rule length_leb128) (use unsigned_less [where 'a = nat, of w] in simp_all)
  then show ?thesis using varint_loop_leb128 [of "[]" w 10] by simp
qed

lemma decodes_return: "decodes (\<lambda>ba. Inr (v, ba)) (\<lambda>_. []) v"
  by (rule decodesI) simp

lemma or_shift_add:
  assumes "unat (acc :: 'a::len word) < 2 ^ i"
  shows "acc OR push_bit i x = acc + push_bit i x"
proof (rule disjunctive_add [symmetric])
  fix k
  have "bit acc k \<Longrightarrow> k < i"
    using assms bit_iff_odd [of "unat acc" k] power_increasing [of i k "2 :: nat"]
    by (auto simp: bit_unsigned_iff not_less [symmetric]) (metis div_less even_zero less_le_trans
        not_less one_le_numeral power_increasing)
  then show "\<not> bit acc k \<or> \<not> bit (push_bit i x) k"
    by (auto simp: bit_push_bit_iff)
qed

lemma push_bit_of_nat: "push_bit i (of_nat n :: 'a::len word) = of_nat (n * 2 ^ i)"
  by (simp add: push_bit_eq_mult)

lemma or_shift_of_nat:
  "unat acc < 2 ^ i \<Longrightarrow> acc OR push_bit i (of_nat n :: 'a::len word) = acc + of_nat (n * 2 ^ i)"
  using or_shift_add [of acc i "of_nat n"] by (simp only: push_bit_of_nat)

lemma acc_bound:
  "unat acc < 2 ^ i \<Longrightarrow> m < 128 \<Longrightarrow> unat (acc + of_nat (m * 2 ^ i) :: 'a::len word) < 2 ^ (i + 7)"
proof -
  assume acc: "unat acc < 2 ^ i" and m: "m < 128"
  have "unat (acc + of_nat (m * 2 ^ i)) \<le> unat acc + m * 2 ^ i"
    by (simp only: unat_word_ariths unat_of_nat) (metis mod_add_right_eq mod_less_eq_dividend)
  also have "\<dots> < (m + 1) * 2 ^ i" using acc by simp
  also have "\<dots> \<le> 128 * 2 ^ i" using m by (intro mult_right_mono) auto
  finally show ?thesis by (simp add: power_add)
qed

lemma split_128: "(n mod 128) * 2 ^ i + (n div 128) * 2 ^ (i + 7) = (n :: nat) * 2 ^ i"
proof -
  have "m * 2 ^ i + d * 2 ^ (i + 7) = (128 * d + m) * (2 :: nat) ^ i" for m d
    by (simp add: power_add algebra_simps)
  from this [of "n mod 128" "n div 128"] show ?thesis by simp
qed

lemma split_128_bound:
  assumes "n * 2 ^ i < (2 :: nat) ^ w" "128 \<le> n"
  shows "(n div 128) * 2 ^ (i + 7) < 2 ^ w" "i + 7 < w"
proof -
  show b: "(n div 128) * 2 ^ (i + 7) < 2 ^ w" using split_128 [of n i] assms(1) by linarith
  have "1 * 2 ^ (i + 7) \<le> (n div 128) * 2 ^ (i + 7)"
    using assms(2) by (intro mult_right_mono) auto
  with b have "(2 :: nat) ^ (i + 7) < 2 ^ w" by linarith
  then show "i + 7 < w" by simp
qed

lemma byte_of_nat:
  assumes "m < 128"
  shows "(of_nat m :: byte) < 0x80" "\<not> (of_nat (128 + m) :: byte) < 0x80"
    "(of_nat (128 + m) :: byte) AND 0x7F = of_nat m"
    "32 \<le> LENGTH('a::len) \<Longrightarrow> ucast (of_nat m :: byte) = (of_nat m :: 'a word)"
proof -
  have u: "unat (of_nat m :: byte) = m" "unat (of_nat (128 + m) :: byte) = 128 + m"
    using assms by (simp_all add: unat_of_nat del: of_nat_add)
  show "(of_nat m :: byte) < 0x80" "\<not> (of_nat (128 + m) :: byte) < 0x80"
    using assms u by (simp_all add: word_less_nat_alt del: of_nat_add)
  show "(of_nat (128 + m) :: byte) AND 0x7F = of_nat m"
    unfolding and_127 take_bit_7_of_nat u using assms by simp
  show "32 \<le> LENGTH('a) \<Longrightarrow> ucast (of_nat m :: byte) = (of_nat m :: 'a word)"
    using assms by (simp add: unsigned_of_nat take_bit_nat_eq_self)
qed

lemma decodes_ReadUint32_loop:
  assumes "i < 32" "n * 2 ^ i < 2 ^ 32" "unat acc < 2 ^ i"
  shows "decodes (ReadUint32_loop i acc) (\<lambda>_. leb128 n) (acc + of_nat (n * 2 ^ i))"
  using assms
proof (induction n arbitrary: i acc rule: leb128.induct)
  case (1 n)
  let ?r2 = "\<lambda>b ba'. if b < 0x80 then Inr (acc OR push_bit i (ucast b), ba')
          else ReadUint32_loop (i + 7) (acc OR push_bit i (ucast (b AND 0x7F))) ba'"
  have unf: "ReadUint32_loop i acc = (\<lambda>ba. bindR (ReadFuint8 ba) (\<lambda>(b, ba'). ?r2 b ba'))"
    using "1.prems"(1) by (simp add: fun_eq_iff ReadUint32_loop.simps [of i])
  show ?case
  proof (cases "n < 128")
    case True
    then have "?r2 (of_nat n :: byte) = (\<lambda>ba'. Inr (acc + of_nat (n * 2 ^ i), ba'))"
      using "1.prems" byte_of_nat(1-3) [of n] byte_of_nat(4) [where 'a = 32, of n] by (simp add: or_shift_of_nat)
    then have "decodes (ReadUint32_loop i acc) (\<lambda>_. [of_nat n] @ []) (acc + of_nat (n * 2 ^ i))"
      unfolding unf by (intro decodes_bind [OF decodes_ReadFuint8]) (simp add: decodes_return)
    then show ?thesis using True by (simp add: leb128.simps [of n])
  next
    case False
    let ?b = "of_nat (128 + n mod 128) :: byte" and ?acc = "acc + of_nat (n mod 128 * 2 ^ i)"
    have "?r2 ?b = ReadUint32_loop (i + 7) ?acc"
      using "1.prems" byte_of_nat(1-3) [of "n mod 128"]
        byte_of_nat(4) [where 'a = 32, of "n mod 128"]
      by (simp add: or_shift_of_nat fun_eq_iff del: of_nat_add)
    moreover have "decodes (ReadUint32_loop (i + 7) ?acc) (\<lambda>_. leb128 (n div 128))
        (?acc + of_nat (n div 128 * 2 ^ (i + 7)))"
      using False "1.prems" split_128_bound [of n i 32]
      by (intro "1.IH") (auto intro: acc_bound simp del: of_nat_mult)
    moreover have "?acc + of_nat (n div 128 * 2 ^ (i + 7)) = acc + of_nat (n * 2 ^ i)"
      by (simp add: add.assoc flip: split_128 [of n i])
    ultimately have "decodes (ReadUint32_loop i acc) (\<lambda>_. [?b] @ leb128 (n div 128))
        (acc + of_nat (n * 2 ^ i))"
      unfolding unf by (intro decodes_bind [OF decodes_ReadFuint8]) (simp only:)
    then show ?thesis using False by (simp add: leb128.simps [of n])
  qed
qed

lemma shl32_of_nat:
  assumes "i < 32" "m < 128" "m * 2 ^ i < 2 ^ 32"
  shows "shl32 (of_nat m) i = Inr (push_bit i (of_nat m))"
proof -
  have "ucast (push_bit i (of_nat m :: 32 word)) = (push_bit i (of_nat m) :: 64 word)"
    unfolding push_bit_of_nat using assms(3)
    by (simp add: unsigned_of_nat take_bit_nat_eq_self del: of_nat_mult)
  then show ?thesis
    using assms(1) byte_of_nat(4) [where 'a = 32, OF assms(2)] by (simp add: shl32_def)
qed

lemma decodes_ReadUint64_loop:
  assumes "i < 32" "n * 2 ^ i < 2 ^ 32" "unat acc < 2 ^ i"
  shows "decodes (ReadUint64_loop i acc) (\<lambda>_. leb128 n) (acc + of_nat (n * 2 ^ i))"
  using assms
proof (induction n arbitrary: i acc rule: leb128.induct)
  case (1 n)
  let ?r2 = "\<lambda>b ba'. if b < 0x80 then bindR (shl32 b i) (\<lambda>x. Inr (acc OR x, ba'))
          else bindR (shl32 (b AND 0x7F) i) (\<lambda>x. ReadUint64_loop (i + 7) (acc OR x) ba')"
  have unf: "ReadUint64_loop i acc = (\<lambda>ba. bindR (ReadFuint8 ba) (\<lambda>(b, ba'). ?r2 b ba'))"
    using "1.prems"(1) by (simp add: fun_eq_iff ReadUint64_loop.simps [of i])
  show ?case
  proof (cases "n < 128")
    case True
    then have "?r2 (of_nat n :: byte) = (\<lambda>ba'. Inr (acc + of_nat (n * 2 ^ i), ba'))"
      using "1.prems" byte_of_nat(1-3) [of n] byte_of_nat(4) [where 'a = 32, of n]
      by (simp add: or_shift_of_nat shl32_of_nat)
    then have "decodes (ReadUint64_loop i acc) (\<lambda>_. [of_nat n] @ []) (acc + of_nat (n * 2 ^ i))"
      unfolding unf by (intro decodes_bind [OF decodes_ReadFuint8]) (simp add: decodes_return)
    then show ?thesis using True by (simp add: leb128.simps [of n])
  next
    case False
    let ?b = "of_nat (128 + n mod 128) :: byte" and ?acc = "acc + of_nat (n mod 128 * 2 ^ i)"
    have "n mod 128 * 2 ^ i < 2 ^ 32"
      using split_128 [of n i] "1.prems" by linarith
    then have "?r2 ?b = ReadUint64_loop (i + 7) ?acc"
      using "1.prems" byte_of_nat(1-3) [of "n mod 128"]
        byte_of_nat(4) [where 'a = 32, of "n mod 128"]
      by (simp add: or_shift_of_nat shl32_of_nat fun_eq_iff del: of_nat_add)
    moreover have "decodes (ReadUint64_loop (i + 7) ?acc) (\<lambda>_. leb128 (n div 128))
        (?acc + of_nat (n div 128 * 2 ^ (i + 7)))"
      using False "1.prems" split_128_bound [of n i 32]
      by (intro "1.IH") (auto intro: acc_bound simp del: of_nat_mult)
    moreover have "?acc + of_nat (n div 128 * 2 ^ (i + 7)) = acc + of_nat (n * 2 ^ i)"
      by (simp add: add.assoc flip: split_128 [of n i])
    ultimately have "decodes (ReadUint64_loop i acc) (\<lambda>_. [?b] @ leb128 (n div 128))
        (acc + of_nat (n * 2 ^ i))"
      unfolding unf by (intro decodes_bind [OF decodes_ReadFuint8]) (simp only:)
    then show ?thesis using False by (simp add: leb128.simps [of n])
  qed
qed

text \<open>Whatever is in the buffer, \<open>ReadUint64\<close> cannot return more than 32 significant bits.\<close>

lemma ReadUint64_loop_small:
  "ReadUint64_loop i acc ba = Inr (w, ba') \<Longrightarrow> take_bit 32 acc = acc \<Longrightarrow> take_bit 32 w = w"
proof (induction i acc ba rule: ReadUint64_loop.induct)
  case (1 i acc ba)
  have sm: "take_bit 32 x = x" if "shl32 b i = Inr x" for b x
    using that bit_imp_le_length [of "push_bit i (ucast b :: 32 word)"]
    by (auto simp: shl32_def bit_take_bit_iff bit_ucast_iff split: if_splits intro!: bit_word_eqI)
  have rec: "take_bit 32 w = w" if "i < 64" "ReadFuint8 ba = Inr (b, b1)" "\<not> b < 0x80"
    "shl32 (b AND 0x7F) i = Inr x" "ReadUint64_loop (i + 7) (acc OR x) b1 = Inr (w, ba')" for b b1 x
    using "1.IH" [OF that(1,2) refl that(3,4,5)] "1.prems"(2) sm [OF that(4)]
    by (simp add: take_bit_or)
  from "1.prems" show ?case
    by (subst (asm) ReadUint64_loop.simps)
       (auto split: if_splits prod.splits simp: take_bit_or sm intro: rec)
qed

section \<open>Encoders\<close>

text \<open>
  \<open>encodes wr img\<close>: \<open>wr\<close> succeeds, leaves \<open>img\<close> at the old position, moves past it and keeps
  every region that ends before the old position.
\<close>

definition encodes :: "(bytearray \<Rightarrow> bytearray res) \<Rightarrow> (nat \<Rightarrow> byte list) \<Rightarrow> bool" where
  "encodes wr img \<longleftrightarrow> (\<forall>ba. ba_wf ba \<longrightarrow> (\<exists>ba'. wr ba = Inr ba' \<and> ba_wf ba' \<and>
     position ba' = position ba + length (img (endian ba)) \<and> endian ba' = endian ba \<and>
     ba_size ba' = max (ba_size ba) (position ba') \<and>
     region (ba_cell ba') (ba_size ba') (position ba) (img (endian ba)) \<and>
     (\<forall>p xs. region (ba_cell ba) (ba_size ba) p xs \<longrightarrow> p + length xs \<le> position ba \<longrightarrow>
        region (ba_cell ba') (ba_size ba') p xs)))"

lemma encodesE:
  assumes "encodes wr img" "ba_wf ba"
  obtains ba' where "wr ba = Inr ba'" "ba_wf ba'"
    "position ba' = position ba + length (img (endian ba))" "endian ba' = endian ba"
    "ba_size ba' = max (ba_size ba) (position ba')"
    "region (ba_cell ba') (ba_size ba') (position ba) (img (endian ba))"
    "\<forall>p xs. region (ba_cell ba) (ba_size ba) p xs \<longrightarrow> p + length xs \<le> position ba \<longrightarrow>
        region (ba_cell ba') (ba_size ba') p xs"
  using assms unfolding encodes_def by blast

lemma encodes_Write: "encodes (Write bs) (\<lambda>_. bs)"
  unfolding encodes_def
proof (intro allI impI)
  fix ba assume wf: "ba_wf ba"
  show "\<exists>ba'. Write bs ba = Inr ba' \<and> ba_wf ba' \<and> position ba' = position ba + length bs \<and>
      endian ba' = endian ba \<and> ba_size ba' = max (ba_size ba) (position ba') \<and>
      region (ba_cell ba') (ba_size ba') (position ba) bs \<and>
      (\<forall>p xs. region (ba_cell ba) (ba_size ba) p xs \<longrightarrow> p + length xs \<le> position ba \<longrightarrow>
        region (ba_cell ba') (ba_size ba') p xs)"
    by (rule ba.wr_region [OF wf, of bs]) auto
qed

lemma encodes_eq:
  assumes "\<And>ba. wr ba = Write (img (endian ba)) ba"
  shows "encodes wr img"
  unfolding encodes_def
proof (intro allI impI, goal_cases)
  case (1 ba)
  from encodes_Write [of "img (endian ba)", unfolded encodes_def, rule_format, OF 1]
  show ?case by (simp add: assms)
qed

lemma encodes_bind:
  assumes "encodes w1 i1" "encodes w2 i2"
  shows "encodes (\<lambda>ba. bindR (w1 ba) w2) (\<lambda>e. i1 e @ i2 e)"
  unfolding encodes_def
proof (intro allI impI)
  fix ba assume wf: "ba_wf ba"
  obtain b1 where b1: "w1 ba = Inr b1" "ba_wf b1"
    "position b1 = position ba + length (i1 (endian ba))" "endian b1 = endian ba"
    "ba_size b1 = max (ba_size ba) (position b1)"
    "region (ba_cell b1) (ba_size b1) (position ba) (i1 (endian ba))"
    and k1: "\<forall>p xs. region (ba_cell ba) (ba_size ba) p xs \<longrightarrow> p + length xs \<le> position ba \<longrightarrow>
        region (ba_cell b1) (ba_size b1) p xs"
    by (rule encodesE [OF assms(1) wf])
  obtain b2 where b2: "w2 b1 = Inr b2" "ba_wf b2"
    "position b2 = position b1 + length (i2 (endian b1))" "endian b2 = endian b1"
    "ba_size b2 = max (ba_size b1) (position b2)"
    "region (ba_cell b2) (ba_size b2) (position b1) (i2 (endian b1))"
    and k2: "\<forall>p xs. region (ba_cell b1) (ba_size b1) p xs \<longrightarrow> p + length xs \<le> position b1 \<longrightarrow>
        region (ba_cell b2) (ba_size b2) p xs"
    by (rule encodesE [OF assms(2) b1(2)])
  have "region (ba_cell b2) (ba_size b2) (position ba) (i1 (endian ba) @ i2 (endian ba))"
    using b1 b2 k2 by (simp add: region_append)
  moreover have "region (ba_cell b2) (ba_size b2) p xs"
    if "region (ba_cell ba) (ba_size ba) p xs" "p + length xs \<le> position ba" for p xs
    using k1 k2 that b1 by (simp add: trans_le_add1)
  ultimately show "\<exists>ba'. bindR (w1 ba) w2 = Inr ba' \<and> ba_wf ba' \<and>
      position ba' = position ba + length (i1 (endian ba) @ i2 (endian ba)) \<and>
      endian ba' = endian ba \<and> ba_size ba' = max (ba_size ba) (position ba') \<and>
      region (ba_cell ba') (ba_size ba') (position ba) (i1 (endian ba) @ i2 (endian ba)) \<and>
      (\<forall>p xs. region (ba_cell ba) (ba_size ba) p xs \<longrightarrow> p + length xs \<le> position ba \<longrightarrow>
        region (ba_cell ba') (ba_size ba') p xs)"
    using b1 b2 by auto
qed

text \<open>Write, seek back, read.\<close>

definition write_then_read ::
  "(bytearray \<Rightarrow> bytearray res) \<Rightarrow> (bytearray \<Rightarrow> ('v \<times> bytearray) res) \<Rightarrow> bytearray \<Rightarrow> 'v res" where
  "write_then_read wr rd ba = bindR (wr ba) (\<lambda>b1. bindR (SetPosition (position ba) b1) (\<lambda>b2.
     bindR (rd b2) (\<lambda>(v, _). Inr v)))"

lemma encodes_seek:
  assumes "encodes wr img" "ba_wf ba"
  obtains b1 b2 where "wr ba = Inr b1" "SetPosition (position ba) b1 = Inr b2" "ba_wf b2"
    "region (ba_cell b2) (ba_size b2) (position b2) (img (endian b2))"
    "position b2 = position ba" "endian b2 = endian ba"
proof -
  obtain b1 where b1: "wr ba = Inr b1" "ba_wf b1"
    "position b1 = position ba + length (img (endian ba))" "endian b1 = endian ba"
    "ba_size b1 = max (ba_size ba) (position b1)"
    "region (ba_cell b1) (ba_size b1) (position ba) (img (endian ba))"
    using encodesE [OF assms] by metis
  then have "position ba \<le> ba_size b1" by simp
  from ba.seek_ok [OF b1(2) this] b1 that show thesis by auto
qed

lemma write_then_read_ok:
  assumes "encodes wr img" "decodes rd img v" "ba_wf ba"
  shows "write_then_read wr rd ba = Inr v"
proof -
  obtain b1 b2 where "wr ba = Inr b1" "SetPosition (position ba) b1 = Inr b2" "ba_wf b2"
    "region (ba_cell b2) (ba_size b2) (position b2) (img (endian b2))"
    using encodes_seek [OF assms(1,3)] by metis
  moreover from decodesE [OF assms(2) this(3,4)] obtain b3 where "rd b2 = Inr (v, b3)" by metis
  ultimately show ?thesis by (simp add: write_then_read_def)
qed

section \<open>The codecs\<close>

lemma decodes_string:
  assumes "decodes rd_len (img n) v" "unat v = length s" "s \<noteq> []"
  shows "decodes (\<lambda>ba. bindR (rd_len ba) (\<lambda>(n, ba'). read_str (unat n) ba'))
           (\<lambda>e. img n e @ s) s"
  using decodes_bind [OF assms(1), of "\<lambda>n. read_str (unat n)" "\<lambda>_. s" s]
    decodes_read_str [OF assms(3)] assms(2) by simp

lemma fixed_codecs:
  "encodes (WriteFint8 a) (\<lambda>_. [a])" "decodes ReadFint8 (\<lambda>_. [a]) a"
  "encodes (WriteFuint8 a) (\<lambda>_. [a])" "decodes ReadFuint8 (\<lambda>_. [a]) a"
  "encodes (WriteFint16 b) (fixed_img b)" "decodes ReadFint16 (fixed_img b) b"
  "encodes (WriteFuint16 b) (fixed_img b)" "decodes ReadFuint16 (fixed_img b) b"
  "encodes (WriteFint32 c) (fixed_img c)" "decodes ReadFint32 (fixed_img c) c"
  "encodes (WriteFuint32 c) (fixed_img c)" "decodes ReadFuint32 (fixed_img c) c"
  "encodes (WriteFint64 d) (fixed_img d)" "decodes ReadFint64 (fixed_img d) d"
  "encodes (WriteFuint64 d) (fixed_img d)" "decodes ReadFuint64 (fixed_img d) d"
proof -
  have "ReadFint8 = ReadFuint8" by (simp add: fun_eq_iff ReadFint8_def ReadFuint8_def)
  then show "decodes ReadFint8 (\<lambda>_. [a]) a" "decodes ReadFuint8 (\<lambda>_. [a]) a"
    by (simp_all add: decodes_ReadFuint8)
qed (auto intro!: encodes_eq decodes_readF
      simp: WriteFint8_def WriteFuint8_def WriteFint16_def WriteFuint16_def WriteFint32_def
        WriteFuint32_def WriteFint64_def WriteFuint64_def writeF_img
        ReadFint16_def ReadFuint16_def ReadFint32_def ReadFuint32_def ReadFint64_def ReadFuint64_def)

lemma varint_encodes:
  "encodes (WriteUint32 v) (\<lambda>_. leb128 (unat v))"
  "encodes (WriteUint64 w) (\<lambda>_. leb128 (unat w))"
  by (auto intro!: encodes_eq simp: WriteUint32_def WriteUint64_def varint32 varint64)

lemma varint_decodes:
  "decodes ReadUint32 (\<lambda>_. leb128 (unat v)) v"
  "unat w < 2 ^ 32 \<Longrightarrow> decodes ReadUint64 (\<lambda>_. leb128 (unat w)) w"
  using decodes_ReadUint32_loop [of 0 "unat v" 0] decodes_ReadUint64_loop [of 0 "unat w" 0]
    unsigned_less [where 'a = nat, of v]
  by (simp_all add: ReadUint32_def [abs_def] ReadUint64_def [abs_def])

lemma zigzag_encodes:
  "EncodeZigzag32 v = Inr u \<Longrightarrow> encodes (WriteInt32 v) (\<lambda>_. leb128 (unat u))"
  "EncodeZigzag64 w = Inr x \<Longrightarrow> encodes (WriteInt64 w) (\<lambda>_. leb128 (unat x))"
  using varint_encodes(1) [of u] varint_encodes(2) [of x]
  by (simp_all add: WriteInt32_def [abs_def] WriteInt64_def [abs_def])

lemma zigzag_decodes:
  "EncodeZigzag32 v = Inr u \<Longrightarrow> decodes ReadInt32 (\<lambda>_. leb128 (unat u)) v"
  "EncodeZigzag64 w = Inr x \<Longrightarrow> unat x < 2 ^ 32 \<Longrightarrow> decodes ReadInt64 (\<lambda>_. leb128 (unat x)) w"
  using decodes_map [OF varint_decodes(1) [of u], of DecodeZigzag32]
    decodes_map [OF varint_decodes(2) [of x], of DecodeZigzag64]
  by (simp_all add: ReadInt32_def [abs_def] ReadInt64_def [abs_def] DecodeZigzag32_Encode
       DecodeZigzag64_Encode)

lemma string_encodes:
  "encodes (WriteStringF16 s) (\<lambda>e. fixed_img (of_nat (length s) :: u16) e @ s)"
  "encodes (WriteStringF32 s) (\<lambda>e. fixed_img (of_nat (length s) :: u32) e @ s)"
  "encodes (WriteStringF64 s) (\<lambda>e. fixed_img (of_nat (length s) :: u64) e @ s)"
  "encodes (WriteStringVint s) (\<lambda>e. leb128 (unat (of_nat (length s) :: u64)) @ s)"
  by (auto intro!: encodes_bind fixed_codecs varint_encodes encodes_Write
      simp: WriteStringF16_def [abs_def] WriteStringF32_def [abs_def] WriteStringF64_def [abs_def]
        WriteStringVint_def [abs_def])

lemma unat_of_nat_small: "n < 2 ^ LENGTH('a::len) \<Longrightarrow> unat (of_nat n :: 'a word) = n"
  by (simp add: unat_of_nat)

lemma string_decodes_fixed:
  assumes "s \<noteq> []"
  shows "length s < 2 ^ 16 \<Longrightarrow>
      decodes ReadStringF16 (\<lambda>e. fixed_img (of_nat (length s) :: u16) e @ s) s"
    "length s < 2 ^ 32 \<Longrightarrow>
      decodes ReadStringF32 (\<lambda>e. fixed_img (of_nat (length s) :: u32) e @ s) s"
    "length s < 2 ^ 64 \<Longrightarrow>
      decodes ReadStringF64 (\<lambda>e. fixed_img (of_nat (length s) :: u64) e @ s) s"
  unfolding ReadStringF16_def [abs_def] ReadStringF32_def [abs_def] ReadStringF64_def [abs_def]
  using assms
  by (auto intro!: decodes_string [where img = fixed_img] fixed_codecs simp: unat_of_nat_small)

lemma string_decodes_vint:
  assumes "s \<noteq> []" "length s < 2 ^ 32"
  shows "decodes ReadStringVint (\<lambda>e. leb128 (unat (of_nat (length s) :: u64)) @ s) s"
  unfolding ReadStringVint_def [abs_def]
proof (rule decodes_string [where img = "\<lambda>n _. leb128 (unat n)"])
  have u: "unat (of_nat (length s) :: u64) = length s"
    using assms(2) by (intro unat_of_nat_small) simp
  then show "decodes ReadUint64 (\<lambda>_. leb128 (unat (of_nat (length s) :: u64))) (of_nat (length s))"
    using assms(2) by (intro varint_decodes(2)) simp
  show "unat (of_nat (length s) :: u64) = length s" by (rule u)
qed (rule assms(1))

lemmas string_decodes = string_decodes_fixed string_decodes_vint

section \<open>Messages\<close>

text \<open>A message is a sequence of typed fields written one after the other.\<close>

datatype field =
    F8 byte | F16 u16 | F32 u32 | F64 u64
  | V32 u32 | Z32 u32 | V64 u64 | Z64 u64
  | S16 "byte list" | S32 "byte list" | S64 "byte list" | SV "byte list"

datatype kind = K8 | K16 | K32 | K64 | KV32 | KZ32 | KV64 | KZ64 | KS16 | KS32 | KS64 | KSV

fun kind_of :: "field \<Rightarrow> kind" where
  "kind_of (F8 _) = K8" | "kind_of (F16 _) = K16" | "kind_of (F32 _) = K32" | "kind_of (F64 _) = K64"
| "kind_of (V32 _) = KV32" | "kind_of (Z32 _) = KZ32" | "kind_of (V64 _) = KV64"
| "kind_of (Z64 _) = KZ64" | "kind_of (S16 _) = KS16" | "kind_of (S32 _) = KS32"
| "kind_of (S64 _) = KS64" | "kind_of (SV _) = KSV"

fun put :: "field \<Rightarrow> bytearray \<Rightarrow> bytearray res" where
  "put (F8 v) = WriteFuint8 v" | "put (F16 v) = WriteFuint16 v" | "put (F32 v) = WriteFuint32 v"
| "put (F64 v) = WriteFuint64 v" | "put (V32 v) = WriteUint32 v" | "put (Z32 v) = WriteInt32 v"
| "put (V64 v) = WriteUint64 v" | "put (Z64 v) = WriteInt64 v" | "put (S16 s) = WriteStringF16 s"
| "put (S32 s) = WriteStringF32 s" | "put (S64 s) = WriteStringF64 s" | "put (SV s) = WriteStringVint s"

definition tag :: "('v \<Rightarrow> field) \<Rightarrow> (bytearray \<Rightarrow> ('v \<times> bytearray) res) \<Rightarrow>
    bytearray \<Rightarrow> (field \<times> bytearray) res" where
  "tag c rd ba = bindR (rd ba) (\<lambda>(v, ba'). Inr (c v, ba'))"

fun get :: "kind \<Rightarrow> bytearray \<Rightarrow> (field \<times> bytearray) res" where
  "get K8 = tag F8 ReadFuint8" | "get K16 = tag F16 ReadFuint16" | "get K32 = tag F32 ReadFuint32"
| "get K64 = tag F64 ReadFuint64" | "get KV32 = tag V32 ReadUint32" | "get KZ32 = tag Z32 ReadInt32"
| "get KV64 = tag V64 ReadUint64" | "get KZ64 = tag Z64 ReadInt64" | "get KS16 = tag S16 ReadStringF16"
| "get KS32 = tag S32 ReadStringF32" | "get KS64 = tag S64 ReadStringF64"
| "get KSV = tag SV ReadStringVint"

fun put_all :: "field list \<Rightarrow> bytearray \<Rightarrow> bytearray res" where
  "put_all [] ba = Inr ba"
| "put_all (f # fs) ba = bindR (put f ba) (put_all fs)"

fun get_all :: "kind list \<Rightarrow> bytearray \<Rightarrow> (field list \<times> bytearray) res" where
  "get_all [] ba = Inr ([], ba)"
| "get_all (k # ks) ba = bindR (get k ba) (\<lambda>(f, ba').
     bindR (get_all ks ba') (\<lambda>(fs, ba''). Inr (f # fs, ba'')))"

fun encodable :: "field \<Rightarrow> bool" where
  "encodable (Z32 v) \<longleftrightarrow> - (2 ^ 31) < sint v \<and> sint v < 2 ^ 30"
| "encodable (V64 v) \<longleftrightarrow> unat v < 2 ^ 32"
| "encodable (Z64 v) \<longleftrightarrow> - (2 ^ 31) < sint v \<and> sint v < 2 ^ 31"
| "encodable (S16 s) \<longleftrightarrow> s \<noteq> [] \<and> length s < 2 ^ 16"
| "encodable (S32 s) \<longleftrightarrow> s \<noteq> [] \<and> length s < 2 ^ 32"
| "encodable (S64 s) \<longleftrightarrow> s \<noteq> [] \<and> length s < 2 ^ 64"
| "encodable (SV s) \<longleftrightarrow> s \<noteq> [] \<and> length s < 2 ^ 32"
| "encodable _ \<longleftrightarrow> True"

lemma encode32_ok:
  "- (2 ^ 31) < sint v \<Longrightarrow> sint v < 2 ^ 30 \<Longrightarrow> \<exists>u. EncodeZigzag32 v = Inr u"
  by (auto simp: EncodeZigzag32_def)

lemma unat_of_int_small:
  "0 \<le> k \<Longrightarrow> k < 2 ^ LENGTH('a::len) \<Longrightarrow> unat (of_int k :: 'a word) = nat k"
  by (simp add: unsigned_of_int take_bit_int_eq_self nat_take_bit_eq)

lemma encode64_ok:
  assumes "- (2 ^ 31) < sint (v :: 64 word)" "sint v < 2 ^ 31"
  shows "\<exists>u. EncodeZigzag64 v = Inr u \<and> unat u < 2 ^ 32"
proof (cases "sint v < 0")
  case True
  have eq: "(- v) * 2 - 1 = of_int (- sint v * 2 - 1)" by simp
  have "unat ((- v) * 2 - 1) = nat (- sint v * 2 - 1)"
    unfolding eq by (rule unat_of_int_small) (use assms True in simp_all)
  with True assms show ?thesis by (auto simp: EncodeZigzag64_def)
next
  case False
  have eq: "v * 2 = of_int (sint v * 2)" by simp
  have "unat (v * 2) = nat (sint v * 2)"
    unfolding eq by (rule unat_of_int_small) (use assms False in simp_all)
  with False assms show ?thesis by (auto simp: EncodeZigzag64_def)
qed

lemma decodes_tag: "decodes rd img v \<Longrightarrow> decodes (tag c rd) img (c v)"
  unfolding tag_def [abs_def] by (rule decodes_map)

lemma field_codec:
  assumes "encodable f"
  obtains img where "encodes (put f) img" "decodes (get (kind_of f)) img f"
proof (cases f)
  case (Z32 v)
  then obtain u where "EncodeZigzag32 v = Inr u" using assms encode32_ok [of v] by auto
  with Z32 show ?thesis using that zigzag_encodes(1) decodes_tag [OF zigzag_decodes(1)] by fastforce
next
  case (Z64 v)
  then obtain u where "EncodeZigzag64 v = Inr u" "unat u < 2 ^ 32"
    using assms encode64_ok [of v] by auto
  with Z64 show ?thesis using that zigzag_encodes(2) decodes_tag [OF zigzag_decodes(2)] by fastforce
qed (use assms that fixed_codecs varint_encodes varint_decodes string_encodes string_decodes
       decodes_tag in \<open>fastforce\<close>)+

lemma message_codec:
  "list_all encodable fs \<Longrightarrow>
     \<exists>img. encodes (put_all fs) img \<and> decodes (get_all (map kind_of fs)) img fs"
proof (induction fs)
  case Nil
  have "encodes (put_all []) (\<lambda>_. [])"
    by (rule encodes_eq) (simp add: Write_def)
  moreover have "decodes (get_all []) (\<lambda>_. []) []"
    using decodes_return [of "[]"] by (simp add: decodes_def)
  ultimately have "\<exists>img. encodes (put_all []) img \<and> decodes (get_all []) img []" by blast
  then show ?case by (simp only: list.map)
next
  case (Cons f fs)
  obtain i1 where i1: "encodes (put f) i1" "decodes (get (kind_of f)) i1 f"
    using field_codec Cons.prems by auto
  obtain i2 where i2: "encodes (put_all fs) i2" "decodes (get_all (map kind_of fs)) i2 fs"
    using Cons by auto
  have "encodes (\<lambda>ba. bindR (put f ba) (put_all fs)) (\<lambda>e. i1 e @ i2 e)"
    using i1 i2 by (intro encodes_bind)
  moreover have "decodes (\<lambda>ba. bindR (get (kind_of f) ba) (\<lambda>(f, ba').
      bindR (get_all (map kind_of fs) ba') (\<lambda>(fs, ba''). Inr (f # fs, ba''))))
      (\<lambda>e. i1 e @ i2 e) (f # fs)"
    using i1(2) decodes_map [OF i2(2), of "(#) f"] by (rule decodes_bind)
  moreover have "put_all (f # fs) = (\<lambda>ba. bindR (put f ba) (put_all fs))"
    and "get_all (map kind_of (f # fs)) = (\<lambda>ba. bindR (get (kind_of f) ba) (\<lambda>(f, ba').
      bindR (get_all (map kind_of fs) ba') (\<lambda>(fs, ba''). Inr (f # fs, ba''))))"
    by (simp_all add: fun_eq_iff)
  ultimately show ?case by metis
qed

section \<open>Properties\<close>

text \<open>
  C10. Message round trip: any sequence of encodable fields, written one after the other at any
  position of a well-formed buffer in either byte order, is read back unchanged in the same order
  after seeking to where it began.  Encodable are all fixed-width integers and 32-bit varints; 64-bit
  varints below \<open>2 ^ 32\<close>; zigzag values above \<open>-(2 ^ 31)\<close> and below \<open>2 ^ 30\<close> (32 bits) or \<open>2 ^ 31\<close> (64 bits);
  and strings that are not empty and whose length fits the length field, below \<open>2 ^ 32\<close> with a varint
  length.  On other values the encoder overflows or the decoder loses bits or reads out of bounds.
\<close>

theorem message_roundtrip:
  assumes "list_all encodable fs" "ba_wf ba"
  shows "write_then_read (put_all fs) (get_all (map kind_of fs)) ba = Inr fs"
proof -
  obtain img where "encodes (put_all fs) img" "decodes (get_all (map kind_of fs)) img fs"
    using message_codec [OF assms(1)] by metis
  then show ?thesis using assms(2) by (rule write_then_read_ok)
qed

theorem message_roundtrip_witness:
  "write_then_read (put_all [F16 258, Z32 (- 5), SV [7, 9]]) (get_all [K16, KZ32, KSV])
     (SetIsLittleEndian False (newByteArray 2)) = Inr [F16 258, Z32 (- 5), SV [7, 9]]"
  using message_roundtrip [of "[F16 258, Z32 (- 5), SV [7, 9]]"
      "SetIsLittleEndian False (newByteArray 2)"]
  by (simp add: SetIsLittleEndian_wf newByteArray_2_wf)

text \<open>
  The variable-length writers never overrun their stack arrays \<open>tmp[5]\<close> and \<open>tmp[10]\<close>, and
  what they put there is the seven-bits-per-byte encoding of the value.
\<close>

theorem varint_buffers_suffice:
  "varint_loop 5 [] (v :: u32) = Inr (leb128 (unat v)) \<and>
   varint_loop 10 [] (w :: u64) = Inr (leb128 (unat w))"
  by (simp add: varint32 varint64)

text \<open>
  \<open>ReadUint64\<close> recovers what \<open>WriteUint64\<close> wrote exactly for values below \<open>2 ^ 32\<close>: its shifts
  are done on \<open>uint32_t\<close>.
\<close>

theorem uint64_roundtrip_iff:
  assumes "ba_wf ba"
  shows "write_then_read (WriteUint64 v) ReadUint64 ba = Inr v \<longleftrightarrow> unat v < 2 ^ 32"
proof
  assume "unat v < 2 ^ 32"
  then show "write_then_read (WriteUint64 v) ReadUint64 ba = Inr v"
    using write_then_read_ok [OF varint_encodes(2) varint_decodes(2) assms] by blast
next
  assume "write_then_read (WriteUint64 v) ReadUint64 ba = Inr v"
  then obtain b2 b3 where "ReadUint64_loop 0 0 b2 = Inr (v, b3)"
    by (auto simp: write_then_read_def ReadUint64_def)
  then have "take_bit 32 v = v" using ReadUint64_loop_small by fastforce
  then have "unat v = take_bit 32 (unat v)" by (metis unsigned_take_bit_eq)
  then show "unat v < 2 ^ 32" by (metis take_bit_nat_less_exp)
qed

theorem uint64_roundtrip_iff_witness:
  "write_then_read (WriteUint64 4294967296) ReadUint64 (newByteArray 2) \<noteq> Inr 4294967296"
  using uint64_roundtrip_iff [OF newByteArray_2_wf, of 4294967296] by simp

text \<open>
  Zigzag: whenever encoding a signed 32- or 64-bit value does not overflow, decoding returns
  it; it overflows exactly for the minimum and for values of at least a quarter of the range.
\<close>

theorem zigzag_roundtrip:
  "((\<exists>u. EncodeZigzag32 v = Inr u \<and> DecodeZigzag32 u = v) \<longleftrightarrow>
      - (2 ^ 31) < sint v \<and> sint v < 2 ^ 30) \<and>
   ((\<exists>u. EncodeZigzag64 w = Inr u \<and> DecodeZigzag64 u = w) \<longleftrightarrow>
      - (2 ^ 63) < sint w \<and> sint w < 2 ^ 62)"
proof -
  have "(\<exists>u. EncodeZigzag32 v = Inr u) \<longleftrightarrow> - (2 ^ 31) < sint v \<and> sint v < 2 ^ 30"
    using sint_ge [of v] by (auto simp: EncodeZigzag32_def)
  moreover have "(\<exists>u. EncodeZigzag64 w = Inr u) \<longleftrightarrow> - (2 ^ 63) < sint w \<and> sint w < 2 ^ 62"
    using sint_ge [of w] by (auto simp: EncodeZigzag64_def)
  ultimately show ?thesis
    using DecodeZigzag32_Encode [of v] DecodeZigzag64_Encode [of w] by blast
qed

end
