(* ===== verification/ByteArray_IO.thy ===== *)
theory ByteArray_IO
  imports ByteArray_Codec
begin

text \<open>
  The bulk interfaces of the byte buffer (\<open>gudov/bytearray.cpp\<close>, \<open>GetReadBuffers\<close>,
  \<open>GetWriteBuffers\<close>, \<open>WriteToFile\<close>, \<open>ReadFromFile\<close>, \<open>ToHexString\<close>).  An \<open>iovec\<close> is a node index, an
  offset into the node and a length; \<open>gather\<close> and \<open>scatter\<close> are what \<open>sendmsg\<close> and \<open>recvmsg\<close> do with
  a vector of them.  A file is the list of its bytes, or \<open>None\<close> when it cannot be opened.

  The lemmas show that the gathered read buffers are the readable part of the flat array, that
  scattering into write buffers and then moving the position is a \<open>Write\<close>, and for which positions
  the file operations are correct.
\<close>

section \<open>Scatter/gather views\<close>

type_synonym iovec = "nat \<times> nat \<times> nat"

function iov_loop :: "cell list list \<Rightarrow> nat option \<Rightarrow> nat \<Rightarrow> nat \<Rightarrow> nat \<Rightarrow> iovec list res" where
  "iov_loop ns cu npos ncap len =
     (if len = 0 then Inr []
      else case cu of None \<Rightarrow> Inl NullDeref
      | Some c \<Rightarrow>
        (if len \<le> ncap then Inr [(c, npos, len)]
         else
           bindR (deref ns (next_node ns c)) (\<lambda>nd.
             bindR (iov_loop ns (next_node ns c) 0 (length nd) (len - ncap)) (\<lambda>iovs.
               Inr ((c, npos, ncap) # iovs)))))"
  by pat_completeness auto
termination
  by (relation "measure (\<lambda>(ns, cu, _). case cu of None \<Rightarrow> 0 | Some c \<Rightarrow> length ns - c)")
     (auto simp: deref_def next_node_def split: if_splits option.splits)

declare iov_loop.simps [simp del]

definition GetReadBuffers :: "nat \<Rightarrow> bytearray \<Rightarrow> (iovec list \<times> nat) res" where
  "GetReadBuffers len0 ba =
     (let len = (if len0 > GetReadSize ba then GetReadSize ba else len0) in
      if len = 0 then Inr ([], 0)
      else if base_size ba = 0 then Inl DivByZero
      else let npos = position ba mod base_size ba in
        bindR (deref (nodes ba) (cur ba)) (\<lambda>nd.
          bindR (iov_loop (nodes ba) (cur ba) npos (sz_sub (length nd) npos) len) (\<lambda>iovs.
            Inr (iovs, len))))"

primrec skip_nodes :: "cell list list \<Rightarrow> nat option \<Rightarrow> nat \<Rightarrow> nat option res" where
  "skip_nodes ns cu 0 = Inr cu"
| "skip_nodes ns cu (Suc count) =
     (case cu of None \<Rightarrow> Inl NullDeref | Some c \<Rightarrow> skip_nodes ns (next_node ns c) count)"

definition GetReadBuffersAt :: "nat \<Rightarrow> nat \<Rightarrow> bytearray \<Rightarrow> (iovec list \<times> nat) res" where
  "GetReadBuffersAt len0 pos ba =
     (let len = (if len0 > GetReadSize ba then GetReadSize ba else len0) in
      if len = 0 then Inr ([], 0)
      else if base_size ba = 0 then Inl DivByZero
      else let npos = pos mod base_size ba; count = pos div base_size ba in
        bindR (skip_nodes (nodes ba) (Some 0) count) (\<lambda>cu.
          bindR (deref (nodes ba) cu) (\<lambda>nd.
            bindR (iov_loop (nodes ba) cu npos (sz_sub (length nd) npos) len) (\<lambda>iovs.
              Inr (iovs, len)))))"

definition GetWriteBuffers :: "nat \<Rightarrow> bytearray \<Rightarrow> (iovec list \<times> nat \<times> bytearray) res" where
  "GetWriteBuffers len ba0 =
     (if len = 0 then Inr ([], 0, ba0)
      else bindR (AddCapacity len ba0) (\<lambda>ba.
        if base_size ba = 0 then Inl DivByZero
        else let npos = position ba mod base_size ba in
          bindR (deref (nodes ba) (cur ba)) (\<lambda>nd.
            bindR (iov_loop (nodes ba) (cur ba) npos (sz_sub (length nd) npos) len) (\<lambda>iovs.
              Inr (iovs, len, ba)))))"

text \<open>What the system calls do with the vector: read through it, or fill it from the front.\<close>

fun gather :: "cell list list \<Rightarrow> iovec list \<Rightarrow> cell list res" where
  "gather ns [] = Inr []"
| "gather ns ((c, off, len) # iovs) =
     bindR (node_get ns c off len) (\<lambda>bs. bindR (gather ns iovs) (\<lambda>bs'. Inr (bs @ bs')))"

fun scatter :: "cell list list \<Rightarrow> iovec list \<Rightarrow> cell list \<Rightarrow> cell list list res" where
  "scatter ns [] bs = Inr ns"
| "scatter ns ((c, off, len) # iovs) bs =
     bindR (node_put ns c off (take len bs)) (\<lambda>ns'. scatter ns' iovs (drop len bs))"

definition recv_into :: "iovec list \<Rightarrow> byte list \<Rightarrow> bytearray \<Rightarrow> bytearray res" where
  "recv_into iovs bs ba =
     bindR (scatter (nodes ba) iovs (map Some bs)) (\<lambda>ns. Inr (ba\<lparr>nodes := ns\<rparr>))"

section \<open>Files\<close>

text \<open>
  \<open>diff\<close> and \<open>len\<close> are computed as the source does, with the difference taken after the minimum; a
  negative count breaks the precondition of \<open>ostream::write\<close>.
\<close>

function file_loop ::
  "cell list list \<Rightarrow> nat \<Rightarrow> nat option \<Rightarrow> nat \<Rightarrow> int \<Rightarrow> cell list \<Rightarrow> cell list res" where
  "file_loop ns b cu pos readSize out =
     (if readSize \<le> 0 then Inr out
      else case cu of None \<Rightarrow> Inl NullDeref
      | Some c \<Rightarrow>
        (let diff = pos mod b;
             len = (if readSize > int b then int b else readSize) - int diff in
         if len < 0 then Inl OutOfBounds
         else if c \<ge> length ns then Inl NullDeref
         else bindR (node_get ns c diff (nat len)) (\<lambda>bs.
           file_loop ns b (next_node ns c) (pos + nat len) (readSize - len) (out @ bs))))"
  by pat_completeness auto
termination
  by (relation "measure (\<lambda>(ns, b, cu, _). case cu of None \<Rightarrow> 0 | Some c \<Rightarrow> Suc (length ns) - c)")
     (auto simp: next_node_def split: if_splits option.splits)

declare file_loop.simps [simp del]

definition WriteToFile :: "bool \<Rightarrow> bytearray \<Rightarrow> (bool \<times> cell list) res" where
  "WriteToFile opened ba =
     (if \<not> opened then Inr (False, [])
      else if GetReadSize ba > 0 \<and> base_size ba = 0 then Inl DivByZero
      else bindR (file_loop (nodes ba) (base_size ba) (cur ba) (position ba)
                    (int (GetReadSize ba)) []) (\<lambda>out. Inr (True, out)))"

function read_file_loop :: "nat \<Rightarrow> byte list \<Rightarrow> bytearray \<Rightarrow> bytearray res" where
  "read_file_loop b rest ba =
     (if b = 0 then Inl Diverges
      else bindR (Write (take b rest) ba) (\<lambda>ba'.
        if length rest < b then Inr ba' else read_file_loop b (drop b rest) ba'))"
  by pat_completeness auto
termination by (relation "measure (\<lambda>(b, rest, _). length rest)") auto

declare read_file_loop.simps [simp del]

definition ReadFromFile :: "byte list option \<Rightarrow> bytearray \<Rightarrow> (bool \<times> bytearray) res" where
  "ReadFromFile file ba =
     (case file of None \<Rightarrow> Inr (False, ba)
      | Some bs \<Rightarrow> bindR (read_file_loop (base_size ba) bs ba) (\<lambda>ba'. Inr (True, ba')))"

section \<open>Hexadecimal dump\<close>

definition hex_digit :: "nat \<Rightarrow> char" where
  "hex_digit n = ''0123456789abcdef'' ! n"

definition hex_byte :: "byte \<Rightarrow> string" where
  "hex_byte b = [hex_digit (unat b div 16), hex_digit (unat b mod 16), CHR '' '']"

fun hex_loop :: "nat \<Rightarrow> byte list \<Rightarrow> string" where
  "hex_loop i [] = []"
| "hex_loop i (b # bs) =
     (if i > 0 \<and> i mod 32 = 0 then [CHR 0x0A] else []) @ hex_byte b @ hex_loop (Suc i) bs"

definition ToHexString :: "bytearray \<Rightarrow> string res" where
  "ToHexString ba =
     bindR (ba_ToString ba) (\<lambda>cs. bindR (cells_bytes cs) (\<lambda>bs. Inr (hex_loop 0 bs)))"

section \<open>Buffers against the flat array\<close>

text \<open>The vector of buffers covers what the copy loop would read.\<close>

lemma iov_loop_read:
  assumes "read_loop ns cu npos ncap pos n = Inr (bs, r)"
  shows "\<exists>iovs. iov_loop ns cu npos ncap n = Inr iovs \<and> gather ns iovs = Inr bs"
  using assms
proof (induction ns cu npos ncap pos n arbitrary: bs r rule: read_loop.induct)
  case (1 ns cu npos ncap pos len)
  show ?case
  proof (cases "len = 0 \<or> cu = None \<or> len \<le> ncap")
    case True
    then show ?thesis using "1.prems"
      by (subst iov_loop.simps, subst (asm) read_loop.simps)
         (auto split: if_splits option.splits)
  next
    case False
    then obtain c where c: "cu = Some c" "0 < len" "ncap < len" by auto
    with "1.prems" obtain bs1 nd bs2 cu' pos' where
      get: "node_get ns c npos ncap = Inr bs1" "deref ns (next_node ns c) = Inr nd"
      and rec: "read_loop ns (next_node ns c) 0 (length nd) (pos + ncap) (len - ncap) =
        Inr (bs2, cu', pos')" and bs: "bs = bs1 @ bs2"
      by (subst (asm) read_loop.simps) auto
    from "1.IH" [OF _ c(1) _ get rec] c obtain iovs where
      "iov_loop ns (next_node ns c) 0 (length nd) (len - ncap) = Inr iovs"
      "gather ns iovs = Inr bs2" by auto
    with c get bs show ?thesis by (subst iov_loop.simps) simp
  qed
qed

lemma iov_loop_gather:
  assumes "uniform b ns" "0 < b" "c < length ns" "npos < b" "npos + ncap = b"
    and "c * b + npos + n \<le> length ns * b" "0 < n"
  obtains iovs where "iov_loop ns (Some c) npos ncap n = Inr iovs"
    "gather ns iovs = Inr (take n (drop (c * b + npos) (concat ns)))"
  using iov_loop_read [OF read_loop_correct [OF assms, of 0]] by auto

lemma iov_loop_scatter:
  assumes "uniform b ns" "0 < b" "c < length ns" "npos < b" "npos + ncap = b"
    and "c * b + npos + n \<le> length ns * b" "length bs \<le> n"
    and "iov_loop ns0 (Some c) npos ncap n = Inr iovs" "uniform b ns0" "length ns0 = length ns"
  shows "\<exists>ns'. scatter ns iovs bs = Inr ns' \<and> uniform b ns' \<and> length ns' = length ns \<and>
           concat ns' = overwrite (concat ns) (c * b + npos) bs"
  using assms
proof (induction n arbitrary: ns c npos ncap bs iovs rule: less_induct)
  case (less n)
  note uni = \<open>uniform b ns\<close>
  have upd: "uniform b (ns[c := overwrite (ns ! c) npos xs])" if "length xs \<le> ncap" for xs
    using that less.prems by (intro uniform_update) simp_all
  show ?case
  proof (cases "n \<le> ncap")
    case True
    then show ?thesis using less.prems upd [of bs]
      by (subst (asm) iov_loop.simps) (auto simp: node_put_def concat_update_node split: if_splits)
  next
    case False
    let ?ns = "ns[c := overwrite (ns ! c) npos (take ncap bs)]"
    have "c * b + b < length ns * b"
      using False less.prems by auto
    then have nxt: "Suc c < length ns"
      by (metis add.commute mult_Suc mult_less_cancel2)
    with False less.prems obtain iovs' where
      iovs: "iovs = (c, npos, ncap) # iovs'"
      and rec: "iov_loop ns0 (Some (Suc c)) 0 b (n - ncap) = Inr iovs'"
      by (subst (asm) iov_loop.simps) (auto simp: deref_def next_node_def)
    have uni': "uniform b ?ns" by (rule upd) simp
    have "\<exists>ns'. scatter ?ns iovs' (drop ncap bs) = Inr ns' \<and> uniform b ns' \<and>
        length ns' = length ?ns \<and>
        concat ns' = overwrite (concat ?ns) (Suc c * b + 0) (drop ncap bs)"
      using less.prems False nxt uni' rec by (intro less.IH [of "n - ncap"]) auto
    then obtain ns' where sc: "scatter ?ns iovs' (drop ncap bs) = Inr ns'" "uniform b ns'"
        "length ns' = length ns"
      and cat: "concat ns' = overwrite (concat ?ns) (c * b + npos + ncap) (drop ncap bs)"
      using less.prems by (auto simp: add.assoc add.commute add.left_commute)
    have "concat ?ns = overwrite (concat ns) (c * b + npos) (take ncap bs)"
      using less.prems by (intro concat_update_node) auto
    then have "concat ns' = overwrite (concat ns) (c * b + npos) bs"
      using cat less.prems length_concat_uniform' [OF uni]
        overwrite_split [of "c * b + npos" "take ncap bs" "drop ncap bs" "concat ns"]
      by (cases "ncap \<le> length bs") simp_all
    with sc iovs less.prems show ?thesis by (auto simp: node_put_def)
  qed
qed

lemma GetReadBuffers_flat:
  assumes "ba_wf ba"
  obtains iovs where
    "GetReadBuffers n ba = Inr (iovs, min n (ba_size ba - position ba))"
    "gather (nodes ba) iovs = Inr (take (min n (ba_size ba - position ba)) (drop (position ba) (flat ba)))"
proof -
  let ?b = "base_size ba" and ?p = "position ba" and ?n = "min n (ba_size ba - position ba)"
  have uni: "uniform ?b (nodes ba)" and cap: "capacity ba = length (nodes ba) * ?b"
    and b: "0 < ?b" and pos: "?p \<le> ba_size ba" "ba_size ba \<le> capacity ba"
    using assms by (simp_all add: ba_wf_def)
  have len: "(if n > GetReadSize ba then GetReadSize ba else n) = ?n"
    using pos by (simp add: GetReadSize_def min_def)
  show thesis
  proof (cases "?n = 0")
    case True
    then show ?thesis using that [of "[]"] len by (simp add: GetReadBuffers_def)
  next
    case False
    then have "?p < capacity ba" and room: "?p + ?n \<le> capacity ba" using pos by auto
    note node = cur_node [OF assms this(1)]
    obtain iovs where "iov_loop (nodes ba) (Some (?p div ?b)) (?p mod ?b) (?b - ?p mod ?b) ?n = Inr iovs"
      "gather (nodes ba) iovs = Inr (take ?n (drop ?p (concat (nodes ba))))"
      using iov_loop_gather [OF uni b node(2,3), of "?b - ?p mod ?b" ?n] node False room cap
      by (auto simp: less_imp_le)
    then show ?thesis using that [of iovs] node len False b
      by (simp add: GetReadBuffers_def Let_def flat_def)
  qed
qed

lemma skip_nodes_Some:
  "c + count < length ns \<Longrightarrow> skip_nodes ns (Some c) count = Inr (Some (c + count))"
  by (induction count arbitrary: c) (simp_all add: next_node_def)

lemma GetReadBuffersAt_flat:
  assumes "ba_wf ba" "q + min n (ba_size ba - position ba) \<le> capacity ba"
  obtains iovs where
    "GetReadBuffersAt n q ba = Inr (iovs, min n (ba_size ba - position ba))"
    "gather (nodes ba) iovs = Inr (take (min n (ba_size ba - position ba)) (drop q (flat ba)))"
proof -
  let ?b = "base_size ba" and ?n = "min n (ba_size ba - position ba)"
  have uni: "uniform ?b (nodes ba)" and cap: "capacity ba = length (nodes ba) * ?b"
    and b: "0 < ?b" and pos: "position ba \<le> ba_size ba"
    using assms by (simp_all add: ba_wf_def)
  have len: "(if n > GetReadSize ba then GetReadSize ba else n) = ?n"
    using pos by (simp add: GetReadSize_def min_def)
  show thesis
  proof (cases "?n = 0")
    case True
    then show ?thesis using that [of "[]"] len by (simp add: GetReadBuffersAt_def)
  next
    case False
    then have "q < length (nodes ba) * ?b" using assms cap by linarith
    then have c: "q div ?b < length (nodes ba)" by (rule less_mult_imp_div_less)
    moreover have off: "q mod ?b < ?b" using b by simp
    ultimately obtain iovs where
      "iov_loop (nodes ba) (Some (q div ?b)) (q mod ?b) (?b - q mod ?b) ?n = Inr iovs"
      "gather (nodes ba) iovs = Inr (take ?n (drop q (concat (nodes ba))))"
      using iov_loop_gather [OF uni b, of "q div ?b" "q mod ?b" "?b - q mod ?b" ?n] assms cap False
      by (auto simp: less_imp_le)
    then show ?thesis using that [of iovs] len False b c off skip_nodes_Some [of 0 "q div ?b"] uni
      by (simp add: GetReadBuffersAt_def Let_def flat_def deref_def)
  qed
qed

lemma GetWriteBuffers_flat:
  assumes "ba_wf ba" "length bs \<le> n"
  obtains iovs ba1 ba2 k where
    "GetWriteBuffers n ba = Inr (iovs, n, ba1)" "recv_into iovs bs ba1 = Inr ba2"
    "ba_wf ba1" "ba_wf ba2" "flat ba1 = flat ba @ replicate k None"
    "flat ba2 = overwrite (flat ba1) (position ba) (map Some bs)"
    "position ba + n \<le> capacity ba2" "position ba2 = position ba" "ba_size ba2 = ba_size ba"
    "endian ba2 = endian ba" "base_size ba2 = base_size ba"
    "position ba + n \<le> length (flat ba1)"
proof (cases "n = 0")
  case True
  with assms show ?thesis using that [of "[]" ba ba 0] length_flat [OF assms(1)]
    by (auto simp: GetWriteBuffers_def recv_into_def ba_wf_def)
next
  case False
  obtain ba1 k where add: "AddCapacity n ba = Inr ba1" and wf1: "ba_wf ba1"
    and eqs: "position ba1 = position ba" "ba_size ba1 = ba_size ba" "endian ba1 = endian ba"
      "base_size ba1 = base_size ba" "flat ba1 = flat ba @ replicate k None"
    and room: "position ba + n \<le> capacity ba1"
    using AddCapacity_correct [OF assms(1), of n] by metis
  let ?b = "base_size ba1" and ?p = "position ba1"
  have "?p < capacity ba1" using False room eqs by simp
  note node = cur_node [OF wf1 this]
  have uni: "uniform ?b (nodes ba1)" and cap: "capacity ba1 = length (nodes ba1) * ?b"
    and b: "0 < ?b" using wf1 by (simp_all add: ba_wf_def)
  have split: "?p mod ?b + (?b - ?p mod ?b) = ?b" using node(3) by simp
  have fit: "?p div ?b * ?b + ?p mod ?b + n \<le> length (nodes ba1) * ?b"
    using room eqs cap node(4) by simp
  obtain iovs where
    iovs: "iov_loop (nodes ba1) (Some (?p div ?b)) (?p mod ?b) (?b - ?p mod ?b) n = Inr iovs"
    using iov_loop_gather [OF uni b node(2,3) split fit] False by auto
  obtain ns where sc: "scatter (nodes ba1) iovs (map Some bs) = Inr ns" "uniform ?b ns"
      "length ns = length (nodes ba1)" "concat ns = overwrite (concat (nodes ba1)) ?p (map Some bs)"
    using iov_loop_scatter [OF uni b node(2,3) split fit _ iovs uni refl, of "map Some bs"]
      assms(2) node(4) by auto
  have "GetWriteBuffers n ba = Inr (iovs, n, ba1)"
    using False add b node iovs by (simp add: GetWriteBuffers_def Let_def)
  moreover have "recv_into iovs bs ba1 = Inr (ba1\<lparr>nodes := ns\<rparr>)"
    using sc by (simp add: recv_into_def)
  moreover have "ba_wf (ba1\<lparr>nodes := ns\<rparr>)"
    using wf1 sc by (auto simp: ba_wf_def)
  ultimately show ?thesis
    using that [of iovs ba1 "ba1\<lparr>nodes := ns\<rparr>" k] wf1 eqs room sc length_flat [OF wf1]
    by (simp add: flat_def)
qed

section \<open>File operations\<close>

lemma file_loop_done [simp]: "file_loop ns b cu pos 0 out = Inr out"
  by (subst file_loop.simps) simp

lemma nat_int_diff: "nat (int m - int n) = m - n"
  by linarith

lemma file_loop_correct:
  assumes "uniform b ns" "0 < b" "c < length ns" "npos < b"
    and "c * b + npos + n \<le> length ns * b" "0 < n" "npos = 0 \<or> b \<le> n"
  shows "file_loop ns b (Some c) (c * b + npos) (int n) out =
           Inr (out @ take n (drop (c * b + npos) (concat ns)))"
  using assms
proof (induction n arbitrary: c npos out rule: less_induct)
  case (less n)
  show ?case
  proof (cases "npos = 0 \<and> n \<le> b")
    case True
    then show ?thesis using less.prems concat_node_range [of b ns c 0 n]
      by (subst file_loop.simps) (auto simp: node_get_def)
  next
    case False
    let ?k = "b - npos"
    have k: "0 < ?k" "?k < n" "npos + ?k = b" "b \<le> n" using False less.prems by auto
    have "c * b + b < length ns * b" using k less.prems by linarith
    then have nxt: "Suc c < length ns" by (metis add.commute mult_Suc mult_less_cancel2)
    have rec: "file_loop ns b (Some (Suc c)) (Suc c * b + 0) (int (n - ?k)) o' =
        Inr (o' @ take (n - ?k) (drop (Suc c * b + 0) (concat ns)))" for o'
    proof (rule less.IH)
      show "Suc c * b + 0 + (n - ?k) \<le> length ns * b" using less.prems k by auto
    qed (use less.prems k nxt in auto)
    have "take ?k (drop npos (ns ! c)) = take ?k (drop (c * b + npos) (concat ns))"
      using less.prems k by (intro concat_node_range) auto
    moreover have "take n (drop (c * b + npos) (concat ns)) =
        take ?k (drop (c * b + npos) (concat ns)) @
        take (n - ?k) (drop ?k (drop (c * b + npos) (concat ns)))"
      using k by (metis le_add_diff_inverse less_imp_le take_add)
    moreover have "?k + (c * b + npos) = Suc c * b" "c * b + npos + ?k = Suc c * b"
      using k by simp_all
    ultimately have out: "take ?k (drop npos (ns ! c)) @ take (n - ?k) (drop (Suc c * b) (concat ns)) =
        take n (drop (c * b + npos) (concat ns))" by (simp only: drop_drop)
    have len: "(if int n > int b then int b else int n) = int b"
      "int n - (int b - int npos) = int (n - ?k)"
      using k by auto
    have "file_loop ns b (Some c) (c * b + npos) (int n) out =
        file_loop ns b (Some (Suc c)) (c * b + npos + ?k) (int (n - ?k)) (out @ take ?k (drop npos (ns ! c)))"
      using less.prems nxt k
      by (subst file_loop.simps) (simp add: node_get_def next_node_def Let_def len nat_int_diff del: of_nat_diff)
    also have "\<dots> = Inr ((out @ take ?k (drop npos (ns ! c))) @
        take (n - ?k) (drop (Suc c * b + 0) (concat ns)))"
      using rec \<open>c * b + npos + ?k = Suc c * b\<close> by (simp add: add.commute)
    finally show ?thesis using out by simp
  qed
qed

lemma file_loop_faults:
  assumes "0 < r" "r < int b" "0 < pos mod b"
  shows "\<exists>e. file_loop ns b cu pos r out = Inl e"
  using assms
proof (induction ns b cu pos r out rule: file_loop.induct)
  case (1 ns b cu pos r out)
  let ?d = "pos mod b"
  show ?case
  proof (cases cu)
    case (Some c)
    show ?thesis
    proof (cases "r - int ?d < 0 \<or> c \<ge> length ns \<or> \<not> ?d + nat (r - int ?d) \<le> length (ns ! c)")
      case True
      then show ?thesis using "1.prems" Some
        by (subst file_loop.simps) (auto simp: Let_def node_get_def)
    next
      case False
      let ?bs = "take (nat (r - int ?d)) (drop ?d (ns ! c))"
      have "(pos + nat (r - int ?d)) mod b = (?d + nat (r - int ?d)) mod b"
        by (simp add: mod_add_left_eq)
      also have "?d + nat (r - int ?d) = nat r" using False by linarith
      also have "nat r mod b = nat r" using "1.prems" by (simp add: nat_less_iff)
      finally have "0 < (pos + nat (r - int ?d)) mod b" using "1.prems" by simp
      then have "\<exists>e. file_loop ns b (next_node ns c) (pos + nat (r - int ?d)) (r - (r - int ?d)) (out @ ?bs)
          = Inl e"
        using "1.prems" False Some "1.IH" [of c ?d "r - int ?d" ?bs] by (simp add: node_get_def)
      then show ?thesis using "1.prems" False Some
        by (subst file_loop.simps) (auto simp: Let_def node_get_def)
    qed
  qed (use "1.prems" in \<open>subst file_loop.simps, auto\<close>)
qed

lemma read_file_loop_correct:
  assumes "ba_wf ba" "0 < b"
  shows "\<exists>ba'. read_file_loop b bs ba = Inr ba' \<and> ba_wf ba' \<and>
     position ba' = position ba + length bs \<and>
     ba_size ba' = max (ba_size ba) (position ba + length bs) \<and>
     (\<forall>i. ba_cell ba' i = (if position ba \<le> i \<and> i < position ba + length bs
            then Some (bs ! (i - position ba)) else ba_cell ba i))"
  using assms
proof (induction bs arbitrary: ba rule: length_induct)
  case (1 bs)
  from Write_cells [OF 1(2), of "take b bs"] obtain ba1 where
    w: "Write (take b bs) ba = Inr ba1" "ba_wf ba1" "position ba1 = position ba + min (length bs) b"
      "ba_size ba1 = max (ba_size ba) (position ba + min (length bs) b)"
    and cells: "\<And>i. ba_cell ba1 i = (if position ba \<le> i \<and> i < position ba + min (length bs) b
            then Some (take b bs ! (i - position ba)) else ba_cell ba i)"
    by auto
  show ?case
  proof (cases "length bs < b")
    case True
    with 1 w cells show ?thesis
      by (intro exI [of _ ba1]) (subst read_file_loop.simps, auto)
  next
    case False
    with 1 have "length (drop b bs) < length bs" by simp
    with 1 w(2) obtain ba2 where
      r: "read_file_loop b (drop b bs) ba1 = Inr ba2" "ba_wf ba2"
        "position ba2 = position ba1 + length (drop b bs)"
        "ba_size ba2 = max (ba_size ba1) (position ba1 + length (drop b bs))"
      and cells2: "\<forall>i. ba_cell ba2 i = (if position ba1 \<le> i \<and> i < position ba1 + length (drop b bs)
            then Some (drop b bs ! (i - position ba1)) else ba_cell ba1 i)"
      by blast
    have "read_file_loop b bs ba = Inr ba2"
      using False 1 w r by (subst read_file_loop.simps) auto
    moreover have "ba_cell ba2 i = (if position ba \<le> i \<and> i < position ba + length bs
            then Some (bs ! (i - position ba)) else ba_cell ba i)" for i
      using cells2 cells w(3) False by (auto simp: add.assoc)
    ultimately show ?thesis using False w r by auto
  qed
qed

lemma recv_into_is_write:
  assumes "ba_wf ba" "length bs \<le> n"
  shows "\<exists>iovs ba1 ba2 ba3 w. GetWriteBuffers n ba = Inr (iovs, n, ba1) \<and>
    recv_into iovs bs ba1 = Inr ba2 \<and> SetPosition (position ba + length bs) ba2 = Inr ba3 \<and>
    Write bs ba = Inr w \<and> ba_wf ba3 \<and> position ba3 = position w \<and> ba_size ba3 = ba_size w \<and>
    ba_cell ba3 = ba_cell w"
proof -
  obtain iovs ba1 ba2 k where b: "GetWriteBuffers n ba = Inr (iovs, n, ba1)"
      "recv_into iovs bs ba1 = Inr ba2" "ba_wf ba2" "flat ba1 = flat ba @ replicate k None"
      "flat ba2 = overwrite (flat ba1) (position ba) (map Some bs)"
      "position ba + n \<le> capacity ba2" "ba_wf ba1" "ba_size ba2 = ba_size ba"
      "position ba + n \<le> length (flat ba1)"
    using GetWriteBuffers_flat [OF assms] by metis
  obtain ba3 where s: "SetPosition (position ba + length bs) ba2 = Inr ba3" "ba_wf ba3"
      "position ba3 = position ba + length bs" "ba_size ba3 = max (ba_size ba2) (position ba + length bs)"
      "flat ba3 = flat ba2"
    using SetPosition_flat [OF b(3), of "position ba + length bs"] b(6) assms(2) by auto
  from Write_cells [OF assms(1), of bs] obtain w where w: "Write bs ba = Inr w"
      "position w = position ba + length bs" "ba_size w = max (ba_size ba) (position ba + length bs)"
    and cells: "\<And>i. ba_cell w i = (if position ba \<le> i \<and> i < position ba + length bs
            then Some (bs ! (i - position ba)) else ba_cell ba i)" by auto
  have "position ba + length bs \<le> length (flat ba1)"
    using b(9) assms(2) by simp
  then have "ba_cell ba3 i = ba_cell w i" for i
    unfolding cells using b(4,5) s(5) by (auto simp: ba_cell_def nth_overwrite nth_append)
  with b s w show ?thesis by auto
qed

section \<open>Properties\<close>

text \<open>
  The scatter/gather read view: gathering the buffers that \<open>GetReadBuffers\<close> hands out gives the
  next \<open>min len readSize\<close> cells from the position on, which is also the number it returns.
\<close>

theorem GetReadBuffers_refines:
  assumes "ba_wf ba"
  shows "\<exists>iovs. GetReadBuffers n ba = Inr (iovs, min n (ba_size ba - position ba)) \<and>
    gather (nodes ba) iovs =
      Inr (take (min n (ba_size ba - position ba)) (drop (position ba) (flat ba)))"
  using GetReadBuffers_flat [OF assms, of n] by metis

theorem GetReadBuffers_refines_witness:
  "\<exists>iovs. GetReadBuffers 5 (newByteArray 2) = Inr (iovs, 0)"
  using GetReadBuffers_refines [OF newByteArray_2_wf, of 5] by (auto simp: newByteArray_def)

text \<open>
  C24. Receiving into the write buffers is a write: after \<open>GetWriteBuffers n\<close>, filling the front of
  the buffers with at most \<open>n\<close> bytes and moving the position behind them leaves the buffer with the
  position, the size and the contents that \<open>Write\<close> of these bytes gives, and well-formed.
\<close>

theorem recv_into_write_buffers:
  assumes "ba_wf ba" "length bs \<le> n"
  shows "\<exists>iovs ba1 ba2 ba3 w. GetWriteBuffers n ba = Inr (iovs, n, ba1) \<and>
    recv_into iovs bs ba1 = Inr ba2 \<and> SetPosition (position ba + length bs) ba2 = Inr ba3 \<and>
    Write bs ba = Inr w \<and> ba_wf ba3 \<and> position ba3 = position w \<and> ba_size ba3 = ba_size w \<and>
    ba_cell ba3 = ba_cell w"
  using assms by (rule recv_into_is_write)

theorem recv_into_write_buffers_witness:
  "\<exists>iovs ba1 ba2 ba3. GetWriteBuffers 4 (newByteArray 2) = Inr (iovs, 4, ba1) \<and>
     recv_into iovs [7, 8, 9] ba1 = Inr ba2 \<and>
     SetPosition (position (newByteArray 2) + length [7::byte, 8, 9]) ba2 = Inr ba3 \<and> ba_wf ba3"
  using recv_into_write_buffers [OF newByteArray_2_wf, of "[7, 8, 9]" 4] by auto


text \<open>Three bytes in nodes of four, read from the start and from the second byte.\<close>

definition three_bytes :: "nat \<Rightarrow> bytearray" where
  "three_bytes pos = (newByteArray 4)\<lparr>nodes := [[Some 7, Some 8, Some 9, None]], ba_size := 3, position := pos\<rparr>"


text \<open>
  Loading a file appends all of it at the position, whatever its length is relative to the node
  size: \<open>ReadFromFile\<close> returns, keeps the invariant and writes exactly the bytes of the file.
\<close>

theorem ReadFromFile_loads:
  assumes "ba_wf ba"
  shows "\<exists>ba' w. ReadFromFile (Some bs) ba = Inr (True, ba') \<and> Write bs ba = Inr w \<and> ba_wf ba' \<and>
    position ba' = position w \<and> ba_size ba' = ba_size w \<and> ba_cell ba' = ba_cell w"
proof -
  have "0 < base_size ba" using assms by (simp add: ba_wf_def)
  from read_file_loop_correct [OF assms this, of bs] Write_cells [OF assms, of bs]
  show ?thesis by (auto simp: ReadFromFile_def fun_eq_iff)
qed

theorem ReadFromFile_loads_witness:
  "\<exists>ba'. ReadFromFile (Some [1, 2, 3, 4, 5]) (newByteArray 2) = Inr (True, ba') \<and> ba_wf ba'"
  using ReadFromFile_loads [OF newByteArray_2_wf, of "[1, 2, 3, 4, 5]"] by auto

end
