(* ===== verification/FdManager.thy ===== *)
theory FdManager
  imports Prelude
begin

text \<open>
  File-descriptor contexts and their table (\<open>gudov/fdmanager.{h,cpp}\<close>), and the contract of a table
  that grows by half when it is indexed past its end, which the event table of \<open>IOManager\<close> shares.
  The operating system's view of a descriptor (whether \<open>fstat\<close> succeeds and reports a socket, and its
  status flags) is an argument; \<open>fcntl(F_SETFL)\<close> updates the flags.
\<close>

section \<open>Tables that grow by half\<close>

definition grow_half :: "nat \<Rightarrow> nat" where
  "grow_half fd = fd * 3 div 2"

locale growing_table =
  fixes len :: "'t \<Rightarrow> nat"
    and slot :: "'t \<Rightarrow> nat \<Rightarrow> 'a"
    and resize :: "nat \<Rightarrow> 't \<Rightarrow> 't"
  assumes len_resize: "len (resize n t) = n"
    and slot_resize: "i < n \<Longrightarrow> i < len t \<Longrightarrow> slot (resize n t) i = slot t i"
begin

lemma grow_half_covers:
  assumes "2 \<le> len t" "len t \<le> fd"
  shows "fd < len (resize (grow_half fd) t)"
  using assms by (simp add: len_resize grow_half_def)

lemma grow_half_keeps:
  assumes "2 \<le> len t" "len t \<le> fd" "i < len t"
  shows "slot (resize (grow_half fd) t) i = slot t i"
  using assms by (intro slot_resize) (simp_all add: grow_half_def)

end

section \<open>Descriptor contexts\<close>

definition O_NONBLOCK :: u32 where "O_NONBLOCK = 0x800"
definition SO_RCVTIMEO :: int where "SO_RCVTIMEO = 20"
definition SO_SNDTIMEO :: int where "SO_SNDTIMEO = 21"

text \<open>\<open>stat_sock fd\<close> is \<open>None\<close> when \<open>fstat\<close> fails; \<open>flags fd\<close> is \<open>None\<close> when \<open>F_GETFL\<close> fails.\<close>

record os =
  stat_sock :: "int \<Rightarrow> bool option"
  flags :: "int \<Rightarrow> u32 option"

definition os_getfl :: "int \<Rightarrow> os \<Rightarrow> u32" where
  "os_getfl fd w = (case flags w fd of None \<Rightarrow> -1 | Some fl \<Rightarrow> fl)"

definition os_setfl :: "int \<Rightarrow> u32 \<Rightarrow> os \<Rightarrow> os" where
  "os_setfl fd fl w = (case flags w fd of None \<Rightarrow> w | Some _ \<Rightarrow> w\<lparr>flags := (flags w)(fd := Some fl)\<rparr>)"

record fdctx =
  is_init :: bool
  is_socket :: bool
  sys_nonblock :: bool
  user_nonblock :: bool
  fdc_fd :: int
  recv_timeout :: u64
  send_timeout :: u64

definition IsClose :: "fdctx \<Rightarrow> os \<Rightarrow> bool" where
  "IsClose c w \<longleftrightarrow> os_getfl (fdc_fd c) w = -1"

definition FdCtx_Init :: "fdctx \<Rightarrow> os \<Rightarrow> bool \<times> fdctx \<times> os" where
  "FdCtx_Init c w =
     (if is_init c then (True, c, w)
      else let c1 = c\<lparr>recv_timeout := -1, send_timeout := -1\<rparr>;
               c2 = (case stat_sock w (fdc_fd c) of
                       None \<Rightarrow> c1\<lparr>is_init := False, is_socket := False\<rparr>
                     | Some sock \<Rightarrow> c1\<lparr>is_init := True, is_socket := sock\<rparr>);
               fl = os_getfl (fdc_fd c) w;
               (c3, w3) =
                 (if is_socket c2
                  then (c2\<lparr>sys_nonblock := True\<rparr>,
                        if fl AND O_NONBLOCK = 0 then os_setfl (fdc_fd c) (fl OR O_NONBLOCK) w else w)
                  else (c2\<lparr>sys_nonblock := False\<rparr>, w));
               c4 = c3\<lparr>user_nonblock := False\<rparr>
           in (is_init c4, c4, w3))"

definition newFdCtx :: "int \<Rightarrow> os \<Rightarrow> fdctx \<times> os" where
  "newFdCtx fd w =
     (let c = \<lparr>is_init = False, is_socket = False, sys_nonblock = False, user_nonblock = False,
               fdc_fd = fd, recv_timeout = -1, send_timeout = -1\<rparr>;
          (_, c', w') = FdCtx_Init c w in (c', w'))"

definition SetTimeout :: "int \<Rightarrow> u64 \<Rightarrow> fdctx \<Rightarrow> fdctx" where
  "SetTimeout type v c = (if type = SO_RCVTIMEO then c\<lparr>recv_timeout := v\<rparr> else c\<lparr>send_timeout := v\<rparr>)"

definition GetTimeout :: "int \<Rightarrow> fdctx \<Rightarrow> u64" where
  "GetTimeout type c = (if type = SO_RCVTIMEO then recv_timeout c else send_timeout c)"

section \<open>The table\<close>

type_synonym fdtable = "fdctx option list"

definition newFdManager :: fdtable where
  "newFdManager = replicate 64 None"

definition vec_resize :: "nat \<Rightarrow> 'a option list \<Rightarrow> 'a option list" where
  "vec_resize n xs = take n xs @ replicate (n - length xs) None"

text \<open>
  The growth loop runs while the index is past the end; it is entered at most once when the table
  has at least two slots, and never ends for a table of fewer.
\<close>

definition grow_loop :: "nat \<Rightarrow> fdtable \<Rightarrow> fdtable res" where
  "grow_loop fd t = (if fd < length t then Inr t
     else let t' = vec_resize (grow_half fd) t in if fd < length t' then Inr t' else Inl Diverges)"

definition FdMgr_Get :: "int \<Rightarrow> bool \<Rightarrow> fdtable \<Rightarrow> os \<Rightarrow> (fdctx option \<times> fdtable \<times> os) res" where
  "FdMgr_Get fd auto_create t w =
     (if fd < 0 then Inr (None, t, w)
      else let i = nat fd in
        if length t \<le> i \<and> \<not> auto_create then Inr (None, t, w)
        else if i < length t \<and> (t ! i \<noteq> None \<or> \<not> auto_create) then Inr (t ! i, t, w)
        else let (c, w') = newFdCtx fd w in
          bindR (grow_loop i t) (\<lambda>t'. Inr (Some c, t'[i := Some c], w')))"

definition FdMgr_Del :: "int \<Rightarrow> fdtable \<Rightarrow> fdtable" where
  "FdMgr_Del fd t = (if fd < 0 \<or> length t \<le> nat fd then t else t[nat fd := None])"

text \<open>Contexts are shared: a setter through a pointer the table holds changes the table's entry.\<close>

definition fdt_update :: "int \<Rightarrow> (fdctx \<Rightarrow> fdctx) \<Rightarrow> fdtable \<Rightarrow> fdtable" where
  "fdt_update fd g t =
     (if 0 \<le> fd \<and> nat fd < length t then t[nat fd := map_option g (t ! nat fd)] else t)"

interpretation fdt: growing_table length "(!)" vec_resize
  by unfold_locales (auto simp: vec_resize_def nth_append)

section \<open>Lemmas\<close>

definition fdt_wf :: "fdtable \<Rightarrow> bool" where
  "fdt_wf t \<longleftrightarrow> 2 \<le> length t \<and>
     (\<forall>i < length t. \<forall>c. t ! i = Some c \<longrightarrow> fdc_fd c = int i \<and> (is_socket c \<longrightarrow> is_init c) \<and>
        sys_nonblock c = is_socket c)"

definition fdt_lookup :: "fdtable \<Rightarrow> int \<Rightarrow> fdctx option" where
  "fdt_lookup t fd = (if 0 \<le> fd \<and> nat fd < length t then t ! nat fd else None)"

lemma newFdManager_wf: "fdt_wf newFdManager"
  by (simp add: fdt_wf_def newFdManager_def)

lemma newFdCtx_props:
  assumes "newFdCtx fd w = (c, w')"
  shows "fdc_fd c = fd" "is_socket c \<longrightarrow> is_init c" "sys_nonblock c = is_socket c"
    "user_nonblock c = False" "recv_timeout c = -1" "send_timeout c = -1"
    "is_socket c = (stat_sock w fd = Some True)"
  using assms
  by (auto simp: newFdCtx_def FdCtx_Init_def Let_def split: option.splits if_splits)

lemma grow_loop_ok:
  assumes "2 \<le> length t"
  shows "\<exists>t'. grow_loop fd t = Inr t' \<and> fd < length t' \<and> length t \<le> length t' \<and>
    (\<forall>i < length t'. t' ! i = (if i < length t then t ! i else None))"
proof (cases "fd < length t")
  case False
  then have "length t \<le> fd" by simp
  then have "fd < length (vec_resize (grow_half fd) t)" "length t \<le> grow_half fd"
    using fdt.grow_half_covers [OF assms, of fd] assms by (auto simp: grow_half_def)
  then show ?thesis using False by (auto simp: grow_loop_def vec_resize_def nth_append)
qed (auto simp: grow_loop_def)

lemma FdMgr_Get_ok:
  assumes "fdt_wf t"
  shows "\<exists>r t' w'. FdMgr_Get fd auto t w = Inr (r, t', w') \<and> fdt_wf t' \<and>
    r = fdt_lookup t' fd \<and>
    (\<forall>g. g \<noteq> fd \<longrightarrow> fdt_lookup t' g = fdt_lookup t g) \<and>
    (fdt_lookup t fd \<noteq> None \<or> \<not> auto \<or> fd < 0 \<longrightarrow> r = fdt_lookup t fd \<and> t' = t) \<and>
    (fdt_lookup t fd = None \<and> auto \<and> 0 \<le> fd \<longrightarrow> r = Some (fst (newFdCtx fd w)))"
proof (cases "fdt_lookup t fd \<noteq> None \<or> \<not> auto \<or> fd < 0")
  case True
  then show ?thesis using assms by (auto simp: FdMgr_Get_def fdt_lookup_def)
next
  case False
  obtain c w' where c: "newFdCtx fd w = (c, w')" by fastforce
  from assms have "2 \<le> length t" by (simp add: fdt_wf_def)
  then obtain t' where g: "grow_loop (nat fd) t = Inr t'" "nat fd < length t'" "length t \<le> length t'"
    "\<forall>i < length t'. t' ! i = (if i < length t then t ! i else None)"
    using grow_loop_ok by blast
  have "FdMgr_Get fd auto t w = Inr (Some c, t'[nat fd := Some c], w')"
    using False c g by (auto simp: FdMgr_Get_def fdt_lookup_def split: if_splits)
  moreover have "fdt_wf (t'[nat fd := Some c])"
    using assms g newFdCtx_props [OF c] False by (auto simp: fdt_wf_def nth_list_update)
  moreover have "fdt_lookup (t'[nat fd := Some c]) h = fdt_lookup t h" if "h \<noteq> fd" for h
    using g that False by (auto simp: fdt_lookup_def nth_list_update)
  ultimately show ?thesis using False g c by (auto simp: fdt_lookup_def)
qed

section \<open>Properties\<close>

text \<open>
  The descriptor table: on a well-formed table \<open>Get\<close> always returns and keeps it well-formed;
  it returns the context stored for the descriptor, or with \<open>auto_create\<close> a fresh one (a socket is
  then in non-blocking mode at the system level) which it stores, and it changes no other entry
  although it may grow the table.
\<close>

theorem FdMgr_Get_spec:
  assumes "fdt_wf t"
  shows "\<exists>r t' w'. FdMgr_Get fd auto t w = Inr (r, t', w') \<and> fdt_wf t' \<and>
    r = fdt_lookup t' fd \<and>
    (\<forall>g. g \<noteq> fd \<longrightarrow> fdt_lookup t' g = fdt_lookup t g) \<and>
    (fdt_lookup t fd \<noteq> None \<or> \<not> auto \<or> fd < 0 \<longrightarrow> r = fdt_lookup t fd \<and> t' = t) \<and>
    (fdt_lookup t fd = None \<and> auto \<and> 0 \<le> fd \<longrightarrow> r = Some (fst (newFdCtx fd w)))"
  using FdMgr_Get_ok [OF assms] .

theorem FdMgr_Get_spec_witness:
  "\<exists>r t' w'. FdMgr_Get 100 True newFdManager \<lparr>stat_sock = (\<lambda>_. Some True), flags = (\<lambda>_. Some 0)\<rparr>
     = Inr (r, t', w') \<and> fdt_wf t' \<and> r \<noteq> None"
  using FdMgr_Get_spec [OF newFdManager_wf, of 100 True
      "\<lparr>stat_sock = (\<lambda>_. Some True), flags = (\<lambda>_. Some 0)\<rparr>"]
  by (auto simp: fdt_lookup_def newFdManager_def)

end
