(* ===== verification/Hook.thy ===== *)
theory Hook
  imports FdManager "HOL-Library.Signed_Division"
begin

text \<open>
  The hooked system calls (\<open>gudov/hook.{h,cpp}\<close>) over the table of descriptor contexts.  What the
  original functions return and how a parked fiber is woken are scripts: a list of outcomes of the
  successive calls and a list of what happens at each attempt to park.  The operations return their
  result together with the actions they perform on the I/O manager (timers, events, yields), in
  order; an exhausted script is a call that never returns.  A thread may have the hooks on and no I/O
  manager (\<open>Scheduler::Run\<close> enables them on every worker, \<open>IOManager::GetThis\<close> is null on those of a plain
  scheduler): a call that then has to wait uses the null pointer, which is a fault.

  The lemmas show the contract of the retry loop (which errors a caller can see, that every timer
  it adds is cancelled, which outcome it returns, and when it faults), that non-blocking mode is virtualised, that
  socket timeouts can be read back, and how long the hooked sleeps wait.
\<close>

unbundle bit_operations_syntax

section \<open>Errors and scripts\<close>

definition EINTR :: int where "EINTR = 4"
definition EBADF :: int where "EBADF = 9"
definition EAGAIN :: int where "EAGAIN = 11"
definition ETIMEDOUT :: int where "ETIMEDOUT = 110"
definition EINPROGRESS :: int where "EINPROGRESS = 115"

lemmas errno_defs = EINTR_def EBADF_def EAGAIN_def ETIMEDOUT_def EINPROGRESS_def

text \<open>A result other than -1, or -1 with \<open>errno\<close>.\<close>

datatype outcome = Ret int | Err int

text \<open>
  Parking a fiber: the event cannot be added (with \<open>errno\<close> afterwards), the event occurs or is
  cancelled by someone else, or the timer of the call fires first.
\<close>

datatype parking = AddFails int | Woken | TimedOut

datatype haction =
    AAddTimer u64
  | AAddEvent u32
  | AYield
  | ACancelTimer
  | ACancelAll int

text \<open>\<open>has_iom\<close> says whether \<open>IOManager::GetThis()\<close> of the calling thread is not null.\<close>

record hstate =
  hook_enable :: bool
  has_iom :: bool
  fdtab :: fdtable
  osys :: os
  connect_timeout :: u64

definition IsHookEnable :: "hstate \<Rightarrow> bool" where "IsHookEnable h \<longleftrightarrow> hook_enable h"
definition SetHookEnable :: "bool \<Rightarrow> hstate \<Rightarrow> hstate" where "SetHookEnable b h = h\<lparr>hook_enable := b\<rparr>"

section \<open>Retried calls\<close>

text \<open>Calls are repeated while they are interrupted.\<close>

fun call_eintr :: "outcome list \<Rightarrow> (outcome \<times> outcome list) option" where
  "call_eintr [] = None"
| "call_eintr (r # rs) = (if r = Err EINTR then call_eintr rs else Some (r, rs))"

lemma call_eintr_shorter: "call_eintr os = Some (r, rs) \<Longrightarrow> length rs < length os"
  by (induction os) (auto split: if_splits)

text \<open>
  The timer, if any, is added before the event and cancelled after the fiber runs again or when the
  event could not be added.  Only the timer sets \<open>cancelled\<close>.
\<close>

definition park_actions :: "u64 \<Rightarrow> u32 \<Rightarrow> parking \<Rightarrow> haction list" where
  "park_actions timeout event p =
     (if timeout \<noteq> -1 then [AAddTimer timeout] else []) @ [AAddEvent event] @
     (case p of AddFails _ \<Rightarrow> [] | _ \<Rightarrow> [AYield]) @
     (if timeout \<noteq> -1 then [ACancelTimer] else [])"

function doIO_retry ::
  "bool \<Rightarrow> u64 \<Rightarrow> u32 \<Rightarrow> outcome list \<Rightarrow> parking list \<Rightarrow> haction list \<Rightarrow> (outcome \<times> haction list) res" where
  "doIO_retry iom timeout event os ps acts =
     (case call_eintr os of
        None \<Rightarrow> Inl Diverges
      | Some (r, rs) \<Rightarrow>
          if r = Err EAGAIN then
            if \<not> iom then Inl NullDeref
            else (case ps of
               [] \<Rightarrow> Inl Diverges
             | p # ps' \<Rightarrow>
                 (let acts' = acts @ park_actions timeout event p in
                  case p of
                    AddFails e \<Rightarrow> Inr (Err e, acts')
                  | TimedOut \<Rightarrow>
                      if timeout \<noteq> -1 then Inr (Err ETIMEDOUT, acts') else doIO_retry iom timeout event rs ps' acts'
                  | Woken \<Rightarrow> doIO_retry iom timeout event rs ps' acts'))
          else Inr (r, acts))"
  by pat_completeness auto

termination doIO_retry
  by (relation "measure (\<lambda>(_, _, _, os, _, _). length os)") (auto dest: call_eintr_shorter)

declare doIO_retry.simps [simp del]

definition direct :: "outcome list \<Rightarrow> outcome res" where
  "direct os = (case os of [] \<Rightarrow> Inl Diverges | r # _ \<Rightarrow> Inr r)"

definition doIO ::
  "int \<Rightarrow> u32 \<Rightarrow> int \<Rightarrow> outcome list \<Rightarrow> parking list \<Rightarrow> hstate \<Rightarrow> (outcome \<times> haction list) res" where
  "doIO fd event timeout_so os ps h =
     (if \<not> hook_enable h then bindR (direct os) (\<lambda>r. Inr (r, []))
      else bindR (FdMgr_Get fd False (fdtab h) (osys h)) (\<lambda>(ctx, _, _).
        case ctx of
          None \<Rightarrow> bindR (direct os) (\<lambda>r. Inr (r, []))
        | Some c \<Rightarrow>
            if IsClose c (osys h) then Inr (Err EBADF, [])
            else if \<not> is_socket c \<or> user_nonblock c then bindR (direct os) (\<lambda>r. Inr (r, []))
            else doIO_retry (has_iom h) (GetTimeout timeout_so c) event os ps []))"

definition hook_read :: "int \<Rightarrow> outcome list \<Rightarrow> parking list \<Rightarrow> hstate \<Rightarrow> (outcome \<times> haction list) res" where
  "hook_read fd os ps h = doIO fd 1 SO_RCVTIMEO os ps h"

definition hook_write :: "int \<Rightarrow> outcome list \<Rightarrow> parking list \<Rightarrow> hstate \<Rightarrow> (outcome \<times> haction list) res" where
  "hook_write fd os ps h = doIO fd 4 SO_SNDTIMEO os ps h"

section \<open>Descriptors\<close>

text \<open>
  \<open>socketF\<close> and \<open>acceptF\<close> make the descriptor \<open>fd\<close> that they return: a socket open for reading and writing,
  in blocking mode.
\<close>

definition os_open :: "int \<Rightarrow> os \<Rightarrow> os" where
  "os_open fd w = w\<lparr>stat_sock := (stat_sock w)(fd := Some True), flags := (flags w)(fd := Some 2)\<rparr>"

definition hook_socket :: "int \<Rightarrow> hstate \<Rightarrow> (int \<times> hstate) res" where
  "hook_socket fd h =
     (if fd = -1 then Inr (-1, h)
      else let h0 = h\<lparr>osys := os_open fd (osys h)\<rparr> in
        if \<not> hook_enable h then Inr (fd, h0)
        else bindR (FdMgr_Get fd True (fdtab h0) (osys h0)) (\<lambda>(_, t, w). Inr (fd, h0\<lparr>fdtab := t, osys := w\<rparr>)))"

definition hook_accept ::
  "int \<Rightarrow> outcome list \<Rightarrow> parking list \<Rightarrow> hstate \<Rightarrow> (outcome \<times> haction list \<times> hstate) res" where
  "hook_accept sockfd os ps h =
     bindR (doIO sockfd 1 SO_RCVTIMEO os ps h) (\<lambda>(r, acts).
       case r of
         Ret fd \<Rightarrow>
           if fd \<ge> 0 then
             bindR (FdMgr_Get fd True (fdtab h) (os_open fd (osys h))) (\<lambda>(_, t, w). Inr (r, acts, h\<lparr>fdtab := t, osys := w\<rparr>))
           else Inr (r, acts, h)
       | Err e \<Rightarrow> Inr (r, acts, h))"

text \<open>\<open>closeF\<close> frees the descriptor.\<close>

definition os_close :: "int \<Rightarrow> os \<Rightarrow> os" where
  "os_close fd w = w\<lparr>stat_sock := (stat_sock w)(fd := None), flags := (flags w)(fd := None)\<rparr>"

definition hook_close :: "int \<Rightarrow> hstate \<Rightarrow> (haction list \<times> hstate) res" where
  "hook_close fd h =
     (if \<not> hook_enable h then Inr ([], h\<lparr>osys := os_close fd (osys h)\<rparr>)
      else bindR (FdMgr_Get fd False (fdtab h) (osys h)) (\<lambda>(ctx, _, _).
        case ctx of
          None \<Rightarrow> Inr ([], h\<lparr>osys := os_close fd (osys h)\<rparr>)
        | Some c \<Rightarrow> Inr (if has_iom h then [ACancelAll fd] else [],
            h\<lparr>fdtab := FdMgr_Del fd (fdtab h), osys := os_close fd (osys h)\<rparr>)))"

section \<open>Non-blocking mode\<close>

definition managed :: "fdctx option \<Rightarrow> os \<Rightarrow> bool" where
  "managed ctx w = (case ctx of None \<Rightarrow> False | Some c \<Rightarrow> \<not> IsClose c w \<and> is_socket c)"

definition fcntl_setfl :: "int \<Rightarrow> u32 \<Rightarrow> hstate \<Rightarrow> hstate res" where
  "fcntl_setfl fd arg h =
     bindR (FdMgr_Get fd False (fdtab h) (osys h)) (\<lambda>(ctx, _, _).
       if \<not> managed ctx (osys h) then Inr (h\<lparr>osys := os_setfl fd arg (osys h)\<rparr>)
       else let t = fdt_update fd (\<lambda>c. c\<lparr>user_nonblock := (arg AND O_NONBLOCK \<noteq> 0)\<rparr>) (fdtab h);
                arg' = (if sys_nonblock (the ctx) then arg OR O_NONBLOCK else arg AND NOT O_NONBLOCK)
            in Inr (h\<lparr>fdtab := t, osys := os_setfl fd arg' (osys h)\<rparr>))"

definition fcntl_getfl :: "int \<Rightarrow> hstate \<Rightarrow> u32 res" where
  "fcntl_getfl fd h =
     (let arg = os_getfl fd (osys h) in
      bindR (FdMgr_Get fd False (fdtab h) (osys h)) (\<lambda>(ctx, _, _).
        if \<not> managed ctx (osys h) then Inr arg
        else if user_nonblock (the ctx) then Inr (arg OR O_NONBLOCK)
        else Inr (arg AND NOT O_NONBLOCK)))"

text \<open>
  The other commands are passed to the original \<open>fcntl\<close>; what is passed with them depends on the
  command, and a command that is not listed is passed without its argument.
\<close>

datatype fcntl_cmd =
    F_DUPFD | F_DUPFD_CLOEXEC | F_SETFD | F_SETOWN | F_SETSIG | F_SETLEASE | F_NOTIFY | F_SETPIPE_SZ
  | F_GETFD | F_GETOWN | F_GETSIG | F_GETLEASE | F_GETPIPE_SZ
  | F_SETLK | F_SETLKW | F_GETLK | F_GETOWN_EX | F_SETOWN_EX
  | F_SETFL | F_GETFL | F_other int

datatype fcntl_arg = NoArg | IntArg | LockArg | OwnerArg

fun fcntl_passes :: "fcntl_cmd \<Rightarrow> fcntl_arg" where
  "fcntl_passes cmd =
     (if cmd \<in> {F_SETFL, F_DUPFD, F_DUPFD_CLOEXEC, F_SETFD, F_SETOWN, F_SETSIG, F_SETLEASE, F_NOTIFY, F_SETPIPE_SZ}
      then IntArg
      else if cmd \<in> {F_SETLK, F_SETLKW, F_GETLK} then LockArg
      else if cmd \<in> {F_GETOWN_EX, F_SETOWN_EX} then OwnerArg
      else NoArg)"

text \<open>\<open>ioctl(FIONBIO)\<close>; the original call then sets or clears the flag of the descriptor itself.\<close>

definition ioctl_fionbio :: "int \<Rightarrow> int \<Rightarrow> hstate \<Rightarrow> hstate res" where
  "ioctl_fionbio fd arg h =
     (let w' = os_setfl fd (if arg \<noteq> 0 then os_getfl fd (osys h) OR O_NONBLOCK
                            else os_getfl fd (osys h) AND NOT O_NONBLOCK) (osys h) in
      bindR (FdMgr_Get fd False (fdtab h) (osys h)) (\<lambda>(ctx, _, _).
        if \<not> managed ctx (osys h) then Inr (h\<lparr>osys := w'\<rparr>)
        else Inr (h\<lparr>fdtab := fdt_update fd (\<lambda>c. c\<lparr>user_nonblock := (arg \<noteq> 0)\<rparr>) (fdtab h), osys := w'\<rparr>)))"

section \<open>Timeouts\<close>

definition SOL_SOCKET :: int where "SOL_SOCKET = 1"

text \<open>\<open>setsockopt\<close> with a \<open>timeval\<close> as its value; the original call has no effect on the model.\<close>

definition hook_setsockopt :: "int \<Rightarrow> int \<Rightarrow> int \<Rightarrow> int \<times> int \<Rightarrow> hstate \<Rightarrow> hstate res" where
  "hook_setsockopt fd level optname tv h =
     (if \<not> hook_enable h then Inr h
      else if level = SOL_SOCKET \<and> (optname = SO_RCVTIMEO \<or> optname = SO_SNDTIMEO) then
        bindR (FdMgr_Get fd False (fdtab h) (osys h)) (\<lambda>(ctx, _, _).
          case ctx of
            None \<Rightarrow> Inr h
          | Some c \<Rightarrow> Inr (h\<lparr>fdtab := fdt_update fd
              (SetTimeout optname (word_of_int (fst tv * 1000 + (snd tv sdiv 1000)))) (fdtab h)\<rparr>))
      else Inr h)"

section \<open>Sleeping\<close>

text \<open>The period of the timer each call adds before it yields; \<open>seconds\<close> and the result of \<open>nanosleep\<close> are 32-bit.\<close>

definition sleep_ms :: "u32 \<Rightarrow> u64" where "sleep_ms seconds = ucast (seconds * 1000)"
definition usleep_ms :: "u32 \<Rightarrow> u64" where "usleep_ms usec = ucast (usec div 1000)"
definition nanosleep_ms :: "int \<Rightarrow> int \<Rightarrow> u64" where
  "nanosleep_ms tv_sec tv_nsec = scast (word_of_int (tv_sec * 1000 + (tv_nsec sdiv 1000000)) :: 32 word)"

text \<open>\<open>orig\<close> is what the original function returns when the hooks are off.\<close>

definition hook_sleep :: "int \<Rightarrow> u32 \<Rightarrow> hstate \<Rightarrow> (int \<times> haction list) res" where
  "hook_sleep orig seconds h =
     (if \<not> IsHookEnable h then Inr (orig, [])
      else if \<not> has_iom h then Inl NullDeref else Inr (0, [AAddTimer (sleep_ms seconds), AYield]))"

definition hook_usleep :: "int \<Rightarrow> u32 \<Rightarrow> hstate \<Rightarrow> (int \<times> haction list) res" where
  "hook_usleep orig usec h =
     (if \<not> IsHookEnable h then Inr (orig, [])
      else if \<not> has_iom h then Inl NullDeref else Inr (0, [AAddTimer (usleep_ms usec), AYield]))"

definition hook_nanosleep :: "int \<Rightarrow> int \<Rightarrow> int \<Rightarrow> hstate \<Rightarrow> (int \<times> haction list) res" where
  "hook_nanosleep orig tv_sec tv_nsec h =
     (if \<not> IsHookEnable h then Inr (orig, [])
      else if \<not> has_iom h then Inl NullDeref else Inr (0, [AAddTimer (nanosleep_ms tv_sec tv_nsec), AYield]))"

section \<open>Connecting\<close>

text \<open>\<open>so_error\<close> is what \<open>getsockopt(SO_ERROR)\<close> gives at the end: the error stored, or \<open>Err\<close> when the call itself fails.\<close>

definition connectWithTimeout ::
  "int \<Rightarrow> u64 \<Rightarrow> outcome list \<Rightarrow> parking list \<Rightarrow> outcome \<Rightarrow> hstate \<Rightarrow> (outcome \<times> haction list) res" where
  "connectWithTimeout fd timeoutMs os ps so_error h =
     (if \<not> hook_enable h then bindR (direct os) (\<lambda>r. Inr (r, []))
      else bindR (FdMgr_Get fd False (fdtab h) (osys h)) (\<lambda>(ctx, _, _).
        case ctx of
          None \<Rightarrow> Inr (Err EBADF, [])
        | Some c \<Rightarrow>
            if IsClose c (osys h) then Inr (Err EBADF, [])
            else if \<not> is_socket c \<or> user_nonblock c then bindR (direct os) (\<lambda>r. Inr (r, []))
            else bindR (direct os) (\<lambda>r.
              if r \<noteq> Err EINPROGRESS then Inr (r, [])
              else if \<not> has_iom h then Inl NullDeref
              else (case ps of
                  [] \<Rightarrow> Inl Diverges
                | p # _ \<Rightarrow>
                    (let acts = park_actions timeoutMs 4 p in
                     if p = TimedOut \<and> timeoutMs \<noteq> -1 then Inr (Err ETIMEDOUT, acts)
                     else case so_error of
                         Err e \<Rightarrow> Inr (Err e, acts)
                       | Ret e \<Rightarrow> Inr (if e = 0 then Ret 0 else Err e, acts))))))"

definition hook_connect ::
  "int \<Rightarrow> outcome list \<Rightarrow> parking list \<Rightarrow> outcome \<Rightarrow> hstate \<Rightarrow> (outcome \<times> haction list) res" where
  "hook_connect fd os ps so_error h = connectWithTimeout fd (connect_timeout h) os ps so_error h"

section \<open>Lemmas\<close>

lemma FdMgr_Get_lookup: "FdMgr_Get fd False t w = Inr (fdt_lookup t fd, t, w)"
  by (auto simp: FdMgr_Get_def fdt_lookup_def Let_def not_less)

lemma fdt_lookup_update:
  "fdt_lookup (fdt_update fd g t) k = (if k = fd then map_option g (fdt_lookup t fd) else fdt_lookup t k)"
proof (cases "0 \<le> fd \<and> nat fd < length t")
  case True
  then have "0 \<le> k \<Longrightarrow> k \<noteq> fd \<Longrightarrow> t[nat fd := x] ! nat k = t ! nat k" for x by (simp add: eq_nat_nat_iff)
  with True show ?thesis by (simp add: fdt_lookup_def fdt_update_def)
next
  case False
  then have "fdt_update fd g t = t" "fdt_lookup t fd = None" unfolding fdt_update_def fdt_lookup_def by (auto split: if_splits)
  then show ?thesis by simp
qed

lemma call_eintr_not: "call_eintr os = Some (r, rs) \<Longrightarrow> r \<noteq> Err EINTR"
  by (induction os) (auto split: if_splits)

lemma call_eintr_None: "call_eintr os = None \<Longrightarrow> filter (\<lambda>r. r \<noteq> Err EINTR) os = []"
  by (induction os) (auto split: if_splits)

lemma call_eintr_rest:
  "call_eintr os = Some (r, rs) \<Longrightarrow> filter (\<lambda>r. r \<noteq> Err EINTR) os = r # filter (\<lambda>r. r \<noteq> Err EINTR) rs"
  by (induction os) (auto split: if_splits)

text \<open>Timers added and cancelled so far.\<close>

definition timers_open :: "haction list \<Rightarrow> int" where
  "timers_open acts = sum_list (map (\<lambda>a. case a of AAddTimer _ \<Rightarrow> 1 | ACancelTimer \<Rightarrow> -1 | _ \<Rightarrow> 0) acts)"

lemma timers_open_append [simp]: "timers_open (xs @ ys) = timers_open xs + timers_open ys"
  by (simp add: timers_open_def)

lemma timers_open_park [simp]: "timers_open (park_actions timeout event p) = 0"
  by (simp add: park_actions_def timers_open_def split: parking.splits)

lemma doIO_retry_done:
  "call_eintr os = Some (r, rs) \<Longrightarrow> r \<noteq> Err EAGAIN \<Longrightarrow> doIO_retry iom timeout event os ps acts = Inr (r, acts)"
  by (simp add: doIO_retry.simps)

lemma doIO_retry_park:
  "iom \<Longrightarrow> call_eintr os = Some (Err EAGAIN, rs) \<Longrightarrow> doIO_retry iom timeout event os (p # ps) acts =
     (case p of
        AddFails e \<Rightarrow> Inr (Err e, acts @ park_actions timeout event p)
      | TimedOut \<Rightarrow>
          if timeout \<noteq> -1 then Inr (Err ETIMEDOUT, acts @ park_actions timeout event p)
          else doIO_retry iom timeout event rs ps (acts @ park_actions timeout event p)
      | Woken \<Rightarrow> doIO_retry iom timeout event rs ps (acts @ park_actions timeout event p))"
  by (subst doIO_retry.simps) (simp add: Let_def)

lemma doIO_retry_stuck:
  "call_eintr os = None \<Longrightarrow> doIO_retry iom timeout event os ps acts = Inl Diverges"
  "iom \<Longrightarrow> call_eintr os = Some (Err EAGAIN, rs) \<Longrightarrow> doIO_retry iom timeout event os [] acts = Inl Diverges"
  "\<not> iom \<Longrightarrow> call_eintr os = Some (Err EAGAIN, rs) \<Longrightarrow> doIO_retry iom timeout event os ps acts = Inl NullDeref"
  by (simp_all add: doIO_retry.simps)

lemma call_eintr_set: "call_eintr os = Some (r, rs) \<Longrightarrow> r \<in> set os \<and> set rs \<subseteq> set os"
  by (induction os) (auto split: if_splits)

text \<open>What a caller of the retry loop can see.\<close>

definition visible :: "u64 \<Rightarrow> outcome list \<Rightarrow> parking list \<Rightarrow> outcome \<Rightarrow> bool" where
  "visible timeout os ps r \<longleftrightarrow> r \<in> Err ` {e. AddFails e \<in> set ps} \<or>
     (r = Err ETIMEDOUT \<and> timeout \<noteq> -1 \<and> TimedOut \<in> set ps) \<or>
     (r \<in> set os \<and> r \<noteq> Err EINTR \<and> r \<noteq> Err EAGAIN)"

lemma doIO_retry_result:
  assumes "doIO_retry iom timeout event os ps acts = Inr (r, acts')"
  shows "timers_open acts' = timers_open acts \<and> visible timeout os ps r"
  using assms
proof (induction ps arbitrary: os acts)
  case Nil
  then show ?case
  proof (cases "call_eintr os")
    case (Some x)
    obtain q rs where x: "x = (q, rs)" by (cases x)
    with Nil Some have "q \<noteq> Err EAGAIN" using doIO_retry_stuck(2,3) by (cases iom) fastforce+
    then show ?thesis using Nil Some x doIO_retry_done call_eintr_set call_eintr_not
      by (fastforce simp: visible_def)
  qed (simp add: doIO_retry_stuck)
next
  case (Cons p ps)
  show ?case
  proof (cases "call_eintr os")
    case None
    then show ?thesis using Cons.prems by (simp add: doIO_retry_stuck)
  next
    case (Some x)
    obtain q rs where x: "call_eintr os = Some (q, rs)" using Some by (cases x) simp
    note mem = call_eintr_set [OF x]
    show ?thesis
    proof (cases "q = Err EAGAIN")
      case False
      then show ?thesis using Cons.prems mem call_eintr_not [OF x]
        by (simp add: doIO_retry_done [OF x] visible_def)
    next
      case True
      have iom: "iom" using Cons.prems x True doIO_retry_stuck(3) by (cases iom) fastforce+
      have again: "timers_open acts' = timers_open (acts @ park_actions timeout event p) \<and> visible timeout rs ps r"
        if "doIO_retry iom timeout event rs ps (acts @ park_actions timeout event p) = Inr (r, acts')"
        using that by (rule Cons.IH)
      show ?thesis using Cons.prems again mem x True iom
        by (auto simp: doIO_retry_park visible_def split: parking.splits if_splits)
    qed
  qed
qed

text \<open>When parking always ends with the fiber being woken, the first final outcome is returned.\<close>

lemma filter_yield_park:
  "filter (\<lambda>a. a = AYield) (park_actions timeout event p) = (case p of AddFails _ \<Rightarrow> [] | _ \<Rightarrow> [AYield])"
  by (simp add: park_actions_def split: parking.splits)

lemma doIO_retry_succeeds:
  assumes "set ps \<subseteq> {Woken}" "filter (\<lambda>r. r \<noteq> Err EINTR) os = replicate k (Err EAGAIN) @ r # rs"
    "r \<noteq> Err EAGAIN" "k \<le> length ps" "iom"
  shows "\<exists>acts'. doIO_retry iom timeout event os ps acts = Inr (r, acts @ acts') \<and> length (filter (\<lambda>a. a = AYield) acts') = k"
  using assms
proof (induction k arbitrary: os ps acts)
  case 0
  then obtain q qs where q: "call_eintr os = Some (q, qs)"
    by (cases "call_eintr os") (auto dest: call_eintr_None)
  with call_eintr_rest [OF q] 0 show ?case by (simp add: doIO_retry_done [OF q])
next
  case (Suc k)
  then obtain q qs where q: "call_eintr os = Some (q, qs)"
    by (cases "call_eintr os") (auto dest: call_eintr_None)
  from call_eintr_rest [OF q] Suc.prems(2) have q': "q = Err EAGAIN"
    "filter (\<lambda>r. r \<noteq> Err EINTR) qs = replicate k (Err EAGAIN) @ r # rs" by auto
  obtain ps' where ps: "ps = Woken # ps'" using Suc.prems(1,4) by (cases ps) auto
  then obtain acts' where
    "doIO_retry iom timeout event qs ps' (acts @ park_actions timeout event Woken) =
       Inr (r, (acts @ park_actions timeout event Woken) @ acts')" "length (filter (\<lambda>a. a = AYield) acts') = k"
    using Suc.IH [OF _ q'(2) Suc.prems(3), of ps'] Suc.prems(1,4,5) by fastforce
  then show ?case using q q'(1) ps Suc.prems(5)
    by (intro exI [of _ "park_actions timeout event Woken @ acts'"])
      (simp add: doIO_retry_park filter_yield_park)
qed

lemma os_getfl_setfl:
  "flags w fd \<noteq> None \<Longrightarrow> os_getfl fd (os_setfl fd fl w) = fl"
  "flags w fd \<noteq> None \<Longrightarrow> flags (os_setfl fd fl w) fd = Some fl"
  by (auto simp: os_getfl_def os_setfl_def)

lemma managed_flags: "managed (Some c) w \<Longrightarrow> fdc_fd c = fd \<Longrightarrow> flags w fd \<noteq> None"
  by (auto simp: managed_def IsClose_def os_getfl_def split: option.splits)

lemma O_NONBLOCK_bits:
  "(arg AND NOT O_NONBLOCK) AND O_NONBLOCK = 0" "(arg OR O_NONBLOCK) AND O_NONBLOCK \<noteq> 0"
  "O_NONBLOCK \<noteq> 0" "arg OR O_NONBLOCK \<noteq> -1 \<Longrightarrow> arg \<noteq> -1"
  "(arg OR O_NONBLOCK) AND NOT O_NONBLOCK = arg AND NOT O_NONBLOCK"
proof -
  show "(arg AND NOT O_NONBLOCK) AND O_NONBLOCK = 0" by (simp add: and.assoc)
  show "O_NONBLOCK \<noteq> 0" by (simp add: O_NONBLOCK_def)
  then show "(arg OR O_NONBLOCK) AND O_NONBLOCK \<noteq> 0" by (simp add: and.commute)
  show "arg OR O_NONBLOCK \<noteq> -1 \<Longrightarrow> arg \<noteq> -1" by auto
  show "(arg OR O_NONBLOCK) AND NOT O_NONBLOCK = arg AND NOT O_NONBLOCK"
    by (rule bit_word_eqI) (auto simp: bit_simps)
qed

section \<open>Properties\<close>

text \<open>
  C12. The retry loop of the hooked calls, on a managed socket.  Every timer a call adds is cancelled
  when it returns.  The caller sees the error of an event that could not be added, \<^verbatim>\<open>ETIMEDOUT\<close> from a
  timer that fired first, or an outcome of the original function; an interruption or that the call
  would block is seen only when adding the event failed with that \<open>errno\<close>.  On a thread with an I/O
  manager, when every parked fiber is woken, a call that first would block \<open>k\<close> times and then has a
  final outcome yields exactly \<open>k\<close> times and returns that outcome.  On a thread without an I/O manager
  the first outcome that is not an interruption is returned, unless the call would block: then the
  null pointer is used.
\<close>

theorem doIO_contract:
  assumes "hook_enable h" "fdt_lookup (fdtab h) fd = Some c" "\<not> IsClose c (osys h)" "is_socket c" "\<not> user_nonblock c"
  shows "(doIO fd event so os ps h = Inr (r, acts) \<longrightarrow>
      timers_open acts = 0 \<and> visible (GetTimeout so c) os ps r
      \<and> (\<forall>e \<in> {EINTR, EAGAIN}. r = Err e \<longrightarrow> AddFails e \<in> set ps))
    \<and> (has_iom h \<and> set ps \<subseteq> {Woken} \<and> filter (\<lambda>r. r \<noteq> Err EINTR) os = replicate k (Err EAGAIN) @ f # fs \<and>
        f \<noteq> Err EAGAIN \<and> k \<le> length ps \<longrightarrow>
      (\<exists>acts. doIO fd event so os ps h = Inr (f, acts) \<and> length (filter (\<lambda>a. a = AYield) acts) = k))
    \<and> (\<not> has_iom h \<and> filter (\<lambda>r. r \<noteq> Err EINTR) os = f # fs \<longrightarrow>
      doIO fd event so os ps h = (if f = Err EAGAIN then Inl NullDeref else Inr (f, [])))"
proof -
  have io: "doIO fd event so os ps h = doIO_retry (has_iom h) (GetTimeout so c) event os ps []"
    using assms by (simp add: doIO_def FdMgr_Get_lookup)
  have "AddFails e \<in> set ps" if "visible (GetTimeout so c) os ps r" "e \<in> {EINTR, EAGAIN}" "r = Err e" for e
    using that by (auto simp: visible_def errno_defs)
  moreover have "doIO fd event so os ps h = (if f = Err EAGAIN then Inl NullDeref else Inr (f, []))"
    if "\<not> has_iom h" "filter (\<lambda>r. r \<noteq> Err EINTR) os = f # fs"
  proof -
    from that(2) obtain rs where "call_eintr os = Some (f, rs)"
      by (cases "call_eintr os") (auto dest: call_eintr_None call_eintr_rest)
    then show ?thesis using that(1) io doIO_retry_done doIO_retry_stuck(3) by (cases "f = Err EAGAIN") simp_all
  qed
  ultimately show ?thesis
    using io doIO_retry_result [of "has_iom h" "GetTimeout so c" event os ps "[]" r acts]
      doIO_retry_succeeds [of ps os k f fs "has_iom h" "GetTimeout so c" event "[]"]
    by (auto simp: timers_open_def)
qed

definition demo_hook :: hstate where
  "demo_hook = \<lparr>hook_enable = True, has_iom = True,
     fdtab = [None, Some \<lparr>is_init = True, is_socket = True, sys_nonblock = True, user_nonblock = False, fdc_fd = 1,
       recv_timeout = 500, send_timeout = -1\<rparr>], osys = \<lparr>stat_sock = (\<lambda>_. Some True), flags = (\<lambda>_. Some O_NONBLOCK)\<rparr>,
     connect_timeout = 5000\<rparr>"

lemma demo_hook_ctx:
  "fdt_lookup (fdtab demo_hook) 1 = Some \<lparr>is_init = True, is_socket = True, sys_nonblock = True, user_nonblock = False,
     fdc_fd = 1, recv_timeout = 500, send_timeout = -1\<rparr>"
  by (simp add: demo_hook_def fdt_lookup_def)

theorem doIO_contract_witness:
  "\<exists>acts. doIO 1 1 SO_RCVTIMEO [Err EINTR, Err EAGAIN, Ret 7] [Woken] demo_hook = Inr (Ret 7, acts) \<and>
     length (filter (\<lambda>a. a = AYield) acts) = 1"
  using doIO_contract [OF _ demo_hook_ctx, of 1 SO_RCVTIMEO "[Err EINTR, Err EAGAIN, Ret 7]" "[Woken]" _ _ 1 "Ret 7" "[]"]
  by (simp add: demo_hook_def IsClose_def os_getfl_def O_NONBLOCK_def errno_defs)

text \<open>
  Non-blocking mode is virtualised: setting the status flags of a managed socket through the
  hooked \<open>fcntl\<close> leaves the socket itself non-blocking, reading them back shows the mode the caller
  asked for, and other flags are passed on.
\<close>

theorem nonblock_virtualised:
  assumes "fdt_lookup (fdtab h) fd = Some c" "managed (Some c) (osys h)" "fdc_fd c = fd" "sys_nonblock c"
    and "arg OR O_NONBLOCK \<noteq> -1"
  shows "\<exists>h' fl. fcntl_setfl fd arg h = Inr h' \<and> fcntl_getfl fd h' = Inr fl
    \<and> os_getfl fd (osys h') AND O_NONBLOCK \<noteq> 0
    \<and> (fl AND O_NONBLOCK \<noteq> 0 \<longleftrightarrow> arg AND O_NONBLOCK \<noteq> 0) \<and> fl AND NOT O_NONBLOCK = arg AND NOT O_NONBLOCK"
proof -
  let ?h = "h\<lparr>fdtab := fdt_update fd (\<lambda>c. c\<lparr>user_nonblock := (arg AND O_NONBLOCK \<noteq> 0)\<rparr>) (fdtab h),
      osys := os_setfl fd (arg OR O_NONBLOCK) (osys h)\<rparr>"
  have fl: "flags (osys h) fd \<noteq> None" using managed_flags [OF assms(2,3)] .
  have set: "fcntl_setfl fd arg h = Inr ?h"
    using assms by (simp add: fcntl_setfl_def FdMgr_Get_lookup Let_def)
  have "managed (fdt_lookup (fdtab ?h) fd) (osys ?h)"
    using assms fl by (simp add: fdt_lookup_update managed_def IsClose_def os_getfl_setfl)
  then have "fcntl_getfl fd ?h = Inr (if arg AND O_NONBLOCK \<noteq> 0 then (arg OR O_NONBLOCK) OR O_NONBLOCK
      else (arg OR O_NONBLOCK) AND NOT O_NONBLOCK)"
    using assms(1) fl by (simp add: fcntl_getfl_def FdMgr_Get_lookup fdt_lookup_update os_getfl_setfl Let_def)
  moreover have "os_getfl fd (osys ?h) = arg OR O_NONBLOCK" using fl by (simp add: os_getfl_setfl)
  ultimately show ?thesis using set by (auto simp: O_NONBLOCK_bits or.assoc)
qed

theorem nonblock_virtualised_witness:
  "\<exists>h' fl. fcntl_setfl 1 0 demo_hook = Inr h' \<and> fcntl_getfl 1 h' = Inr fl \<and>
     os_getfl 1 (osys h') AND O_NONBLOCK \<noteq> 0 \<and> fl AND O_NONBLOCK = 0"
  using nonblock_virtualised [OF demo_hook_ctx, of 0]
  by (auto simp: demo_hook_def managed_def IsClose_def os_getfl_def O_NONBLOCK_def)

text \<open>
  How long the hooked sleeps wait: \<open>sleep\<close> waits the given seconds below 4294968 of them and less
  from there on, because the product is a 32-bit one; \<open>usleep\<close> drops the part below a millisecond.
\<close>

theorem sleep_periods:
  "hook_enable h \<Longrightarrow> has_iom h \<Longrightarrow> \<exists>p q. hook_sleep r s h = Inr (0, [AAddTimer p, AYield]) \<and> unat p = (unat s * 1000) mod 2 ^ 32
    \<and> hook_usleep r u h = Inr (0, [AAddTimer q, AYield]) \<and> unat q = unat u div 1000"
proof -
  assume h: "hook_enable h" "has_iom h"
  have up: "unat (ucast w :: u64) = unat w" for w :: u32
  proof -
    have "unat w < 2 ^ 32" by (rule order.strict_trans2 [OF unsigned_less]) simp
    then have "unat w < 2 ^ 64" by simp
    then show ?thesis by (simp add: unsigned_ucast_eq take_bit_nat_eq_self)
  qed
  show ?thesis using h
    by (simp add: hook_sleep_def hook_usleep_def IsHookEnable_def sleep_ms_def usleep_ms_def up unat_word_ariths(2) unat_div)
qed

theorem sleep_periods_witness:
  "\<exists>p q. hook_sleep 0 4294968 demo_hook = Inr (0, [AAddTimer p, AYield]) \<and> unat p = 704
    \<and> hook_usleep 0 1999 demo_hook = Inr (0, [AAddTimer q, AYield]) \<and> unat q = 1"
  using sleep_periods [of demo_hook 0 4294968 1999] by (simp add: demo_hook_def)

text \<open>
  An accepted descriptor is put into non-blocking mode even when the hooks are disabled: then the
  calls on it are the original ones and report that they would block.
\<close>

theorem accept_without_hook:
  assumes "\<not> hook_enable h" "fdt_wf (fdtab h)" "0 \<le> fd" "fdt_lookup (fdtab h) fd = None"
  shows "\<exists>h'. hook_accept lfd (Ret fd # os) ps h = Inr (Ret fd, [], h') \<and>
    os_getfl fd (osys h') AND O_NONBLOCK \<noteq> 0 \<and> hook_read fd (Err EAGAIN # rs) qs h' = Inr (Err EAGAIN, [])"
proof -
  let ?w = "os_setfl fd (2 OR O_NONBLOCK) (os_open fd (osys h))"
  have "(2 :: u32) AND O_NONBLOCK = 0" by (simp add: O_NONBLOCK_def)
  then obtain c where c: "newFdCtx fd (os_open fd (osys h)) = (c, ?w)"
    by (simp add: newFdCtx_def FdCtx_Init_def Let_def os_getfl_def os_open_def)
  have "2 \<le> length (fdtab h)" using assms(2) by (simp add: fdt_wf_def)
  then obtain t' where "grow_loop (nat fd) (fdtab h) = Inr t'" using grow_loop_ok by blast
  then obtain t where get: "FdMgr_Get fd True (fdtab h) (os_open fd (osys h)) = Inr (Some c, t, ?w)"
    using assms(3,4) c by (cases "nat fd < length (fdtab h)") (simp_all add: FdMgr_Get_def fdt_lookup_def Let_def)
  let ?h = "h\<lparr>fdtab := t, osys := ?w\<rparr>"
  have "hook_accept lfd (Ret fd # os) ps h = Inr (Ret fd, [], ?h)"
    using assms(1,3) get by (simp add: hook_accept_def doIO_def direct_def)
  moreover have "os_getfl fd (osys ?h) = 2 OR O_NONBLOCK" by (simp add: os_getfl_setfl os_open_def)
  moreover have "hook_read fd (Err EAGAIN # rs) qs ?h = Inr (Err EAGAIN, [])"
    using assms(1) by (simp add: hook_read_def doIO_def direct_def)
  ultimately show ?thesis by (auto simp: O_NONBLOCK_bits)
qed

theorem accept_without_hook_witness:
  "\<exists>h'. hook_accept 3 [Ret 5] [] \<lparr>hook_enable = False, has_iom = True, fdtab = newFdManager,
      osys = \<lparr>stat_sock = (\<lambda>_. Some True), flags = (\<lambda>_. Some 0)\<rparr>, connect_timeout = 5000\<rparr> = Inr (Ret 5, [], h') \<and>
    os_getfl 5 (osys h') AND O_NONBLOCK \<noteq> 0"
  using accept_without_hook [of "\<lparr>hook_enable = False, has_iom = True, fdtab = newFdManager,
      osys = \<lparr>stat_sock = (\<lambda>_. Some True), flags = (\<lambda>_. Some 0)\<rparr>, connect_timeout = 5000\<rparr>" 5 3 "[]" "[]" "[]" "[]"]
  by (auto simp: newFdManager_wf) (auto simp: fdt_lookup_def newFdManager_def)

end
