(* ===== verification/Fiber.thy ===== *)
theory Fiber
  imports Prelude
begin

text \<open>
  Coroutines (\<open>gudov/fiber.{h,cpp}\<close>) as seen by one thread.  A fiber object is a record at an
  address.  \<open>ctx_\<close>, the \<open>ucontext_t\<close> of a fiber, holds a suspended execution; the model keeps the
  address of the fiber whose execution is stored in each slot, and \<open>control\<close> is the fiber whose code
  is executing.  \<open>swapcontext(&a->ctx_, &b->ctx_)\<close> stores the executing one in slot \<open>a\<close> and continues
  the one stored in slot \<open>b\<close>; \<open>makecontext\<close> puts a fresh execution of the fiber in its own slot.
  \<open>getcontext\<close> and \<open>swapcontext\<close> are taken to succeed, as the assertions on them demand.

  The lemmas show which states an operation accepts, that a main fiber that resumes fibers one after
  the other, each of which yields, finds everything as it was, that resuming a fiber from inside
  another one loses the suspended main fiber, and that a finished fiber cannot be resumed.
\<close>

datatype fstate = Running | Term | Ready

record 'cb fiber =
  fb_id :: nat
  fb_state :: fstate
  fb_callback :: "'cb option"
  fb_stack :: bool
  fb_run_in_scheduler :: bool

record 'cb fthread =
  fibers :: "nat \<Rightarrow> 'cb fiber"
  ctx :: "nat \<Rightarrow> nat"
  control :: nat
  running :: "nat option"
  thread_fiber :: "nat option"
  scheduler_fiber :: "nat option"
  fiber_id :: nat
  fiber_count :: nat

definition SetRunningFiber :: "nat option \<Rightarrow> 'cb fthread \<Rightarrow> 'cb fthread" where
  "SetRunningFiber f w = w\<lparr>running := f\<rparr>"

definition set_state :: "nat \<Rightarrow> fstate \<Rightarrow> 'cb fthread \<Rightarrow> 'cb fthread" where
  "set_state f st w = w\<lparr>fibers := (fibers w)(f := (fibers w f)\<lparr>fb_state := st\<rparr>)\<rparr>"

definition swapcontext :: "nat \<Rightarrow> nat \<Rightarrow> 'cb fthread \<Rightarrow> 'cb fthread" where
  "swapcontext a b w = w\<lparr>ctx := (ctx w)(a := control w), control := ctx w b\<rparr>"

text \<open>
  The constructor of a thread's main fiber does not set \<open>run_in_scheduler_\<close>, which has no initialiser:
  \<open>junk\<close> is the value found there.
\<close>

definition MainFiber :: "bool \<Rightarrow> nat \<Rightarrow> 'cb fthread \<Rightarrow> 'cb fthread" where
  "MainFiber junk a w =
     (SetRunningFiber (Some a) w)\<lparr>
       fibers := (fibers w)(a := \<lparr>fb_id = 0, fb_state = Running, fb_callback = None,
                                  fb_stack = False, fb_run_in_scheduler = junk\<rparr>),
       ctx := (ctx w)(a := control w), fiber_count := fiber_count w + 1\<rparr>"

definition NewFiber :: "nat \<Rightarrow> 'cb option \<Rightarrow> bool \<Rightarrow> 'cb fthread \<Rightarrow> 'cb fthread" where
  "NewFiber a callback run_in_scheduler w =
     w\<lparr>fibers := (fibers w)(a := \<lparr>fb_id = fiber_id w + 1, fb_state = Ready, fb_callback = callback,
                                 fb_stack = True, fb_run_in_scheduler = run_in_scheduler\<rparr>),
       ctx := (ctx w)(a := a), fiber_id := fiber_id w + 1, fiber_count := fiber_count w + 1\<rparr>"

definition DeleteFiber :: "nat \<Rightarrow> 'cb fthread \<Rightarrow> 'cb fthread res" where
  "DeleteFiber a w =
     (let f = fibers w a; w1 = w\<lparr>fiber_count := fiber_count w - 1\<rparr> in
      if fb_stack f then
        bindR (requireR (fb_state f = Term \<or> fb_state f = Ready) AssertFail) (\<lambda>_. Inr w1)
      else
        bindR (requireR (fb_callback f = None) AssertFail) (\<lambda>_.
          bindR (requireR (fb_state f = Running) AssertFail) (\<lambda>_.
            Inr (if running w1 = Some a then SetRunningFiber None w1 else w1))))"

definition ResetFiber :: "nat \<Rightarrow> 'cb option \<Rightarrow> 'cb fthread \<Rightarrow> 'cb fthread res" where
  "ResetFiber a callback w =
     (let f = fibers w a in
      bindR (requireR (fb_stack f) AssertFail) (\<lambda>_.
        bindR (requireR (fb_state f = Term \<or> fb_state f = Ready) AssertFail) (\<lambda>_.
          Inr (w\<lparr>fibers := (fibers w)(a := f\<lparr>fb_callback := callback, fb_state := Ready\<rparr>),
                 ctx := (ctx w)(a := a)\<rparr>))))"

definition main_of :: "nat \<Rightarrow> 'cb fthread \<Rightarrow> nat option" where
  "main_of f w = (if fb_run_in_scheduler (fibers w f) then scheduler_fiber w else thread_fiber w)"

definition Resume :: "nat \<Rightarrow> 'cb fthread \<Rightarrow> 'cb fthread res" where
  "Resume f w =
     bindR (requireR (fb_state (fibers w f) \<noteq> Term \<and> fb_state (fibers w f) \<noteq> Running) AssertFail)
       (\<lambda>_. let w1 = set_state f Running (SetRunningFiber (Some f) w) in
         case main_of f w1 of None \<Rightarrow> Inl NullDeref | Some main \<Rightarrow> Inr (swapcontext main f w1))"

definition Yield :: "nat \<Rightarrow> 'cb fthread \<Rightarrow> 'cb fthread res" where
  "Yield f w =
     bindR (requireR (fb_state (fibers w f) = Running \<or> fb_state (fibers w f) = Term) AssertFail)
       (\<lambda>_. let w1 = SetRunningFiber (thread_fiber w) w;
                w2 = (if fb_state (fibers w f) \<noteq> Term then set_state f Ready w1 else w1) in
         case main_of f w2 of None \<Rightarrow> Inl NullDeref | Some main \<Rightarrow> Inr (swapcontext f main w2))"

definition GetRunningFiber :: "bool \<Rightarrow> nat \<Rightarrow> 'cb fthread \<Rightarrow> (nat \<times> 'cb fthread) res" where
  "GetRunningFiber junk a w =
     (case running w of
        Some f \<Rightarrow> Inr (f, w)
      | None \<Rightarrow>
          (let w1 = MainFiber junk a w in
           bindR (requireR (running w1 = Some a) AssertFail) (\<lambda>_.
             Inr (a, w1\<lparr>thread_fiber := Some a\<rparr>))))"

definition GetRunningFiberId :: "'cb fthread \<Rightarrow> nat" where
  "GetRunningFiberId w = (case running w of Some f \<Rightarrow> fb_id (fibers w f) | None \<Rightarrow> 0)"

text \<open>The trampoline: the part before the callback, and the part after the callback has returned.\<close>

definition MainFunc_enter :: "bool \<Rightarrow> nat \<Rightarrow> 'cb fthread \<Rightarrow> ('cb \<times> nat \<times> 'cb fthread) res" where
  "MainFunc_enter junk a w =
     bindR (GetRunningFiber junk a w) (\<lambda>(cur, w1).
       case fb_callback (fibers w1 cur) of
         None \<Rightarrow> Inl NullDeref | Some cb \<Rightarrow> Inr (cb, cur, w1))"

definition MainFunc_leave :: "nat \<Rightarrow> 'cb fthread \<Rightarrow> 'cb fthread res" where
  "MainFunc_leave cur w =
     Yield cur (w\<lparr>fibers := (fibers w)(cur := (fibers w cur)\<lparr>fb_callback := None, fb_state := Term\<rparr>)\<rparr>)"

section \<open>Behaviour\<close>

lemma set_state_simps [simp]:
  "fibers (set_state f st w) = (fibers w)(f := (fibers w f)\<lparr>fb_state := st\<rparr>)"
  "ctx (set_state f st w) = ctx w" "control (set_state f st w) = control w"
  "running (set_state f st w) = running w" "thread_fiber (set_state f st w) = thread_fiber w"
  "main_of g (set_state f st w) = main_of g w"
  by (simp_all add: set_state_def main_of_def)

lemma SetRunningFiber_simps [simp]:
  "fibers (SetRunningFiber r w) = fibers w" "ctx (SetRunningFiber r w) = ctx w"
  "control (SetRunningFiber r w) = control w" "running (SetRunningFiber r w) = r"
  "thread_fiber (SetRunningFiber r w) = thread_fiber w"
  "main_of g (SetRunningFiber r w) = main_of g w"
  by (simp_all add: SetRunningFiber_def main_of_def)

lemma swapcontext_simps [simp]:
  "fibers (swapcontext a b w) = fibers w" "ctx (swapcontext a b w) = (ctx w)(a := control w)"
  "control (swapcontext a b w) = ctx w b" "running (swapcontext a b w) = running w"
  "thread_fiber (swapcontext a b w) = thread_fiber w"
  "main_of g (swapcontext a b w) = main_of g w"
  by (simp_all add: swapcontext_def main_of_def)

lemma Resume_ok:
  assumes "fb_state (fibers w f) = Ready" "main_of f w = Some main"
  shows "Resume f w = Inr (swapcontext main f (set_state f Running (SetRunningFiber (Some f) w)))"
  using assms by (simp add: Resume_def Let_def)

lemma Yield_ok:
  assumes "fb_state (fibers w f) = Running" "main_of f w = Some main"
  shows "Yield f w =
    Inr (swapcontext f main (set_state f Ready (SetRunningFiber (thread_fiber w) w)))"
  using assms by (simp add: Yield_def Let_def)

lemma Yield_term:
  assumes "fb_state (fibers w f) = Term" "main_of f w = Some main"
  shows "Yield f w = Inr (swapcontext f main (SetRunningFiber (thread_fiber w) w))"
  using assms by (simp add: Yield_def Let_def)

text \<open>
  A main fiber that serves fibers, as the loop of \<open>Scheduler::Run\<close> does: each one is resumed and runs
  until it yields.
\<close>

fun serve :: "nat list \<Rightarrow> 'cb fthread \<Rightarrow> 'cb fthread res" where
  "serve [] w = Inr w"
| "serve (f # fs) w = bindR (Resume f w) (\<lambda>w1. bindR (Yield f w1) (serve fs))"

definition suspended :: "nat \<Rightarrow> nat \<Rightarrow> 'cb fthread \<Rightarrow> bool" where
  "suspended main f w \<longleftrightarrow>
     fb_state (fibers w f) = Ready \<and> main_of f w = Some main \<and> ctx w f = f \<and> f \<noteq> main"

definition back_in_main :: "nat \<Rightarrow> 'cb fthread \<Rightarrow> 'cb fthread" where
  "back_in_main main w = w\<lparr>ctx := (ctx w)(main := main), running := thread_fiber w\<rparr>"

lemma back_in_main_again [simp]:
  "back_in_main main (back_in_main main w) = back_in_main main w"
  "suspended main f (back_in_main main w) = suspended main f w"
  "control (back_in_main main w) = control w"
  by (auto simp: back_in_main_def suspended_def main_of_def)

lemma Resume_Yield:
  assumes "control w = main" "suspended main f w"
  shows "bindR (Resume f w) (Yield f) = Inr (back_in_main main w)"
proof -
  let ?w1 = "swapcontext main f (set_state f Running (SetRunningFiber (Some f) w))"
  have s: "fb_state (fibers w f) = Ready" "main_of f w = Some main" "ctx w f = f" "f \<noteq> main"
    using assms(2) by (auto simp: suspended_def)
  have "Resume f w = Inr ?w1" using s by (intro Resume_ok)
  moreover have "Yield f ?w1 =
      Inr (swapcontext f main (set_state f Ready (SetRunningFiber (thread_fiber ?w1) ?w1)))"
    using s by (intro Yield_ok) simp_all
  moreover have "swapcontext f main (set_state f Ready (SetRunningFiber (thread_fiber ?w1) ?w1)) =
      back_in_main main w"
    using s assms(1)
    by (auto simp: back_in_main_def swapcontext_def set_state_def SetRunningFiber_def fun_eq_iff
        intro!: fthread.equality fiber.equality)
  ultimately show ?thesis by simp
qed

text \<open>Resuming \<open>g\<close> from inside \<open>f\<close> stores \<open>f\<close> where the main fiber was suspended.\<close>

lemma nested_Resume:
  assumes "control w = main" "suspended main f w" "suspended main g w" "f \<noteq> g"
  shows "\<exists>w1 w2 w3 w4. Resume f w = Inr w1 \<and> Resume g w1 = Inr w2 \<and> Yield g w2 = Inr w3 \<and> control w3 = f \<and>
    Yield f w3 = Inr w4 \<and> control w4 = f \<and> (\<forall>a. ctx w4 a = main \<longrightarrow> a \<noteq> main \<and> ctx w a = main)"
proof -
  have s: "fb_state (fibers w f) = Ready" "main_of f w = Some main" "ctx w f = f" "f \<noteq> main"
    "fb_state (fibers w g) = Ready" "main_of g w = Some main" "ctx w g = g" "g \<noteq> main"
    using assms(2,3) by (auto simp: suspended_def)
  let ?w1 = "swapcontext main f (set_state f Running (SetRunningFiber (Some f) w))"
  let ?w2 = "swapcontext main g (set_state g Running (SetRunningFiber (Some g) ?w1))"
  let ?w3 = "swapcontext g main (set_state g Ready (SetRunningFiber (thread_fiber ?w2) ?w2))"
  let ?w4 = "swapcontext f main (set_state f Ready (SetRunningFiber (thread_fiber ?w3) ?w3))"
  have "Resume f w = Inr ?w1" using s by (intro Resume_ok)
  moreover have "Resume g ?w1 = Inr ?w2" using s assms(4) by (intro Resume_ok) simp_all
  moreover have "Yield g ?w2 = Inr ?w3" using s by (intro Yield_ok) simp_all
  moreover have "Yield f ?w3 = Inr ?w4" using s assms(4) by (intro Yield_ok) simp_all
  moreover have "control ?w3 = f" "control ?w4 = f" "\<forall>a. ctx ?w4 a = main \<longrightarrow> a \<noteq> main \<and> ctx w a = main"
    using s assms by simp_all
  ultimately show ?thesis by blast
qed

section \<open>Properties\<close>

text \<open>
  C25. Serving suspended fibers from their main fiber: each of them runs when it is resumed (control,
  current fiber and state), and after any sequence of them, each resumed and yielding, the thread is
  as it was before, all fibers and saved contexts included, except that the main fiber's own context
  has been saved and that the current fiber is the thread's main fiber.  This rests on the resumer
  being the main fiber: when one of the fibers resumes another, the control comes back to it, but its
  own yield then returns to itself, and the suspended main fiber is in no context any more.
\<close>

theorem resume_yield_roundtrip:
  assumes "control w = main" "\<forall>f\<in>set fs. suspended main f w"
  shows "(\<forall>f\<in>set fs. \<exists>w1. Resume f w = Inr w1 \<and> control w1 = f \<and> running w1 = Some f \<and>
      fb_state (fibers w1 f) = Running) \<and>
    serve fs w = Inr (if fs = [] then w
      else w\<lparr>ctx := (ctx w)(main := main), running := thread_fiber w\<rparr>) \<and>
    (\<forall>f\<in>set fs. \<forall>g\<in>set fs. f \<noteq> g \<longrightarrow> (\<exists>w1 w2 w3 w4. Resume f w = Inr w1 \<and> Resume g w1 = Inr w2 \<and>
      Yield g w2 = Inr w3 \<and> control w3 = f \<and> Yield f w3 = Inr w4 \<and> control w4 = f \<and>
      (\<forall>a. ctx w4 a = main \<longrightarrow> a \<noteq> main \<and> ctx w a = main)))"
proof -
  have "serve fs w = Inr (if fs = [] then w else back_in_main main w)"
    using assms
  proof (induction fs arbitrary: w)
    case (Cons f fs)
    have "bindR (Resume f w) (Yield f) = Inr (back_in_main main w)" using Cons.prems by (intro Resume_Yield) simp_all
    then obtain w1 where "Resume f w = Inr w1" "Yield f w1 = Inr (back_in_main main w)"
      by (cases "Resume f w") auto
    then show ?case using Cons.IH [of "back_in_main main w"] Cons.prems by simp
  qed simp
  moreover have "\<exists>w1. Resume f w = Inr w1 \<and> control w1 = f \<and> running w1 = Some f \<and> fb_state (fibers w1 f) = Running"
    if "suspended main f w" for f
    using that Resume_ok [of w f main] by (simp add: suspended_def)
  ultimately show ?thesis using assms nested_Resume unfolding back_in_main_def by blast
qed

definition demo_thread :: "nat fthread" where
  "demo_thread = \<lparr>fibers = (\<lambda>_. \<lparr>fb_id = 1, fb_state = Ready, fb_callback = Some 0, fb_stack = True,
      fb_run_in_scheduler = True\<rparr>), ctx = (\<lambda>a. a), control = 1, running = Some 1,
      thread_fiber = Some 1, scheduler_fiber = Some 1, fiber_id = 1, fiber_count = 2\<rparr>"

theorem resume_yield_roundtrip_witness:
  "serve [2, 3, 2] demo_thread = Inr demo_thread \<and>
   (\<exists>w1 w2 w3 w4. Resume 2 demo_thread = Inr w1 \<and> Resume 3 w1 = Inr w2 \<and> Yield 3 w2 = Inr w3 \<and> Yield 2 w3 = Inr w4 \<and>
      control w4 = 2)"
proof -
  have s: "control demo_thread = 1" "\<forall>f\<in>set [2, 3, 2]. suspended 1 f demo_thread"
    by (simp_all add: demo_thread_def suspended_def main_of_def)
  note r = resume_yield_roundtrip [OF s]
  have "demo_thread\<lparr>ctx := (ctx demo_thread)(1 := 1), running := thread_fiber demo_thread\<rparr> = demo_thread"
    by (simp add: demo_thread_def fun_eq_iff)
  then have "serve [2, 3, 2] demo_thread = Inr demo_thread" using r [THEN conjunct2, THEN conjunct1] by simp
  moreover have "2 \<in> set [2, 3, 2::nat]" "3 \<in> set [2, 3, 2::nat]" "(2::nat) \<noteq> 3" by simp_all
  ultimately show ?thesis using r [THEN conjunct2, THEN conjunct2] by blast
qed

text \<open>
  A fiber whose callback has returned is over: the trampoline hands the control back to the main
  fiber, and every later \<open>Resume\<close> of it fails its assertion until \<open>Reset\<close> gives it a new callback,
  after which it can be resumed again.
\<close>

theorem finished_fiber:
  assumes "main_of f w = Some main" "f \<noteq> main" "ctx w main = main" "fb_stack (fibers w f)"
  shows "\<exists>w1 w2 w3. MainFunc_leave f w = Inr w1 \<and> control w1 = main \<and>
    fb_state (fibers w1 f) = Term \<and> Resume f w1 = Inl AssertFail \<and>
    ResetFiber f cb w1 = Inr w2 \<and> Resume f w2 = Inr w3 \<and> control w3 = f"
proof -
  let ?w0 = "w\<lparr>fibers := (fibers w)(f := (fibers w f)\<lparr>fb_callback := None, fb_state := Term\<rparr>)\<rparr>"
  let ?w1 = "swapcontext f main (SetRunningFiber (thread_fiber w) ?w0)"
  let ?w2 = "?w1\<lparr>fibers := (fibers ?w1)(f := (fibers ?w1 f)\<lparr>fb_callback := cb, fb_state := Ready\<rparr>),
    ctx := (ctx ?w1)(f := f)\<rparr>"
  have m: "main_of f ?w0 = Some main" using assms(1) by (simp add: main_of_def split: if_splits)
  then have "MainFunc_leave f w = Inr ?w1"
    using Yield_term [of ?w0 f main] by (simp add: MainFunc_leave_def)
  moreover have "ResetFiber f cb ?w1 = Inr ?w2" using assms by (simp add: ResetFiber_def Let_def)
  moreover have "main_of f ?w2 = Some main"
    using assms(1) by (simp add: main_of_def swapcontext_def SetRunningFiber_def split: if_splits)
  then have "Resume f ?w2 = Inr (swapcontext main f (set_state f Running (SetRunningFiber (Some f) ?w2)))"
    by (intro Resume_ok) simp_all
  moreover have "Resume f ?w1 = Inl AssertFail" by (simp add: Resume_def)
  ultimately show ?thesis using assms by simp
qed

theorem finished_fiber_witness:
  "\<exists>w1. MainFunc_leave 2 demo_thread = Inr w1 \<and> control w1 = 1 \<and> Resume 2 w1 = Inl AssertFail"
  using finished_fiber [of 2 demo_thread 1 None]
  by (auto simp: demo_thread_def main_of_def)

end
