(* ===== verification/Scheduler.thy ===== *)
theory Scheduler
  imports Fiber
begin

text \<open>
  The N-thread scheduler of fibers and callbacks (\<open>gudov/scheduler.{h,cpp}\<close>).  The first part models
  the functions on the scheduler object: construction, \<open>Start\<close>, \<open>Schedule\<close>, \<open>Stopping\<close>, \<open>Stop\<close> and the
  critical section of \<open>Run\<close> that takes a task.  The second part models the worker threads as a step
  relation: each thread is at one point of the loop of \<open>Run\<close>, and a step is what one thread does
  between two points where others can intervene (a critical section, or a write of a fiber's state).

  The lemmas show that a worker takes the first task it may run and loses none, that a fiber queued
  at most once is never taken or resumed by two workers, that the counters count the busy and idle
  workers, that the idle fiber of a worker ends only when nothing is queued or running, that a task
  queued after that can stay in the queue for ever, and that a yielding fiber is visible as ready
  before its context is saved, so that a second worker can be on its stack at the same time.
\<close>

section \<open>Tasks and the queue\<close>

record 'cb task =
  tk_fiber :: "nat option"
  tk_callback :: "'cb option"
  tk_thread :: int

definition FiberTask :: "nat option \<Rightarrow> int \<Rightarrow> 'cb task" where
  "FiberTask f thr = \<lparr>tk_fiber = f, tk_callback = None, tk_thread = thr\<rparr>"

definition CallbackTask :: "'cb option \<Rightarrow> int \<Rightarrow> 'cb task" where
  "CallbackTask f thr = \<lparr>tk_fiber = None, tk_callback = f, tk_thread = thr\<rparr>"

definition ResetTask :: "'cb task \<Rightarrow> 'cb task" where
  "ResetTask t = t\<lparr>tk_fiber := None, tk_callback := None, tk_thread := -1\<rparr>"

record 'cb sched =
  tasks :: "'cb task list"
  thread_count :: nat
  threads :: nat
  thread_ids :: "int list"
  active_thread_count :: nat
  idle_thread_count :: nat
  stopping :: bool
  use_caller :: bool
  root_thread :: int
  has_root_fiber :: bool

text \<open>\<open>cur_sched\<close> says whether the calling thread already has a scheduler, \<open>tid\<close> is its id.\<close>

definition newScheduler :: "nat \<Rightarrow> bool \<Rightarrow> bool \<Rightarrow> int \<Rightarrow> 'cb sched res" where
  "newScheduler n caller cur_sched tid =
     bindR (requireR (n > 0) AssertFail) (\<lambda>_.
       let s = \<lparr>tasks = [], thread_count = n, threads = 0, thread_ids = [],
                active_thread_count = 0, idle_thread_count = 0, stopping = False,
                use_caller = caller, root_thread = -1, has_root_fiber = False\<rparr> in
       if caller then
         bindR (requireR (\<not> cur_sched) AssertFail) (\<lambda>_.
           Inr (s\<lparr>thread_count := n - 1, root_thread := tid, thread_ids := [tid],
                  has_root_fiber := True\<rparr>))
       else Inr s)"

text \<open>\<open>new_ids\<close> are the ids of the threads the loop creates.\<close>

definition Start :: "int list \<Rightarrow> 'cb sched \<Rightarrow> 'cb sched res" where
  "Start new_ids s =
     (if stopping s then Inr s
      else bindR (requireR (threads s = 0) AssertFail) (\<lambda>_.
        Inr (s\<lparr>threads := thread_count s,
               thread_ids := thread_ids s @ take (thread_count s) new_ids\<rparr>)))"

definition ScheduleNoLock :: "'cb task \<Rightarrow> 'cb sched \<Rightarrow> 'cb sched \<times> bool" where
  "ScheduleNoLock task s =
     (let need_tickle = (tasks s = []) in
      (if tk_fiber task \<noteq> None \<or> tk_callback task \<noteq> None then s\<lparr>tasks := tasks s @ [task]\<rparr> else s,
       need_tickle))"

definition Schedule :: "'cb task \<Rightarrow> 'cb sched \<Rightarrow> 'cb sched \<times> bool" where
  "Schedule task s = ScheduleNoLock task s"

fun ScheduleRange :: "'cb task list \<Rightarrow> 'cb sched \<Rightarrow> 'cb sched \<times> bool" where
  "ScheduleRange [] s = (s, False)"
| "ScheduleRange (t # ts) s =
     (let (s1, n1) = ScheduleNoLock t s; (s2, n2) = ScheduleRange ts s1 in (s2, n1 \<or> n2))"

definition Stopping :: "'cb sched \<Rightarrow> bool" where
  "Stopping s \<longleftrightarrow> stopping s \<and> tasks s = [] \<and> active_thread_count s = 0"

text \<open>
  \<open>Stop\<close> up to the joins: the number of \<open>Tickle\<close> calls and whether the root fiber is resumed.
  \<open>mine\<close> says whether the calling thread's scheduler is this one.
\<close>

definition Stop :: "bool \<Rightarrow> 'cb sched \<Rightarrow> ('cb sched \<times> nat \<times> bool) res" where
  "Stop mine s =
     (if Stopping s then Inr (s, 0, False)
      else let s1 = s\<lparr>stopping := True\<rparr> in
        bindR (requireR (if use_caller s1 then mine else \<not> mine) AssertFail) (\<lambda>_.
          Inr (s1\<lparr>threads := 0\<rparr>, thread_count s1 + (if has_root_fiber s1 then 1 else 0),
               has_root_fiber s1)))"

definition HasIdleThreads :: "'cb sched \<Rightarrow> bool" where
  "HasIdleThreads s \<longleftrightarrow> idle_thread_count s > 0"

section \<open>Taking a task\<close>

text \<open>
  The search loop.  The iterator is compared with \<open>end()\<close> after the element it points to has been
  erased: an erased position is never \<open>end()\<close>, so the wake-up flag is set whenever a task was taken.
\<close>

fun take_task :: "int \<Rightarrow> (nat \<Rightarrow> fstate) \<Rightarrow> 'cb task list \<Rightarrow> ('cb task option \<times> 'cb task list \<times> bool) res" where
  "take_task tid st [] = Inr (None, [], False)"
| "take_task tid st (t # ts) =
     (if tk_thread t \<noteq> -1 \<and> tk_thread t \<noteq> tid then
        bindR (take_task tid st ts) (\<lambda>(r, rest, _). Inr (r, t # rest, True))
      else bindR (requireR (tk_fiber t \<noteq> None \<or> tk_callback t \<noteq> None) AssertFail) (\<lambda>_.
        if (case tk_fiber t of Some f \<Rightarrow> st f = Running | None \<Rightarrow> False) then
          bindR (take_task tid st ts) (\<lambda>(r, rest, tickle_me). Inr (r, t # rest, tickle_me))
        else Inr (Some t, ts, True)))"

definition Run_take :: "int \<Rightarrow> (nat \<Rightarrow> fstate) \<Rightarrow> 'cb sched \<Rightarrow> ('cb task option \<times> bool \<times> 'cb sched) res" where
  "Run_take tid st s =
     bindR (take_task tid st (tasks s)) (\<lambda>(r, rest, tickle_me).
       Inr (r, tickle_me,
            s\<lparr>tasks := rest,
              active_thread_count := active_thread_count s + (if r = None then 0 else 1)\<rparr>))"

definition eligible :: "int \<Rightarrow> (nat \<Rightarrow> fstate) \<Rightarrow> 'cb task \<Rightarrow> bool" where
  "eligible tid st t \<longleftrightarrow> (tk_thread t = -1 \<or> tk_thread t = tid) \<and>
     (case tk_fiber t of Some f \<Rightarrow> st f \<noteq> Running | None \<Rightarrow> True)"

definition task_ok :: "'cb task \<Rightarrow> bool" where
  "task_ok t \<longleftrightarrow> tk_fiber t \<noteq> None \<or> tk_callback t \<noteq> None"

lemma take_task_Cons:
  "task_ok t \<Longrightarrow> take_task tid st (t # ts) =
     (if eligible tid st t then Inr (Some t, ts, True)
      else bindR (take_task tid st ts) (\<lambda>(r, rest, k).
        Inr (r, t # rest, k \<or> tk_thread t \<noteq> -1 \<and> tk_thread t \<noteq> tid)))"
  by (auto simp: task_ok_def eligible_def split: option.splits)

lemma take_task_spec:
  assumes "\<forall>t\<in>set ts. task_ok t"
  shows "\<exists>tickle. take_task tid st ts = Inr (find (eligible tid st) ts,
    (case find (eligible tid st) ts of None \<Rightarrow> ts | Some t \<Rightarrow> remove1 t ts), tickle)"
  using assms
proof (induction ts)
  case (Cons t ts)
  then obtain k where "take_task tid st ts = Inr (find (eligible tid st) ts,
    (case find (eligible tid st) ts of None \<Rightarrow> ts | Some t \<Rightarrow> remove1 t ts), k)" by auto
  moreover have "u \<noteq> t" if "find (eligible tid st) ts = Some u" "\<not> eligible tid st t" for u
    using that by (auto simp: find_Some_iff)
  ultimately show ?case
    using Cons.prems
    by (cases "find (eligible tid st) ts") (auto simp: take_task_Cons simp del: take_task.simps)
qed auto

lemma take_task_cases:
  assumes "\<forall>t\<in>set ts. task_ok t" "take_task tid st ts = Inr (r, rest, k)"
  shows "r = None \<Longrightarrow> rest = ts \<and> (\<forall>t\<in>set ts. \<not> eligible tid st t)"
    and "r = Some t \<Longrightarrow> \<exists>pre post. ts = pre @ t # post \<and> rest = pre @ post \<and> eligible tid st t \<and>
           (\<forall>u\<in>set pre. \<not> eligible tid st u)"
proof -
  have r: "r = find (eligible tid st) ts"
    and rest: "rest = (case r of None \<Rightarrow> ts | Some t \<Rightarrow> remove1 t ts)"
    using take_task_spec [OF assms(1), of tid st] assms(2) by auto
  show "r = None \<Longrightarrow> rest = ts \<and> (\<forall>t\<in>set ts. \<not> eligible tid st t)"
    using r rest by (metis find_None_iff option.simps(4))
  assume t: "r = Some t"
  with r obtain i where i: "i < length ts" "eligible tid st (ts ! i)" "t = ts ! i"
    "\<forall>j<i. \<not> eligible tid st (ts ! j)"
    by (metis find_Some_iff)
  have split: "ts = take i ts @ t # drop (Suc i) ts" using i id_take_nth_drop by blast
  have no: "\<forall>u\<in>set (take i ts). \<not> eligible tid st u" using i by (auto simp: in_set_conv_nth)
  then have "t \<notin> set (take i ts)" using i by auto
  then have "remove1 t ts = take i ts @ drop (Suc i) ts"
    by (subst split) (simp add: remove1_append)
  then show "\<exists>pre post. ts = pre @ t # post \<and> rest = pre @ post \<and> eligible tid st t \<and>
      (\<forall>u\<in>set pre. \<not> eligible tid st u)"
    using split no i rest t by auto
qed

lemma tasks_ScheduleRange:
  "tasks (fst (ScheduleRange ts s)) = tasks s @ filter task_ok ts"
proof (induction ts arbitrary: s)
  case (Cons t ts)
  have "fst (ScheduleRange (t # ts) s) = fst (ScheduleRange ts (fst (ScheduleNoLock t s)))"
    by (simp add: Let_def split: prod.splits)
  then show ?case using Cons by (auto simp: ScheduleNoLock_def task_ok_def)
qed simp

section \<open>The workers\<close>

text \<open>
  Where a worker is in the loop of \<open>Run\<close>: about to take a task; holding a task it has taken but not
  resumed; inside a fiber; inside \<open>Fiber::Yield\<close> (or the end of the trampoline) between the write of
  the fiber's state and the context switch; in the idle fiber; out of the loop.
\<close>

datatype 'cb phase =
    AtTop
  | HoldFiber nat
  | HoldCallback 'cb
  | InFiber nat
  | Leaving nat
  | InIdle
  | Finished

record 'cb workers =
  sch :: "'cb sched"
  fstates :: "nat \<Rightarrow> fstate"
  phase :: "nat \<Rightarrow> 'cb phase"
  idle_term :: "nat \<Rightarrow> bool"

definition goto :: "nat \<Rightarrow> 'cb phase \<Rightarrow> 'cb workers \<Rightarrow> 'cb workers" where
  "goto t p w = w\<lparr>phase := (phase w)(t := p)\<rparr>"

definition set_fstate :: "nat \<Rightarrow> fstate \<Rightarrow> 'cb workers \<Rightarrow> 'cb workers" where
  "set_fstate f x w = w\<lparr>fstates := (fstates w)(f := x)\<rparr>"

definition upd_sch :: "('cb sched \<Rightarrow> 'cb sched) \<Rightarrow> 'cb workers \<Rightarrow> 'cb workers" where
  "upd_sch g w = w\<lparr>sch := g (sch w)\<rparr>"

definition phase_of_task :: "'cb task \<Rightarrow> 'cb phase" where
  "phase_of_task t = (case tk_fiber t of Some f \<Rightarrow> HoldFiber f
     | None \<Rightarrow> (case tk_callback t of Some cb \<Rightarrow> HoldCallback cb | None \<Rightarrow> AtTop))"

definition queued :: "nat \<Rightarrow> 'cb workers \<Rightarrow> bool" where
  "queued f w \<longleftrightarrow> Some f \<in> set (map tk_fiber (tasks (sch w)))"

definition touched :: "nat \<Rightarrow> 'cb workers \<Rightarrow> bool" where
  "touched f w \<longleftrightarrow> queued f w \<or> (\<exists>t. phase w t = HoldFiber f \<or> phase w t = InFiber f \<or> phase w t = Leaving f)"

definition busy :: "'cb phase \<Rightarrow> bool" where
  "busy p = (case p of HoldFiber _ \<Rightarrow> True | HoldCallback _ \<Rightarrow> True | InFiber _ \<Rightarrow> True
     | Leaving _ \<Rightarrow> True | _ \<Rightarrow> False)"

text \<open>
  \<open>n\<close> workers.  \<open>Schedule\<close> itself has no condition: a fiber or a callback may be queued at any moment, by
  a worker or from outside, also after \<open>Stop\<close>.  What a client does is the parameter \<open>pol\<close>:
  \<open>pol (Some f) w\<close> says that a client may queue fiber \<open>f\<close> in \<open>w\<close>, \<open>pol None w\<close> that it may queue a callback.
  The client that may do anything is \<open>\<lambda>_ _. True\<close>; \<open>queue_once\<close> never queues a fiber that is already
  queued or taken (it may be running, as when an event fires before the fiber that waits for it has
  yielded); \<open>queue_before_drain\<close> queues nothing once the scheduler is \<open>Stopping\<close>.

  The assertion and the state write of \<open>Resume\<close> are one step: a fiber that is queued once has one holder,
  and only its holder resumes it.  The idle fiber is that of \<open>Scheduler::Idle\<close>; the one of the I/O manager,
  whose stop test implies this one, is in the theory of the I/O manager.
\<close>

type_synonym 'cb policy = "nat option \<Rightarrow> 'cb workers \<Rightarrow> bool"

definition queue_once :: "'cb policy" where
  "queue_once x w = (case x of None \<Rightarrow> True
     | Some f \<Rightarrow> \<not> queued f w \<and> (\<forall>t. phase w t \<noteq> HoldFiber f))"

definition queue_before_drain :: "'cb policy" where
  "queue_before_drain x w \<longleftrightarrow> \<not> Stopping (sch w)"

inductive wstep :: "'cb policy \<Rightarrow> nat \<Rightarrow> 'cb workers \<Rightarrow> 'cb workers \<Rightarrow> bool" for pol n where
  add_fiber: "pol (Some f) w \<Longrightarrow>
    wstep pol n w (upd_sch (\<lambda>s. fst (Schedule (FiberTask (Some f) thr) s)) w)"
| add_callback: "pol None w \<Longrightarrow>
    wstep pol n w (upd_sch (\<lambda>s. fst (Schedule (CallbackTask (Some cb) thr) s)) w)"
| stop: "wstep pol n w (upd_sch (\<lambda>s. s\<lparr>stopping := True\<rparr>) w)"
| take: "t < n \<Longrightarrow> phase w t = AtTop \<Longrightarrow>
    Run_take (int t) (fstates w) (sch w) = Inr (Some task, k, s') \<Longrightarrow>
    wstep pol n w (goto t (phase_of_task task) (upd_sch (\<lambda>_. s') w))"
| enter_idle: "t < n \<Longrightarrow> phase w t = AtTop \<Longrightarrow>
    Run_take (int t) (fstates w) (sch w) = Inr (None, k, s') \<Longrightarrow> \<not> idle_term w t \<Longrightarrow>
    wstep pol n w (goto t InIdle (upd_sch (\<lambda>_. s'\<lparr>idle_thread_count := idle_thread_count s' + 1\<rparr>) w))"
| leave_loop: "t < n \<Longrightarrow> phase w t = AtTop \<Longrightarrow>
    Run_take (int t) (fstates w) (sch w) = Inr (None, k, s') \<Longrightarrow> idle_term w t \<Longrightarrow>
    wstep pol n w (goto t Finished (upd_sch (\<lambda>_. s') w))"
| idle_yield: "t < n \<Longrightarrow> phase w t = InIdle \<Longrightarrow> \<not> Stopping (sch w) \<Longrightarrow>
    wstep pol n w (goto t AtTop (upd_sch (\<lambda>s. s\<lparr>idle_thread_count := idle_thread_count s - 1\<rparr>) w))"
| idle_end: "t < n \<Longrightarrow> phase w t = InIdle \<Longrightarrow> Stopping (sch w) \<Longrightarrow>
    wstep pol n w (goto t AtTop (upd_sch (\<lambda>s. s\<lparr>idle_thread_count := idle_thread_count s - 1\<rparr>)
      (w\<lparr>idle_term := (idle_term w)(t := True)\<rparr>)))"
| resume: "t < n \<Longrightarrow> phase w t = HoldFiber f \<Longrightarrow> fstates w f = Ready \<Longrightarrow>
    wstep pol n w (goto t (InFiber f) (set_fstate f Running w))"
| start_callback: "t < n \<Longrightarrow> phase w t = HoldCallback cb \<Longrightarrow> \<not> touched f w \<Longrightarrow>
    wstep pol n w (goto t (InFiber f) (set_fstate f Running w))"
| yield: "t < n \<Longrightarrow> phase w t = InFiber f \<Longrightarrow> x = Ready \<or> x = Term \<Longrightarrow>
    wstep pol n w (goto t (Leaving f) (set_fstate f x w))"
| switch: "t < n \<Longrightarrow> phase w t = Leaving f \<Longrightarrow>
    wstep pol n w (goto t AtTop (upd_sch (\<lambda>s. s\<lparr>active_thread_count := active_thread_count s - 1\<rparr>) w))"

text \<open>
  The assertions a worker can fail, which end the process: that of the search loop, and that of
  \<open>Resume\<close> when the fiber taken is not ready.
\<close>

inductive wfail :: "nat \<Rightarrow> 'cb workers \<Rightarrow> fault \<Rightarrow> bool" for n where
  take_fails: "t < n \<Longrightarrow> phase w t = AtTop \<Longrightarrow>
    Run_take (int t) (fstates w) (sch w) = Inl e \<Longrightarrow> wfail n w e"
| resume_fails: "t < n \<Longrightarrow> phase w t = HoldFiber f \<Longrightarrow> fstates w f \<noteq> Ready \<Longrightarrow> wfail n w AssertFail"

definition workers_init :: "'cb sched \<Rightarrow> (nat \<Rightarrow> fstate) \<Rightarrow> 'cb workers" where
  "workers_init s st = \<lparr>sch = s, fstates = st, phase = (\<lambda>_. AtTop), idle_term = (\<lambda>_. False)\<rparr>"

inductive wreach :: "'cb policy \<Rightarrow> nat \<Rightarrow> 'cb workers \<Rightarrow> bool" for pol n where
  init: "tasks s = [] \<Longrightarrow> active_thread_count s = 0 \<Longrightarrow> idle_thread_count s = 0 \<Longrightarrow>
    (\<forall>f. st f \<noteq> Running) \<Longrightarrow> wreach pol n (workers_init s st)"
| step: "wreach pol n w \<Longrightarrow> wstep pol n w w' \<Longrightarrow> wreach pol n w'"

section \<open>Invariants of the workers\<close>

definition wk_excl :: "'cb workers \<Rightarrow> bool" where
  "wk_excl w \<longleftrightarrow>
     distinct (filter (\<lambda>x. x \<noteq> None) (map tk_fiber (tasks (sch w)))) \<and>
     (\<forall>t f. phase w t = HoldFiber f \<longrightarrow> \<not> queued f w \<and> fstates w f \<noteq> Running) \<and>
     (\<forall>t f. phase w t = InFiber f \<longrightarrow> fstates w f = Running) \<and>
     (\<forall>t u f. phase w t = HoldFiber f \<and> phase w u = HoldFiber f \<longrightarrow> t = u) \<and>
     (\<forall>t u f. phase w t = InFiber f \<and> phase w u = InFiber f \<longrightarrow> t = u)"

definition wk_count :: "nat \<Rightarrow> 'cb workers \<Rightarrow> bool" where
  "wk_count n w \<longleftrightarrow>
     (\<forall>t \<in> set (tasks (sch w)). task_ok t) \<and> (\<forall>t. n \<le> t \<longrightarrow> phase w t = AtTop) \<and>
     active_thread_count (sch w) = length (filter (\<lambda>t. busy (phase w t)) [0..<n]) \<and>
     idle_thread_count (sch w) = length (filter (\<lambda>t. phase w t = InIdle) [0..<n])"

definition wk_drained :: "'cb workers \<Rightarrow> bool" where
  "wk_drained w \<longleftrightarrow> (\<forall>t. idle_term w t \<or> phase w t = Finished \<longrightarrow> Stopping (sch w))"

lemma worker_simps [simp]:
  "phase (goto t p w) = (phase w)(t := p)" "sch (goto t p w) = sch w"
  "fstates (goto t p w) = fstates w" "idle_term (goto t p w) = idle_term w"
  "phase (set_fstate f x w) = phase w" "sch (set_fstate f x w) = sch w"
  "fstates (set_fstate f x w) = (fstates w)(f := x)" "idle_term (set_fstate f x w) = idle_term w"
  "phase (upd_sch g w) = phase w" "sch (upd_sch g w) = g (sch w)"
  "fstates (upd_sch g w) = fstates w" "idle_term (upd_sch g w) = idle_term w"
  by (simp_all add: goto_def set_fstate_def upd_sch_def)

lemma count_upd:
  assumes "t < n"
  shows "length (filter (\<lambda>u. P ((ph(t := p)) u)) [0..<n]) + (if P (ph t) then 1 else 0) =
         length (filter (\<lambda>u. P (ph u)) [0..<n]) + (if P p then 1 else 0)"
proof -
  have split: "[0..<n] = [0..<t] @ t # [Suc t..<n]"
    using assms by (metis less_imp_le_nat upt_add_eq_append upt_conv_Cons le_add_diff_inverse zero_le)
  have "filter (\<lambda>u. P ((ph(t := p)) u)) [0..<t] = filter (\<lambda>u. P (ph u)) [0..<t]"
    "filter (\<lambda>u. P ((ph(t := p)) u)) [Suc t..<n] = filter (\<lambda>u. P (ph u)) [Suc t..<n]"
    by (auto intro!: filter_cong)
  then show ?thesis unfolding split by simp
qed

lemma Run_take_None:
  assumes "\<forall>t\<in>set (tasks s). task_ok t" "Run_take tid st s = Inr (None, k, s')"
  shows "s' = s"
proof -
  obtain rest where "take_task tid st (tasks s) = Inr (None, rest, k)"
    and s': "s' = s\<lparr>tasks := rest, active_thread_count := active_thread_count s\<rparr>"
    using assms(2) by (auto simp: Run_take_def split: if_splits)
  with take_task_cases(1) [OF assms(1)] show ?thesis by simp
qed

lemma Run_take_Some:
  assumes "\<forall>t\<in>set (tasks s). task_ok t" "Run_take tid st s = Inr (Some task, k, s')"
  shows "\<exists>pre post. tasks s = pre @ task # post \<and> eligible tid st task \<and> task_ok task \<and>
    s' = s\<lparr>tasks := pre @ post, active_thread_count := active_thread_count s + 1\<rparr>"
proof -
  obtain rest where t: "take_task tid st (tasks s) = Inr (Some task, rest, k)"
    and s': "s' = s\<lparr>tasks := rest, active_thread_count := active_thread_count s + 1\<rparr>"
    using assms(2) by (auto simp: Run_take_def split: if_splits)
  from take_task_cases(2) [OF assms(1) t refl] obtain pre post where
    "tasks s = pre @ task # post" "rest = pre @ post" "eligible tid st task" by blast
  then show ?thesis using s' assms(1) by (intro exI [of _ pre] exI [of _ post]) simp
qed

lemma wk_count_tasks: "wk_count n w \<Longrightarrow> \<forall>t\<in>set (tasks (sch w)). task_ok t"
  by (simp add: wk_count_def)

lemma phase_of_task_busy: "task_ok t \<Longrightarrow> busy (phase_of_task t)"
  by (auto simp: phase_of_task_def busy_def task_ok_def split: option.splits)

lemma phase_of_task_HoldFiber [simp]: "phase_of_task t = HoldFiber f \<longleftrightarrow> tk_fiber t = Some f"
  by (auto simp: phase_of_task_def split: option.splits)

lemma phase_of_task_other [simp]:
  "phase_of_task t \<noteq> InFiber f" "phase_of_task t \<noteq> InIdle" "phase_of_task t \<noteq> Finished"
  "phase_of_task t \<noteq> Leaving f"
  by (auto simp: phase_of_task_def split: option.splits)

lemma Schedule_simps [simp]:
  "fst (Schedule (FiberTask (Some f) thr) s) = s\<lparr>tasks := tasks s @ [FiberTask (Some f) thr]\<rparr>"
  "fst (Schedule (CallbackTask (Some cb) thr) s) = s\<lparr>tasks := tasks s @ [CallbackTask (Some cb) thr]\<rparr>"
  "tk_fiber (FiberTask (Some f) thr) = Some f" "tk_fiber (CallbackTask (Some cb) thr) = None"
  "task_ok (FiberTask (Some f) thr)" "task_ok (CallbackTask (Some cb) thr)"
  by (simp_all add: Schedule_def ScheduleNoLock_def FiberTask_def CallbackTask_def task_ok_def)

lemma busy_simps [simp]:
  "busy (HoldFiber f)" "busy (HoldCallback cb)" "busy (InFiber f)" "busy (Leaving f)"
  "\<not> busy AtTop" "\<not> busy InIdle" "\<not> busy Finished"
  by (simp_all add: busy_def)

lemma wstep_count:
  assumes "wstep pol n w w'" "wk_count n w"
  shows "wk_count n w'"
  using assms
proof (induction rule: wstep.induct)
  case (take t w task k s')
  from Run_take_Some [OF wk_count_tasks [OF take.prems] take(3)] obtain pre post where
    "tasks (sch w) = pre @ task # post" "task_ok task"
    "s' = (sch w)\<lparr>tasks := pre @ post, active_thread_count := active_thread_count (sch w) + 1\<rparr>"
    by blast
  then show ?case using take count_upd [OF take(1), of busy "phase w" "phase_of_task task"]
      count_upd [OF take(1), of "\<lambda>p. p = InIdle" "phase w" "phase_of_task task"]
      phase_of_task_busy [of task]
    by (auto simp: wk_count_def)
next
  case (enter_idle t w k s')
  then have "s' = sch w" using Run_take_None wk_count_tasks by blast
  then show ?case using enter_idle count_upd [OF enter_idle(1), of busy "phase w" InIdle]
      count_upd [OF enter_idle(1), of "\<lambda>p. p = InIdle" "phase w" InIdle]
    by (auto simp: wk_count_def)
next
  case (leave_loop t w k s')
  then have "s' = sch w" using Run_take_None wk_count_tasks by blast
  then show ?case using leave_loop count_upd [OF leave_loop(1), of busy "phase w" Finished]
      count_upd [OF leave_loop(1), of "\<lambda>p. p = InIdle" "phase w" Finished]
    by (auto simp: wk_count_def)
next
  case (idle_yield t w)
  then show ?case using count_upd [OF idle_yield(1), of busy "phase w" AtTop]
      count_upd [OF idle_yield(1), of "\<lambda>p. p = InIdle" "phase w" AtTop]
    by (auto simp: wk_count_def)
next
  case (idle_end t w)
  then show ?case using count_upd [OF idle_end(1), of busy "phase w" AtTop]
      count_upd [OF idle_end(1), of "\<lambda>p. p = InIdle" "phase w" AtTop]
    by (auto simp: wk_count_def)
next
  case (resume t w f)
  then show ?case using count_upd [OF resume(1), of busy "phase w" "InFiber f"]
      count_upd [OF resume(1), of "\<lambda>p. p = InIdle" "phase w" "InFiber f"]
    by (auto simp: wk_count_def)
next
  case (start_callback t w cb f)
  then show ?case using count_upd [OF start_callback(1), of busy "phase w" "InFiber f"]
      count_upd [OF start_callback(1), of "\<lambda>p. p = InIdle" "phase w" "InFiber f"]
    by (auto simp: wk_count_def)
next
  case (yield t w f x)
  then show ?case using count_upd [OF yield(1), of busy "phase w" "Leaving f"]
      count_upd [OF yield(1), of "\<lambda>p. p = InIdle" "phase w" "Leaving f"]
    by (auto simp: wk_count_def)
next
  case (switch t w f)
  then show ?case using count_upd [OF switch(1), of busy "phase w" AtTop]
      count_upd [OF switch(1), of "\<lambda>p. p = InIdle" "phase w" AtTop]
    by (auto simp: wk_count_def)
qed (auto simp: wk_count_def)

lemma wstep_excl:
  assumes "wstep pol n w w'" "wk_excl w" "wk_count n w" and once: "\<forall>x v. pol x v \<longrightarrow> queue_once x v"
  shows "wk_excl w'"
  using assms(1-3)
proof (induction rule: wstep.induct)
  case (add_fiber f w thr)
  then have "queue_once (Some f) w" using once by blast
  then show ?case using add_fiber by (auto simp: wk_excl_def queued_def queue_once_def)
next
  case (add_callback w cb thr)
  then show ?case by (auto simp: wk_excl_def queued_def)
next
  case (take t w task k s')
  from Run_take_Some [OF wk_count_tasks [OF take.prems(2)] take(3)] obtain pre post where t:
    "tasks (sch w) = pre @ task # post" "eligible (int t) (fstates w) task"
    "s' = (sch w)\<lparr>tasks := pre @ post, active_thread_count := active_thread_count (sch w) + 1\<rparr>"
    by blast
  have d: "distinct (filter (\<lambda>x. x \<noteq> None) (map tk_fiber (pre @ post)))"
    using take.prems(1) t(1) by (auto simp: wk_excl_def split: if_splits)
  have q: "queued f w \<longleftrightarrow> tk_fiber task = Some f \<or> Some f \<in> tk_fiber ` set (pre @ post)" for f
    using t by (auto simp: queued_def)
  have new: "fstates w f \<noteq> Running" "Some f \<notin> tk_fiber ` set (pre @ post)"
    "\<And>u. phase w u \<noteq> HoldFiber f" if "tk_fiber task = Some f" for f
    using that t take.prems(1) q [of f] by (auto simp: wk_excl_def eligible_def image_Un)
  let ?w' = "goto t (phase_of_task task) (upd_sch (\<lambda>_. s') w)"
  have q': "queued f ?w' \<longleftrightarrow> Some f \<in> tk_fiber ` set (pre @ post)" for f
    by (simp add: queued_def t(3) image_Un)
  have hold: "\<not> queued f w \<and> fstates w f \<noteq> Running" if "phase w u = HoldFiber f" for u f
    using that take.prems(1) unfolding wk_excl_def by blast
  have uniq: "u = v" if "phase w u = HoldFiber f" "phase w v = HoldFiber f" for u v f
    using that take.prems(1) unfolding wk_excl_def by blast
  have inf: "fstates w f = Running" if "phase w u = InFiber f" for u f
    using that take.prems(1) unfolding wk_excl_def by blast
  have inu: "u = v" if "phase w u = InFiber f" "phase w v = InFiber f" for u v f
    using that take.prems(1) unfolding wk_excl_def by blast
  have h': "\<not> queued f ?w' \<and> fstates w f \<noteq> Running" if "phase ?w' u = HoldFiber f" for u f
    using that new(1,2) [of f] hold [of u f] q [of f] q' [of f] by (cases "u = t") simp_all
  have u': "u = v" if "phase ?w' u = HoldFiber f \<and> phase ?w' v = HoldFiber f" for u v f
    using that new(3) [of f] uniq [of u f v] by (cases "u = t"; cases "v = t") simp_all
  have i': "phase w u = InFiber f" if "phase ?w' u = InFiber f" for u f
    using that by (cases "u = t") simp_all
  show ?case unfolding wk_excl_def
  proof (intro conjI allI impI)
    show "distinct (filter (\<lambda>x. x \<noteq> None) (map tk_fiber (tasks (sch ?w'))))"
      using d t(3) by simp
  next
    fix u f assume "phase ?w' u = HoldFiber f"
    from h' [OF this] show "\<not> queued f ?w'" "fstates ?w' f \<noteq> Running" by simp_all
  next
    fix u f assume "phase ?w' u = InFiber f"
    from inf [OF i' [OF this]] show "fstates ?w' f = Running" by simp
  next
    fix u v f assume "phase ?w' u = HoldFiber f \<and> phase ?w' v = HoldFiber f"
    then show "u = v" by (rule u')
  next
    fix u v f assume "phase ?w' u = InFiber f \<and> phase ?w' v = InFiber f"
    then show "u = v" using i' inu by blast
  qed
next
  case (enter_idle t w k s')
  then have "s' = sch w" using Run_take_None wk_count_tasks by blast
  then show ?case using enter_idle by (auto simp: wk_excl_def queued_def)
next
  case (leave_loop t w k s')
  then have "s' = sch w" using Run_take_None wk_count_tasks by blast
  then show ?case using leave_loop by (auto simp: wk_excl_def queued_def)
next
  case (resume t w f)
  then show ?case by (auto simp: wk_excl_def queued_def)
next
  case (start_callback t w cb f)
  then show ?case by (auto simp: wk_excl_def queued_def touched_def)
next
  case (yield t w f x)
  then show ?case by (auto simp: wk_excl_def queued_def)
qed (auto simp: wk_excl_def queued_def)

lemma wstep_drained:
  assumes "wstep pol n w w'" "wk_drained w" "wk_count n w"
    and early: "\<forall>x v. pol x v \<longrightarrow> queue_before_drain x v"
  shows "wk_drained w'"
  using assms(1-3)
proof (induction rule: wstep.induct)
  case (add_fiber f w thr)
  then have "\<not> Stopping (sch w)" using early by (auto simp: queue_before_drain_def)
  then show ?case using add_fiber by (auto simp: wk_drained_def)
next
  case (add_callback w cb thr)
  then have "\<not> Stopping (sch w)" using early by (auto simp: queue_before_drain_def)
  then show ?case using add_callback by (auto simp: wk_drained_def)
next
  case (take t w task k s')
  from Run_take_Some [OF wk_count_tasks [OF take.prems(2)] take(3)] have "tasks (sch w) \<noteq> []"
    by auto
  then have "\<not> Stopping (sch w)" by (simp add: Stopping_def)
  then show ?case using take by (auto simp: wk_drained_def)
next
  case (enter_idle t w k s')
  then have "s' = sch w" using Run_take_None wk_count_tasks by blast
  then show ?case using enter_idle by (auto simp: wk_drained_def Stopping_def)
next
  case (leave_loop t w k s')
  then have "s' = sch w" using Run_take_None wk_count_tasks by blast
  then show ?case using leave_loop by (auto simp: wk_drained_def)
qed (auto simp: wk_drained_def Stopping_def)

lemma wreach_count: "wreach pol n w \<Longrightarrow> wk_count n w"
proof (induction rule: wreach.induct)
  case (init s st)
  then show ?case by (auto simp: workers_init_def wk_count_def)
qed (rule wstep_count)

lemma wreach_excl:
  assumes "wreach pol n w" "\<forall>x v. pol x v \<longrightarrow> queue_once x v"
  shows "wk_excl w"
  using assms(1)
proof (induction rule: wreach.induct)
  case (init s st)
  then show ?case by (auto simp: workers_init_def wk_excl_def queued_def)
next
  case (step w w')
  then show ?case using wstep_excl wreach_count assms(2) by blast
qed

lemma wreach_drained:
  assumes "wreach pol n w" "\<forall>x v. pol x v \<longrightarrow> queue_before_drain x v"
  shows "wk_drained w"
  using assms(1)
proof (induction rule: wreach.induct)
  case (init s st)
  then show ?case by (auto simp: workers_init_def wk_drained_def)
next
  case (step w w')
  then show ?case using wstep_drained wreach_count assms(2) by blast
qed

lemma take_task_no_fault:
  "\<forall>t\<in>set (tasks s). task_ok t \<Longrightarrow> Run_take tid st s \<noteq> Inl e"
  using take_task_spec [of "tasks s" tid st] by (auto simp: Run_take_def)

text \<open>Which worker a step that ends an idle fiber or leaves the loop belongs to, and what it saw.\<close>

lemma wstep_idle_term:
  assumes "wstep pol n w w'" "idle_term w' t" "\<not> idle_term w t"
  shows "phase w t = InIdle \<and> Stopping (sch w)"
  using assms by (induction rule: wstep.induct) (auto split: if_splits)

lemma wstep_Finished:
  assumes "wstep pol n w w'" "wk_count n w" "phase w' t = Finished" "phase w t \<noteq> Finished"
  shows "idle_term w t \<and> (\<forall>k\<in>set (tasks (sch w)). \<not> eligible (int t) (fstates w) k)"
  using assms
proof (induction rule: wstep.induct)
  case (leave_loop u w k s')
  then obtain rest where "take_task (int u) (fstates w) (tasks (sch w)) = Inr (None, rest, k)"
    by (auto simp: Run_take_def split: if_splits)
  then have "\<forall>k\<in>set (tasks (sch w)). \<not> eligible (int u) (fstates w) k"
    using take_task_cases(1) [OF wk_count_tasks] leave_loop.prems(1) by blast
  then show ?case using leave_loop by (auto split: if_splits)
qed (auto split: if_splits)

section \<open>Properties\<close>

text \<open>
  Taking a task is fair and lossless: from a queue of proper tasks a worker takes the first one
  that is not pinned to another thread and whose fiber is not running, leaves the others in their
  order and counts itself active; if there is none the queue and the counter stay as they are.
\<close>

theorem take_first_eligible:
  assumes "\<forall>t\<in>set (tasks s). task_ok t"
  shows "\<exists>k. Run_take tid st s =
    (case find (eligible tid st) (tasks s) of
       None \<Rightarrow> Inr (None, k, s)
     | Some t \<Rightarrow> Inr (Some t, k, s\<lparr>tasks := remove1 t (tasks s),
                                   active_thread_count := active_thread_count s + 1\<rparr>))"
  using take_task_spec [OF assms, of tid st] by (auto simp: Run_take_def split: option.splits)

definition demo_sched :: "nat sched" where
  "demo_sched = \<lparr>tasks = [CallbackTask (Some 7) 5, CallbackTask (Some 8) (-1)], thread_count = 1,
     threads = 1, thread_ids = [1], active_thread_count = 0, idle_thread_count = 0, stopping = False,
     use_caller = False, root_thread = -1, has_root_fiber = False\<rparr>"

theorem take_first_eligible_witness:
  "\<exists>k s'. Run_take 1 (\<lambda>_. Ready) demo_sched = Inr (Some (CallbackTask (Some 8) (-1)), k, s')"
  using take_first_eligible [of demo_sched 1 "\<lambda>_. Ready"]
  by (auto simp: demo_sched_def eligible_def CallbackTask_def task_ok_def)

text \<open>
  C3. Exclusive execution up to the switch: when clients do not queue a fiber that is already queued
  or taken, then in every reachable state of any number of workers at most one worker has taken or
  executes a given fiber, a fiber that is executed is in the state \<open>Running\<close>, and of two workers on
  the same fiber one is already inside \<open>Yield\<close> (or at the end of the trampoline), past the write of
  the fiber's state and before the context switch.  The only assertion a worker can fail is that of
  \<open>Resume\<close> on a fiber that was queued although it has finished.
\<close>

theorem exclusive_fibers:
  assumes "wreach pol n w" "\<forall>x v. pol x v \<longrightarrow> queue_once x v"
  shows "(\<forall>t u f. phase w t \<in> {HoldFiber f, InFiber f} \<and> phase w u \<in> {HoldFiber f, InFiber f} \<longrightarrow> t = u) \<and>
    (\<forall>t f. phase w t = InFiber f \<longrightarrow> fstates w f = Running) \<and>
    (\<forall>t u f. phase w t \<in> {HoldFiber f, InFiber f, Leaving f} \<and>
       phase w u \<in> {HoldFiber f, InFiber f, Leaving f} \<and> t \<noteq> u \<longrightarrow>
       phase w t = Leaving f \<or> phase w u = Leaving f) \<and>
    (\<forall>e. wfail n w e \<longrightarrow> e = AssertFail \<and> (\<exists>t f. phase w t = HoldFiber f \<and> fstates w f = Term))"
proof -
  have ex: "wk_excl w" using wreach_excl assms by blast
  have hold: "fstates w f \<noteq> Running" if "phase w t = HoldFiber f" for t f
    using that ex unfolding wk_excl_def by blast
  have inf: "fstates w f = Running" if "phase w t = InFiber f" for t f
    using that ex unfolding wk_excl_def by blast
  have uniq: "t = u"
    if "phase w t \<in> {HoldFiber f, InFiber f}" "phase w u \<in> {HoldFiber f, InFiber f}" for t u f
    using that hold inf ex unfolding wk_excl_def by auto
  have "e = AssertFail \<and> (\<exists>t f. phase w t = HoldFiber f \<and> fstates w f = Term)" if "wfail n w e" for e
    using that
  proof cases
    case (take_fails t)
    then show ?thesis using take_task_no_fault wk_count_tasks [OF wreach_count [OF assms(1)]] by blast
  next
    case (resume_fails t f)
    then show ?thesis using hold [of t f] by (cases "fstates w f") auto
  qed
  then show ?thesis using uniq inf by blast
qed

definition empty_sched :: "nat sched" where
  "empty_sched = demo_sched\<lparr>tasks := []\<rparr>"

lemma wreach_init_empty: "wreach pol n (workers_init empty_sched (\<lambda>_. Ready))"
  by (rule wreach.init) (simp_all add: empty_sched_def demo_sched_def)

lemma wreach_hold:
  "wreach queue_once 2 (goto 0 (HoldFiber 5) (upd_sch (\<lambda>_. empty_sched\<lparr>active_thread_count := 1\<rparr>)
     (upd_sch (\<lambda>s. fst (Schedule (FiberTask (Some 5) (-1)) s)) (workers_init empty_sched (\<lambda>_. Ready)))))"
  (is "wreach queue_once 2 (goto 0 _ (upd_sch _ ?w))")
proof -
  have "wstep queue_once 2 (workers_init empty_sched (\<lambda>_. Ready)) ?w"
    by (rule wstep.add_fiber)
       (simp add: queue_once_def workers_init_def queued_def empty_sched_def demo_sched_def)
  with wreach_init_empty have w: "wreach queue_once 2 ?w" by (rule wreach.step)
  have "wstep queue_once 2 ?w (goto 0 (phase_of_task (FiberTask (Some 5) (-1)))
      (upd_sch (\<lambda>_. empty_sched\<lparr>active_thread_count := 1\<rparr>) ?w))"
    by (rule wstep.take [where k = True])
       (simp_all add: workers_init_def empty_sched_def demo_sched_def Run_take_def FiberTask_def
          Schedule_def ScheduleNoLock_def)
  with w have "wreach queue_once 2 (goto 0 (phase_of_task (FiberTask (Some 5) (-1)))
      (upd_sch (\<lambda>_. empty_sched\<lparr>active_thread_count := 1\<rparr>) ?w))" by (rule wreach.step)
  then show ?thesis by (simp add: phase_of_task_def)
qed

text \<open>
  A fiber becomes visible as ready before its context is saved: there is a reachable state in
  which one worker is still on the fiber's stack inside \<open>Yield\<close> while another has already resumed
  the same fiber, although it was never queued twice.
\<close>

lemma yield_before_switch:
  "\<exists>w :: nat workers. wreach queue_once 2 w \<and> phase w 0 = Leaving 5 \<and> phase w 1 = InFiber 5"
proof -
  let ?w3 = "goto 0 (HoldFiber 5) (upd_sch (\<lambda>_. empty_sched\<lparr>active_thread_count := 1\<rparr>)
     (upd_sch (\<lambda>s. fst (Schedule (FiberTask (Some 5) (-1)) s)) (workers_init empty_sched (\<lambda>_. Ready))))"
  let ?w4 = "goto 0 (InFiber 5) (set_fstate 5 Running ?w3)"
  let ?w5 = "upd_sch (\<lambda>s. fst (Schedule (FiberTask (Some 5) (-1)) s)) ?w4"
  let ?w6 = "goto 0 (Leaving 5) (set_fstate 5 Ready ?w5)"
  let ?w7 = "goto 1 (phase_of_task (FiberTask (Some 5) (-1)))
    (upd_sch (\<lambda>_. empty_sched\<lparr>active_thread_count := 2\<rparr>) ?w6)"
  let ?w8 = "goto 1 (InFiber 5) (set_fstate 5 Running ?w7)"
  have "wstep queue_once 2 ?w3 ?w4" by (rule wstep.resume) (simp_all add: workers_init_def)
  with wreach_hold have r4: "wreach queue_once 2 ?w4" by (rule wreach.step)
  have "wstep queue_once 2 ?w4 ?w5"
    by (rule wstep.add_fiber)
       (simp add: queue_once_def queued_def empty_sched_def demo_sched_def workers_init_def)
  with r4 have r5: "wreach queue_once 2 ?w5" by (rule wreach.step)
  have "wstep queue_once 2 ?w5 ?w6" by (rule wstep.yield) simp_all
  with r5 have r6: "wreach queue_once 2 ?w6" by (rule wreach.step)
  have "wstep queue_once 2 ?w6 ?w7"
    by (rule wstep.take [where k = True])
       (simp_all add: workers_init_def empty_sched_def demo_sched_def Run_take_def FiberTask_def
          Schedule_def ScheduleNoLock_def)
  with r6 have r7: "wreach queue_once 2 ?w7" by (rule wreach.step)
  have "wstep queue_once 2 ?w7 ?w8" by (rule wstep.resume) (simp_all add: phase_of_task_def)
  with r7 have "wreach queue_once 2 ?w8" by (rule wreach.step)
  then show ?thesis by (intro exI [of _ ?w8]) simp
qed

theorem exclusive_fibers_witness:
  "\<exists>w :: nat workers. wreach queue_once 2 w \<and> phase w 1 = InFiber 5 \<and> fstates w 5 = Running \<and>
     phase w 0 = Leaving 5 \<and> (\<forall>u. phase w u = InFiber 5 \<longrightarrow> u = 1)"
proof -
  obtain w :: "nat workers" where w: "wreach queue_once 2 w" "phase w 0 = Leaving 5" "phase w 1 = InFiber 5"
    using yield_before_switch by blast
  have "\<forall>x v. queue_once x v \<longrightarrow> queue_once x v" by simp
  from exclusive_fibers [OF w(1) this] w show ?thesis by auto
qed

text \<open>
  C11. The counters are right and the idle fibers end in a drained scheduler.  Whatever clients
  queue and whenever they do, the active count is the number of workers with a task and the idle
  count the number in the idle fiber; the idle fiber of a worker ends only in a state in which the
  scheduler is stopping with nothing queued and nobody active, and a worker leaves \<open>Run\<close> only after
  that and with no task in the queue that it may run.  When nothing is queued after the scheduler
  has drained, then once some worker has left \<open>Run\<close> the scheduler stays stopping with nothing queued
  and nobody active.
\<close>

theorem counters_and_drain:
  assumes "wreach pol n w"
  shows "active_thread_count (sch w) = length (filter (\<lambda>t. busy (phase w t)) [0..<n]) \<and>
    idle_thread_count (sch w) = length (filter (\<lambda>t. phase w t = InIdle) [0..<n]) \<and>
    (\<forall>w' t. wstep pol n w w' \<and> idle_term w' t \<and> \<not> idle_term w t \<longrightarrow>
       stopping (sch w) \<and> tasks (sch w) = [] \<and> (\<forall>u < n. \<not> busy (phase w u))) \<and>
    (\<forall>w' t. wstep pol n w w' \<and> phase w' t = Finished \<and> phase w t \<noteq> Finished \<longrightarrow>
       idle_term w t \<and> (\<forall>k\<in>set (tasks (sch w)). \<not> eligible (int t) (fstates w) k)) \<and>
    ((\<forall>x v. pol x v \<longrightarrow> queue_before_drain x v) \<and> (\<exists>t. phase w t = Finished) \<longrightarrow>
       stopping (sch w) \<and> tasks (sch w) = [] \<and> (\<forall>u < n. \<not> busy (phase w u)))"
proof -
  have c: "wk_count n w" using wreach_count assms by blast
  have empty: "stopping (sch w) \<and> tasks (sch w) = [] \<and> (\<forall>u < n. \<not> busy (phase w u))"
    if "Stopping (sch w)"
    using that c by (auto simp: Stopping_def wk_count_def filter_empty_conv)
  have "stopping (sch w) \<and> tasks (sch w) = [] \<and> (\<forall>u < n. \<not> busy (phase w u))"
    if "\<forall>x v. pol x v \<longrightarrow> queue_before_drain x v" "\<exists>t. phase w t = Finished"
    using wreach_drained [OF assms that(1)] that(2) empty unfolding wk_drained_def by blast
  moreover have "stopping (sch w) \<and> tasks (sch w) = [] \<and> (\<forall>u < n. \<not> busy (phase w u))"
    if "wstep pol n w w' \<and> idle_term w' t \<and> \<not> idle_term w t" for w' t
    using wstep_idle_term that empty by blast
  moreover have "idle_term w t \<and> (\<forall>k\<in>set (tasks (sch w)). \<not> eligible (int t) (fstates w) k)"
    if "wstep pol n w w' \<and> phase w' t = Finished \<and> phase w t \<noteq> Finished" for w' t
    using wstep_Finished c that by blast
  ultimately show ?thesis using c unfolding wk_count_def by blast
qed

text \<open>One worker that stops: it goes idle, finds the scheduler drained and leaves.\<close>

definition stopped_worker :: "nat workers" where
  "stopped_worker = \<lparr>sch = empty_sched\<lparr>stopping := True\<rparr>, fstates = (\<lambda>_. Ready),
     phase = (\<lambda>_. AtTop)(0 := Finished), idle_term = (\<lambda>_. False)(0 := True)\<rparr>"

lemma wreach_stopped: "wreach pol 1 stopped_worker"
proof -
  let ?w0 = "workers_init empty_sched (\<lambda>_. Ready)"
  let ?w1 = "upd_sch (\<lambda>s. s\<lparr>stopping := True\<rparr>) ?w0"
  let ?w2 = "goto 0 InIdle (upd_sch (\<lambda>_. (sch ?w1)\<lparr>idle_thread_count := idle_thread_count (sch ?w1) + 1\<rparr>) ?w1)"
  let ?w3 = "goto 0 AtTop (upd_sch (\<lambda>s. s\<lparr>idle_thread_count := idle_thread_count s - 1\<rparr>)
    (?w2\<lparr>idle_term := (idle_term ?w2)(0 := True)\<rparr>))"
  let ?w4 = "goto 0 Finished (upd_sch (\<lambda>_. sch ?w3) ?w3)"
  note facts = workers_init_def empty_sched_def demo_sched_def Run_take_def Stopping_def
  have "wstep pol 1 ?w0 ?w1" by (rule wstep.stop)
  with wreach_init_empty have r1: "wreach pol 1 ?w1" by (rule wreach.step)
  have "wstep pol 1 ?w1 ?w2" by (rule wstep.enter_idle [where k = False]) (simp_all add: facts)
  with r1 have r2: "wreach pol 1 ?w2" by (rule wreach.step)
  have "wstep pol 1 ?w2 ?w3" by (rule wstep.idle_end) (simp_all add: facts)
  with r2 have r3: "wreach pol 1 ?w3" by (rule wreach.step)
  have "wstep pol 1 ?w3 ?w4" by (rule wstep.leave_loop [where k = False]) (simp_all add: facts)
  with r3 have r4: "wreach pol 1 ?w4" by (rule wreach.step)
  have "?w4 = stopped_worker"
    by (simp add: stopped_worker_def facts goto_def upd_sch_def fun_eq_iff)
  with r4 show ?thesis by simp
qed

theorem counters_and_drain_witness:
  "wreach queue_before_drain 1 stopped_worker \<and> phase stopped_worker 0 = Finished \<and>
   active_thread_count (sch stopped_worker) = 0 \<and> tasks (sch stopped_worker) = []"
proof -
  have r: "wreach queue_before_drain 1 stopped_worker" by (rule wreach_stopped)
  have f: "phase stopped_worker 0 = Finished" by (simp add: stopped_worker_def)
  moreover have "\<forall>x v. queue_before_drain x v \<longrightarrow> queue_before_drain x v" by simp
  ultimately show ?thesis using counters_and_drain [OF r] r by auto
qed

text \<open>
  A task queued after that is lost: with every worker out of the loop, \<open>Schedule\<close> still accepts it
  and no worker ever takes it.
\<close>

lemma late_task_stays:
  "\<exists>w :: nat workers. wreach (\<lambda>_ _. True) 1 w \<and> (\<forall>t < 1. phase w t = Finished) \<and>
     tasks (sch w) = [CallbackTask (Some 7) (-1)]"
proof -
  have "wstep (\<lambda>_ _. True) 1 stopped_worker
      (upd_sch (\<lambda>s. fst (Schedule (CallbackTask (Some 7) (-1)) s)) stopped_worker)"
    by (rule wstep.add_callback) simp
  with wreach_stopped have "wreach (\<lambda>_ _. True) 1
      (upd_sch (\<lambda>s. fst (Schedule (CallbackTask (Some 7) (-1)) s)) stopped_worker)" by (rule wreach.step)
  moreover have "phase stopped_worker 0 = Finished" "tasks (sch stopped_worker) = []"
    by (simp_all add: stopped_worker_def empty_sched_def demo_sched_def)
  ultimately show ?thesis by fastforce
qed

end
