(* ===== verification/Std_Ordered.thy ===== *)
theory Std_Ordered
  imports Prelude
begin

text \<open>
  The ordered associative containers of the C++ standard library (\<open>std::set\<close>, \<open>std::map\<close>) over a
  comparator, as sorted lists.  A search stops at the first element that is not less than the key and
  compares the other way round: keys are identified when neither is less than the other, which need
  not be equality.  \<open>strict_weak\<close> states what the standard requires of a comparator and proves once
  what insertion, search, erasure and \<open>lower_bound\<close> then do; \<open>dictionary\<close> is the interface the clients
  of a map rely on.
\<close>

section \<open>Operations\<close>

definition equivalent :: "('k \<Rightarrow> 'k \<Rightarrow> bool) \<Rightarrow> 'k \<Rightarrow> 'k \<Rightarrow> bool" where
  "equivalent lt x y \<longleftrightarrow> \<not> lt x y \<and> \<not> lt y x"

fun set_insert :: "('k \<Rightarrow> 'k \<Rightarrow> bool) \<Rightarrow> 'k \<Rightarrow> 'k list \<Rightarrow> 'k list" where
  "set_insert lt x [] = [x]"
| "set_insert lt x (y # ys) =
     (if lt y x then y # set_insert lt x ys else if lt x y then x # y # ys else y # ys)"

fun set_find :: "('k \<Rightarrow> 'k \<Rightarrow> bool) \<Rightarrow> 'k \<Rightarrow> 'k list \<Rightarrow> nat option" where
  "set_find lt x [] = None"
| "set_find lt x (y # ys) =
     (if lt y x then map_option Suc (set_find lt x ys)
      else if lt x y then None else Some 0)"

definition set_erase_at :: "nat \<Rightarrow> 'k list \<Rightarrow> 'k list" where
  "set_erase_at i xs = take i xs @ drop (Suc i) xs"

definition lower_bound :: "('k \<Rightarrow> 'k \<Rightarrow> bool) \<Rightarrow> 'k \<Rightarrow> 'k list \<Rightarrow> nat" where
  "lower_bound lt x xs = length (takeWhile (\<lambda>y. lt y x) xs)"

fun map_find :: "('k \<Rightarrow> 'k \<Rightarrow> bool) \<Rightarrow> 'k \<Rightarrow> ('k \<times> 'v) list \<Rightarrow> 'v option" where
  "map_find lt k [] = None"
| "map_find lt k ((k', v) # m) =
     (if lt k' k then map_find lt k m else if lt k k' then None else Some v)"

fun map_assign :: "('k \<Rightarrow> 'k \<Rightarrow> bool) \<Rightarrow> 'k \<Rightarrow> 'v \<Rightarrow> ('k \<times> 'v) list \<Rightarrow> ('k \<times> 'v) list" where
  "map_assign lt k v [] = [(k, v)]"
| "map_assign lt k v ((k', v') # m) =
     (if lt k' k then (k', v') # map_assign lt k v m
      else if lt k k' then (k, v) # (k', v') # m else (k', v) # m)"

definition map_insert :: "('k \<Rightarrow> 'k \<Rightarrow> bool) \<Rightarrow> 'k \<Rightarrow> 'v \<Rightarrow> ('k \<times> 'v) list \<Rightarrow> ('k \<times> 'v) list" where
  "map_insert lt k v m = (if map_find lt k m = None then map_assign lt k v m else m)"

fun map_erase :: "('k \<Rightarrow> 'k \<Rightarrow> bool) \<Rightarrow> 'k \<Rightarrow> ('k \<times> 'v) list \<Rightarrow> ('k \<times> 'v) list" where
  "map_erase lt k [] = []"
| "map_erase lt k ((k', v') # m) =
     (if lt k' k then (k', v') # map_erase lt k m
      else if lt k k' then (k', v') # m else m)"

lemma map_assign_new: "map_find lt k m = None \<Longrightarrow> e \<in> set (map_assign lt k v m) \<Longrightarrow> e = (k, v) \<or> e \<in> set m"
  by (induction lt k v m rule: map_assign.induct) (auto split: if_splits)

lemma map_find_in: "map_find lt k m = Some v \<Longrightarrow> \<exists>k'. (k', v) \<in> set m"
  by (induction lt k m rule: map_find.induct) (auto split: if_splits)

text \<open>Elements that come in ascending order are appended.\<close>

lemma set_insert_last: "(\<And>y. y \<in> set xs \<Longrightarrow> lt y x) \<Longrightarrow> set_insert lt x xs = xs @ [x]"
  by (induction xs) auto

lemma map_assign_last: "(\<And>y. y \<in> set m \<Longrightarrow> lt (fst y) k) \<Longrightarrow> map_assign lt k v m = m @ [(k, v)]"
  by (induction m) fastforce+

lemma map_find_last: "(\<And>y. y \<in> set m \<Longrightarrow> lt (fst y) k) \<Longrightarrow> map_find lt k m = None"
  by (induction m) fastforce+

lemma map_insert_last: "(\<And>y. y \<in> set m \<Longrightarrow> lt (fst y) k) \<Longrightarrow> map_insert lt k v m = m @ [(k, v)]"
  by (simp add: map_insert_def map_assign_last map_find_last)

lemma set_set_insert:
  "(\<And>y. equivalent lt x y \<Longrightarrow> x = y) \<Longrightarrow> set (set_insert lt x xs) = insert x (set xs)"
  by (induction xs) (auto simp: equivalent_def)

lemma set_set_erase_at:
  assumes "distinct xs" "i < length xs"
  shows "set (set_erase_at i xs) = set xs - {xs ! i}"
proof -
  have xs: "xs = take i xs @ xs ! i # drop (Suc i) xs" by (rule id_take_nth_drop [OF assms(2)])
  then have "distinct (take i xs @ xs ! i # drop (Suc i) xs)" using assms(1) by simp
  moreover have "set xs = set (take i xs @ xs ! i # drop (Suc i) xs)" using xs by simp
  ultimately show ?thesis by (auto simp: set_erase_at_def)
qed

section \<open>The interface of a map\<close>

locale dictionary =
  fixes inv :: "'m \<Rightarrow> bool"
    and same :: "'k \<Rightarrow> 'k \<Rightarrow> bool"
    and lookup :: "'k \<Rightarrow> 'm \<Rightarrow> 'v option"
    and assign :: "'k \<Rightarrow> 'v \<Rightarrow> 'm \<Rightarrow> 'm"
    and erase :: "'k \<Rightarrow> 'm \<Rightarrow> 'm"
  assumes same_refl: "same k k"
    and inv_assign: "inv m \<Longrightarrow> inv (assign k v m)"
    and inv_erase: "inv m \<Longrightarrow> inv (erase k m)"
    and lookup_assign:
      "inv m \<Longrightarrow> lookup k' (assign k v m) = (if same k k' then Some v else lookup k' m)"
    and lookup_erase:
      "inv m \<Longrightarrow> lookup k' (erase k m) = (if same k k' then None else lookup k' m)"
begin

lemma lookup_assign_same: "inv m \<Longrightarrow> lookup k (assign k v m) = Some v"
  by (simp add: lookup_assign same_refl)

lemma lookup_erase_same: "inv m \<Longrightarrow> lookup k (erase k m) = None"
  by (simp add: lookup_erase same_refl)

text \<open>A whole sequence of assignments: the last one to an identified key wins.\<close>

lemma inv_fold_assign: "inv m \<Longrightarrow> inv (fold (\<lambda>(k, v). assign k v) kvs m)"
  by (induction kvs arbitrary: m) (auto intro: inv_assign)

lemma lookup_fold_assign:
  "inv m \<Longrightarrow> lookup k (fold (\<lambda>(k, v). assign k v) kvs m) =
     (case find (\<lambda>(k', v). same k' k) (rev kvs) of Some (_, v) \<Rightarrow> Some v | None \<Rightarrow> lookup k m)"
proof (induction kvs arbitrary: m)
  case (Cons a kvs)
  obtain k' v where a: "a = (k', v)" by (cases a)
  show ?case
    using Cons by (auto simp: a inv_assign lookup_assign find_snoc split: option.splits)
qed simp

text \<open>
  A sequence of assignments (\<open>Some v\<close>) and erasures (\<open>None\<close>): the last operation on an identified key
  decides.
\<close>

lemma inv_fold_ops:
  "inv m \<Longrightarrow> inv (fold (\<lambda>(k, ov). case ov of Some v \<Rightarrow> assign k v | None \<Rightarrow> erase k) ops m)"
  by (induction ops arbitrary: m) (auto simp: inv_assign inv_erase split: option.splits)

lemma lookup_fold_ops:
  "inv m \<Longrightarrow> lookup k (fold (\<lambda>(k, ov). case ov of Some v \<Rightarrow> assign k v | None \<Rightarrow> erase k) ops m) =
     (case find (\<lambda>(k', ov). same k' k) (rev ops) of Some (_, ov) \<Rightarrow> ov | None \<Rightarrow> lookup k m)"
proof (induction ops arbitrary: m)
  case (Cons a ops)
  obtain k' ov where a: "a = (k', ov)" by (cases a)
  let ?m = "case ov of Some v \<Rightarrow> assign k' v m | None \<Rightarrow> erase k' m"
  have inv: "inv ?m" and look: "lookup k ?m = (if same k' k then ov else lookup k m)"
    using Cons.prems by (auto simp: inv_assign inv_erase lookup_assign lookup_erase split: option.splits)
  show ?case using Cons.IH [OF inv] look by (cases ov) (auto simp: a find_snoc split: option.splits)
qed simp

end

section \<open>Comparators\<close>

locale strict_weak =
  fixes lt :: "'k \<Rightarrow> 'k \<Rightarrow> bool"
  assumes irrefl: "\<not> lt x x"
    and less_trans: "lt x y \<Longrightarrow> lt y z \<Longrightarrow> lt x z"
    and neg_trans: "lt x z \<Longrightarrow> lt x y \<or> lt y z"
begin

lemma asym: "lt x y \<Longrightarrow> \<not> lt y x"
  using irrefl less_trans by blast

lemma sorted_set_insert: "sorted_wrt lt xs \<Longrightarrow> sorted_wrt lt (set_insert lt x xs)"
proof (induction xs)
  case (Cons y ys)
  have "set (set_insert lt x ys) \<subseteq> insert x (set ys)" for ys by (induction ys) auto
  with Cons show ?case by (auto intro: less_trans)
qed simp

lemma sorted_set_erase_at: "sorted_wrt lt xs \<Longrightarrow> sorted_wrt lt (set_erase_at i xs)"
  unfolding set_erase_at_def
  by (induction xs arbitrary: i)
     (auto simp: take_Cons drop_Cons sorted_wrt_append split: nat.splits
        dest: in_set_takeD in_set_dropD)

lemma find_iff: "sorted_wrt lt xs \<Longrightarrow>
    (\<exists>i. set_find lt x xs = Some i) \<longleftrightarrow> (\<exists>y\<in>set xs. equivalent lt x y)"
proof (induction xs)
  case (Cons y ys)
  then show ?case
    by (auto simp: equivalent_def intro: less_trans dest: asym split: if_splits)
qed simp

lemma find_nth: "set_find lt x xs = Some i \<Longrightarrow> i < length xs \<and> equivalent lt x (xs ! i)"
  by (induction xs arbitrary: i) (auto simp: equivalent_def split: if_splits)

lemma take_lower_bound:
  "sorted_wrt lt xs \<Longrightarrow> take (lower_bound lt x xs) xs = filter (\<lambda>y. lt y x) xs"
proof (induction xs)
  case (Cons y ys)
  have "filter (\<lambda>z. lt z x) ys = []" if "\<not> lt y x"
    using that Cons.prems by (auto simp: filter_empty_conv intro: less_trans)
  with Cons show ?case by (simp add: lower_bound_def)
qed (simp add: lower_bound_def)

lemma drop_lower_bound:
  "sorted_wrt lt xs \<Longrightarrow> drop (lower_bound lt x xs) xs = filter (\<lambda>y. \<not> lt y x) xs"
proof (induction xs)
  case (Cons y ys)
  have "filter (\<lambda>z. \<not> lt z x) ys = ys" if "\<not> lt y x"
    using that Cons.prems by (auto simp: filter_id_conv intro: less_trans)
  with Cons show ?case by (simp add: lower_bound_def)
qed (simp add: lower_bound_def)

lemma map_find_above:
  "\<forall>x\<in>set m. lt a (fst x) \<Longrightarrow> \<not> lt a k \<Longrightarrow> map_find lt k m = None"
  by (cases m) (auto dest: asym neg_trans [of _ _ k])

end

text \<open>Every comparator gives a map in which equivalent keys are the same key.\<close>

sublocale strict_weak \<subseteq> mp: dictionary
  "\<lambda>m. sorted_wrt lt (map fst m)" "equivalent lt" "map_find lt" "map_assign lt"
  "map_erase lt"
proof (unfold_locales, goal_cases)
  case (1 k)
  show ?case by (simp add: equivalent_def irrefl)
next
  case (2 m k v)
  have keys: "x \<in> set (map_assign lt k v m) \<Longrightarrow> fst x = k \<or> (\<exists>y\<in>set m. fst x = fst y)" for x m
    by (induction lt k v m rule: map_assign.induct) (auto split: if_splits)
  from 2 show ?case
  proof (induction m)
    case (Cons a m)
    obtain k' v' where a: "a = (k', v')" by (cases a)
    have "\<forall>x\<in>set m. lt k' (fst x)" using Cons.prems by (auto simp: a)
    then have "\<forall>x\<in>set (map_assign lt k v m). lt k' (fst x)" if "lt k' k"
      using that keys [of _ m] by metis
    with Cons show ?case by (fastforce simp: a intro: less_trans)
  qed simp
next
  case (3 m k)
  have keys: "x \<in> set (map_erase lt k m) \<Longrightarrow> x \<in> set m" for x m
    by (induction lt k m rule: map_erase.induct) (auto split: if_splits)
  from 3 show ?case by (induction m) (auto dest!: keys)
next
  case (4 m k' k v)
  then show ?case
    by (induction m) (auto simp: equivalent_def irrefl dest: asym neg_trans intro: less_trans)
next
  case (5 m k' k)
  show ?case
  proof (cases "equivalent lt k k'")
    case True
    then have "lt a k \<longleftrightarrow> lt a k'" "lt k a \<longleftrightarrow> lt k' a" for a
      using neg_trans by (auto simp: equivalent_def)
    then show ?thesis using 5 True by (induction m) (auto dest: map_find_above [of _ _ k'])
  next
    case False
    then have "\<not> (\<not> lt a k \<and> \<not> lt k a \<and> \<not> lt a k' \<and> \<not> lt k' a)" for a
      using neg_trans by (auto simp: equivalent_def)
    then show ?thesis using 5 False by (induction m) (auto, (metis map_find_above)+)
  qed
qed

end
