(* ===== verification/Timer.thy ===== *)
theory Timer
  imports Std_Ordered
begin

text \<open>
  Timers and the timer manager (\<open>gudov/timer.{h,cpp}\<close>).  Timer objects live in a store indexed by
  address; \<open>timers_\<close> is the list of the addresses in the set, in the order of \<open>Timer::Comparator\<close>,
  which compares the objects' \<open>next_\<close> and then the addresses.  Times are 64-bit words and wrap as in
  the source.  The clock, the addresses the allocator returns and the callbacks are arguments;
  \<open>OnTimerInsertedAtFront\<close>, a virtual of the subclass, is a flag of the result.  Each operation holds
  the manager's lock for its whole effect, so operations are atomic steps.

  The lemmas show that a timer has a callback exactly while it is in the set, so that \<open>Cancel\<close> never
  erases \<open>end()\<close>, that the expired callbacks are exactly those of the due timers in order of time, and
  that the reported timeout is the distance to the earliest timer.
\<close>

section \<open>Timers\<close>

record 'cb timer =
  tm_recurring :: bool
  tm_ms :: u64
  tm_next :: u64
  tm_callback :: "'cb option"

definition newTimer :: "u64 \<Rightarrow> u64 \<Rightarrow> 'cb option \<Rightarrow> bool \<Rightarrow> 'cb timer" where
  "newTimer now_ms ms callback recurring =
     \<lparr>tm_recurring = recurring, tm_ms = ms, tm_next = now_ms + ms, tm_callback = callback\<rparr>"

definition probeTimer :: "u64 \<Rightarrow> 'cb timer" where
  "probeTimer nxt = \<lparr>tm_recurring = False, tm_ms = 0, tm_next = nxt, tm_callback = None\<rparr>"

type_synonym 'cb store = "nat \<Rightarrow> 'cb timer"

definition Comparator :: "'cb store \<Rightarrow> nat option \<Rightarrow> nat option \<Rightarrow> bool" where
  "Comparator mem lhs rhs =
     (case (lhs, rhs) of
        (None, None) \<Rightarrow> False
      | (None, Some _) \<Rightarrow> True
      | (Some _, None) \<Rightarrow> False
      | (Some a, Some b) \<Rightarrow>
          if tm_next (mem a) < tm_next (mem b) then True
          else if tm_next (mem a) > tm_next (mem b) then False
          else a < b)"

abbreviation timer_lt :: "'cb store \<Rightarrow> nat \<Rightarrow> nat \<Rightarrow> bool" where
  "timer_lt mem a b \<equiv> Comparator mem (Some a) (Some b)"

section \<open>The manager\<close>

record 'cb tmgr =
  mem :: "'cb store"
  timers :: "nat list"
  tickled :: bool
  previous_time :: u64

definition newTimerManager :: "u64 \<Rightarrow> 'cb tmgr" where
  "newTimerManager now_ms =
     \<lparr>mem = (\<lambda>_. probeTimer 0), timers = [], tickled = False, previous_time = now_ms\<rparr>"

definition AddTimer_locked :: "nat \<Rightarrow> 'cb tmgr \<Rightarrow> 'cb tmgr \<times> bool" where
  "AddTimer_locked val m =
     (let ts = set_insert (timer_lt (mem m)) val (timers m);
          at_front = (hd ts = val) \<and> \<not> tickled m
      in (m\<lparr>timers := ts, tickled := (if at_front then True else tickled m)\<rparr>, at_front))"

definition AddTimer :: "u64 \<Rightarrow> nat \<Rightarrow> u64 \<Rightarrow> 'cb option \<Rightarrow> bool \<Rightarrow> 'cb tmgr \<Rightarrow> 'cb tmgr \<times> bool" where
  "AddTimer now_ms a ms callback recurring m =
     AddTimer_locked a (m\<lparr>mem := (mem m)(a := newTimer now_ms ms callback recurring)\<rparr>)"

text \<open>A callback as the library binds it: a plain function, or one guarded by a weak pointer.\<close>

datatype 'f callback = Plain 'f | OnTimerBound nat 'f

definition OnTimer :: "(nat \<Rightarrow> bool) \<Rightarrow> nat \<Rightarrow> 'f \<Rightarrow> 'f list" where
  "OnTimer alive weak_cond callback = (if alive weak_cond then [callback] else [])"

fun run_callback :: "(nat \<Rightarrow> bool) \<Rightarrow> 'f callback \<Rightarrow> 'f list" where
  "run_callback alive (Plain f) = [f]"
| "run_callback alive (OnTimerBound w f) = OnTimer alive w f"

definition AddConditionTimer ::
  "u64 \<Rightarrow> nat \<Rightarrow> u64 \<Rightarrow> 'f \<Rightarrow> nat \<Rightarrow> bool \<Rightarrow> 'f callback tmgr \<Rightarrow> 'f callback tmgr \<times> bool" where
  "AddConditionTimer now_ms a ms callback weak_cond recurring m =
     AddTimer now_ms a ms (Some (OnTimerBound weak_cond callback)) recurring m"

definition Cancel :: "nat \<Rightarrow> 'cb tmgr \<Rightarrow> ('cb tmgr \<times> bool) res" where
  "Cancel t m =
     (if tm_callback (mem m t) \<noteq> None then
        let mem' = (mem m)(t := (mem m t)\<lparr>tm_callback := None\<rparr>) in
        (case set_find (timer_lt mem') t (timers m) of
           None \<Rightarrow> Inl EraseEnd
         | Some i \<Rightarrow> Inr (m\<lparr>mem := mem', timers := set_erase_at i (timers m)\<rparr>, True))
      else Inr (m, False))"

definition Refresh :: "u64 \<Rightarrow> nat \<Rightarrow> 'cb tmgr \<Rightarrow> 'cb tmgr \<times> bool" where
  "Refresh now_ms t m =
     (if tm_callback (mem m t) = None then (m, False)
      else case set_find (timer_lt (mem m)) t (timers m) of
        None \<Rightarrow> (m, False)
      | Some i \<Rightarrow>
          (let mem' = (mem m)(t := (mem m t)\<lparr>tm_next := now_ms + tm_ms (mem m t)\<rparr>)
           in (m\<lparr>mem := mem',
                  timers := set_insert (timer_lt mem') t (set_erase_at i (timers m))\<rparr>, True)))"

definition Reset :: "u64 \<Rightarrow> u64 \<Rightarrow> bool \<Rightarrow> nat \<Rightarrow> 'cb tmgr \<Rightarrow> 'cb tmgr \<times> bool \<times> bool" where
  "Reset now_ms ms fromNow t m =
     (if ms = tm_ms (mem m t) \<and> \<not> fromNow then (m, True, False)
      else if tm_callback (mem m t) = None then (m, False, False)
      else case set_find (timer_lt (mem m)) t (timers m) of
        None \<Rightarrow> (m, False, False)
      | Some i \<Rightarrow>
          (let start = (if fromNow then now_ms else tm_next (mem m t) - tm_ms (mem m t));
               mem' = (mem m)(t := (mem m t)\<lparr>tm_ms := ms, tm_next := start + ms\<rparr>);
               (m', at_front) = AddTimer_locked t
                 (m\<lparr>mem := mem', timers := set_erase_at i (timers m)\<rparr>)
           in (m', True, at_front)))"

definition GetNextTimeout :: "u64 \<Rightarrow> 'cb tmgr \<Rightarrow> u64 \<times> 'cb tmgr" where
  "GetNextTimeout now_ms m =
     (let m' = m\<lparr>tickled := False\<rparr> in
      if timers m = [] then (NOT 0, m')
      else let nxt = tm_next (mem m (hd (timers m))) in
        (if now_ms \<ge> nxt then 0 else nxt - now_ms, m'))"

definition DetectClockRollover :: "u64 \<Rightarrow> 'cb tmgr \<Rightarrow> bool \<times> 'cb tmgr" where
  "DetectClockRollover now_ms m =
     (now_ms < previous_time m \<and> now_ms < previous_time m - 60 * 60 * 1000,
      m\<lparr>previous_time := now_ms\<rparr>)"

definition expire_one :: "u64 \<Rightarrow> nat \<Rightarrow> 'cb tmgr \<times> 'cb option list \<Rightarrow> 'cb tmgr \<times> 'cb option list" where
  "expire_one now_ms t = (\<lambda>(m, cbs).
     (if tm_recurring (mem m t) then
        (let mem' = (mem m)(t := (mem m t)\<lparr>tm_next := now_ms + tm_ms (mem m t)\<rparr>)
         in m\<lparr>mem := mem', timers := set_insert (timer_lt mem') t (timers m)\<rparr>)
      else m\<lparr>mem := (mem m)(t := (mem m t)\<lparr>tm_callback := None\<rparr>)\<rparr>,
      cbs @ [tm_callback (mem m t)]))"

definition ListExpiredCallbacks ::
  "u64 \<Rightarrow> nat \<Rightarrow> 'cb tmgr \<Rightarrow> 'cb option list \<Rightarrow> 'cb tmgr \<times> 'cb option list" where
  "ListExpiredCallbacks now_ms now_timer m callbacks =
     (if timers m = [] then (m, callbacks)
      else let (roll_over, m1) = DetectClockRollover now_ms m in
        if \<not> roll_over \<and> tm_next (mem m1 (hd (timers m1))) > now_ms then (m1, callbacks)
        else let probe = (mem m1)(now_timer := probeTimer now_ms);
                 lb = (if roll_over then length (timers m1)
                       else lower_bound (timer_lt probe) now_timer (timers m1));
                 it = lb + length (takeWhile (\<lambda>t. tm_next (mem m1 t) = now_ms) (drop lb (timers m1)));
                 expired = take it (timers m1)
             in fold (expire_one now_ms) expired (m1\<lparr>timers := drop it (timers m1)\<rparr>, callbacks))"

definition HasTimer :: "'cb tmgr \<Rightarrow> bool" where
  "HasTimer m \<longleftrightarrow> timers m \<noteq> []"

section \<open>The comparator\<close>

lemma timer_lt_iff:
  "timer_lt mm a b \<longleftrightarrow> tm_next (mm a) < tm_next (mm b) \<or> tm_next (mm a) = tm_next (mm b) \<and> a < b"
  by (auto simp: Comparator_def)

interpretation tcmp: strict_weak "timer_lt mm" for mm :: "'cb store"
  by unfold_locales (auto simp: timer_lt_iff)

lemma timer_equivalent [simp]: "equivalent (timer_lt mm) a b \<longleftrightarrow> a = b"
  by (auto simp: equivalent_def timer_lt_iff)

section \<open>Invariant\<close>

definition tm_wf :: "'cb tmgr \<Rightarrow> bool" where
  "tm_wf m \<longleftrightarrow> sorted_wrt (timer_lt (mem m)) (timers m) \<and>
     (\<forall>t. tm_callback (mem m t) \<noteq> None \<longleftrightarrow> t \<in> set (timers m))"

lemma sorted_mem_cong:
  "(\<And>t. t \<in> set xs \<Longrightarrow> tm_next (mm t) = tm_next (mm' t)) \<Longrightarrow>
    sorted_wrt (timer_lt mm) xs \<longleftrightarrow> sorted_wrt (timer_lt mm') xs"
  by (induction xs) (auto simp: timer_lt_iff)

lemma sorted_mem_upd:
  "t \<notin> set xs \<Longrightarrow> sorted_wrt (timer_lt (mm(t := x))) xs \<longleftrightarrow> sorted_wrt (timer_lt mm) xs"
  by (rule sorted_mem_cong) auto

lemma set_timer_insert [simp]: "set (set_insert (timer_lt mm) x xs) = insert x (set xs)"
  by (rule set_set_insert) simp

lemma timer_distinct: "sorted_wrt (timer_lt mm) xs \<Longrightarrow> distinct xs"
  by (induction xs) (auto simp: timer_lt_iff)

lemma timer_find:
  assumes "sorted_wrt (timer_lt mm) xs"
  shows "set_find (timer_lt mm) t xs = Some i \<Longrightarrow> i < length xs \<and> xs ! i = t"
    and "set_find (timer_lt mm) t xs = None \<longleftrightarrow> t \<notin> set xs"
  using tcmp.find_nth [of mm t xs i] tcmp.find_iff [OF assms, of t] by auto

lemma timer_erase:
  assumes "sorted_wrt (timer_lt mm) xs" "set_find (timer_lt mm) t xs = Some i"
  shows "set (set_erase_at i xs) = set xs - {t}" "sorted_wrt (timer_lt mm) (set_erase_at i xs)"
  using timer_find(1) [OF assms] set_set_erase_at [OF timer_distinct [OF assms(1)], of i]
    tcmp.sorted_set_erase_at [OF assms(1)] by auto

lemma newTimerManager_simps [simp]:
  "timers (newTimerManager now_ms) = []" "tickled (newTimerManager now_ms) = False"
  by (simp_all add: newTimerManager_def)

lemma newTimerManager_wf: "tm_wf (newTimerManager now_ms)"
  by (simp add: tm_wf_def newTimerManager_def probeTimer_def)

lemma AddTimer_wf [keeps]:
  assumes "tm_wf m" "a \<notin> set (timers m)"
  shows "tm_wf (fst (AddTimer now_ms a ms (Some cb) rec m))"
  using assms
  by (simp add: tm_wf_def AddTimer_def AddTimer_locked_def newTimer_def Let_def sorted_mem_upd
      tcmp.sorted_set_insert)

lemma Cancel_ok:
  assumes "tm_wf m"
  shows "\<exists>m'. Cancel t m = Inr (m', t \<in> set (timers m)) \<and> tm_wf m' \<and>
    set (timers m') = set (timers m) - {t} \<and> (\<forall>u. u \<noteq> t \<longrightarrow> mem m' u = mem m u)"
proof (cases "t \<in> set (timers m)")
  case True
  let ?mem = "(mem m)(t := (mem m t)\<lparr>tm_callback := None\<rparr>)"
  have s: "sorted_wrt (timer_lt ?mem) (timers m)"
    using assms by (subst sorted_mem_cong [of _ _ "mem m"]) (auto simp: tm_wf_def)
  then obtain i where i: "set_find (timer_lt ?mem) t (timers m) = Some i"
    using True timer_find(2) [OF s, of t] by (cases "set_find (timer_lt ?mem) t (timers m)") auto
  with assms True timer_erase [OF s i] show ?thesis
    by (auto simp: Cancel_def tm_wf_def)
next
  case False
  then show ?thesis using assms by (auto simp: Cancel_def tm_wf_def)
qed

lemma reinsert_wf:
  assumes "tm_wf m" "set_find (timer_lt (mem m)) t (timers m) = Some i" "tm_callback x \<noteq> None"
  defines "mm \<equiv> (mem m)(t := x)"
  defines "ts \<equiv> set_insert (timer_lt mm) t (set_erase_at i (timers m))"
  shows "sorted_wrt (timer_lt mm) ts" "set ts = set (timers m)"
    "tm_callback (mm u) \<noteq> None \<longleftrightarrow> u \<in> set ts"
proof -
  have s: "sorted_wrt (timer_lt (mem m)) (timers m)"
    and cb: "\<And>u. tm_callback (mem m u) \<noteq> None \<longleftrightarrow> u \<in> set (timers m)"
    using assms by (auto simp: tm_wf_def)
  note er = timer_erase [OF s assms(2)]
  have "t \<in> set (timers m)" using timer_find(1) [OF s assms(2)] nth_mem by blast
  then show ts: "set ts = set (timers m)" using er by (auto simp: ts_def)
  have "sorted_wrt (timer_lt mm) (set_erase_at i (timers m))"
    using er by (simp add: mm_def sorted_mem_upd)
  then show "sorted_wrt (timer_lt mm) ts" by (simp add: ts_def tcmp.sorted_set_insert)
  show "tm_callback (mm u) \<noteq> None \<longleftrightarrow> u \<in> set ts"
    using cb ts assms(3) \<open>t \<in> _\<close> by (simp add: mm_def)
qed

lemma Refresh_wf [keeps]: "tm_wf m \<Longrightarrow> tm_wf (fst (Refresh now_ms t m))"
  using reinsert_wf [of m t _ "(mem m t)\<lparr>tm_next := now_ms + tm_ms (mem m t)\<rparr>"]
  by (auto simp: Refresh_def tm_wf_def Let_def split: option.splits)

lemma Reset_wf [keeps]: "tm_wf m \<Longrightarrow> tm_wf (fst (Reset now_ms ms fromNow t m))"
  using reinsert_wf [of m t _ "(mem m t)\<lparr>tm_ms := ms, tm_next := s + ms\<rparr>" for s]
  by (auto simp: Reset_def tm_wf_def Let_def AddTimer_locked_def split: option.splits)

section \<open>Expiry\<close>

definition expired_at :: "u64 \<Rightarrow> bool \<Rightarrow> 'cb tmgr \<Rightarrow> nat \<Rightarrow> bool" where
  "expired_at now_ms roll m t \<longleftrightarrow> roll \<or> tm_next (mem m t) \<le> now_ms"

definition after_expiry :: "u64 \<Rightarrow> 'cb timer \<Rightarrow> 'cb timer" where
  "after_expiry now_ms x = (if tm_recurring x then x\<lparr>tm_next := now_ms + tm_ms x\<rparr>
     else x\<lparr>tm_callback := None\<rparr>)"

lemma fold_expire:
  assumes "sorted_wrt (timer_lt (mem m)) (timers m)" "distinct es" "set es \<inter> set (timers m) = {}"
  shows "let (m', cbs') = fold (expire_one now_ms) es (m, cbs) in
    cbs' = cbs @ map (\<lambda>t. tm_callback (mem m t)) es \<and>
    mem m' = (\<lambda>t. if t \<in> set es then after_expiry now_ms (mem m t) else mem m t) \<and>
    set (timers m') = set (timers m) \<union> {t \<in> set es. tm_recurring (mem m t)} \<and>
    sorted_wrt (timer_lt (mem m')) (timers m') \<and> previous_time m' = previous_time m \<and>
    tickled m' = tickled m"
  using assms
proof (induction es arbitrary: m cbs)
  case (Cons e es)
  let ?m1 = "fst (expire_one now_ms e (m, cbs))" and ?c1 = "cbs @ [tm_callback (mem m e)]"
  have step: "expire_one now_ms e (m, cbs) = (?m1, ?c1)" by (simp add: expire_one_def)
  have m1: "mem ?m1 = (mem m)(e := after_expiry now_ms (mem m e))"
    "set (timers ?m1) = set (timers m) \<union> (if tm_recurring (mem m e) then {e} else {})"
    "previous_time ?m1 = previous_time m" "tickled ?m1 = tickled m"
    by (auto simp: expire_one_def after_expiry_def Let_def)
  have s1: "sorted_wrt (timer_lt (mem ?m1)) (timers ?m1)"
    using Cons.prems by (auto simp: expire_one_def Let_def sorted_mem_upd intro!: tcmp.sorted_set_insert)
  have "set es \<inter> set (timers ?m1) = {}" using Cons.prems m1(2) by auto
  with Cons.IH [OF s1, of ?c1] Cons.prems step m1 show ?case
    by (auto simp: Let_def split: prod.splits)
qed (simp add: Let_def)

text \<open>The iterator the expiry loop stops at splits the set into the due timers and the rest.\<close>

lemma sorted_prefix_eq:
  assumes "sorted_wrt (timer_lt mm) xs" "\<forall>t\<in>set xs. now_ms \<le> tm_next (mm t)"
  shows "takeWhile (\<lambda>t. tm_next (mm t) = now_ms) xs = filter (\<lambda>t. tm_next (mm t) \<le> now_ms) xs"
  using assms
proof (induction xs)
  case (Cons x xs)
  show ?case
  proof (cases "tm_next (mm x) = now_ms")
    case False
    with Cons.prems have "now_ms < tm_next (mm x)" by auto
    moreover from this have "\<forall>t\<in>set xs. now_ms < tm_next (mm t)"
      using Cons.prems by (auto simp: timer_lt_iff)
    ultimately show ?thesis by (auto simp: filter_empty_conv not_le)
  qed (use Cons in auto)
qed simp

lemma due_prefix:
  fixes now_ms :: u64
  assumes s: "sorted_wrt (timer_lt mm) xs" and pr: "pr \<notin> set xs"
  defines "lb \<equiv> lower_bound (timer_lt (mm(pr := probeTimer now_ms))) pr xs"
  shows "take (lb + length (takeWhile (\<lambda>t. tm_next (mm t) = now_ms) (drop lb xs))) xs =
      filter (\<lambda>t. tm_next (mm t) \<le> now_ms) xs"
proof -
  let ?mm = "mm(pr := probeTimer now_ms)" and ?P = "\<lambda>t. tm_next (mm t) \<le> now_ms"
  let ?E = "\<lambda>t. tm_next (mm t) = now_ms"
  have s': "sorted_wrt (timer_lt ?mm) xs" using s pr by (simp add: sorted_mem_upd)
  have lt: "t \<in> set xs \<Longrightarrow> timer_lt ?mm t pr \<longleftrightarrow>
      tm_next (mm t) < now_ms \<or> tm_next (mm t) = now_ms \<and> t < pr" for t
    using pr by (auto simp: timer_lt_iff probeTimer_def)
  have "take lb xs = filter (\<lambda>t. timer_lt ?mm t pr) xs"
    unfolding lb_def by (rule tcmp.take_lower_bound [OF s'])
  then have low: "filter ?P (take lb xs) = take lb xs"
    using lt by (auto intro!: filter_cong)
  have "drop lb xs = filter (\<lambda>t. \<not> timer_lt ?mm t pr) xs"
    unfolding lb_def by (rule tcmp.drop_lower_bound [OF s'])
  then have "\<forall>t\<in>set (drop lb xs). now_ms \<le> tm_next (mm t)"
    using lt by (auto simp: not_less)
  moreover have "sorted_wrt (timer_lt mm) (drop lb xs)" using s by (rule sorted_wrt_drop)
  ultimately have "takeWhile ?E (drop lb xs) = filter ?P (drop lb xs)"
    using sorted_prefix_eq by blast
  moreover have "take (lb + length (takeWhile ?E (drop lb xs))) xs =
      take lb xs @ takeWhile ?E (drop lb xs)"
    by (simp add: take_add takeWhile_eq_take [symmetric])
  ultimately show ?thesis
    using low filter_append [of ?P "take lb xs" "drop lb xs"] by simp
qed

lemma sorted_take_filter:
  assumes "sorted_wrt (timer_lt mm) xs" "take k xs = filter P xs"
  shows "set (drop k xs) = {t \<in> set xs. \<not> P t}" "sorted_wrt (timer_lt mm) (drop k xs)"
proof -
  have "distinct xs" using assms(1) by (rule timer_distinct)
  then have "set (take k xs) \<inter> set (drop k xs) = {}" by (rule set_take_disj_set_drop_if_distinct) simp
  moreover have "set xs = set (take k xs) \<union> set (drop k xs)" by (metis append_take_drop_id set_append)
  moreover have "set (take k xs) = {t \<in> set xs. P t}" using assms(2) by simp
  ultimately show "set (drop k xs) = {t \<in> set xs. \<not> P t}" by blast
  show "sorted_wrt (timer_lt mm) (drop k xs)" using assms(1) by (rule sorted_wrt_drop)
qed

lemma none_due:
  assumes "sorted_wrt (timer_lt mm) xs" "xs \<noteq> []" "now_ms < tm_next (mm (hd xs))" "t \<in> set xs"
  shows "now_ms < tm_next (mm t)"
proof -
  from assms(2) obtain x ys where xs: "xs = x # ys" by (cases xs) auto
  then have "t = x \<or> timer_lt mm x t" using assms(1,4) by auto
  then have "tm_next (mm x) \<le> tm_next (mm t)" by (auto simp: timer_lt_iff less_imp_le)
  with assms(3) xs show ?thesis by simp
qed

lemma ListExpiredCallbacks_spec:
  fixes now_ms :: u64
  assumes "tm_wf m" "pr \<notin> set (timers m)"
  defines "roll \<equiv> timers m \<noteq> [] \<and> fst (DetectClockRollover now_ms m)"
  defines "E \<equiv> filter (expired_at now_ms roll m) (timers m)"
  shows "let (m', cbs') = ListExpiredCallbacks now_ms pr m cbs in
    cbs' = cbs @ map (\<lambda>t. tm_callback (mem m t)) E \<and>
    mem m' = (\<lambda>t. if t \<in> set E then after_expiry now_ms (mem m t) else mem m t) \<and>
    set (timers m') = {t \<in> set (timers m). t \<in> set E \<longrightarrow> tm_recurring (mem m t)} \<and>
    tm_wf m' \<and> tickled m' = tickled m"
proof -
  have s: "sorted_wrt (timer_lt (mem m)) (timers m)"
    and cb: "\<And>t. tm_callback (mem m t) \<noteq> None \<longleftrightarrow> t \<in> set (timers m)"
    using assms(1) by (auto simp: tm_wf_def)
  let ?m1 = "m\<lparr>previous_time := now_ms\<rparr>"
  consider "timers m = [] \<or> \<not> roll \<and> now_ms < tm_next (mem m (hd (timers m)))"
    | "timers m \<noteq> []" "roll \<or> \<not> now_ms < tm_next (mem m (hd (timers m)))" by auto
  then show ?thesis
  proof cases
    case 1
    then have "\<not> expired_at now_ms roll m t" if "t \<in> set (timers m)" for t
      using that none_due [OF s _ _ that, of now_ms]
      by (cases "timers m = []") (auto simp: expired_at_def not_le)
    then have "E = []" by (simp add: E_def filter_empty_conv)
    then show ?thesis using 1 assms(1) roll_def
      by (auto simp: ListExpiredCallbacks_def DetectClockRollover_def tm_wf_def)
  next
    case 2
    define lb where "lb = (if roll then length (timers m)
      else lower_bound (timer_lt ((mem m)(pr := probeTimer now_ms))) pr (timers m))"
    define k where "k = lb + length (takeWhile (\<lambda>t. tm_next (mem m t) = now_ms) (drop lb (timers m)))"
    have E: "take k (timers m) = E"
      using due_prefix [OF s assms(2), of now_ms]
      by (auto simp: k_def lb_def E_def expired_at_def [abs_def])
    note rest = sorted_take_filter [OF s E [unfolded E_def]]
    let ?m2 = "?m1\<lparr>timers := drop k (timers m)\<rparr>"
    have run: "ListExpiredCallbacks now_ms pr m cbs = fold (expire_one now_ms) E (?m2, cbs)"
      using 2 roll_def E
      by (auto simp: ListExpiredCallbacks_def DetectClockRollover_def Let_def k_def lb_def)
    have "distinct E" using timer_distinct [OF s] by (simp add: E_def)
    moreover have "set E \<inter> set (timers ?m2) = {}" using rest(1) by (auto simp: E_def)
    moreover have "sorted_wrt (timer_lt (mem ?m2)) (timers ?m2)" using rest(2) by simp
    ultimately have f: "let (m', cbs') = fold (expire_one now_ms) E (?m2, cbs) in
      cbs' = cbs @ map (\<lambda>t. tm_callback (mem ?m2 t)) E \<and>
      mem m' = (\<lambda>t. if t \<in> set E then after_expiry now_ms (mem ?m2 t) else mem ?m2 t) \<and>
      set (timers m') = set (timers ?m2) \<union> {t \<in> set E. tm_recurring (mem ?m2 t)} \<and>
      sorted_wrt (timer_lt (mem m')) (timers m') \<and> previous_time m' = previous_time ?m2 \<and>
      tickled m' = tickled ?m2"
      by (intro fold_expire) auto
    have "set E \<subseteq> set (timers m)" by (auto simp: E_def)
    with f cb show ?thesis unfolding run
      by (auto simp: tm_wf_def rest(1) E_def after_expiry_def Let_def split: prod.splits)
  qed
qed

section \<open>Timeout\<close>

lemma hd_earliest:
  assumes "sorted_wrt (timer_lt mm) xs" "t \<in> set xs"
  shows "tm_next (mm (hd xs)) \<le> tm_next (mm t)"
  using assms by (cases xs) (auto simp: timer_lt_iff less_imp_le)

lemma hd_set_insert:
  assumes "sorted_wrt (timer_lt mm) xs"
  shows "hd (set_insert (timer_lt mm) a xs) = a \<longleftrightarrow> (\<forall>u\<in>set xs. u \<noteq> a \<longrightarrow> timer_lt mm a u)"
proof (cases xs)
  case (Cons x ys)
  have "timer_lt mm x a \<Longrightarrow> \<not> timer_lt mm a x" by (rule tcmp.asym)
  moreover have "timer_lt mm a x \<Longrightarrow> \<forall>u\<in>set ys. timer_lt mm a u"
    using assms Cons by (auto intro: tcmp.less_trans)
  moreover have "\<forall>u\<in>set ys. timer_lt mm x u" using assms Cons by simp
  ultimately show ?thesis using timer_equivalent [of mm a x]
    by (auto simp: Cons equivalent_def tcmp.irrefl)
qed simp

section \<open>Sequences of operations\<close>

datatype 'cb tm_op =
    TAdd u64 nat u64 'cb bool
  | TCancel nat
  | TRefresh u64 nat
  | TReset u64 u64 bool nat
  | TTimeout u64
  | TExpire u64 nat

fun tm_exec :: "'cb tm_op \<Rightarrow> 'cb tmgr \<Rightarrow> 'cb tmgr res" where
  "tm_exec (TAdd now_ms a ms cb rec) m = Inr (fst (AddTimer now_ms a ms (Some cb) rec m))"
| "tm_exec (TCancel t) m = bindR (Cancel t m) (\<lambda>(m', _). Inr m')"
| "tm_exec (TRefresh now_ms t) m = Inr (fst (Refresh now_ms t m))"
| "tm_exec (TReset now_ms ms fromNow t) m = Inr (fst (Reset now_ms ms fromNow t m))"
| "tm_exec (TTimeout now_ms) m = Inr (snd (GetNextTimeout now_ms m))"
| "tm_exec (TExpire now_ms a) m = Inr (fst (ListExpiredCallbacks now_ms a m []))"

text \<open>
  The allocator returns an address that no pending timer has: the set owns a \<open>shared_ptr\<close> to each
  of its timers.
\<close>

fun fresh_for :: "'cb tm_op \<Rightarrow> 'cb tmgr \<Rightarrow> bool" where
  "fresh_for (TAdd _ a _ _ _) m \<longleftrightarrow> a \<notin> set (timers m)"
| "fresh_for (TExpire _ a) m \<longleftrightarrow> a \<notin> set (timers m)"
| "fresh_for _ m \<longleftrightarrow> True"

inductive tm_reach :: "'cb tmgr \<Rightarrow> bool" where
  init: "tm_reach (newTimerManager now_ms)"
| step: "tm_reach m \<Longrightarrow> fresh_for op m \<Longrightarrow> tm_exec op m = Inr m' \<Longrightarrow> tm_reach m'"

lemma tm_exec_wf:
  assumes "tm_wf m" "fresh_for op m"
  shows "\<exists>m'. tm_exec op m = Inr m' \<and> tm_wf m'"
proof (cases op)
  case (TCancel t)
  then show ?thesis using Cancel_ok [OF assms(1), of t] by auto
next
  case (TTimeout now_ms)
  then show ?thesis using assms by (auto simp: GetNextTimeout_def tm_wf_def Let_def)
next
  case (TExpire now_ms a)
  then show ?thesis using ListExpiredCallbacks_spec [OF assms(1), of a now_ms "[]"] assms(2)
    by (auto simp: Let_def split: prod.splits)
qed (use assms in \<open>auto simp: keeps\<close>)

lemma tm_reach_wf: "tm_reach m \<Longrightarrow> tm_wf m"
  by (induction rule: tm_reach.induct) (use tm_exec_wf in \<open>fastforce simp: newTimerManager_wf\<close>)+

section \<open>Properties\<close>

text \<open>
  C8. In every state a client can reach, a timer holds a callback exactly while it is in the ordered
  set, the set is strictly sorted by the comparator, and no operation faults: in particular the
  unchecked \<open>erase(find(...))\<close> of \<open>Cancel\<close> never gets \<open>end()\<close>.
\<close>

theorem timers_safe:
  assumes "tm_reach m"
  shows "tm_wf m \<and> (\<forall>op. fresh_for op m \<longrightarrow> (\<exists>m'. tm_exec op m = Inr m'))"
  using tm_reach_wf [OF assms] tm_exec_wf by blast

theorem timers_safe_witness:
  "\<exists>m'. tm_exec (TCancel 3) (newTimerManager 7 :: nat tmgr) = Inr m'"
  using timers_safe [OF tm_reach.init [of 7], where 'a = nat] by (auto dest: spec [of _ "TCancel 3"])

text \<open>
  C7. \<open>ListExpiredCallbacks\<close> returns, in order of time, the callbacks of exactly the timers that are
  due (of all timers when the clock was turned back), reschedules the recurring ones \<open>ms_\<close> from now,
  drops the others with their callbacks, and leaves every other timer alone.
\<close>

theorem expiry_exact:
  assumes "tm_wf m" "pr \<notin> set (timers m)" "ListExpiredCallbacks now_ms pr m [] = (m', cbs)"
    and "E = filter (\<lambda>t. fst (DetectClockRollover now_ms m) \<or> tm_next (mem m t) \<le> now_ms) (timers m)"
  shows "cbs = map (\<lambda>t. tm_callback (mem m t)) E \<and> None \<notin> set cbs \<and>
    mem m' = (\<lambda>t. if t \<in> set E then after_expiry now_ms (mem m t) else mem m t) \<and>
    set (timers m') = {t \<in> set (timers m). t \<in> set E \<longrightarrow> tm_recurring (mem m t)} \<and> tm_wf m'"
proof -
  let ?roll = "timers m \<noteq> [] \<and> fst (DetectClockRollover now_ms m)"
  have E: "E = filter (expired_at now_ms ?roll m) (timers m)"
    unfolding assms(4) by (rule filter_cong) (auto simp: expired_at_def)
  have "None \<notin> set (map (\<lambda>t. tm_callback (mem m t)) E)"
    using assms(1) by (auto simp: assms(4) tm_wf_def) (metis option.distinct(1))+
  with ListExpiredCallbacks_spec [OF assms(1,2), of now_ms "[]"] show ?thesis
    unfolding E [symmetric] assms(3) by simp
qed

definition one_timer :: "nat tmgr" where
  "one_timer = fst (AddTimer 0 4 5 (Some 9) False (newTimerManager 0))"

lemma one_timer_wf: "tm_wf one_timer"
  unfolding one_timer_def by (rule AddTimer_wf [OF newTimerManager_wf]) (simp add: newTimerManager_def)

lemma one_timer_simps:
  "timers one_timer = [4]" "mem one_timer 4 = newTimer 0 5 (Some 9) False"
  "previous_time one_timer = 0"
  by (simp_all add: one_timer_def AddTimer_def AddTimer_locked_def newTimerManager_def Let_def)

theorem expiry_exact_witness:
  "snd (ListExpiredCallbacks 6 2 one_timer []) = [Some 9]"
proof -
  obtain m' cbs where r: "ListExpiredCallbacks 6 2 one_timer [] = (m', cbs)" by fastforce
  show ?thesis
    using expiry_exact [OF one_timer_wf _ r refl]
    by (simp add: r one_timer_simps DetectClockRollover_def newTimer_def)
qed

text \<open>
  The timeout for the poll loop is the distance to the earliest timer: zero when one is due,
  otherwise the least \<open>next_ - now\<close> over all timers, and all ones when there is no timer; asking for
  it clears the tickle flag and nothing else.
\<close>

theorem timeout_earliest:
  assumes "tm_wf m" "GetNextTimeout now_ms m = (w, m')"
  shows "m' = m\<lparr>tickled := False\<rparr> \<and>
    (if timers m = [] then unat w = 2 ^ 64 - 1
     else unat w = Min ((\<lambda>t. unat (tm_next (mem m t)) - unat now_ms) ` set (timers m)))"
proof (cases "timers m = []")
  case True
  then show ?thesis using assms(2)
    by (auto simp: GetNextTimeout_def unsigned_minus_1_eq_mask mask_eq_exp_minus_1)
next
  case False
  let ?d = "\<lambda>t. unat (tm_next (mem m t)) - unat now_ms" and ?h = "hd (timers m)"
  have s: "sorted_wrt (timer_lt (mem m)) (timers m)" using assms(1) by (simp add: tm_wf_def)
  have "Min (?d ` set (timers m)) = ?d ?h"
  proof (rule Min_eqI)
    show "?d ?h \<le> y" if "y \<in> ?d ` set (timers m)" for y
      using that hd_earliest [OF s] by (auto simp: word_le_nat_alt intro!: diff_le_mono)
  qed (use False in auto)
  moreover have "unat w = ?d ?h"
    using assms(2) False
    by (auto simp: GetNextTimeout_def Let_def word_le_nat_alt unat_sub split: if_splits)
  ultimately show ?thesis using assms(2) False by (auto simp: GetNextTimeout_def Let_def)
qed

theorem timeout_earliest_witness: "unat (fst (GetNextTimeout 2 one_timer)) = 3"
proof -
  obtain w m' where r: "GetNextTimeout 2 one_timer = (w, m')" by fastforce
  show ?thesis using timeout_earliest [OF one_timer_wf r]
    by (simp add: r one_timer_simps newTimer_def)
qed

text \<open>
  Adding a timer asks for a wake-up exactly when the new timer comes before all pending ones
  and no wake-up is already outstanding; the timer is then pending and due \<open>ms\<close> from now.
\<close>

theorem AddTimer_wakes:
  assumes "tm_wf m" "a \<notin> set (timers m)" "AddTimer now_ms a ms (Some cb) rec m = (m', front)"
  shows "set (timers m') = insert a (set (timers m)) \<and>
    tm_next (mem m' a) = now_ms + ms \<and> tm_callback (mem m' a) = Some cb \<and>
    (\<forall>t. t \<noteq> a \<longrightarrow> mem m' t = mem m t) \<and>
    (front \<longleftrightarrow> \<not> tickled m \<and> (\<forall>t\<in>set (timers m). timer_lt (mem m') a t)) \<and>
    (tickled m' \<longleftrightarrow> tickled m \<or> front)"
proof -
  let ?mm = "(mem m)(a := newTimer now_ms ms (Some cb) rec)"
  have "sorted_wrt (timer_lt ?mm) (timers m)"
    using assms(1,2) by (simp add: tm_wf_def sorted_mem_upd)
  from hd_set_insert [OF this, of a]
  have hd: "hd (set_insert (timer_lt ?mm) a (timers m)) = a \<longleftrightarrow> (\<forall>t\<in>set (timers m). timer_lt ?mm a t)"
    using assms(2) by auto
  have m': "mem m' = ?mm" "timers m' = set_insert (timer_lt ?mm) a (timers m)"
    "front \<longleftrightarrow> hd (set_insert (timer_lt ?mm) a (timers m)) = a \<and> \<not> tickled m"
    "tickled m' \<longleftrightarrow> tickled m \<or> front"
    using assms(3) by (auto simp: AddTimer_def AddTimer_locked_def Let_def)
  show ?thesis unfolding m' hd by (auto simp: newTimer_def)
qed

theorem AddTimer_wakes_witness: "snd (AddTimer 0 4 5 (Some (9::nat)) False (newTimerManager 0))"
proof -
  obtain m' f where r: "AddTimer 0 4 5 (Some (9::nat)) False (newTimerManager 0) = (m', f)" by fastforce
  show ?thesis using AddTimer_wakes [OF newTimerManager_wf _ r] by (simp add: r)
qed

text \<open>
  \<open>Reset\<close> of a pending timer moves it to the new period, counted from now or from its last
  start, and keeps the other timers; but with an unchanged period and \<open>fromNow\<close> false it reports
  success without looking at the timer, also for one that is cancelled or has fired.
\<close>

theorem Reset_behaviour:
  assumes "tm_wf m" "Reset now_ms ms fromNow t m = (m', r, front)"
  shows "(r \<longleftrightarrow> t \<in> set (timers m) \<or> ms = tm_ms (mem m t) \<and> \<not> fromNow) \<and>
    set (timers m') = set (timers m) \<and> (\<forall>u. u \<noteq> t \<longrightarrow> mem m' u = mem m u) \<and>
    mem m' t = (if t \<in> set (timers m)
      then (mem m t)\<lparr>tm_ms := ms,
             tm_next := (if fromNow then now_ms else tm_next (mem m t) - tm_ms (mem m t)) + ms\<rparr>
      else mem m t)"
proof -
  have s: "sorted_wrt (timer_lt (mem m)) (timers m)"
    and cb: "tm_callback (mem m t) \<noteq> None \<longleftrightarrow> t \<in> set (timers m)"
    using assms(1) by (auto simp: tm_wf_def)
  consider "ms = tm_ms (mem m t) \<and> \<not> fromNow" | "\<not> (ms = tm_ms (mem m t) \<and> \<not> fromNow)" "t \<notin> set (timers m)"
    | i where "\<not> (ms = tm_ms (mem m t) \<and> \<not> fromNow)" "t \<in> set (timers m)"
        "set_find (timer_lt (mem m)) t (timers m) = Some i"
    using timer_find(2) [OF s, of t] by blast
  then show ?thesis
  proof cases
    case 1
    then show ?thesis using assms(2) by (auto simp: Reset_def)
  next
    case 2
    then show ?thesis using assms(2) cb by (auto simp: Reset_def)
  next
    case (3 i)
    let ?x = "(mem m t)\<lparr>tm_ms := ms,
      tm_next := (if fromNow then now_ms else tm_next (mem m t) - tm_ms (mem m t)) + ms\<rparr>"
    have "m' = fst (AddTimer_locked t (m\<lparr>mem := (mem m)(t := ?x),
        timers := set_erase_at i (timers m)\<rparr>))" and r: r
      using assms(2) cb 3 by (auto simp: Reset_def Let_def split: prod.splits)
    then have "mem m' = (mem m)(t := ?x)" "set (timers m') = insert t (set (set_erase_at i (timers m)))"
      by (simp_all add: AddTimer_locked_def Let_def)
    then show ?thesis using r 3(2) timer_erase(1) [OF s 3(3)] by auto
  qed
qed

theorem Reset_behaviour_witness:
  "fst (snd (Reset 3 0 False 8 one_timer)) \<and> 8 \<notin> set (timers one_timer)"
proof -
  obtain m' r f where r: "Reset 3 0 False 8 one_timer = (m', r, f)" by (metis prod_cases3)
  have "tm_ms (mem one_timer 8) = 0"
    by (simp add: one_timer_def AddTimer_def AddTimer_locked_def newTimerManager_def probeTimer_def Let_def)
  then show ?thesis using Reset_behaviour [OF one_timer_wf r] by (simp add: r one_timer_simps)
qed

end
