(* ===== verification/IOManager.thy ===== *)
theory IOManager
  imports Scheduler FdManager Timer
begin

text \<open>
  The epoll-driven I/O manager (\<open>gudov/iomanager.{h,cpp}\<close>): a scheduler and a timer manager with a
  table of descriptor contexts.  Scheduler objects are stored by address (\<open>schedulers\<close>), because an
  event is scheduled on the scheduler of the thread that registered it; \<open>self\<close> is this manager.
  \<open>interest\<close> is the kernel's epoll interest list for the descriptors, updated by a successful
  \<open>epoll_ctl\<close>: adding requires the descriptor to be absent, modifying and deleting require it to be
  present, and any call may fail for other reasons (the argument \<open>ok\<close>).  Event masks are 32-bit words.

  The lemmas show that in every state reached by operations that do not overlap the contexts, the
  pending-event counter and the kernel's interest list agree, that no assertion fails when callers
  and reports meet their obligations, that each registered event is delivered to its scheduler exactly
  once or removed, which reports fail an assertion, and how two overlapping registrations lose an event.
\<close>

section \<open>State\<close>

definition EV_READ :: u32 where "EV_READ = 1"
definition EV_WRITE :: u32 where "EV_WRITE = 4"
definition EPOLLIN :: u32 where "EPOLLIN = 1"
definition EPOLLOUT :: u32 where "EPOLLOUT = 4"
definition EPOLLERR :: u32 where "EPOLLERR = 8"
definition EPOLLHUP :: u32 where "EPOLLHUP = 16"
definition EPOLLET :: u32 where "EPOLLET = 0x80000000"
definition MAX_TIMEOUT :: int where "MAX_TIMEOUT = 2000"

record 'cb evctx =
  ec_sched :: "nat option"
  ec_fiber :: "nat option"
  ec_callback :: "'cb option"

record 'cb fdcontext =
  fc_read :: "'cb evctx"
  fc_write :: "'cb evctx"
  fc_fd :: nat
  fc_events :: u32

record 'cb iomgr =
  self :: nat
  schedulers :: "nat \<Rightarrow> 'cb sched"
  iot :: "'cb tmgr"
  contexts :: "'cb fdcontext list"
  pending_event_cnt :: nat
  interest :: "nat \<Rightarrow> u32 option"
  tickle_bytes :: nat

datatype ctl_op = CTL_ADD | CTL_MOD | CTL_DEL

definition epoll_ctl :: "ctl_op \<Rightarrow> nat \<Rightarrow> u32 \<Rightarrow> bool \<Rightarrow> 'cb iomgr \<Rightarrow> bool \<times> 'cb iomgr" where
  "epoll_ctl op fd msk ok io =
     (if ok \<and> (op = CTL_ADD \<longleftrightarrow> interest io fd = None)
      then (True, io\<lparr>interest := (interest io)(fd := (if op = CTL_DEL then None else Some msk))\<rparr>)
      else (False, io))"

definition empty_evctx :: "'cb evctx" where
  "empty_evctx = \<lparr>ec_sched = None, ec_fiber = None, ec_callback = None\<rparr>"

definition newFdContext :: "nat \<Rightarrow> 'cb fdcontext" where
  "newFdContext i = \<lparr>fc_read = empty_evctx, fc_write = empty_evctx, fc_fd = i, fc_events = 0\<rparr>"

definition GetContext :: "u32 \<Rightarrow> 'cb fdcontext \<Rightarrow> 'cb evctx res" where
  "GetContext event fc = (if event = EV_READ then Inr (fc_read fc)
     else if event = EV_WRITE then Inr (fc_write fc) else Inl AssertFail)"

definition put_context :: "u32 \<Rightarrow> 'cb evctx \<Rightarrow> 'cb fdcontext \<Rightarrow> 'cb fdcontext" where
  "put_context event c fc = (if event = EV_READ then fc\<lparr>fc_read := c\<rparr> else fc\<lparr>fc_write := c\<rparr>)"

definition ReSetContext :: "'cb evctx \<Rightarrow> 'cb evctx" where
  "ReSetContext c = c\<lparr>ec_sched := None, ec_fiber := None, ec_callback := None\<rparr>"

definition put_fd :: "nat \<Rightarrow> 'cb fdcontext \<Rightarrow> 'cb iomgr \<Rightarrow> 'cb iomgr" where
  "put_fd i fc io = io\<lparr>contexts := (contexts io)[i := fc]\<rparr>"

definition ContextResize :: "nat \<Rightarrow> 'cb fdcontext list \<Rightarrow> 'cb fdcontext list" where
  "ContextResize n cs = take n cs @ map newFdContext [length cs..<n]"

section \<open>Waking and scheduling\<close>

definition Tickle :: "'cb iomgr \<Rightarrow> 'cb iomgr" where
  "Tickle io = (if HasIdleThreads (schedulers io (self io)) then io
     else io\<lparr>tickle_bytes := tickle_bytes io + 1\<rparr>)"

definition schedule_on :: "nat \<Rightarrow> 'cb task \<Rightarrow> 'cb iomgr \<Rightarrow> 'cb iomgr" where
  "schedule_on sid task io =
     (let (s', need_tickle) = Schedule task (schedulers io sid);
          io' = io\<lparr>schedulers := (schedulers io)(sid := s')\<rparr>
      in if need_tickle \<and> sid = self io then Tickle io' else io')"

definition TriggerEvent :: "nat \<Rightarrow> u32 \<Rightarrow> 'cb iomgr \<Rightarrow> 'cb iomgr res" where
  "TriggerEvent i event io =
     (let fc = contexts io ! i in
      bindR (requireR (fc_events fc AND event \<noteq> 0) AssertFail) (\<lambda>_.
        let fc1 = fc\<lparr>fc_events := fc_events fc AND NOT event\<rparr> in
        bindR (GetContext event fc1) (\<lambda>c.
          case ec_sched c of
            None \<Rightarrow> Inl NullDeref
          | Some sid \<Rightarrow>
              (let task = (if ec_callback c \<noteq> None then CallbackTask (ec_callback c) (-1)
                           else FiberTask (ec_fiber c) (-1))
               in Inr (put_fd i (put_context event (ReSetContext c) fc1)
                         (schedule_on sid task io))))))"

section \<open>Registering and cancelling\<close>

text \<open>
  \<open>AddEvent\<close> looks the context up under the read lock; past the end of the table it drops that lock
  and resizes under the write lock.  \<open>cur_sched\<close> and \<open>cur_fiber\<close> (with its state) are the calling
  thread's scheduler and running fiber.
\<close>

definition AddEvent_resize :: "nat \<Rightarrow> 'cb iomgr \<Rightarrow> 'cb iomgr res" where
  "AddEvent_resize fd io =
     (let io' = io\<lparr>contexts := ContextResize (grow_half fd) (contexts io)\<rparr> in
      bindR (requireR (length (contexts io') > fd) AssertFail) (\<lambda>_. Inr io'))"

definition AddEvent_locked ::
  "nat \<Rightarrow> u32 \<Rightarrow> 'cb option \<Rightarrow> nat option \<Rightarrow> nat \<times> fstate \<Rightarrow> bool \<Rightarrow> 'cb iomgr \<Rightarrow> (int \<times> 'cb iomgr) res" where
  "AddEvent_locked fd event callback cur_sched cur_fiber ok io =
     (let fc = contexts io ! fd in
      bindR (requireR (fc_events fc AND event = 0) AssertFail) (\<lambda>_.
        let op = (if fc_events fc \<noteq> 0 then CTL_MOD else CTL_ADD);
            (fin, io1) = epoll_ctl op fd (EPOLLET OR fc_events fc OR event) ok io in
        if \<not> fin then Inr (-1, io)
        else let io2 = io1\<lparr>pending_event_cnt := pending_event_cnt io1 + 1\<rparr>;
                 fc1 = fc\<lparr>fc_events := fc_events fc OR event\<rparr> in
          bindR (GetContext event fc1) (\<lambda>c.
            bindR (requireR (ec_sched c = None \<and> ec_fiber c = None \<and> ec_callback c = None) AssertFail)
              (\<lambda>_. let c1 = c\<lparr>ec_sched := cur_sched\<rparr> in
                if callback \<noteq> None then
                  Inr (0, put_fd fd (put_context event (c1\<lparr>ec_callback := callback\<rparr>) fc1) io2)
                else bindR (requireR (snd cur_fiber = Running) AssertFail) (\<lambda>_.
                  Inr (0, put_fd fd (put_context event (c1\<lparr>ec_fiber := Some (fst cur_fiber)\<rparr>) fc1) io2))))))"

definition AddEvent ::
  "int \<Rightarrow> u32 \<Rightarrow> 'cb option \<Rightarrow> nat option \<Rightarrow> nat \<times> fstate \<Rightarrow> bool \<Rightarrow> 'cb iomgr \<Rightarrow> (int \<times> 'cb iomgr) res" where
  "AddEvent fd event callback cur_sched cur_fiber ok io =
     (if fd < 0 then Inl OutOfBounds
      else bindR (if int (length (contexts io)) > fd then Inr io else AddEvent_resize (nat fd) io)
        (\<lambda>io1. AddEvent_locked (nat fd) event callback cur_sched cur_fiber ok io1))"

definition DelEvent :: "int \<Rightarrow> u32 \<Rightarrow> bool \<Rightarrow> 'cb iomgr \<Rightarrow> (bool \<times> 'cb iomgr) res" where
  "DelEvent fd event ok io =
     (if int (length (contexts io)) \<le> fd then Inr (False, io)
      else if fd < 0 then Inl OutOfBounds
      else let i = nat fd; fc = contexts io ! i in
        if fc_events fc AND event = 0 then Inr (False, io)
        else let new_events = fc_events fc AND NOT event;
                 op = (if new_events \<noteq> 0 then CTL_MOD else CTL_DEL);
                 (fin, io1) = epoll_ctl op i (EPOLLET OR new_events) ok io in
          if \<not> fin then Inr (False, io)
          else let io2 = io1\<lparr>pending_event_cnt := sz_sub (pending_event_cnt io1) 1\<rparr>;
                   fc1 = fc\<lparr>fc_events := new_events\<rparr> in
            bindR (GetContext event fc1) (\<lambda>c.
              Inr (True, put_fd i (put_context event (ReSetContext c) fc1) io2)))"

definition dec_pending :: "'cb iomgr \<Rightarrow> 'cb iomgr" where
  "dec_pending io = io\<lparr>pending_event_cnt := sz_sub (pending_event_cnt io) 1\<rparr>"

definition CancelEvent :: "int \<Rightarrow> u32 \<Rightarrow> bool \<Rightarrow> 'cb iomgr \<Rightarrow> (bool \<times> 'cb iomgr) res" where
  "CancelEvent fd event ok io =
     (if int (length (contexts io)) \<le> fd then Inr (False, io)
      else if fd < 0 then Inl OutOfBounds
      else let i = nat fd; fc = contexts io ! i in
        if fc_events fc AND event = 0 then Inr (False, io)
        else let new_events = fc_events fc AND NOT event;
                 op = (if new_events \<noteq> 0 then CTL_MOD else CTL_DEL);
                 (fin, io1) = epoll_ctl op i (EPOLLET OR new_events) ok io in
          if \<not> fin then Inr (False, io)
          else bindR (TriggerEvent i event io1) (\<lambda>io2. Inr (True, dec_pending io2)))"

definition trigger_if :: "bool \<Rightarrow> nat \<Rightarrow> u32 \<Rightarrow> 'cb iomgr \<Rightarrow> 'cb iomgr res" where
  "trigger_if b i event io =
     (if b then bindR (TriggerEvent i event io) (\<lambda>io'. Inr (dec_pending io')) else Inr io)"

definition CancelAll :: "int \<Rightarrow> bool \<Rightarrow> 'cb iomgr \<Rightarrow> (bool \<times> 'cb iomgr) res" where
  "CancelAll fd ok io =
     (if int (length (contexts io)) \<le> fd then Inr (False, io)
      else if fd < 0 then Inl OutOfBounds
      else let i = nat fd in
        if fc_events (contexts io ! i) = 0 then Inr (False, io)
        else let (fin, io1) = epoll_ctl CTL_DEL i 0 ok io in
          if \<not> fin then Inr (False, io)
          else bindR (trigger_if (fc_events (contexts io1 ! i) AND EV_READ \<noteq> 0) i EV_READ io1) (\<lambda>io2.
            bindR (trigger_if (fc_events (contexts io2 ! i) AND EV_WRITE \<noteq> 0) i EV_WRITE io2) (\<lambda>io3.
              bindR (requireR (fc_events (contexts io3 ! i) = 0) AssertFail) (\<lambda>_. Inr (True, io3)))))"

section \<open>The idle loop\<close>

definition io_Stopping :: "u64 \<Rightarrow> 'cb iomgr \<Rightarrow> bool \<times> u64 \<times> 'cb iomgr" where
  "io_Stopping now_ms io =
     (let (timeout, t') = GetNextTimeout now_ms (iot io); io' = io\<lparr>iot := t'\<rparr> in
      (timeout = NOT 0 \<and> pending_event_cnt io' = 0 \<and> Scheduler.Stopping (schedulers io' (self io')),
       timeout, io'))"

text \<open>The timeout handed to \<open>epoll_wait\<close>: cast to \<open>int\<close> before the minimum is taken.\<close>

definition wait_timeout :: "u64 \<Rightarrow> int" where
  "wait_timeout next_timeout =
     (if next_timeout \<noteq> NOT 0 then min (sint (ucast next_timeout :: 32 word)) MAX_TIMEOUT
      else MAX_TIMEOUT)"

text \<open>What \<open>epoll_wait\<close> reports: the tickle pipe, or a descriptor context with a mask.\<close>

datatype report = PipeReady | FdReady nat u32

definition real_events :: "u32 \<Rightarrow> u32 \<Rightarrow> u32" where
  "real_events msk0 events =
     (let msk = (if msk0 AND (EPOLLERR OR EPOLLHUP) \<noteq> 0
                  then msk0 OR ((EPOLLIN OR EPOLLOUT) AND events) else msk0)
      in (if msk AND EPOLLIN \<noteq> 0 then EV_READ else 0) OR (if msk AND EPOLLOUT \<noteq> 0 then EV_WRITE else 0))"

definition handle_event :: "report \<times> bool \<Rightarrow> 'cb iomgr \<Rightarrow> 'cb iomgr res" where
  "handle_event r io =
     (case r of
        (PipeReady, _) \<Rightarrow> Inr (io\<lparr>tickle_bytes := 0\<rparr>)
      | (FdReady i msk, ok) \<Rightarrow>
          (let fc = contexts io ! i; real = real_events msk (fc_events fc) in
           if fc_events fc AND real = 0 then Inr io
           else let left = fc_events fc AND NOT real;
                    op = (if left \<noteq> 0 then CTL_MOD else CTL_DEL);
                    (fin, io1) = epoll_ctl op (fc_fd fc) (EPOLLET OR left) ok io in
             if \<not> fin then Inr io
             else bindR (trigger_if (real AND EV_READ \<noteq> 0) i EV_READ io1) (\<lambda>io2.
               trigger_if (real AND EV_WRITE \<noteq> 0) i EV_WRITE io2)))"

fun handle_events :: "(report \<times> bool) list \<Rightarrow> 'cb iomgr \<Rightarrow> 'cb iomgr res" where
  "handle_events [] io = Inr io"
| "handle_events (r # rs) io = bindR (handle_event r io) (handle_events rs)"

text \<open>
  One round of \<open>Idle\<close> after \<open>epoll_wait\<close> has returned: collect the expired timers, schedule their
  callbacks, handle the reports; the fiber then yields.
\<close>

definition Idle_round :: "u64 \<Rightarrow> nat \<Rightarrow> (report \<times> bool) list \<Rightarrow> 'cb iomgr \<Rightarrow> 'cb iomgr res" where
  "Idle_round now_ms probe reports io =
     (let (t', cbs) = ListExpiredCallbacks now_ms probe (iot io) [];
          io1 = io\<lparr>iot := t'\<rparr>;
          io2 = (if cbs \<noteq> [] then
                   (let (s', need_tickle) =
                          ScheduleRange (map (\<lambda>cb. CallbackTask cb (-1)) cbs) (schedulers io1 (self io1));
                        io1' = io1\<lparr>schedulers := (schedulers io1)(self io1 := s')\<rparr>
                    in if need_tickle then Tickle io1' else io1')
                 else io1)
      in handle_events reports io2)"

definition Idle_exit :: "u64 \<Rightarrow> 'cb iomgr \<Rightarrow> (int option) \<times> 'cb iomgr" where
  "Idle_exit now_ms io =
     (let (stop, next_timeout, io') = io_Stopping now_ms io in
      (if stop then None else Some (wait_timeout next_timeout), io'))"

definition OnTimerInsertedAtFront :: "'cb iomgr \<Rightarrow> 'cb iomgr" where
  "OnTimerInsertedAtFront io = Tickle io"

definition io_AddTimer :: "u64 \<Rightarrow> nat \<Rightarrow> u64 \<Rightarrow> 'cb option \<Rightarrow> bool \<Rightarrow> 'cb iomgr \<Rightarrow> 'cb iomgr" where
  "io_AddTimer now_ms a ms callback recurring io =
     (let (t', at_front) = AddTimer now_ms a ms callback recurring (iot io); io' = io\<lparr>iot := t'\<rparr>
      in if at_front then OnTimerInsertedAtFront io' else io')"

definition newIOManager :: "nat \<Rightarrow> (nat \<Rightarrow> 'cb sched) \<Rightarrow> u64 \<Rightarrow> 'cb iomgr" where
  "newIOManager me ss now_ms =
     \<lparr>self = me, schedulers = ss, iot = newTimerManager now_ms, contexts = ContextResize 32 [],
      pending_event_cnt = 0, interest = (\<lambda>_. None), tickle_bytes = 0\<rparr>"

section \<open>Invariant\<close>

interpretation ioct: growing_table length "(!)" ContextResize
  by unfold_locales (auto simp: ContextResize_def nth_append)

definition ec_live :: "'cb evctx \<Rightarrow> bool" where
  "ec_live c \<longleftrightarrow> ec_sched c \<noteq> None \<and> (ec_fiber c \<noteq> None \<or> ec_callback c \<noteq> None)"

definition ev_count :: "u32 \<Rightarrow> nat" where
  "ev_count e = (if e AND EV_READ \<noteq> 0 then 1 else 0) + (if e AND EV_WRITE \<noteq> 0 then 1 else 0)"

definition fc_ok :: "'cb fdcontext \<Rightarrow> bool" where
  "fc_ok fc \<longleftrightarrow> fc_events fc \<in> {0, 1, 4, 5} \<and>
     (if fc_events fc AND EV_READ \<noteq> 0 then ec_live (fc_read fc) else fc_read fc = empty_evctx) \<and>
     (if fc_events fc AND EV_WRITE \<noteq> 0 then ec_live (fc_write fc) else fc_write fc = empty_evctx)"

definition io_wf :: "'cb iomgr \<Rightarrow> bool" where
  "io_wf io \<longleftrightarrow> 2 \<le> length (contexts io) \<and>
     (\<forall>i < length (contexts io). fc_fd (contexts io ! i) = i \<and> fc_ok (contexts io ! i)) \<and>
     pending_event_cnt io = sum_list (map (\<lambda>fc. ev_count (fc_events fc)) (contexts io)) \<and>
     (\<forall>i. interest io i =
        (if i < length (contexts io) \<and> fc_events (contexts io ! i) \<noteq> 0
         then Some (EPOLLET OR fc_events (contexts io ! i)) else None)) \<and>
     tm_wf (iot io)"

lemmas ev_defs = EV_READ_def EV_WRITE_def EPOLLIN_def EPOLLOUT_def EPOLLERR_def EPOLLHUP_def

definition is_event :: "u32 \<Rightarrow> bool" where
  "is_event e \<longleftrightarrow> e = EV_READ \<or> e = EV_WRITE"

lemma newFdContext_ok: "fc_ok (newFdContext i)" "fc_fd (newFdContext i) = i"
  "fc_events (newFdContext i) = 0"
  by (simp_all add: fc_ok_def newFdContext_def)

lemma sum_list_new_contexts [simp]:
  "sum_list (map (\<lambda>fc. ev_count (fc_events fc)) (map newFdContext xs)) = 0"
  by (simp add: newFdContext_def ev_count_def)

lemma newIOManager_wf: "io_wf (newIOManager me ss now_ms)"
  by (auto simp: io_wf_def newIOManager_def ContextResize_def newFdContext_ok newTimerManager_wf
      simp del: upt_rec_numeral map_map)

lemma io_wf_update:
  assumes wf: "io_wf io" and i: "i < length (contexts io)"
    and fc: "fc_ok fc'" "fc_fd fc' = i"
    and io': "contexts io' = (contexts io)[i := fc']"
      "pending_event_cnt io' + ev_count (fc_events (contexts io ! i)) =
         pending_event_cnt io + ev_count (fc_events fc')"
      "interest io' = (interest io)(i :=
         (if fc_events fc' \<noteq> 0 then Some (EPOLLET OR fc_events fc') else None))"
      "tm_wf (iot io')"
  shows "io_wf io'"
proof -
  have "pending_event_cnt io' = sum_list (map (\<lambda>fc. ev_count (fc_events fc)) (contexts io'))"
    using sum_list_map_update [OF i, of "\<lambda>fc. ev_count (fc_events fc)" fc'] wf io'(1,2)
    by (simp add: io_wf_def)
  then show ?thesis using wf i fc io' by (auto simp: io_wf_def nth_list_update)
qed

lemma schedule_on_simps [simp]:
  "contexts (schedule_on sid task io) = contexts io"
  "pending_event_cnt (schedule_on sid task io) = pending_event_cnt io"
  "interest (schedule_on sid task io) = interest io" "iot (schedule_on sid task io) = iot io"
  "self (schedule_on sid task io) = self io"
  "schedulers (schedule_on sid task io) =
     (schedulers io)(sid := fst (Schedule task (schedulers io sid)))"
  by (auto simp: schedule_on_def Tickle_def Let_def split: prod.splits)

lemma dec_pending_simps [simp]:
  "contexts (dec_pending io) = contexts io" "interest (dec_pending io) = interest io"
  "iot (dec_pending io) = iot io" "schedulers (dec_pending io) = schedulers io"
  "self (dec_pending io) = self io"
  "pending_event_cnt (dec_pending io) = sz_sub (pending_event_cnt io) 1"
  by (simp_all add: dec_pending_def)

lemma put_fd_simps [simp]:
  "contexts (put_fd i fc io) = (contexts io)[i := fc]" "interest (put_fd i fc io) = interest io"
  "iot (put_fd i fc io) = iot io" "schedulers (put_fd i fc io) = schedulers io"
  "self (put_fd i fc io) = self io" "pending_event_cnt (put_fd i fc io) = pending_event_cnt io"
  by (simp_all add: put_fd_def)

definition ev_of :: "u32 \<Rightarrow> 'cb fdcontext \<Rightarrow> 'cb evctx" where
  "ev_of e fc = (if e = EV_READ then fc_read fc else fc_write fc)"

definition drop_event :: "u32 \<Rightarrow> 'cb fdcontext \<Rightarrow> 'cb fdcontext" where
  "drop_event e fc = put_context e empty_evctx (fc\<lparr>fc_events := fc_events fc AND NOT e\<rparr>)"

definition task_of :: "'cb evctx \<Rightarrow> 'cb task" where
  "task_of c = (if ec_callback c \<noteq> None then CallbackTask (ec_callback c) (-1)
     else FiberTask (ec_fiber c) (-1))"

lemma drop_event_ok:
  assumes "fc_ok fc" "is_event e" "fc_events fc AND e \<noteq> 0"
  shows "fc_ok (drop_event e fc)" "fc_fd (drop_event e fc) = fc_fd fc"
    "fc_events (drop_event e fc) = fc_events fc AND NOT e"
    "ev_count (fc_events fc) = ev_count (fc_events fc AND NOT e) + 1"
  using assms
  by (auto simp: fc_ok_def drop_event_def put_context_def is_event_def ev_count_def ev_defs split: if_splits)

lemma ReSetContext_empty [simp]: "ReSetContext c = empty_evctx"
  by (simp add: ReSetContext_def empty_evctx_def)

lemma TriggerEvent_ok:
  assumes "fc_ok (contexts io ! i)" "is_event e" "fc_events (contexts io ! i) AND e \<noteq> 0"
    "c = ev_of e (contexts io ! i)"
  shows "\<exists>sid. ec_sched c = Some sid \<and>
    TriggerEvent i e io = Inr (put_fd i (drop_event e (contexts io ! i)) (schedule_on sid (task_of c) io))"
proof -
  have "GetContext e ((contexts io ! i)\<lparr>fc_events := x\<rparr>) = Inr c" for x
    using assms(2,4) by (auto simp: GetContext_def is_event_def ev_of_def ev_defs)
  moreover have "ec_live c"
    using assms by (auto simp: fc_ok_def is_event_def ev_of_def ev_defs split: if_splits)
  then obtain sid where "ec_sched c = Some sid" by (auto simp: ec_live_def)
  ultimately show ?thesis using assms(3)
    by (simp add: TriggerEvent_def Let_def drop_event_def task_of_def)
qed

section \<open>Operations keep the invariant\<close>

definition deliver :: "'cb evctx \<Rightarrow> (nat \<Rightarrow> 'cb sched) \<Rightarrow> nat \<Rightarrow> 'cb sched" where
  "deliver c ss = (case ec_sched c of None \<Rightarrow> ss
     | Some sid \<Rightarrow> ss(sid := fst (Schedule (task_of c) (ss sid))))"

lemma deliver_empty [simp]: "deliver empty_evctx ss = ss"
  by (simp add: deliver_def empty_evctx_def)

definition drop_if :: "bool \<Rightarrow> u32 \<Rightarrow> 'cb fdcontext \<Rightarrow> 'cb fdcontext" where
  "drop_if b e fc = (if b then drop_event e fc else fc)"

lemma trigger_if_ok:
  assumes "i < length (contexts io)" "fc_ok (contexts io ! i)" "is_event e"
    "b \<longrightarrow> fc_events (contexts io ! i) AND e \<noteq> 0"
  shows "\<exists>io'. trigger_if b i e io = Inr io' \<and>
    contexts io' = (contexts io)[i := drop_if b e (contexts io ! i)] \<and>
    pending_event_cnt io' = (if b then sz_sub (pending_event_cnt io) 1 else pending_event_cnt io) \<and>
    interest io' = interest io \<and> iot io' = iot io \<and> self io' = self io \<and>
    schedulers io' = (if b then deliver (ev_of e (contexts io ! i)) (schedulers io) else schedulers io)"
proof (cases b)
  case True
  then obtain sid where "ec_sched (ev_of e (contexts io ! i)) = Some sid"
    "TriggerEvent i e io = Inr (put_fd i (drop_event e (contexts io ! i))
       (schedule_on sid (task_of (ev_of e (contexts io ! i))) io))"
    using TriggerEvent_ok [OF assms(2,3) _ refl] assms(4) by blast
  then show ?thesis using True by (simp add: trigger_if_def drop_if_def deliver_def)
qed (use assms in \<open>simp add: trigger_if_def drop_if_def\<close>)

text \<open>Dropping a set of registered events, the way both the cancel and the idle path do it.\<close>

lemma trigger_both_ok:
  assumes wf: "io_wf io" and i: "i < length (contexts io)"
    and ev: "fc = contexts io ! i" "events = fc_events fc"
    and br: "br \<longrightarrow> events AND EV_READ \<noteq> 0" and bw: "bw \<longrightarrow> events AND EV_WRITE \<noteq> 0"
    and io1: "io1 = io\<lparr>interest := (interest io)(i := m)\<rparr>"
    and m: "left = fc_events (drop_if bw EV_WRITE (drop_if br EV_READ fc))"
      "m = (if left \<noteq> 0 then Some (EPOLLET OR left) else None)"
  shows "\<exists>io2 io3. trigger_if br i EV_READ io1 = Inr io2 \<and> trigger_if bw i EV_WRITE io2 = Inr io3 \<and>
    contexts io2 = (contexts io)[i := drop_if br EV_READ fc] \<and>
    contexts io3 = (contexts io)[i := drop_if bw EV_WRITE (drop_if br EV_READ fc)] \<and> io_wf io3 \<and>
    self io3 = self io \<and> iot io3 = iot io \<and>
    schedulers io3 = (if bw then deliver (fc_write fc) else id)
      ((if br then deliver (fc_read fc) else id) (schedulers io))"
proof -
  have fc: "fc_ok fc" "fc_fd fc = i" and pend: "ev_count events \<le> pending_event_cnt io"
    and tm: "tm_wf (iot io)"
    using wf i ev member_le_sum_list_map [of "contexts io ! i" "contexts io" "\<lambda>fc. ev_count (fc_events fc)"]
    by (simp_all add: io_wf_def)
  let ?fr = "drop_if br EV_READ fc"
  have r: "fc_ok ?fr" "fc_fd ?fr = i" "fc_events ?fr AND EV_WRITE = events AND EV_WRITE"
    "fc_write ?fr = fc_write fc"
    "ev_count events = ev_count (fc_events ?fr) + (if br then 1 else 0)"
    using fc br ev drop_event_ok [of fc EV_READ]
    by (auto simp: drop_if_def is_event_def drop_event_def put_context_def fc_ok_def ev_defs)
  let ?fw = "drop_if bw EV_WRITE ?fr"
  have w: "fc_ok ?fw" "fc_fd ?fw = i" "ev_count (fc_events ?fr) = ev_count (fc_events ?fw) + (if bw then 1 else 0)"
    using r bw drop_event_ok [of ?fr EV_WRITE] by (auto simp: drop_if_def is_event_def)
  obtain io2 where io2: "trigger_if br i EV_READ io1 = Inr io2" "contexts io2 = (contexts io)[i := ?fr]"
    "pending_event_cnt io2 = (if br then sz_sub (pending_event_cnt io) 1 else pending_event_cnt io)"
    "interest io2 = interest io1" "iot io2 = iot io" "self io2 = self io"
    "schedulers io2 = (if br then deliver (fc_read fc) (schedulers io) else schedulers io)"
    using trigger_if_ok [of i io1 EV_READ br] i fc br ev
    by (auto simp: io1 is_event_def ev_of_def)
  obtain io3 where io3: "trigger_if bw i EV_WRITE io2 = Inr io3" "contexts io3 = (contexts io)[i := ?fw]"
    "pending_event_cnt io3 = (if bw then sz_sub (pending_event_cnt io2) 1 else pending_event_cnt io2)"
    "interest io3 = interest io1" "iot io3 = iot io" "self io3 = self io"
    "schedulers io3 = (if bw then deliver (fc_write fc) (schedulers io2) else schedulers io2)"
    using trigger_if_ok [of i io2 EV_WRITE bw] i r bw io2
    by (auto simp: is_event_def ev_of_def ev_defs)
  have "pending_event_cnt io3 + ev_count events = pending_event_cnt io + ev_count (fc_events ?fw)"
    using io2(3) io3(3) r(5) w(3) pend by (auto split: if_splits)
  then have "io_wf io3"
    using io3 w ev m i tm by (intro io_wf_update [OF wf i w(1,2)]) (simp_all add: io1)
  with io2 io3 show ?thesis by auto
qed

lemma epoll_ctl_legal:
  assumes "io_wf io" "i < length (contexts io)"
    "op = CTL_ADD \<longleftrightarrow> fc_events (contexts io ! i) = 0"
  shows "epoll_ctl op i msk ok io =
    (ok, if ok then io\<lparr>interest := (interest io)(i := (if op = CTL_DEL then None else Some msk))\<rparr> else io)"
  using assms by (auto simp: epoll_ctl_def io_wf_def)

lemma DelEvent_wf:
  assumes "io_wf io" "0 \<le> fd" "is_event e"
  shows "\<exists>r io'. DelEvent fd e ok io = Inr (r, io') \<and> io_wf io' \<and> schedulers io' = schedulers io"
proof (cases "int (length (contexts io)) \<le> fd \<or> fc_events (contexts io ! nat fd) AND e = 0 \<or> \<not> ok")
  case True
  then show ?thesis using assms epoll_ctl_legal [of io "nat fd"]
    by (auto simp: DelEvent_def Let_def epoll_ctl_def)
next
  case False
  let ?i = "nat fd" and ?fc = "contexts io ! nat fd"
  let ?left = "fc_events ?fc AND NOT e"
  have i: "?i < length (contexts io)" using False assms(2) by linarith
  have fc: "fc_ok ?fc" "fc_fd ?fc = ?i" and tm: "tm_wf (iot io)"
    and pend: "ev_count (fc_events ?fc) \<le> pending_event_cnt io"
    using assms(1) i member_le_sum_list_map [of ?fc "contexts io" "\<lambda>fc. ev_count (fc_events fc)"]
    by (simp_all add: io_wf_def)
  have e: "fc_events ?fc AND e \<noteq> 0" using False by simp
  note d = drop_event_ok [OF fc(1) assms(3) e]
  have "fc_events ?fc \<noteq> 0" using e by auto
  let ?op = "if ?left \<noteq> 0 then CTL_MOD else CTL_DEL"
  have ctl: "epoll_ctl ?op ?i (EPOLLET OR ?left) ok io =
      (True, io\<lparr>interest := (interest io)(?i := (if ?left \<noteq> 0 then Some (EPOLLET OR ?left) else None))\<rparr>)"
    using epoll_ctl_legal [OF assms(1) i, of ?op "EPOLLET OR ?left" ok] False \<open>fc_events ?fc \<noteq> 0\<close> by auto
  have "GetContext e (?fc\<lparr>fc_events := x\<rparr>) = Inr (ev_of e ?fc)" for x
    using assms(3) by (auto simp: GetContext_def is_event_def ev_of_def ev_defs)
  then have "\<exists>io'. DelEvent fd e ok io = Inr (True, io') \<and>
      contexts io' = (contexts io)[?i := drop_event e ?fc] \<and> iot io' = iot io \<and>
      schedulers io' = schedulers io \<and> pending_event_cnt io' = sz_sub (pending_event_cnt io) 1 \<and>
      interest io' = (interest io)(?i := (if ?left \<noteq> 0 then Some (EPOLLET OR ?left) else None))"
    using False assms(2) ctl by (simp add: DelEvent_def Let_def drop_event_def)
  then obtain io' where io': "DelEvent fd e ok io = Inr (True, io')"
      "contexts io' = (contexts io)[?i := drop_event e ?fc]" "iot io' = iot io"
      "schedulers io' = schedulers io" "pending_event_cnt io' = sz_sub (pending_event_cnt io) 1"
      "interest io' = (interest io)(?i := (if ?left \<noteq> 0 then Some (EPOLLET OR ?left) else None))"
    by blast
  have "io_wf io'"
    using io' d fc pend tm by (intro io_wf_update [OF assms(1) i d(1)]) auto
  with io' show ?thesis by blast
qed

lemma io_wf_fc: "io_wf io \<Longrightarrow> i < length (contexts io) \<Longrightarrow> fc_ok (contexts io ! i)"
  by (simp add: io_wf_def)

lemma drop_read_then_write:
  assumes "fc_ok fc" "br \<longleftrightarrow> fc_events fc AND EV_READ \<noteq> 0" "bw \<longleftrightarrow> fc_events fc AND EV_WRITE \<noteq> 0"
  shows "fc_events (drop_if br EV_READ fc) AND EV_WRITE = fc_events fc AND EV_WRITE"
    "fc_events (drop_if bw EV_WRITE (drop_if br EV_READ fc)) = 0"
  using assms by (auto simp: fc_ok_def drop_if_def drop_event_def put_context_def ev_defs)

definition registered :: "u32 \<Rightarrow> int \<Rightarrow> 'cb iomgr \<Rightarrow> bool" where
  "registered e fd io \<longleftrightarrow> 0 \<le> fd \<and> fd < int (length (contexts io)) \<and>
     fc_events (contexts io ! nat fd) AND e \<noteq> 0"

lemma CancelEvent_ok:
  assumes "io_wf io" "0 \<le> fd" "is_event e"
  shows "\<exists>io'. CancelEvent fd e ok io = Inr (registered e fd io \<and> ok, io') \<and> io_wf io' \<and> iot io' = iot io \<and>
    (registered e fd io \<and> ok \<longrightarrow> \<not> registered e fd io' \<and>
       schedulers io' = deliver (ev_of e (contexts io ! nat fd)) (schedulers io)) \<and>
    (\<not> (registered e fd io \<and> ok) \<longrightarrow> io' = io)"
proof (cases "registered e fd io \<and> ok")
  case False
  then show ?thesis using assms
    by (auto simp: CancelEvent_def Let_def epoll_ctl_def registered_def)
next
  case True
  let ?i = "nat fd" and ?fc = "contexts io ! nat fd"
  let ?left = "fc_events ?fc AND NOT e"
  have i: "?i < length (contexts io)" and ev: "fc_events ?fc AND e \<noteq> 0" and ok
    using True by (auto simp: registered_def)
  define io1 where "io1 = io\<lparr>interest := (interest io)(?i :=
    (if ?left \<noteq> 0 then Some (EPOLLET OR ?left) else None))\<rparr>"
  have "fc_events ?fc \<noteq> 0" using ev by auto
  then have ctl: "epoll_ctl (if ?left \<noteq> 0 then CTL_MOD else CTL_DEL) ?i (EPOLLET OR ?left) ok io = (True, io1)"
    using epoll_ctl_legal [OF assms(1) i, of "if ?left \<noteq> 0 then CTL_MOD else CTL_DEL" "EPOLLET OR ?left" ok] \<open>ok\<close>
    by (auto simp: io1_def)
  have run: "CancelEvent fd e ok io = bindR (trigger_if True ?i e io1) (\<lambda>x. Inr (True, x))"
    using True assms(2) ctl ev
    by (simp add: CancelEvent_def Let_def trigger_if_def registered_def bindR_assoc)
  have left: "?left = fc_events (drop_if (e = EV_WRITE) EV_WRITE (drop_if (e = EV_READ) EV_READ ?fc))"
    using assms(3) by (auto simp: is_event_def drop_if_def drop_event_def put_context_def ev_defs)
  have b: "e = EV_READ \<longrightarrow> fc_events ?fc AND EV_READ \<noteq> 0" "e = EV_WRITE \<longrightarrow> fc_events ?fc AND EV_WRITE \<noteq> 0"
    using ev by auto
  obtain io2 io3 where t: "trigger_if (e = EV_READ) ?i EV_READ io1 = Inr io2"
    "trigger_if (e = EV_WRITE) ?i EV_WRITE io2 = Inr io3" "io_wf io3"
    "contexts io3 = (contexts io)[?i := drop_if (e = EV_WRITE) EV_WRITE (drop_if (e = EV_READ) EV_READ ?fc)]"
    "schedulers io3 = (if e = EV_WRITE then deliver (fc_write ?fc) else id)
      ((if e = EV_READ then deliver (fc_read ?fc) else id) (schedulers io))" "iot io3 = iot io"
    using trigger_both_ok [OF assms(1) i refl refl b io1_def left refl] by blast
  have "trigger_if True ?i e io1 = Inr io3"
    using t(1,2) assms(3) by (auto simp: is_event_def trigger_if_def ev_defs)
  moreover have "fc_events (contexts io3 ! ?i) AND e = 0"
    using t(4) i left [symmetric] by (simp add: and.assoc [symmetric] and.commute and.left_commute)
  ultimately show ?thesis
    using True run t(3,5,6) assms(3)
    by (auto simp: registered_def is_event_def ev_of_def ev_defs)
qed

lemma CancelAll_ok:
  assumes "io_wf io" "0 \<le> fd" "fd < int (length (contexts io))"
  defines "fc \<equiv> contexts io ! nat fd"
  shows "\<exists>io'. CancelAll fd ok io = Inr (fc_events fc \<noteq> 0 \<and> ok, io') \<and> io_wf io' \<and>
    (fc_events fc \<noteq> 0 \<and> ok \<longrightarrow> fc_events (contexts io' ! nat fd) = 0 \<and> interest io' (nat fd) = None \<and>
      schedulers io' = deliver (fc_write fc) (deliver (fc_read fc) (schedulers io)))"
proof (cases "fc_events fc \<noteq> 0 \<and> ok")
  case False
  then show ?thesis using assms by (auto simp: CancelAll_def Let_def epoll_ctl_def)
next
  case True
  let ?i = "nat fd"
  let ?br = "fc_events fc AND EV_READ \<noteq> 0" and ?bw = "fc_events fc AND EV_WRITE \<noteq> 0"
  have i: "?i < length (contexts io)" using assms(2,3) by linarith
  have fc: "fc_ok fc" using io_wf_fc [OF assms(1) i] by (simp add: fc_def)
  note dr = drop_read_then_write [OF fc refl refl]
  define io1 where "io1 = io\<lparr>interest := (interest io)(?i := None)\<rparr>"
  have ctl: "epoll_ctl CTL_DEL ?i 0 ok io = (True, io1)"
    using epoll_ctl_legal [OF assms(1) i, of CTL_DEL 0 ok] True by (simp add: io1_def fc_def)
  obtain io2 io3 where t: "trigger_if ?br ?i EV_READ io1 = Inr io2"
    "trigger_if ?bw ?i EV_WRITE io2 = Inr io3" "io_wf io3"
    "contexts io2 = (contexts io)[?i := drop_if ?br EV_READ fc]"
    "contexts io3 = (contexts io)[?i := drop_if ?bw EV_WRITE (drop_if ?br EV_READ fc)]"
    "schedulers io3 = (if ?bw then deliver (fc_write fc) else id)
      ((if ?br then deliver (fc_read fc) else id) (schedulers io))"
    using trigger_both_ok [OF assms(1) i fc_def [THEN meta_eq_to_obj_eq] refl impI impI io1_def dr(2) [symmetric]] by fastforce
  have sch: "schedulers io3 = deliver (fc_write fc) (deliver (fc_read fc) (schedulers io))"
    using t(6) fc by (auto simp: fc_ok_def split: if_splits)
  have ev3: "fc_events (contexts io3 ! ?i) = 0" using t(5) i dr(2) by simp
  have "CancelAll fd ok io = Inr (True, io3)"
    using True assms(2,3) ctl t(1,2) ev3 dr(1) i t(4)
    by (simp add: CancelAll_def Let_def fc_def [symmetric] io1_def)
  moreover have "interest io3 ?i = None"
    using t(3) ev3 by (simp add: io_wf_def)
  ultimately show ?thesis using True t(3) ev3 sch by auto
qed

lemma real_events_range: "real_events msk e \<in> {0, 1, 4, 5}"
  by (simp add: real_events_def Let_def ev_defs)

text \<open>A report is in step with the table when it names only events that are still registered.\<close>

definition report_ok :: "report \<Rightarrow> 'cb iomgr \<Rightarrow> bool" where
  "report_ok r io \<longleftrightarrow> (case r of PipeReady \<Rightarrow> True
     | FdReady i msk \<Rightarrow> i < length (contexts io) \<and>
         real_events msk (fc_events (contexts io ! i)) AND NOT (fc_events (contexts io ! i)) = 0)"

fun msk_of :: "report \<Rightarrow> u32" where
  "msk_of PipeReady = 0"
| "msk_of (FdReady i msk) = msk"

text \<open>A report that names a registered event: the events it names are dropped and delivered.\<close>

lemma handle_event_fires:
  fixes msk :: u32
  assumes "io_wf io" "report_ok (FdReady i msk) io"
  defines "fc \<equiv> contexts io ! i"
  defines "real \<equiv> real_events msk (fc_events fc)"
  assumes "fc_events fc AND real \<noteq> 0"
  shows "\<exists>io' fc'. handle_event (FdReady i msk, True) io = Inr io' \<and> io_wf io' \<and>
    contexts io' = (contexts io)[i := fc'] \<and> fc_events fc' = fc_events fc AND NOT real \<and> iot io' = iot io \<and> self io' = self io \<and>
    schedulers io' = (if real AND EV_WRITE \<noteq> 0 then deliver (fc_write fc) else id)
      ((if real AND EV_READ \<noteq> 0 then deliver (fc_read fc) else id) (schedulers io))"
proof -
  let ?e = "fc_events fc"
  let ?left = "?e AND NOT real"
  let ?op = "if ?left \<noteq> 0 then CTL_MOD else CTL_DEL"
  let ?br = "real AND EV_READ \<noteq> 0" and ?bw = "real AND EV_WRITE \<noteq> 0"
  have i: "i < length (contexts io)" and sub: "real AND NOT ?e = 0"
    using assms(2) by (auto simp: report_ok_def fc_def real_def)
  have fd: "fc_fd fc = i" and e: "?e \<in> {0, 1, 4, 5}" using assms(1) i by (auto simp: io_wf_def fc_ok_def fc_def)
  define io1 where "io1 = io\<lparr>interest := (interest io)(i :=
    (if ?left \<noteq> 0 then Some (EPOLLET OR ?left) else None))\<rparr>"
  have "?e \<noteq> 0" using assms(5) by auto
  then have ctl: "epoll_ctl ?op i (EPOLLET OR ?left) True io = (True, io1)"
    using epoll_ctl_legal [OF assms(1) i, of ?op "EPOLLET OR ?left" True] by (auto simp: io1_def fc_def)
  have b: "?br \<longrightarrow> ?e AND EV_READ \<noteq> 0" "?bw \<longrightarrow> ?e AND EV_WRITE \<noteq> 0"
    "?left = fc_events (drop_if ?bw EV_WRITE (drop_if ?br EV_READ fc))"
    using real_events_range [of msk ?e] e sub unfolding real_def [symmetric]
    by (auto simp: drop_if_def drop_event_def put_context_def ev_defs)
  obtain io2 io3 where "trigger_if ?br i EV_READ io1 = Inr io2"
    "trigger_if ?bw i EV_WRITE io2 = Inr io3" "io_wf io3"
    "contexts io3 = (contexts io)[i := drop_if ?bw EV_WRITE (drop_if ?br EV_READ fc)]" "self io3 = self io" "iot io3 = iot io"
    "schedulers io3 = (if ?bw then deliver (fc_write fc) else id) ((if ?br then deliver (fc_read fc) else id) (schedulers io))"
    using trigger_both_ok [OF assms(1) i fc_def [THEN meta_eq_to_obj_eq] refl b(1,2) io1_def b(3) refl] by blast
  moreover have "handle_event (FdReady i msk, True) io = bindR (trigger_if ?br i EV_READ io1) (\<lambda>io2. trigger_if ?bw i EV_WRITE io2)"
    using assms(5) ctl fd by (simp add: handle_event_def Let_def fc_def [symmetric] real_def [symmetric])
  ultimately show ?thesis using b(3) by auto
qed

lemma handle_event_ok:
  assumes "io_wf io" "report_ok r io"
  shows "\<exists>io'. handle_event (r, ok) io = Inr io' \<and> io_wf io' \<and>
    length (contexts io') = length (contexts io) \<and>
    (\<forall>j. r \<noteq> FdReady j (msk_of r) \<longrightarrow> contexts io' ! j = contexts io ! j)"
proof (cases r)
  case PipeReady
  then show ?thesis using assms by (auto simp: handle_event_def io_wf_def)
next
  case (FdReady i msk)
  let ?e = "fc_events (contexts io ! i)"
  show ?thesis
  proof (cases "?e AND real_events msk ?e = 0 \<or> \<not> ok")
    case True
    then show ?thesis using FdReady assms(1) by (auto simp: handle_event_def Let_def epoll_ctl_def)
  next
    case False
    then show ?thesis using handle_event_fires [OF assms(1), of i msk] assms(2) FdReady by auto
  qed
qed

lemma ContextResize_wf:
  assumes "io_wf io" "length (contexts io) \<le> n"
  shows "io_wf (io\<lparr>contexts := ContextResize n (contexts io)\<rparr>)"
proof -
  have nth: "ContextResize n (contexts io) ! i =
      (if i < length (contexts io) then contexts io ! i else newFdContext i)" if "i < n" for i
    using that assms(2) by (auto simp: ContextResize_def nth_append)
  have len: "length (ContextResize n (contexts io)) = n" using assms(2) by (simp add: ContextResize_def)
  have sum: "sum_list (map (\<lambda>fc. ev_count (fc_events fc)) (ContextResize n (contexts io))) =
      sum_list (map (\<lambda>fc. ev_count (fc_events fc)) (contexts io))"
    using assms(2) sum_list_new_contexts [of "[length (contexts io)..<n]"]
    by (simp add: ContextResize_def del: sum_list_new_contexts map_map)
  show ?thesis using assms nth len sum by (auto simp: io_wf_def newFdContext_ok)
qed

lemma AddEvent_resize_ok:
  assumes "io_wf io" "length (contexts io) \<le> fd"
  obtains io1 where "AddEvent_resize fd io = Inr io1" "io_wf io1" "fd < length (contexts io1)"
    "contexts io1 ! fd = newFdContext fd" "schedulers io1 = schedulers io" "iot io1 = iot io"
    "\<And>i. i < length (contexts io) \<Longrightarrow> contexts io1 ! i = contexts io ! i"
proof -
  have two: "2 \<le> length (contexts io)" using assms(1) by (simp add: io_wf_def)
  let ?io = "io\<lparr>contexts := ContextResize (grow_half fd) (contexts io)\<rparr>"
  have len: "fd < length (contexts ?io)"
    using ioct.grow_half_covers [OF two assms(2)] by simp
  moreover have "contexts ?io ! fd = newFdContext fd"
    using len assms(2) by (auto simp: ContextResize_def nth_append)
  moreover have "io_wf ?io"
    using assms two by (intro ContextResize_wf) (auto simp: grow_half_def)
  ultimately show thesis
    using that [of ?io] ioct.grow_half_keeps [OF two assms(2)] by (simp add: AddEvent_resize_def)
qed

lemma add_event_fc:
  assumes "fc_ok fc" "is_event e" "fc_events fc AND e = 0" "ec_live c"
  defines "fc' \<equiv> put_context e c (fc\<lparr>fc_events := fc_events fc OR e\<rparr>)"
  shows "fc_ok fc'" "fc_fd fc' = fc_fd fc" "fc_events fc' = fc_events fc OR e"
    "ev_count (fc_events fc OR e) = ev_count (fc_events fc) + 1" "(fc_events fc OR e) AND e \<noteq> 0"
    "fc_events fc OR e \<noteq> 0" "ev_of e fc = empty_evctx" "ev_of e fc' = c"
  using assms
  by (auto simp: fc'_def fc_ok_def put_context_def is_event_def ev_count_def ev_of_def ev_defs split: if_splits)

definition new_evctx :: "nat option \<Rightarrow> 'cb option \<Rightarrow> nat \<Rightarrow> 'cb evctx" where
  "new_evctx cur_sched callback f = (if callback \<noteq> None
     then \<lparr>ec_sched = cur_sched, ec_fiber = None, ec_callback = callback\<rparr>
     else \<lparr>ec_sched = cur_sched, ec_fiber = Some f, ec_callback = None\<rparr>)"

text \<open>The events of a descriptor after one is added; the context of the other event stays.\<close>

definition added_to :: "u32 \<Rightarrow> 'cb fdcontext \<Rightarrow> 'cb fdcontext \<Rightarrow> bool" where
  "added_to e fc fc' \<longleftrightarrow> fc_events fc' = fc_events fc OR e \<and> (\<forall>e'. is_event e' \<and> e' \<noteq> e \<longrightarrow> ev_of e' fc' = ev_of e' fc)"

definition context_at :: "int \<Rightarrow> 'cb iomgr \<Rightarrow> 'cb fdcontext" where
  "context_at fd io = (if fd < int (length (contexts io)) then contexts io ! nat fd else newFdContext (nat fd))"

lemma AddEvent_locked_ok:
  assumes "io_wf io" "i < length (contexts io)" "is_event e" "fc_events (contexts io ! i) AND e = 0"
    "cur_sched \<noteq> None" "callback \<noteq> None \<or> st = Running"
  shows "\<exists>io'. AddEvent_locked i e callback cur_sched (f, st) ok io = Inr (if ok then 0 else -1, io') \<and>
    io_wf io' \<and> schedulers io' = schedulers io \<and> length (contexts io') = length (contexts io) \<and> iot io' = iot io \<and>
    (ok \<longrightarrow> fc_events (contexts io' ! i) AND e \<noteq> 0 \<and>
       ev_of e (contexts io' ! i) = new_evctx cur_sched callback f \<and> added_to e (contexts io ! i) (contexts io' ! i)) \<and>
    (\<not> ok \<longrightarrow> contexts io' ! i = contexts io ! i) \<and>
    (\<forall>j. j \<noteq> i \<longrightarrow> contexts io' ! j = contexts io ! j)"
proof -
  let ?fc = "contexts io ! i" and ?c = "new_evctx cur_sched callback f"
  let ?op = "if fc_events ?fc \<noteq> 0 then CTL_MOD else CTL_ADD"
  let ?m = "EPOLLET OR fc_events ?fc OR e"
  let ?fc' = "put_context e ?c (?fc\<lparr>fc_events := fc_events ?fc OR e\<rparr>)"
  have fc: "fc_ok ?fc" "fc_fd ?fc = i" and tm: "tm_wf (iot io)"
    using assms(1,2) by (simp_all add: io_wf_def)
  have live: "ec_live ?c" using assms(5) by (auto simp: new_evctx_def ec_live_def)
  note ad = add_event_fc [OF fc(1) assms(3,4) live]
  have ctl: "epoll_ctl ?op i ?m ok io =
      (ok, if ok then io\<lparr>interest := (interest io)(i := Some ?m)\<rparr> else io)"
    using epoll_ctl_legal [OF assms(1,2), of ?op ?m ok] by (auto split: if_splits)
  have get: "GetContext e (?fc\<lparr>fc_events := x\<rparr>) = Inr (ev_of e ?fc)" for x
    using assms(3) by (auto simp: GetContext_def is_event_def ev_of_def ev_defs)
  show ?thesis
  proof (cases ok)
    case False
    then show ?thesis using assms ctl by (auto simp: AddEvent_locked_def Let_def)
  next
    case True
    let ?io' = "put_fd i ?fc' (io\<lparr>interest := (interest io)(i := Some ?m),
        pending_event_cnt := pending_event_cnt io + 1\<rparr>)"
    have "AddEvent_locked i e callback cur_sched (f, st) ok io = Inr (0, ?io')"
      using True ctl get ad(7) assms(4,6)
      by (auto simp: AddEvent_locked_def Let_def empty_evctx_def new_evctx_def)
    moreover have "io_wf ?io'"
      using ad fc(2) tm by (intro io_wf_update [OF assms(1,2) ad(1)]) (simp_all add: or.assoc)
    moreover have "added_to e ?fc ?fc'"
      using ad(3) assms(3) by (auto simp: added_to_def is_event_def ev_of_def put_context_def ev_defs)
    ultimately show ?thesis using True ad assms(2) by auto
  qed
qed

lemma AddEvent_ok:
  assumes "io_wf io" "0 \<le> fd" "is_event e" "\<not> registered e fd io"
    "cur_sched \<noteq> None" "callback \<noteq> None \<or> st = Running"
  shows "\<exists>io'. AddEvent fd e callback cur_sched (f, st) ok io = Inr (if ok then 0 else -1, io') \<and>
    io_wf io' \<and> schedulers io' = schedulers io \<and> iot io' = iot io \<and>
    (ok \<longrightarrow> registered e fd io' \<and> ev_of e (contexts io' ! nat fd) = new_evctx cur_sched callback f \<and>
       added_to e (context_at fd io) (contexts io' ! nat fd)) \<and>
    (\<not> ok \<longrightarrow> \<not> registered e fd io') \<and>
    (\<forall>j < length (contexts io). j \<noteq> nat fd \<longrightarrow> contexts io' ! j = contexts io ! j)"
proof (cases "fd < int (length (contexts io))")
  case True
  then have "nat fd < length (contexts io)" "fc_events (contexts io ! nat fd) AND e = 0"
    using assms(2,4) by (auto simp: registered_def)
  from AddEvent_locked_ok [OF assms(1) this(1) assms(3) this(2) assms(5,6), of f ok] this(2) show ?thesis
    using True assms(2) by (auto simp: AddEvent_def registered_def context_at_def)
next
  case False
  then have "length (contexts io) \<le> nat fd" by simp
  then obtain io1 where io1: "AddEvent_resize (nat fd) io = Inr io1" "io_wf io1"
    "nat fd < length (contexts io1)" "contexts io1 ! nat fd = newFdContext (nat fd)"
    "schedulers io1 = schedulers io" "iot io1 = iot io" "\<And>i. i < length (contexts io) \<Longrightarrow> contexts io1 ! i = contexts io ! i"
    using AddEvent_resize_ok [OF assms(1), of "nat fd"] by metis
  have "fc_events (contexts io1 ! nat fd) AND e = 0" using io1(4) by (simp add: newFdContext_ok)
  from AddEvent_locked_ok [OF io1(2,3) assms(3) this assms(5,6), of f ok] this show ?thesis
    using False assms(2) io1 by (auto simp: AddEvent_def registered_def context_at_def)
qed

section \<open>Rounds and reachable states\<close>

definition reports_ok :: "report list \<Rightarrow> 'cb iomgr \<Rightarrow> bool" where
  "reports_ok rs io \<longleftrightarrow> (\<forall>r\<in>set rs. report_ok r io) \<and>
     (\<forall>i. length (filter (\<lambda>r. r = FdReady i (msk_of r)) rs) \<le> 1)"

lemma handle_events_ok:
  assumes "io_wf io" "reports_ok (map fst rs) io"
  shows "\<exists>io'. handle_events rs io = Inr io' \<and> io_wf io'"
  using assms
proof (induction rs arbitrary: io)
  case (Cons a rs)
  obtain r ok where a: "a = (r, ok)" by (cases a)
  have "report_ok r io" using Cons.prems(2) by (simp add: a reports_ok_def)
  from handle_event_ok [OF Cons.prems(1) this, of ok] obtain io1 where
    io1: "handle_event (r, ok) io = Inr io1" "io_wf io1" "length (contexts io1) = length (contexts io)"
    "\<And>j. r \<noteq> FdReady j (msk_of r) \<Longrightarrow> contexts io1 ! j = contexts io ! j" by blast
  have "report_ok q io1" if "q \<in> set (map fst rs)" for q
  proof (cases q)
    case (FdReady j m)
    have "length (filter (\<lambda>x. x = FdReady j (msk_of x)) (map fst (a # rs))) \<le> 1"
      using Cons.prems(2) unfolding reports_ok_def by blast
    moreover have "filter (\<lambda>x. x = FdReady j (msk_of x)) (map fst rs) \<noteq> []"
      using that FdReady by (force simp: filter_empty_conv)
    ultimately have "r \<noteq> FdReady j (msk_of r)" by (auto simp: a filter_map split: if_splits)
    with io1 have "contexts io1 ! j = contexts io ! j" by blast
    moreover have "report_ok q io" using Cons.prems(2) that by (auto simp: reports_ok_def)
    ultimately show ?thesis using FdReady io1(3) by (simp add: report_ok_def)
  qed (simp add: report_ok_def)
  moreover have "length (filter (\<lambda>x. x = FdReady i (msk_of x)) (map fst rs)) \<le> 1" for i
  proof -
    have "length (filter (\<lambda>x. x = FdReady i (msk_of x)) (map fst (a # rs))) \<le> 1"
      using Cons.prems(2) unfolding reports_ok_def by blast
    then show ?thesis by (cases "fst a = FdReady i (msk_of (fst a))") simp_all
  qed
  ultimately have "reports_ok (map fst rs) io1" by (simp add: reports_ok_def)
  from Cons.IH [OF io1(2) this] show ?case using io1(1) by (simp add: a)
qed simp

lemma Tickle_simps [simp]:
  "contexts (Tickle io) = contexts io" "pending_event_cnt (Tickle io) = pending_event_cnt io"
  "interest (Tickle io) = interest io" "iot (Tickle io) = iot io"
  "io_wf (Tickle io) \<longleftrightarrow> io_wf io" "schedulers (Tickle io) = schedulers io" "self (Tickle io) = self io"
  by (simp_all add: Tickle_def io_wf_def)

lemma reports_ok_cong: "contexts io' = contexts io \<Longrightarrow> reports_ok rs io' \<longleftrightarrow> reports_ok rs io"
  by (simp add: reports_ok_def report_ok_def cong: report.case_cong)

lemma Idle_round_split:
  assumes "io_wf io" "probe \<notin> set (timers (iot io))"
  obtains io2 where "Idle_round now_ms probe rs io = handle_events rs io2" "io_wf io2" "contexts io2 = contexts io"
proof -
  obtain t' cbs where l: "ListExpiredCallbacks now_ms probe (iot io) [] = (t', cbs)" by fastforce
  have "tm_wf t'"
    using ListExpiredCallbacks_spec [of "iot io" probe now_ms "[]"] assms(1,2) l by (simp add: io_wf_def)
  then have wf1: "io_wf (io\<lparr>iot := t', schedulers := ss\<rparr>)" for ss
    using assms(1) by (simp add: io_wf_def)
  define io2 where "io2 = (if cbs \<noteq> [] then
     (let (s', need_tickle) = ScheduleRange (map (\<lambda>cb. CallbackTask cb (-1)) cbs) (schedulers io (self io));
          io1' = io\<lparr>iot := t', schedulers := (schedulers io)(self io := s')\<rparr>
      in if need_tickle then Tickle io1' else io1') else io\<lparr>iot := t'\<rparr>)"
  have "io_wf io2" using wf1 wf1 [of "schedulers io"] by (simp add: io2_def Let_def split: prod.splits)
  moreover have "contexts io2 = contexts io" by (simp add: io2_def Let_def split: prod.splits)
  moreover have "Idle_round now_ms probe rs io = handle_events rs io2"
    by (simp add: Idle_round_def l io2_def Let_def)
  ultimately show thesis using that by blast
qed

lemma Idle_round_ok:
  assumes "io_wf io" "probe \<notin> set (timers (iot io))" "reports_ok (map fst rs) io"
  shows "\<exists>io'. Idle_round now_ms probe rs io = Inr io' \<and> io_wf io'"
proof -
  obtain io2 where io2: "Idle_round now_ms probe rs io = handle_events rs io2" "io_wf io2" "contexts io2 = contexts io"
    using Idle_round_split [OF assms(1,2)] by blast
  then have "reports_ok (map fst rs) io2" using assms(3) reports_ok_cong [of io2 io] by simp
  with io2 show ?thesis using handle_events_ok by simp
qed

text \<open>
  Reports out of step with the table: when the kernel accepts the re-arm, handling a report
  fails the assertion of \<open>TriggerEvent\<close> exactly when it names an event that is no longer registered
  next to one that still is (a deletion between \<open>epoll_wait\<close> and the handling gives such a report).
\<close>

theorem stale_report_faults:
  fixes msk :: u32
  assumes "io_wf io" "i < length (contexts io)"
  defines "e \<equiv> fc_events (contexts io ! i)"
  defines "real \<equiv> real_events msk e"
  shows "handle_event (FdReady i msk, True) io = Inl AssertFail \<longleftrightarrow>
    e AND real \<noteq> 0 \<and> real AND NOT e \<noteq> 0"
proof (cases "real AND NOT e = 0 \<or> e AND real = 0")
  case True
  then show ?thesis using handle_event_ok [OF assms(1), of "FdReady i msk" True] assms(2)
    by (auto simp: handle_event_def report_ok_def e_def real_def Let_def)
next
  case False
  let ?left = "e AND NOT real" and ?fc = "contexts io ! i"
  have fd: "fc_fd ?fc = i" and fc: "fc_ok ?fc" using assms(1,2) by (auto simp: io_wf_def)
  have "e \<noteq> 0" using False by auto
  then have ctl: "epoll_ctl (if ?left \<noteq> 0 then CTL_MOD else CTL_DEL) i (EPOLLET OR ?left) True io =
      (True, io\<lparr>interest := (interest io)(i := (if ?left \<noteq> 0 then Some (EPOLLET OR ?left) else None))\<rparr>)"
    (is "_ = (True, ?io1)")
    using epoll_ctl_legal [OF assms(1,2), of "if ?left \<noteq> 0 then CTL_MOD else CTL_DEL" "EPOLLET OR ?left" True]
    by (auto simp: e_def)
  have run: "handle_event (FdReady i msk, True) io =
      bindR (trigger_if (real AND EV_READ \<noteq> 0) i EV_READ ?io1) (\<lambda>io2.
        trigger_if (real AND EV_WRITE \<noteq> 0) i EV_WRITE io2)"
    using False ctl fd by (simp add: handle_event_def e_def [symmetric] real_def [symmetric] Let_def and.commute)
  have "real \<in> {0, 1, 4, 5}" using real_events_range by (simp add: real_def)
  then have "real = 5 \<and> (e = 1 \<or> e = 4)"
    using False fc by (auto simp: fc_ok_def e_def [symmetric])
  then consider "real = 5" "e = 4" | "real = 5" "e = 1" by auto
  then show ?thesis
  proof cases
    case 1
    then show ?thesis using False run
      by (simp add: trigger_if_def TriggerEvent_def e_def [symmetric] ev_defs)
  next
    case 2
    obtain io2 where "trigger_if True i EV_READ ?io1 = Inr io2"
      "contexts io2 = (contexts io)[i := drop_if True EV_READ ?fc]"
      using trigger_if_ok [of i ?io1 EV_READ True] assms(2) fc 2
      by (auto simp: is_event_def e_def [symmetric] ev_defs)
    moreover have "fc_events (drop_if True EV_READ ?fc) AND EV_WRITE = 0"
      using 2 by (simp add: drop_if_def drop_event_def put_context_def e_def [symmetric] ev_defs)
    ultimately have "trigger_if True i EV_WRITE io2 = Inl AssertFail"
      using assms(2) by (simp add: trigger_if_def TriggerEvent_def)
    with \<open>trigger_if True i EV_READ ?io1 = Inr io2\<close> show ?thesis using False run 2
      by (simp add: EV_READ_def EV_WRITE_def)
  qed
qed

text \<open>Whatever is reported: a round that does not fail an assertion keeps the tables well-formed.\<close>

definition report_valid :: "report \<Rightarrow> 'cb iomgr \<Rightarrow> bool" where
  "report_valid r io \<longleftrightarrow> (case r of PipeReady \<Rightarrow> True | FdReady i msk \<Rightarrow> i < length (contexts io))"

lemma report_ok_valid: "report_ok r io \<Longrightarrow> report_valid r io"
  by (auto simp: report_ok_def report_valid_def split: report.splits)

lemma handle_event_keeps:
  assumes "io_wf io" "report_valid r io" "handle_event (r, ok) io = Inr io'"
  shows "io_wf io' \<and> length (contexts io') = length (contexts io)"
proof (cases "report_ok r io")
  case True
  from handle_event_ok [OF assms(1) this, of ok] assms(3) show ?thesis by auto
next
  case False
  then obtain i msk where r: "r = FdReady i msk" "i < length (contexts io)"
    using assms(2) by (cases r) (auto simp: report_ok_def report_valid_def)
  let ?e = "fc_events (contexts io ! i)"
  have stale: "real_events msk ?e AND NOT ?e \<noteq> 0" using False r by (simp add: report_ok_def)
  show ?thesis
  proof (cases "ok \<and> ?e AND real_events msk ?e \<noteq> 0")
    case True
    then show ?thesis using stale_report_faults [OF assms(1) r(2), of msk] stale assms(3) r(1) by simp
  next
    case no: False
    then have "io' = io" using assms(3) r by (auto simp: handle_event_def epoll_ctl_def Let_def split: if_splits)
    then show ?thesis using assms(1) by simp
  qed
qed

lemma handle_events_keeps:
  assumes "io_wf io" "\<forall>r\<in>set rs. report_valid (fst r) io" "handle_events rs io = Inr io'"
  shows "io_wf io'"
  using assms
proof (induction rs arbitrary: io)
  case (Cons a rs)
  obtain r ok where a: "a = (r, ok)" by (cases a)
  then obtain io1 where io1: "handle_event (r, ok) io = Inr io1" "handle_events rs io1 = Inr io'"
    using Cons.prems(3) by (cases "handle_event a io") auto
  have k: "io_wf io1" "length (contexts io1) = length (contexts io)"
    using handle_event_keeps [OF Cons.prems(1) _ io1(1)] Cons.prems(2) a by auto
  moreover have "\<forall>r\<in>set rs. report_valid (fst r) io1"
    using Cons.prems(2) k(2) by (auto simp: report_valid_def split: report.splits)
  ultimately show ?case using Cons.IH io1(2) by blast
qed simp

text \<open>A registration that is refused or fails an assertion registers nothing.\<close>

lemma AddEvent_locked_None:
  assumes "AddEvent_locked fd e None cs (f, st) ok io = Inr (rt, io')" "st \<noteq> Running"
  shows "io' = io"
  using assms
  by (auto simp: AddEvent_locked_def GetContext_def epoll_ctl_def Let_def split: if_splits)

lemma AddEvent_keeps:
  assumes "io_wf io" "is_event e" "AddEvent fd e cb (Some sid) (f, st) ok io = Inr (rt, io')"
  shows "io_wf io'"
proof -
  have fd: "0 \<le> fd" using assms(3) by (auto simp: AddEvent_def split: if_splits)
  show ?thesis
  proof (cases "registered e fd io")
    case True
    then show ?thesis using assms(3) by (auto simp: AddEvent_def AddEvent_locked_def registered_def Let_def)
  next
    case new: False
    show ?thesis
    proof (cases "cb \<noteq> None \<or> st = Running")
      case True
      with AddEvent_ok [OF assms(1) fd assms(2) new, of "Some sid" cb st f ok] assms(3) show ?thesis by auto
    next
      case False
      obtain io1 where io1: "io_wf io1" "AddEvent_locked (nat fd) e None (Some sid) (f, st) ok io1 = Inr (rt, io')"
      proof (cases "fd < int (length (contexts io))")
        case True
        then show ?thesis using that [of io] assms(1,3) fd False by (simp add: AddEvent_def)
      next
        case grow: False
        then have "length (contexts io) \<le> nat fd" using fd by simp
        from AddEvent_resize_ok [OF assms(1) this] obtain io1 where
          "AddEvent_resize (nat fd) io = Inr io1" "io_wf io1" by blast
        then show ?thesis using that [of io1] assms(3) fd False grow by (simp add: AddEvent_def)
      qed
      then show ?thesis using AddEvent_locked_None False by blast
    qed
  qed
qed

datatype 'cb io_op =
    IOAdd int u32 "'cb option" nat nat fstate bool
  | IODel int u32 bool
  | IOCancel int u32 bool
  | IOCancelAll int bool
  | IORound u64 nat "(report \<times> bool) list"
  | IOTimer u64 nat u64 'cb bool
  | IOPoll u64

fun io_exec :: "'cb io_op \<Rightarrow> 'cb iomgr \<Rightarrow> 'cb iomgr res" where
  "io_exec (IOAdd fd e cb sid f st ok) io =
     bindR (AddEvent fd e cb (Some sid) (f, st) ok io) (\<lambda>(_, io'). Inr io')"
| "io_exec (IODel fd e ok) io = bindR (DelEvent fd e ok io) (\<lambda>(_, io'). Inr io')"
| "io_exec (IOCancel fd e ok) io = bindR (CancelEvent fd e ok io) (\<lambda>(_, io'). Inr io')"
| "io_exec (IOCancelAll fd ok) io = bindR (CancelAll fd ok io) (\<lambda>(_, io'). Inr io')"
| "io_exec (IORound now_ms probe rs) io = Idle_round now_ms probe rs io"
| "io_exec (IOTimer now_ms a ms cb rec) io = Inr (io_AddTimer now_ms a ms (Some cb) rec io)"
| "io_exec (IOPoll now_ms) io = Inr (snd (Idle_exit now_ms io))"

text \<open>
  Operations as they can be called at all: one of the two events of the enumeration, a report that
  points to a context of the table, a new timer at an address of its own.
\<close>

fun io_valid :: "'cb io_op \<Rightarrow> 'cb iomgr \<Rightarrow> bool" where
  "io_valid (IOAdd fd e cb sid f st ok) io \<longleftrightarrow> is_event e"
| "io_valid (IODel fd e ok) io \<longleftrightarrow> is_event e"
| "io_valid (IOCancel fd e ok) io \<longleftrightarrow> is_event e"
| "io_valid (IOCancelAll fd ok) io \<longleftrightarrow> True"
| "io_valid (IORound now_ms probe rs) io \<longleftrightarrow>
     probe \<notin> set (timers (iot io)) \<and> (\<forall>r\<in>set rs. report_valid (fst r) io)"
| "io_valid (IOTimer now_ms a ms cb rec) io \<longleftrightarrow> a \<notin> set (timers (iot io))"
| "io_valid (IOPoll now_ms) io \<longleftrightarrow> True"

text \<open>
  What callers and the kernel owe so that no assertion fails: valid descriptors, an event that is not
  registered yet, a running fiber when there is no callback, and reports in step with the table.
\<close>

fun io_pre :: "'cb io_op \<Rightarrow> 'cb iomgr \<Rightarrow> bool" where
  "io_pre (IOAdd fd e cb sid f st ok) io \<longleftrightarrow>
     0 \<le> fd \<and> is_event e \<and> \<not> registered e fd io \<and> (cb \<noteq> None \<or> st = Running)"
| "io_pre (IODel fd e ok) io \<longleftrightarrow> 0 \<le> fd \<and> is_event e"
| "io_pre (IOCancel fd e ok) io \<longleftrightarrow> 0 \<le> fd \<and> is_event e"
| "io_pre (IOCancelAll fd ok) io \<longleftrightarrow> 0 \<le> fd"
| "io_pre (IORound now_ms probe rs) io \<longleftrightarrow> probe \<notin> set (timers (iot io)) \<and> reports_ok (map fst rs) io"
| "io_pre (IOTimer now_ms a ms cb rec) io \<longleftrightarrow> a \<notin> set (timers (iot io))"
| "io_pre (IOPoll now_ms) io \<longleftrightarrow> True"

text \<open>
  The states reached by operations one after the other; an operation that fails an assertion ends the
  run.  Operations that overlap are outside: see \<open>resize_race_loses_event\<close>.
\<close>

inductive io_reach :: "'cb iomgr \<Rightarrow> bool" where
  init: "io_reach (newIOManager me ss now_ms)"
| step: "io_reach io \<Longrightarrow> io_valid op io \<Longrightarrow> io_exec op io = Inr io' \<Longrightarrow> io_reach io'"

lemma io_exec_wf:
  assumes "io_wf io" "io_pre op io"
  shows "\<exists>io'. io_exec op io = Inr io' \<and> io_wf io'"
proof (cases op)
  case (IOAdd fd e cb sid f st ok)
  then show ?thesis using AddEvent_ok [of io fd e "Some sid" cb st f ok] assms by auto
next
  case (IODel fd e ok)
  then show ?thesis using DelEvent_wf [of io fd e ok] assms by auto
next
  case (IOCancel fd e ok)
  then show ?thesis using CancelEvent_ok [of io fd e ok] assms by auto
next
  case (IOCancelAll fd ok)
  show ?thesis
  proof (cases "fd < int (length (contexts io))")
    case True
    then show ?thesis using CancelAll_ok [of io fd ok] assms IOCancelAll by auto
  next
    case False
    then show ?thesis using assms IOCancelAll by (auto simp: CancelAll_def)
  qed
next
  case (IORound now_ms probe rs)
  then show ?thesis using Idle_round_ok [of io probe rs now_ms] assms by auto
next
  case (IOTimer now_ms a ms cb rec)
  then have "tm_wf (fst (AddTimer now_ms a ms (Some cb) rec (iot io)))"
    using assms by (intro AddTimer_wf) (simp_all add: io_wf_def)
  then show ?thesis using assms IOTimer
    by (auto simp: io_AddTimer_def OnTimerInsertedAtFront_def io_wf_def Let_def split: prod.splits)
next
  case (IOPoll now_ms)
  then show ?thesis using assms
    by (auto simp: Idle_exit_def io_Stopping_def GetNextTimeout_def io_wf_def tm_wf_def Let_def)
qed

lemma io_exec_keeps:
  assumes "io_wf io" "io_valid op io" "io_exec op io = Inr io'"
  shows "io_wf io'"
proof (cases op)
  case (IOAdd fd e cb sid f st ok)
  then obtain rt where "AddEvent fd e cb (Some sid) (f, st) ok io = Inr (rt, io')"
    using assms(3) by (cases "AddEvent fd e cb (Some sid) (f, st) ok io") auto
  then show ?thesis using AddEvent_keeps assms(1,2) IOAdd by auto
next
  case (IODel fd e ok)
  then have "0 \<le> fd" using assms(3) by (cases "0 \<le> fd") (auto simp: DelEvent_def)
  then show ?thesis using DelEvent_wf [of io fd e ok] assms IODel by auto
next
  case (IOCancel fd e ok)
  then have "0 \<le> fd" using assms(3) by (cases "0 \<le> fd") (auto simp: CancelEvent_def)
  then show ?thesis using CancelEvent_ok [of io fd e ok] assms IOCancel by auto
next
  case (IOCancelAll fd ok)
  then have "io_pre op io" using assms(3) by (cases "0 \<le> fd") (auto simp: CancelAll_def)
  then show ?thesis using io_exec_wf assms by fastforce
next
  case (IORound now_ms probe rs)
  then obtain io2 where io2: "Idle_round now_ms probe rs io = handle_events rs io2" "io_wf io2" "contexts io2 = contexts io"
    using Idle_round_split [OF assms(1), of probe] assms(2) by auto
  moreover have "\<forall>r\<in>set rs. report_valid (fst r) io2"
    using assms(2) IORound io2(3) by (auto simp: report_valid_def split: report.splits)
  ultimately show ?thesis using handle_events_keeps assms(3) IORound by simp
qed (use io_exec_wf [OF assms(1), of op] assms in auto)

lemma io_pre_valid: "io_pre op io \<Longrightarrow> io_valid op io"
  by (cases op) (auto simp: reports_ok_def intro: report_ok_valid)

lemma io_reach_wf: "io_reach io \<Longrightarrow> io_wf io"
  by (induction rule: io_reach.induct) (use io_exec_keeps newIOManager_wf in blast)+

section \<open>Properties\<close>



text \<open>
  Registered events are delivered once: registering an event and cancelling it puts exactly the
  registered callback (or the registering fiber) at the end of the registering scheduler's queue,
  touches no other scheduler, leaves the event unregistered and brings the pending counter back.
\<close>

theorem add_cancel_delivers_once:
  assumes "io_wf io" "0 \<le> fd" "is_event e" "\<not> registered e fd io" "callback \<noteq> None \<or> st = Running"
  shows "\<exists>io1 io2. AddEvent fd e callback (Some sid) (f, st) True io = Inr (0, io1) \<and>
    CancelEvent fd e True io1 = Inr (True, io2) \<and> io_wf io2 \<and> \<not> registered e fd io2 \<and>
    tasks (schedulers io2 sid) = tasks (schedulers io sid) @
      [if callback \<noteq> None then CallbackTask callback (-1) else FiberTask (Some f) (-1)] \<and>
    (\<forall>s. s \<noteq> sid \<longrightarrow> schedulers io2 s = schedulers io s)"
proof -
  obtain io1 where io1: "AddEvent fd e callback (Some sid) (f, st) True io = Inr (0, io1)" "io_wf io1"
    "schedulers io1 = schedulers io" "registered e fd io1"
    "ev_of e (contexts io1 ! nat fd) = new_evctx (Some sid) callback f"
    using AddEvent_ok [OF assms(1-4), of "Some sid" callback st f True] assms(5) by auto
  obtain io2 where io2: "CancelEvent fd e True io1 = Inr (True, io2)" "io_wf io2"
    "\<not> registered e fd io2" "schedulers io2 = deliver (new_evctx (Some sid) callback f) (schedulers io)"
    using CancelEvent_ok [OF io1(2) assms(2,3), of True] io1 by auto
  have "schedulers io2 = (schedulers io)(sid := fst (Schedule
      (if callback \<noteq> None then CallbackTask callback (-1) else FiberTask (Some f) (-1)) (schedulers io sid)))"
    using io2(4) by (simp add: deliver_def new_evctx_def task_of_def)
  with io1(1) io2(1-3) show ?thesis
    by (auto simp: Schedule_def ScheduleNoLock_def CallbackTask_def FiberTask_def)
qed

theorem add_cancel_delivers_once_witness:
  "\<exists>io1 io2. AddEvent 40 EV_READ (Some 7) (Some 0) (0, Ready) True (newIOManager 0 (\<lambda>_. empty_sched) 0) = Inr (0, io1) \<and>
    CancelEvent 40 EV_READ True io1 = Inr (True, io2) \<and>
    tasks (schedulers io2 0) = [CallbackTask (Some 7) (-1)]"
proof -
  have "\<not> registered EV_READ 40 (newIOManager 0 (\<lambda>_. empty_sched) 0)"
    by (simp add: newIOManager_def registered_def ContextResize_def)
  moreover have "tasks (schedulers (newIOManager 0 (\<lambda>_. empty_sched) 0) 0) = []"
    by (simp add: newIOManager_def empty_sched_def)
  ultimately show ?thesis
    using add_cancel_delivers_once [OF newIOManager_wf [of 0 "\<lambda>_. empty_sched" 0], of 40 EV_READ "Some 7" Ready 0 0]
    by (simp add: is_event_def) blast
qed

definition demo_fc :: "nat fdcontext" where
  "demo_fc = \<lparr>fc_read = \<lparr>ec_sched = Some 0, ec_fiber = None, ec_callback = Some 7\<rparr>,
     fc_write = empty_evctx, fc_fd = 3, fc_events = 1\<rparr>"

definition demo_io :: "nat iomgr" where
  "demo_io = (put_fd 3 demo_fc (newIOManager 0 (\<lambda>_. empty_sched) 0))
     \<lparr>pending_event_cnt := 1, interest := (\<lambda>_. None)(3 := Some (EPOLLET OR 1))\<rparr>"

lemma demo_io_wf: "io_wf demo_io" "3 < length (contexts demo_io)" "contexts demo_io ! 3 = demo_fc"
proof -
  let ?io = "newIOManager 0 (\<lambda>_. empty_sched) 0 :: nat iomgr"
  have len: "3 < length (contexts ?io)" and ev: "fc_events (contexts ?io ! 3) = 0"
    and rest: "pending_event_cnt ?io = 0" "interest ?io = (\<lambda>_. None)" "tm_wf (iot ?io)"
    by (simp_all add: newIOManager_def ContextResize_def newFdContext_ok newTimerManager_wf
        del: upt_rec_numeral)
  show "io_wf demo_io"
    using len ev rest by (intro io_wf_update [OF newIOManager_wf len, of demo_fc])
      (simp_all add: demo_io_def demo_fc_def fc_ok_def ec_live_def ev_count_def ev_defs)
  show "3 < length (contexts demo_io)" "contexts demo_io ! 3 = demo_fc"
    using len by (simp_all add: demo_io_def)
qed

theorem stale_report_faults_witness:
  "handle_event (FdReady 3 5, True) demo_io = Inl AssertFail"
  using stale_report_faults [OF demo_io_wf(1,2), of 5]
  by (simp add: demo_io_wf(3) demo_fc_def real_events_def ev_defs)

text \<open>
  C39. Growing the event table is not atomic: when two calls of \<open>AddEvent\<close> have both found the table
  too short, and the one with the larger descriptor resizes and registers first, the other then
  resizes to a smaller table.  The context with the registered event is gone although the kernel
  still has the descriptor and the event still counts as pending.
\<close>

theorem resize_race_loses_event:
  assumes "io_wf io" "length (contexts io) \<le> fd1" "grow_half fd1 \<le> fd2" "is_event e" "callback \<noteq> None"
  shows "\<exists>io1 io2 io3. AddEvent_resize fd2 io = Inr io1 \<and>
    AddEvent_locked fd2 e callback (Some sid) (f, st) True io1 = Inr (0, io2) \<and>
    registered e (int fd2) io2 \<and> AddEvent_resize fd1 io2 = Inr io3 \<and>
    length (contexts io3) \<le> fd2 \<and> interest io3 fd2 \<noteq> None \<and> pending_event_cnt io3 = pending_event_cnt io2"
proof -
  have two: "2 \<le> length (contexts io)" using assms(1) by (simp add: io_wf_def)
  then have "fd1 < grow_half fd1" using assms(2) by (simp add: grow_half_def)
  then have "length (contexts io) \<le> fd2" using assms(2,3) by simp
  then obtain io1 where io1: "AddEvent_resize fd2 io = Inr io1" "io_wf io1" "fd2 < length (contexts io1)"
    "contexts io1 ! fd2 = newFdContext fd2" using AddEvent_resize_ok [OF assms(1)] by metis
  have "fc_events (contexts io1 ! fd2) AND e = 0" using io1(4) by (simp add: newFdContext_ok)
  with AddEvent_locked_ok [OF io1(2,3) assms(4), of "Some sid" callback st f True] assms(5)
  obtain io2 where io2: "AddEvent_locked fd2 e callback (Some sid) (f, st) True io1 = Inr (0, io2)"
    "io_wf io2" "length (contexts io2) = length (contexts io1)" "fc_events (contexts io2 ! fd2) AND e \<noteq> 0"
    by auto
  have "fc_events (contexts io2 ! fd2) \<noteq> 0" using io2(4) by auto
  then have "interest io2 fd2 \<noteq> None" using io2(2,3) io1(3) by (simp add: io_wf_def)
  moreover have "length (ContextResize (grow_half fd1) (contexts io2)) = grow_half fd1"
    by (rule ioct.len_resize)
  ultimately show ?thesis
    using io1(1,3) io2 assms(3) \<open>fd1 < grow_half fd1\<close> by (auto simp: AddEvent_resize_def registered_def)
qed

theorem resize_race_loses_event_witness:
  "\<exists>io1 io2 io3. AddEvent_resize 100 demo_io = Inr io1 \<and>
    AddEvent_locked 100 EV_READ (Some 7) (Some 0) (0, Ready) True io1 = Inr (0, io2) \<and>
    AddEvent_resize 40 io2 = Inr io3 \<and> length (contexts io3) \<le> 100 \<and> interest io3 100 \<noteq> None"
proof -
  have "length (contexts demo_io) \<le> 40" by (simp add: demo_io_def newIOManager_def ContextResize_def)
  then show ?thesis
    using resize_race_loses_event [OF demo_io_wf(1), of 40 100 EV_READ "Some 7" 0 0 Ready]
    by (auto simp: grow_half_def is_event_def)
qed

text \<open>
  The poll timeout: for every distance to the next timer below \<open>2 ^ 31\<close> milliseconds the wait is
  that distance capped at two seconds, but the cast to \<open>int\<close> makes it negative, an unbounded wait for
  \<open>epoll_wait\<close>, exactly when bit 31 of the distance is set.
\<close>

theorem wait_timeout_spec:
  "(unat t < 2 ^ 31 \<longrightarrow> wait_timeout t = min (int (unat t)) 2000) \<and>
   (wait_timeout t < 0 \<longleftrightarrow> t \<noteq> NOT 0 \<and> bit t 31)"
proof -
  let ?w = "ucast t :: 32 word"
  have neg: "sint ?w < 0 \<longleftrightarrow> bit t 31"
    using bit_last_iff [of ?w] by (simp add: bit_ucast_iff)
  have "sint ?w = int (unat t)" if "unat t < 2 ^ 31" using that by (rule sint_ucast_small)
  moreover have "t \<noteq> NOT 0" if "unat t < 2 ^ 31"
  proof
    assume "t = NOT 0"
    then have "unat t = 2 ^ 64 - 1" by (simp add: unsigned_minus_1_eq_mask mask_eq_exp_minus_1)
    with that show False by simp
  qed
  ultimately show ?thesis using neg by (auto simp: wait_timeout_def MAX_TIMEOUT_def min_def)
qed

theorem wait_timeout_spec_witness:
  "wait_timeout 150 = 150 \<and> wait_timeout 2147483648 < 0"
  using wait_timeout_spec [of 150] wait_timeout_spec [of 2147483648]
  by simp

end
