(* ===== verification/Hook_IO.thy ===== *)
theory Hook_IO
  imports Hook IOManager
begin

text \<open>
  A hooked call that has to wait, on the I/O manager it waits on (\<open>doIO\<close> in \<open>gudov/hook.cpp\<close>, from the
  first \<open>EAGAIN\<close> to the retry, over \<open>gudov/iomanager.cpp\<close> and \<open>gudov/timer.cpp\<close>).  The call adds a timer when
  it has a timeout, registers the event for the running fiber and yields.  It is woken by a report of
  \<open>epoll_wait\<close> or by its timer, whose callback cancels the event; then it cancels the timer.

  The lemmas show that whichever way it is woken, the fiber is scheduled exactly once, and neither the
  event nor the timer is left behind.
\<close>

section \<open>Waiting\<close>

text \<open>
  The report with its mask, or the round of the idle fiber in which the timer is due, given by the time
  and the address of the probe timer; a task of the worker then runs the callback.
\<close>

datatype waking = ByReport u32 | ByTimer u64 nat

fun wake :: "int \<Rightarrow> u32 \<Rightarrow> waking \<Rightarrow> 'cb iomgr \<Rightarrow> 'cb iomgr res" where
  "wake fd event (ByReport msk) io = handle_event (FdReady (nat fd) msk, True) io"
| "wake fd event (ByTimer now_ms probe) io =
     bindR (Idle_round now_ms probe [] io) (\<lambda>io1. bindR (CancelEvent fd event True io1) (\<lambda>(_, io2). Inr io2))"

definition cancel_timer :: "u64 \<Rightarrow> nat \<Rightarrow> 'cb iomgr \<Rightarrow> 'cb iomgr res" where
  "cancel_timer timeout a io =
     (if timeout \<noteq> -1 then bindR (Cancel a (iot io)) (\<lambda>(t, _). Inr (io\<lparr>iot := t\<rparr>)) else Inr io)"

text \<open>
  \<open>a\<close> is the address of the timer, \<open>cb\<close> its callback; fiber \<open>f\<close> runs on scheduler \<open>sid\<close>; \<open>ok\<close> says whether
  \<open>epoll_ctl\<close> accepts the event, and \<open>e\<close> is \<open>errno\<close> when it does not.
\<close>

definition park ::
  "int \<Rightarrow> u32 \<Rightarrow> u64 \<Rightarrow> u64 \<Rightarrow> nat \<Rightarrow> 'cb \<Rightarrow> nat \<Rightarrow> nat \<Rightarrow> bool \<Rightarrow> int \<Rightarrow> waking \<Rightarrow> 'cb iomgr \<Rightarrow> (parking \<times> 'cb iomgr) res" where
  "park fd event timeout now_ms a cb sid f ok e w io =
     (let io1 = (if timeout \<noteq> -1 then io_AddTimer now_ms a timeout (Some cb) False io else io) in
      bindR (AddEvent fd event None (Some sid) (f, Running) ok io1) (\<lambda>(rt, io2).
        if rt \<noteq> 0 then bindR (cancel_timer timeout a io2) (\<lambda>io3. Inr (AddFails e, io3))
        else bindR (wake fd event w io2) (\<lambda>io3. bindR (cancel_timer timeout a io3) (\<lambda>io4.
          Inr (case w of ByReport _ \<Rightarrow> Woken | ByTimer _ _ \<Rightarrow> TimedOut, io4)))))"

section \<open>Lemmas\<close>

text \<open>How often a fiber stands in the queue of a scheduler, and which timers are set.\<close>

definition queue_count :: "nat \<Rightarrow> nat \<Rightarrow> 'cb iomgr \<Rightarrow> nat" where
  "queue_count sid f io = count_list (tasks (schedulers io sid)) (FiberTask (Some f) (-1))"

abbreviation pending_timers :: "'cb iomgr \<Rightarrow> nat set" where
  "pending_timers io \<equiv> set (timers (iot io))"

lemma AddTimer_timers: "set (timers (fst (AddTimer now_ms a ms cb rec m))) = insert a (set (timers m))"
  by (simp add: AddTimer_def AddTimer_locked_def Let_def)

lemma io_AddTimer_effect:
  assumes "io_wf io" "a \<notin> pending_timers io"
  shows "io_wf (io_AddTimer now_ms a ms (Some cb) rec io)"
    "contexts (io_AddTimer now_ms a ms (Some cb) rec io) = contexts io"
    "schedulers (io_AddTimer now_ms a ms (Some cb) rec io) = schedulers io"
    "pending_timers (io_AddTimer now_ms a ms (Some cb) rec io) = insert a (pending_timers io)"
proof -
  let ?m = "fst (AddTimer now_ms a ms (Some cb) rec (iot io))"
  have "tm_wf ?m" using assms by (intro AddTimer_wf) (auto simp: io_wf_def)
  then have "io_wf (io\<lparr>iot := ?m\<rparr>)" using assms(1) by (simp add: io_wf_def)
  then show "io_wf (io_AddTimer now_ms a ms (Some cb) rec io)"
    "contexts (io_AddTimer now_ms a ms (Some cb) rec io) = contexts io"
    "schedulers (io_AddTimer now_ms a ms (Some cb) rec io) = schedulers io"
    "pending_timers (io_AddTimer now_ms a ms (Some cb) rec io) = insert a (pending_timers io)"
    using AddTimer_timers [of now_ms a ms "Some cb" rec "iot io"]
    by (simp_all add: io_AddTimer_def OnTimerInsertedAtFront_def Let_def case_prod_beta)
qed

lemma cancel_timer_effect:
  assumes "io_wf io"
  obtains io' where "cancel_timer timeout a io = Inr io'" "io_wf io'" "contexts io' = contexts io" "schedulers io' = schedulers io"
    "pending_timers io' = pending_timers io - (if timeout \<noteq> -1 then {a} else {})"
proof (cases "timeout = -1")
  case True
  then show ?thesis using that [of io] assms by (simp add: cancel_timer_def)
next
  case False
  obtain t r where t: "Cancel a (iot io) = Inr (t, r)" "tm_wf t" "set (timers t) = set (timers (iot io)) - {a}"
    using Cancel_ok [of "iot io" a] assms by (auto simp: io_wf_def)
  then have "io_wf (io\<lparr>iot := t\<rparr>)" using assms by (simp add: io_wf_def)
  then show ?thesis using that [of "io\<lparr>iot := t\<rparr>"] t False by (simp add: cancel_timer_def)
qed

lemma queue_count_deliver:
  "count_list (tasks (deliver c ss sid)) (FiberTask (Some f) (-1)) =
     count_list (tasks (ss sid)) (FiberTask (Some f) (-1)) + (if ec_sched c = Some sid \<and> task_of c = FiberTask (Some f) (-1) then 1 else 0)"
  by (auto simp: deliver_def Schedule_def ScheduleNoLock_def Let_def task_of_def FiberTask_def CallbackTask_def split: option.split)

lemma ScheduleRange_callbacks:
  "count_list (tasks (fst (ScheduleRange (map (\<lambda>cb. CallbackTask cb (-1)) cbs) s))) (FiberTask (Some f) (-1)) =
     count_list (tasks s) (FiberTask (Some f) (-1))"
proof (induction cbs arbitrary: s)
  case (Cons cb cbs)
  show ?case using Cons.IH [of "fst (ScheduleNoLock (CallbackTask cb (-1)) s)"]
    by (simp add: case_prod_beta Let_def) (simp add: ScheduleNoLock_def CallbackTask_def FiberTask_def)
qed simp

text \<open>A round without reports runs no fiber and registers nothing.\<close>

lemma Idle_round_timers:
  assumes "io_wf io" "probe \<notin> pending_timers io"
  obtains io' where "Idle_round now_ms probe [] io = Inr io'" "io_wf io'" "contexts io' = contexts io"
    "pending_timers io' \<subseteq> pending_timers io" "\<And>sid f. queue_count sid f io' = queue_count sid f io"
proof -
  obtain t' cbs where l: "ListExpiredCallbacks now_ms probe (iot io) [] = (t', cbs)" by fastforce
  have t: "tm_wf t'" "set (timers t') \<subseteq> set (timers (iot io))"
    using ListExpiredCallbacks_spec [of "iot io" probe now_ms "[]"] assms l by (auto simp: io_wf_def)
  let ?sr = "ScheduleRange (map (\<lambda>cb. CallbackTask cb (-1)) cbs) (schedulers io (self io))"
  define ss where "ss = (if cbs \<noteq> [] then (schedulers io)(self io := fst ?sr) else schedulers io)"
  define io1 where "io1 = io\<lparr>iot := t', schedulers := ss\<rparr>"
  have wf: "io_wf io1" using assms(1) t(1) by (simp add: io_wf_def io1_def)
  have q: "queue_count sid f io1 = queue_count sid f io" for sid f
    by (simp add: queue_count_def io1_def ss_def ScheduleRange_callbacks)
  have run: "Idle_round now_ms probe [] io = Inr (if cbs \<noteq> [] \<and> snd ?sr then Tickle io1 else io1)"
    by (auto simp: Idle_round_def l Let_def case_prod_beta io1_def ss_def)
  show thesis
  proof (rule that [OF run])
    show "pending_timers (if cbs \<noteq> [] \<and> snd ?sr then Tickle io1 else io1) \<subseteq> pending_timers io" using t(2) by (simp add: io1_def)
    show "contexts (if cbs \<noteq> [] \<and> snd ?sr then Tickle io1 else io1) = contexts io" by (simp add: io1_def)
  qed (use wf q in \<open>auto simp: queue_count_def\<close>)
qed

text \<open>
  What the kernel and the allocator owe: a report names events that are registered, and the one that is
  waited for among them; the probe timer has an address of its own.
\<close>

fun wake_ok :: "u32 \<Rightarrow> u32 \<Rightarrow> nat set \<Rightarrow> waking \<Rightarrow> bool" where
  "wake_ok event evs ts (ByReport msk) \<longleftrightarrow> real_events msk evs AND NOT evs = 0 \<and> real_events msk evs AND event \<noteq> 0"
| "wake_ok event evs ts (ByTimer now_ms probe) \<longleftrightarrow> probe \<notin> ts"

lemma wake_effect:
  assumes "io_wf io" "registered event fd io" "is_event event" "ev_of event (contexts io ! nat fd) = new_evctx (Some sid) None f"
    "\<And>e'. is_event e' \<Longrightarrow> e' \<noteq> event \<Longrightarrow> ec_fiber (ev_of e' (contexts io ! nat fd)) \<noteq> Some f"
    "wake_ok event (fc_events (contexts io ! nat fd)) (pending_timers io) w"
  obtains io' where "wake fd event w io = Inr io'" "io_wf io'" "\<not> registered event fd io'"
    "pending_timers io' \<subseteq> pending_timers io" "queue_count sid f io' = queue_count sid f io + 1"
proof (cases w)
  case (ByTimer now_ms probe)
  have fd: "0 \<le> fd" using assms(2) by (simp add: registered_def)
  have pr: "probe \<notin> pending_timers io" using assms(6) ByTimer by simp
  obtain io1 where io1: "Idle_round now_ms probe [] io = Inr io1" "io_wf io1" "contexts io1 = contexts io"
    "pending_timers io1 \<subseteq> pending_timers io" "queue_count sid f io1 = queue_count sid f io"
    using Idle_round_timers [OF assms(1) pr, of now_ms] by metis
  have reg: "registered event fd io1" using assms(2) io1(3) by (simp add: registered_def)
  obtain io2 where io2: "CancelEvent fd event True io1 = Inr (True, io2)" "io_wf io2" "\<not> registered event fd io2"
    "schedulers io2 = deliver (new_evctx (Some sid) None f) (schedulers io1)" "iot io2 = iot io1"
    using CancelEvent_ok [OF io1(2) fd assms(3), of True] reg assms(4) io1(3) by auto
  have "queue_count sid f io2 = queue_count sid f io1 + 1"
    by (simp add: queue_count_def io2(4) queue_count_deliver) (simp add: new_evctx_def task_of_def)
  then show ?thesis using that [of io2] io1 io2 ByTimer by simp
next
  case (ByReport msk)
  let ?i = "nat fd"
  let ?fc = "contexts io ! ?i"
  let ?real = "real_events msk (fc_events ?fc)"
  have i: "?i < length (contexts io)" "0 \<le> fd" and reg: "fc_events ?fc AND event \<noteq> 0" using assms(2) by (auto simp: registered_def)
  have real: "?real AND NOT (fc_events ?fc) = 0" "?real AND event \<noteq> 0" using assms(6) ByReport by auto
  have e: "fc_events ?fc \<in> {0, 1, 4, 5}" using assms(1) i by (auto simp: io_wf_def fc_ok_def)
  have fire: "fc_events ?fc AND ?real \<noteq> 0" "(fc_events ?fc AND NOT ?real) AND event = 0" "?real AND event = event"
    using real reg e real_events_range [of msk "fc_events ?fc"] assms(3) by (auto simp: is_event_def ev_defs)
  have "report_ok (FdReady ?i msk) io" using i real(1) by (simp add: report_ok_def)
  from handle_event_fires [OF assms(1) this fire(1)] obtain io' fc' where io': "handle_event (FdReady ?i msk, True) io = Inr io'" "io_wf io'"
    "contexts io' = (contexts io)[?i := fc']" "fc_events fc' = fc_events ?fc AND NOT ?real" "iot io' = iot io"
    "schedulers io' = (if ?real AND EV_WRITE \<noteq> 0 then deliver (fc_write ?fc) else id)
      ((if ?real AND EV_READ \<noteq> 0 then deliver (fc_read ?fc) else id) (schedulers io))" by blast
  have other: "task_of (ev_of e' ?fc) \<noteq> FiberTask (Some f) (-1)" if "is_event e'" "e' \<noteq> event" for e'
    using assms(5) [OF that] by (auto simp: task_of_def FiberTask_def CallbackTask_def)
  have mine: "ec_sched (ev_of event ?fc) = Some sid" "task_of (ev_of event ?fc) = FiberTask (Some f) (-1)"
    by (simp_all add: assms(4) new_evctx_def task_of_def)
  have "queue_count sid f io' = queue_count sid f io + 1"
    using mine other [of EV_READ] other [of EV_WRITE] fire(3) assms(3)
    by (auto simp: queue_count_def io'(6) queue_count_deliver is_event_def ev_of_def ev_defs)
  moreover have "\<not> registered event fd io'" using io'(3,4) i fire(2) by (simp add: registered_def)
  ultimately show ?thesis using that [of io'] io' ByReport by simp
qed

section \<open>Properties\<close>

text \<open>
  C5. A hooked call that waits leaves nothing behind.  In every reachable state of the I/O manager, for an
  event that nobody waits for on the descriptor yet: the call registers its event and its timer, and
  whether it is woken by a report or by its timer, it returns with its fiber put into the queue of its
  scheduler exactly once, its event no longer registered and no timer set that was not set before; when
  the event cannot be added, its fiber is not queued and nothing is registered or set.
\<close>

theorem parked_call_returns:
  assumes "io_reach io" "0 \<le> fd" "is_event event" "\<not> registered event fd io" "a \<notin> pending_timers io"
    "wake_ok event (fc_events (context_at fd io) OR event) (insert a (pending_timers io)) w"
    "\<And>e'. is_event e' \<Longrightarrow> e' \<noteq> event \<Longrightarrow> ec_fiber (ev_of e' (context_at fd io)) \<noteq> Some f"
  shows "\<exists>io'. park fd event timeout now_ms a cb sid f ok e w io =
      Inr (if ok then case w of ByReport _ \<Rightarrow> Woken | ByTimer _ _ \<Rightarrow> TimedOut else AddFails e, io')
    \<and> \<not> registered event fd io' \<and> pending_timers io' \<subseteq> pending_timers io
    \<and> queue_count sid f io' = queue_count sid f io + (if ok then 1 else 0)"
proof -
  have wf: "io_wf io" using assms(1) by (rule io_reach_wf)
  define io1 where "io1 = (if timeout \<noteq> -1 then io_AddTimer now_ms a timeout (Some cb) False io else io)"
  have io1: "io_wf io1" "contexts io1 = contexts io" "schedulers io1 = schedulers io"
    "pending_timers io1 = pending_timers io \<union> (if timeout \<noteq> -1 then {a} else {})"
    using wf io_AddTimer_effect [OF wf assms(5)] by (simp_all add: io1_def)
  have nreg: "\<not> registered event fd io1" and ctx: "context_at fd io1 = context_at fd io"
    using assms(4) io1(2) by (simp_all add: registered_def context_at_def)
  obtain io2 where io2: "AddEvent fd event None (Some sid) (f, Running) ok io1 = Inr (if ok then 0 else -1, io2)" "io_wf io2"
    "schedulers io2 = schedulers io1" "iot io2 = iot io1"
    "ok \<Longrightarrow> registered event fd io2 \<and> ev_of event (contexts io2 ! nat fd) = new_evctx (Some sid) None f \<and>
       added_to event (context_at fd io1) (contexts io2 ! nat fd)" "\<not> ok \<Longrightarrow> \<not> registered event fd io2"
    using AddEvent_ok [OF io1(1) assms(2,3) nreg, of "Some sid" None Running f ok] by auto
  have q2: "queue_count sid f io2 = queue_count sid f io" by (simp add: queue_count_def io2(3) io1(3))
  show ?thesis
  proof (cases ok)
    case False
    obtain io3 where "cancel_timer timeout a io2 = Inr io3" "contexts io3 = contexts io2" "schedulers io3 = schedulers io2"
      "pending_timers io3 = pending_timers io2 - (if timeout \<noteq> -1 then {a} else {})"
      using cancel_timer_effect [OF io2(2)] by metis
    then show ?thesis using False io2(1,4,6) io1(4) q2
      by (auto simp: park_def io1_def [symmetric] registered_def queue_count_def split: if_splits)
  next
    case True
    note new = io2(5) [OF True]
    have other: "ec_fiber (ev_of e' (contexts io2 ! nat fd)) \<noteq> Some f" if "is_event e'" "e' \<noteq> event" for e'
      using new assms(7) [OF that] that by (simp add: added_to_def ctx)
    have "wake_ok event (fc_events (contexts io2 ! nat fd)) (pending_timers io2) w"
      using assms(6) new io2(4) io1(4) by (cases w) (auto simp: added_to_def ctx split: if_splits)
    then obtain io3 where io3: "wake fd event w io2 = Inr io3" "io_wf io3" "\<not> registered event fd io3"
      "pending_timers io3 \<subseteq> pending_timers io2" "queue_count sid f io3 = queue_count sid f io2 + 1"
      using wake_effect [OF io2(2) _ assms(3) _ other] new by metis
    obtain io4 where "cancel_timer timeout a io3 = Inr io4" "contexts io4 = contexts io3" "schedulers io4 = schedulers io3"
      "pending_timers io4 = pending_timers io3 - (if timeout \<noteq> -1 then {a} else {})"
      using cancel_timer_effect [OF io3(2)] by metis
    then show ?thesis using True io2(1,4) io3 io1(4) q2
      by (auto simp: park_def io1_def [symmetric] registered_def queue_count_def split: if_splits)
  qed
qed

theorem parked_call_returns_witness:
  "\<exists>io'. park 40 1 500 0 3 (7 :: nat) 0 9 True 0 (ByReport 1) (newIOManager 0 (\<lambda>_. empty_sched) 0) = Inr (Woken, io') \<and>
     queue_count 0 9 io' = 1"
proof -
  let ?io = "newIOManager 0 (\<lambda>_. empty_sched) 0 :: nat iomgr"
  have io: "\<not> registered 1 40 ?io" "3 \<notin> pending_timers ?io" "context_at 40 ?io = newFdContext 40" "queue_count 0 9 ?io = 0"
    by (simp_all add: newIOManager_def registered_def ContextResize_def context_at_def queue_count_def empty_sched_def newTimerManager_def)
  have "ec_fiber (ev_of e' (context_at 40 ?io)) \<noteq> Some 9" for e'
    by (simp add: io newFdContext_def ev_of_def empty_evctx_def)
  moreover have "wake_ok 1 (fc_events (context_at 40 ?io) OR 1) (insert 3 (pending_timers ?io)) (ByReport 1)"
    by (simp add: io newFdContext_def real_events_def ev_defs)
  ultimately show ?thesis
    using parked_call_returns [OF io_reach.init [of 0 "\<lambda>_. empty_sched" 0], of 40 1 3 "ByReport 1" 9 500 0 7 0 True 0] io
    by (auto simp: is_event_def ev_defs)
qed

end
