(* ===== verification/Text.thy ===== *)
theory Text
  imports Prelude
begin

text \<open>
  Character strings: the part of a string a C function sees, and the decimal and hexadecimal texts
  that output streams give for numbers.  Printing is shown to be inverted by reading.
\<close>

section \<open>C strings\<close>

definition cstr :: "string \<Rightarrow> string" where
  "cstr s = takeWhile (\<lambda>c. c \<noteq> CHR 0x00) s"

lemma cstr_no_nul: "CHR 0x00 \<notin> set (cstr s)"
  by (auto simp: cstr_def dest: set_takeWhileD)

section \<open>Case\<close>

definition tolower :: "char \<Rightarrow> char" where
  "tolower c = (if 65 \<le> (of_char c :: nat) \<and> (of_char c :: nat) \<le> 90 then char_of (of_char c + 32 :: nat) else c)"

lemma of_char_tolower:
  "(of_char (tolower c) :: nat) =
     (if 65 \<le> (of_char c :: nat) \<and> (of_char c :: nat) \<le> 90 then of_char c + 32 else of_char c)"
  by (simp add: tolower_def)

section \<open>Numbers\<close>

definition digit :: "nat \<Rightarrow> char" where "digit n = char_of (48 + n)"

fun dec :: "nat \<Rightarrow> string" where
  "dec n = (if n < 10 then [digit n] else dec (n div 10) @ [digit (n mod 10)])"

declare dec.simps [simp del]

definition xdigit :: "nat \<Rightarrow> char" where
  "xdigit n = (if n < 10 then digit n else char_of (87 + n))"

fun hex :: "nat \<Rightarrow> string" where
  "hex n = (if n < 16 then [xdigit n] else hex (n div 16) @ [xdigit (n mod 16)])"

declare hex.simps [simp del]

definition sdec :: "int \<Rightarrow> string" where
  "sdec i = (if i < 0 then ''-'' @ dec (nat (- i)) else dec (nat i))"

fun undec :: "string \<Rightarrow> nat" where
  "undec s = foldl (\<lambda>n c. n * 10 + (of_char c - 48)) 0 s"

lemma of_char_digit: "n < 10 \<Longrightarrow> of_char (digit n) - 48 = n"
  by (simp add: digit_def)

lemma undec_dec: "undec (dec n) = n"
proof (induction n rule: dec.induct)
  case (1 n)
  show ?case
  proof (cases "n < 10")
    case True
    then show ?thesis by (subst dec.simps) (simp add: of_char_digit)
  next
    case False
    with 1 have "foldl (\<lambda>n c. n * 10 + (of_char c - 48)) 0 (dec (n div 10)) = n div 10" by simp
    then show ?thesis using False by (subst dec.simps) (simp add: of_char_digit)
  qed
qed

text \<open>\<open>atoi\<close> of the C library: \<open>strtol\<close>, which saturates at 64 bits, cut to an \<open>int\<close>.\<close>

definition is_space :: "char \<Rightarrow> bool" where
  "is_space c \<longleftrightarrow> of_char c = (32 :: nat) \<or> (9 \<le> (of_char c :: nat) \<and> (of_char c :: nat) \<le> 13)"

definition is_digit :: "char \<Rightarrow> bool" where
  "is_digit c \<longleftrightarrow> 48 \<le> (of_char c :: nat) \<and> (of_char c :: nat) \<le> 57"

definition strtol10 :: "string \<Rightarrow> int" where
  "strtol10 s =
     (let t = dropWhile is_space s;
          neg = (t \<noteq> [] \<and> hd t = CHR ''-'');
          t' = (if t \<noteq> [] \<and> hd t \<in> {CHR ''-'', CHR ''+''} then tl t else t);
          n = int (undec (takeWhile is_digit t'))
      in if neg then max (- (2 ^ 63)) (- n) else min (2 ^ 63 - 1) n)"

definition atoi :: "string \<Rightarrow> int" where
  "atoi s = to_int32 (strtol10 s)"

text \<open>Printed numbers are read back: the digits of \<open>dec\<close> are digits, and no white space or sign hides them.\<close>

lemma is_digit_digit: "n < 10 \<Longrightarrow> is_digit (digit n)"
  by (simp add: is_digit_def digit_def)

lemma dec_digits: "list_all is_digit (dec n)"
proof (induction n rule: dec.induct)
  case (1 n)
  then show ?case by (subst dec.simps) (simp add: is_digit_digit)
qed

lemma dec_not_Nil [simp]: "dec n \<noteq> []"
  by (subst dec.simps) simp

lemma is_digit_signs: "\<not> is_digit CHR ''-''" "\<not> is_digit CHR ''+''" "is_digit c \<Longrightarrow> \<not> is_space c" "\<not> is_space CHR ''-''"
  by (auto simp: is_digit_def is_space_def)

lemma takeWhile_dec [simp]: "takeWhile is_digit (dec n) = dec n"
  using dec_digits [of n] by (simp add: list_all_iff takeWhile_eq_all_conv)

lemma hd_dec: "is_digit (hd (dec n))"
  using dec_digits [of n] by (cases "dec n") (use dec_not_Nil [of n] in auto)

lemma dropWhile_dec [simp]: "dropWhile is_space (dec n) = dec n"
  using hd_dec [of n] is_digit_signs(3) by (cases "dec n") auto

lemma strtol10_sdec:
  assumes "- (2 ^ 63) \<le> i" "i < 2 ^ 63"
  shows "strtol10 (sdec i) = i"
proof -
  have "hd (dec n) \<noteq> CHR ''-''" "hd (dec n) \<noteq> CHR ''+''" for n using hd_dec [of n] is_digit_signs by metis+
  then show ?thesis using assms
    by (auto simp: strtol10_def sdec_def Let_def is_digit_signs undec_dec simp del: undec.simps)
qed

lemma atoi_sdec: "- (2 ^ 31) \<le> i \<Longrightarrow> i < 2 ^ 31 \<Longrightarrow> atoi (sdec i) = i"
  by (simp add: atoi_def strtol10_sdec)

lemma sdec_plain: "c \<in> set (sdec i) \<Longrightarrow> is_digit c \<or> c = CHR ''-''"
  using dec_digits by (auto simp: sdec_def list_all_iff split: if_splits)

lemma sdec_not_Nil [simp]: "sdec i \<noteq> []"
  by (simp add: sdec_def)

lemma cstr_sdec [simp]: "cstr (sdec i) = sdec i"
proof -
  have "c \<noteq> CHR 0x00" if "c \<in> set (sdec i)" for c using sdec_plain [OF that] by (auto simp: is_digit_def)
  then show ?thesis by (auto simp: cstr_def takeWhile_eq_all_conv)
qed

lemma sdec_inject: "sdec m = sdec n \<longleftrightarrow> m = n"
proof -
  have "dec a = dec b \<longleftrightarrow> a = b" for a b using undec_dec by metis
  moreover have "dec a \<noteq> CHR ''-'' # s" "CHR ''-'' # s \<noteq> dec a" for a s using hd_dec [of a] is_digit_signs(1) by (metis list.sel(1))+
  ultimately show ?thesis by (auto simp: sdec_def)
qed

end
