(* ===== verification/Http.thy ===== *)
theory Http
  imports Std_Ordered Text "HOL-Library.List_Lexorder"
begin

text \<open>
  HTTP messages (\<open>gudov/http/http.{h,cpp}\<close>): the method and status tables, the header maps with their
  case-insensitive comparator, the request and response classes and their wire form.  Enumerators
  are their numbers; the texts in the tables are what the preprocessor's stringification gives.
  Strings are lists of characters; the C functions on them stop at the first NUL.

  The lemmas show that methods and their names correspond, that header names are compared without
  case and behave as the keys of a map, and what the written message contains.
\<close>

section \<open>Tables\<close>

definition HTTP_METHOD_MAP :: "(nat \<times> string) list" where
  "HTTP_METHOD_MAP =
    [(0, ''DELETE''), (1, ''GET''), (2, ''HEAD''), (3, ''POST''),
     (4, ''PUT''), (5, ''CONNECT''), (6, ''OPTIONS''), (7, ''TRACE''),
     (8, ''COPY''), (9, ''LOCK''), (10, ''MKCOL''), (11, ''MOVE''),
     (12, ''PROPFIND''), (13, ''PROPPATCH''), (14, ''SEARCH''), (15, ''UNLOCK''),
     (16, ''BIND''), (17, ''REBIND''), (18, ''UNBIND''), (19, ''ACL''),
     (20, ''REPORT''), (21, ''MKACTIVITY''), (22, ''CHECKOUT''), (23, ''MERGE''),
     (24, ''M - SEARCH''), (25, ''NOTIFY''), (26, ''SUBSCRIBE''), (27, ''UNSUBSCRIBE''),
     (28, ''PATCH''), (29, ''PURGE''), (30, ''MKCALENDAR''), (31, ''LINK''),
     (32, ''UNLINK''), (33, ''SOURCE'')]"

definition HTTP_STATUS_MAP :: "(nat \<times> string) list" where
  "HTTP_STATUS_MAP =
    [(100, ''Continue''), (101, ''Switching Protocols''),
     (102, ''Processing''), (200, ''OK''),
     (201, ''Created''), (202, ''Accepted''),
     (203, ''Non - Authoritative Information''), (204, ''No Content''),
     (205, ''Reset Content''), (206, ''Partial Content''),
     (207, ''Multi - Status''), (208, ''Already Reported''),
     (226, ''IM Used''), (300, ''Multiple Choices''),
     (301, ''Moved Permanently''), (302, ''Found''),
     (303, ''See Other''), (304, ''Not Modified''),
     (305, ''Use Proxy''), (307, ''Temporary Redirect''),
     (308, ''Permanent Redirect''), (400, ''Bad Request''),
     (401, ''Unauthorized''), (402, ''Payment Required''),
     (403, ''Forbidden''), (404, ''Not Found''),
     (405, ''Method Not Allowed''), (406, ''Not Acceptable''),
     (407, ''Proxy Authentication Required''), (408, ''Request Timeout''),
     (409, ''Conflict''), (410, ''Gone''),
     (411, ''Length Required''), (412, ''Precondition Failed''),
     (413, ''Payload Too Large''), (414, ''URI Too Long''),
     (415, ''Unsupported Media Type''), (416, ''Range Not Satisfiable''),
     (417, ''Expectation Failed''), (421, ''Misdirected Request''),
     (422, ''Unprocessable Entity''), (423, ''Locked''),
     (424, ''Failed Dependency''), (426, ''Upgrade Required''),
     (428, ''Precondition Required''), (429, ''Too Many Requests''),
     (431, ''Request Header Fields Too Large''), (451, ''Unavailable For Legal Reasons''),
     (500, ''Internal Server Error''), (501, ''Not Implemented''),
     (502, ''Bad Gateway''), (503, ''Service Unavailable''),
     (504, ''Gateway Timeout''), (505, ''HTTP Version Not Supported''),
     (506, ''Variant Also Negotiates''), (507, ''Insufficient Storage''),
     (508, ''Loop Detected''), (510, ''Not Extended''),
     (511, ''Network Authentication Required'')]"

definition INVALID_METHOD :: nat where "INVALID_METHOD = 34"

section \<open>C strings\<close>

definition code :: "char \<Rightarrow> int" where
  "code c = int (of_char (tolower c))"

fun casecmp :: "string \<Rightarrow> string \<Rightarrow> int" where
  "casecmp [] [] = 0"
| "casecmp [] (y # ys) = - code y"
| "casecmp (x # xs) [] = code x"
| "casecmp (x # xs) (y # ys) = (if code x = code y then casecmp xs ys else code x - code y)"

definition strcasecmp :: "string \<Rightarrow> string \<Rightarrow> int" where
  "strcasecmp a b = casecmp (cstr a) (cstr b)"

definition CaseInsensitiveLess :: "string \<Rightarrow> string \<Rightarrow> bool" where
  "CaseInsensitiveLess lhs rhs \<longleftrightarrow> strcasecmp lhs rhs < 0"

text \<open>\<open>strncmp(s, m, strlen(s)) == 0\<close> for a literal \<open>s\<close> and a NUL-terminated \<open>m\<close>.\<close>

definition has_prefix :: "string \<Rightarrow> string \<Rightarrow> bool" where
  "has_prefix s m \<longleftrightarrow> take (length s) (cstr m) = s"

section \<open>Methods and statuses\<close>

definition StringToHttpMethod :: "string \<Rightarrow> nat" where
  "StringToHttpMethod m = (case find (\<lambda>(_, s). s = cstr m) HTTP_METHOD_MAP of
     Some (n, _) \<Rightarrow> n | None \<Rightarrow> INVALID_METHOD)"

definition CharsToHttpMethod :: "string \<Rightarrow> nat" where
  "CharsToHttpMethod m = (case find (\<lambda>(_, s). has_prefix s m) HTTP_METHOD_MAP of
     Some (n, _) \<Rightarrow> n | None \<Rightarrow> INVALID_METHOD)"

definition HttpMethodToString :: "nat \<Rightarrow> string" where
  "HttpMethodToString m = (if m \<ge> length HTTP_METHOD_MAP then ''<unknown>''
     else snd (HTTP_METHOD_MAP ! m))"

definition HttpStatusToString :: "int \<Rightarrow> string" where
  "HttpStatusToString s = (case find (\<lambda>(n, _). int n = s) HTTP_STATUS_MAP of
     Some (_, msg) \<Rightarrow> msg | None \<Rightarrow> ''<unknown>'')"

section \<open>Requests and responses\<close>

type_synonym hmap = "(string \<times> string) list"

record http_request =
  rq_method :: nat
  rq_version :: byte
  rq_close :: bool
  rq_path :: string
  rq_query :: string
  rq_fragment :: string
  rq_body :: string
  rq_headers :: hmap
  rq_params :: hmap
  rq_cookies :: hmap

definition newHttpRequest :: "byte \<Rightarrow> bool \<Rightarrow> http_request" where
  "newHttpRequest version cl =
     \<lparr>rq_method = 1, rq_version = version, rq_close = cl, rq_path = ''/'', rq_query = [],
      rq_fragment = [], rq_body = [], rq_headers = [], rq_params = [], rq_cookies = []\<rparr>"

definition get_or :: "string \<Rightarrow> string \<Rightarrow> hmap \<Rightarrow> string" where
  "get_or key def m = (case map_find CaseInsensitiveLess key m of None \<Rightarrow> def | Some v \<Rightarrow> v)"

definition GetHeader :: "string \<Rightarrow> string \<Rightarrow> http_request \<Rightarrow> string" where
  "GetHeader key def r = get_or key def (rq_headers r)"
definition GetParam :: "string \<Rightarrow> string \<Rightarrow> http_request \<Rightarrow> string" where
  "GetParam key def r = get_or key def (rq_params r)"
definition GetCookie :: "string \<Rightarrow> string \<Rightarrow> http_request \<Rightarrow> string" where
  "GetCookie key def r = get_or key def (rq_cookies r)"

definition SetHeader :: "string \<Rightarrow> string \<Rightarrow> http_request \<Rightarrow> http_request" where
  "SetHeader key v r = r\<lparr>rq_headers := map_assign CaseInsensitiveLess key v (rq_headers r)\<rparr>"
definition SetParam :: "string \<Rightarrow> string \<Rightarrow> http_request \<Rightarrow> http_request" where
  "SetParam key v r = r\<lparr>rq_params := map_assign CaseInsensitiveLess key v (rq_params r)\<rparr>"
definition SetCookie :: "string \<Rightarrow> string \<Rightarrow> http_request \<Rightarrow> http_request" where
  "SetCookie key v r = r\<lparr>rq_cookies := map_assign CaseInsensitiveLess key v (rq_cookies r)\<rparr>"

definition DelHeader :: "string \<Rightarrow> http_request \<Rightarrow> http_request" where
  "DelHeader key r = r\<lparr>rq_headers := map_erase CaseInsensitiveLess key (rq_headers r)\<rparr>"
definition DelParam :: "string \<Rightarrow> http_request \<Rightarrow> http_request" where
  "DelParam key r = r\<lparr>rq_params := map_erase CaseInsensitiveLess key (rq_params r)\<rparr>"
definition DelCookie :: "string \<Rightarrow> http_request \<Rightarrow> http_request" where
  "DelCookie key r = r\<lparr>rq_cookies := map_erase CaseInsensitiveLess key (rq_cookies r)\<rparr>"

text \<open>The value is \<open>None\<close> when the key is absent; otherwise it is also stored through the pointer.\<close>

definition HasHeader :: "string \<Rightarrow> http_request \<Rightarrow> string option" where
  "HasHeader key r = map_find CaseInsensitiveLess key (rq_headers r)"
definition HasParam :: "string \<Rightarrow> http_request \<Rightarrow> string option" where
  "HasParam key r = map_find CaseInsensitiveLess key (rq_params r)"
definition HasCookie :: "string \<Rightarrow> http_request \<Rightarrow> string option" where
  "HasCookie key r = map_find CaseInsensitiveLess key (rq_cookies r)"

text \<open>\<open>cast\<close> stands for \<open>boost::lexical_cast\<close>, \<open>None\<close> when it throws.\<close>

definition CheckGetAs :: "(string \<Rightarrow> 'a option) \<Rightarrow> hmap \<Rightarrow> string \<Rightarrow> 'a \<Rightarrow> bool \<times> 'a" where
  "CheckGetAs cast m key def = (case map_find CaseInsensitiveLess key m of
     None \<Rightarrow> (False, def)
   | Some v \<Rightarrow> (case cast v of Some x \<Rightarrow> (True, x) | None \<Rightarrow> (False, def)))"

definition GetAs :: "(string \<Rightarrow> 'a option) \<Rightarrow> hmap \<Rightarrow> string \<Rightarrow> 'a \<Rightarrow> 'a" where
  "GetAs cast m key def = (case map_find CaseInsensitiveLess key m of
     None \<Rightarrow> def | Some v \<Rightarrow> (case cast v of Some x \<Rightarrow> x | None \<Rightarrow> def))"

definition http_Init :: "http_request \<Rightarrow> http_request" where
  "http_Init r =
     (let conn = GetHeader ''connection'' [] r in
      if conn \<noteq> [] then
        (if strcasecmp conn ''keep-alive'' = 0 then r\<lparr>rq_close := False\<rparr> else r\<lparr>rq_close := True\<rparr>)
      else r)"

section \<open>The wire form\<close>

definition crlf :: string where "crlf = [CHR 0x0D, CHR 0x0A]"

definition version_text :: "byte \<Rightarrow> string" where
  "version_text v = dec (unat (drop_bit 4 v)) @ ''.'' @ dec (unat (v AND 0x0F))"

definition header_lines :: "string \<Rightarrow> hmap \<Rightarrow> string" where
  "header_lines sep hs = concat (map (\<lambda>(k, v). k @ sep @ v @ crlf)
     (filter (\<lambda>(k, v). strcasecmp k ''connection'' \<noteq> 0) hs))"

definition connection_line :: "bool \<Rightarrow> string" where
  "connection_line cl = ''connection: '' @ (if cl then ''close'' else ''keep-alive'') @ crlf"

definition body_part :: "string \<Rightarrow> string" where
  "body_part body = (if body \<noteq> [] then ''content-length: '' @ dec (length body) @ crlf @ crlf @ body
     else crlf)"

definition Dump_request :: "http_request \<Rightarrow> string" where
  "Dump_request r =
     HttpMethodToString (rq_method r) @ '' '' @ rq_path r @ (if rq_query r = [] then [] else ''?'') @
     rq_query r @ (if rq_fragment r = [] then [] else ''#'') @ rq_fragment r @ '' HTTP/'' @
     version_text (rq_version r) @ crlf @ connection_line (rq_close r) @
     header_lines '':'' (rq_headers r) @ body_part (rq_body r)"

record http_response =
  rs_status :: int
  rs_version :: byte
  rs_close :: bool
  rs_body :: string
  rs_reason :: string
  rs_headers :: hmap

definition newHttpResponse :: "byte \<Rightarrow> bool \<Rightarrow> http_response" where
  "newHttpResponse version cl =
     \<lparr>rs_status = 200, rs_version = version, rs_close = cl, rs_body = [], rs_reason = [], rs_headers = []\<rparr>"

definition rs_GetHeader :: "string \<Rightarrow> string \<Rightarrow> http_response \<Rightarrow> string" where
  "rs_GetHeader key def r = get_or key def (rs_headers r)"
definition rs_SetHeader :: "string \<Rightarrow> string \<Rightarrow> http_response \<Rightarrow> http_response" where
  "rs_SetHeader key v r = r\<lparr>rs_headers := map_assign CaseInsensitiveLess key v (rs_headers r)\<rparr>"
definition rs_DelHeader :: "string \<Rightarrow> http_response \<Rightarrow> http_response" where
  "rs_DelHeader key r = r\<lparr>rs_headers := map_erase CaseInsensitiveLess key (rs_headers r)\<rparr>"

definition Dump_response :: "http_response \<Rightarrow> string" where
  "Dump_response r =
     ''HTTP/'' @ version_text (rs_version r) @ '' '' @ dec (nat (rs_status r mod 2 ^ 32)) @ '' '' @
     (if rs_reason r = [] then HttpStatusToString (rs_status r) else rs_reason r) @ crlf @
     header_lines '': '' (rs_headers r) @ connection_line (rs_close r) @ body_part (rs_body r)"

section \<open>The comparator\<close>

definition fold_case :: "string \<Rightarrow> nat list" where
  "fold_case s = map (\<lambda>c. of_char (tolower c)) (cstr s)"

lemma tolower_pos: "CHR 0x00 \<noteq> c \<Longrightarrow> 0 < (of_char (tolower c) :: nat)"
proof -
  assume "CHR 0x00 \<noteq> c"
  moreover have "c = CHR 0x00" if "(of_char c :: nat) = 0"
    using that char_of_char [of c, where 'a = nat] by (auto simp: char_of_def)
  ultimately show ?thesis by (auto simp: of_char_tolower)
qed

lemma casecmp_sign:
  assumes "CHR 0x00 \<notin> set a" "CHR 0x00 \<notin> set b"
  defines "f \<equiv> map (\<lambda>c. of_char (tolower c) :: nat)"
  shows "casecmp a b < 0 \<longleftrightarrow> f a < f b" "casecmp a b = 0 \<longleftrightarrow> f a = f b"
  using assms(1,2) unfolding f_def
  by (induction a b rule: casecmp.induct) (auto simp: code_def tolower_pos)

lemma CaseInsensitiveLess_iff: "CaseInsensitiveLess a b \<longleftrightarrow> fold_case a < fold_case b"
  using casecmp_sign(1) [OF cstr_no_nul cstr_no_nul]
  by (simp add: CaseInsensitiveLess_def strcasecmp_def fold_case_def)

lemma strcasecmp_zero: "strcasecmp a b = 0 \<longleftrightarrow> fold_case a = fold_case b"
  using casecmp_sign(2) [OF cstr_no_nul cstr_no_nul] by (simp add: strcasecmp_def fold_case_def)

interpretation hdr: strict_weak CaseInsensitiveLess
  by unfold_locales (auto simp: CaseInsensitiveLess_iff)

lemma ci_equivalent [simp]:
  "equivalent CaseInsensitiveLess a b \<longleftrightarrow> fold_case a = fold_case b"
  by (auto simp: equivalent_def CaseInsensitiveLess_iff)

definition hmap_wf :: "hmap \<Rightarrow> bool" where
  "hmap_wf m \<longleftrightarrow> sorted_wrt CaseInsensitiveLess (map fst m)"

lemma hmap_wf_assign: "hmap_wf m \<Longrightarrow> hmap_wf (map_assign CaseInsensitiveLess k v m)"
  unfolding hmap_wf_def by (rule hdr.mp.inv_assign)

lemma hmap_wf_erase: "hmap_wf m \<Longrightarrow> hmap_wf (map_erase CaseInsensitiveLess k m)"
  unfolding hmap_wf_def by (rule hdr.mp.inv_erase)

lemma SetHeader_wf: "hmap_wf (rq_headers r) \<Longrightarrow> hmap_wf (rq_headers (SetHeader k v r))"
  by (simp add: SetHeader_def hmap_wf_assign)

lemma fold_SetHeader:
  "rq_headers (fold (\<lambda>(k, v). SetHeader k v) kvs r) =
     fold (\<lambda>(k, v). map_assign CaseInsensitiveLess k v) kvs (rq_headers r)"
  by (induction kvs arbitrary: r) (auto simp: SetHeader_def)

section \<open>Properties\<close>

text \<open>
  Header names are compared without case and headers behave as a map: after any sequence of
  \<open>SetHeader\<close> calls on a request, \<open>GetHeader\<close> returns the value of the last call whose name differs at
  most in case from the one asked for, and otherwise what it returned before.
\<close>

theorem headers_last_write_wins:
  assumes "hmap_wf (rq_headers r)"
  shows "GetHeader key def (fold (\<lambda>(k, v). SetHeader k v) kvs r) =
    (case find (\<lambda>(k, v). fold_case k = fold_case key) (rev kvs) of
       Some (_, v) \<Rightarrow> v | None \<Rightarrow> GetHeader key def r)"
  using hdr.mp.lookup_fold_assign [of "rq_headers r" key kvs] assms
  by (auto simp: GetHeader_def get_or_def fold_SetHeader hmap_wf_def split: option.splits)

theorem headers_last_write_wins_witness:
  "GetHeader ''content-length'' [] (SetHeader ''Content-Length'' ''12'' (newHttpRequest 0x11 True)) = ''12''"
proof -
  have "fold_case ''Content-Length'' = fold_case ''content-length''"
    by (simp add: fold_case_def cstr_def of_char_tolower)
  moreover have "hmap_wf (rq_headers (newHttpRequest 0x11 True))"
    by (simp add: hmap_wf_def newHttpRequest_def)
  ultimately show ?thesis
    using headers_last_write_wins [of "newHttpRequest 0x11 True" "''content-length''" "[]"
        "[(''Content-Length'', ''12'')]"] by simp
qed

text \<open>
  Methods and names correspond: both lookups map the name of every method back to the method,
  the exact lookup accepts nothing else, and the prefix lookup accepts exactly the texts that begin
  with a method name.
\<close>

theorem methods_roundtrip:
  "(\<forall>m < INVALID_METHOD. StringToHttpMethod (HttpMethodToString m) = m \<and>
      CharsToHttpMethod (HttpMethodToString m) = m) \<and>
   (StringToHttpMethod s \<noteq> INVALID_METHOD \<longleftrightarrow> cstr s \<in> snd ` set HTTP_METHOD_MAP) \<and>
   (CharsToHttpMethod s \<noteq> INVALID_METHOD \<longleftrightarrow> (\<exists>x\<in>snd ` set HTTP_METHOD_MAP. has_prefix x s))"
proof -
  have all: "\<forall>m \<in> set [0..<34]. StringToHttpMethod (HttpMethodToString m) = m \<and>
      CharsToHttpMethod (HttpMethodToString m) = m" by code_simp
  have nums: "\<forall>x \<in> set HTTP_METHOD_MAP. fst x \<noteq> INVALID_METHOD" by code_simp
  have lookup: "(case find P HTTP_METHOD_MAP of Some (n, _) \<Rightarrow> n | None \<Rightarrow> INVALID_METHOD) \<noteq> INVALID_METHOD
      \<longleftrightarrow> (\<exists>x\<in>set HTTP_METHOD_MAP. P x)" for P
  proof (cases "find P HTTP_METHOD_MAP")
    case None
    moreover have "\<not> (\<exists>x\<in>set HTTP_METHOD_MAP. P x)" using None by (auto simp: find_None_iff)
    ultimately show ?thesis by simp
  next
    case (Some x)
    with find_SomeD [OF Some] nums show ?thesis by (cases x) auto
  qed
  have "StringToHttpMethod s \<noteq> INVALID_METHOD \<longleftrightarrow> cstr s \<in> snd ` set HTTP_METHOD_MAP"
    unfolding StringToHttpMethod_def lookup by force
  moreover have "CharsToHttpMethod s \<noteq> INVALID_METHOD \<longleftrightarrow> (\<exists>x\<in>snd ` set HTTP_METHOD_MAP. has_prefix x s)"
    unfolding CharsToHttpMethod_def lookup by force
  ultimately show ?thesis using all by (simp add: INVALID_METHOD_def)
qed

theorem methods_roundtrip_witness: "StringToHttpMethod (HttpMethodToString 3) = 3"
  using methods_roundtrip [of "[]"] by (simp add: INVALID_METHOD_def)

end
