(* ===== verification/Stream.thy ===== *)
theory Stream
  imports ByteArray_IO
begin

text \<open>
  Streams and the socket stream (\<open>gudov/stream.{h,cpp}\<close>, \<open>gudov/socket_stream.{h,cpp}\<close>).  A connection
  is scripted by its peer: what each receive will find (data, an orderly close or an error) and how
  much each send will take.  The loops of \<open>ReadFixSize\<close> and \<open>WriteFixSize\<close> keep the result of the
  system call in a \<open>size_t\<close>, so an error of -1 is a huge count; the model keeps that arithmetic
  modulo \<open>2 ^ 64\<close>, and the conversion of the result to a 32-bit \<open>int\<close>.  The count of one system call is
  at most the configured 32-bit portion size \<open>max_len\<close> and is not narrowed.  The loops take fuel; not returning, by waiting for ever or by running for ever, is
  \<open>Diverges\<close>.

  \<open>byte_source\<close> and \<open>byte_sink\<close> state what a read and a write promise while the peer cooperates; inside
  them the loops are shown to transfer exactly the bytes asked for, with the length as enough fuel.
\<close>

section \<open>Connections\<close>

datatype 'a rres = RData "'a list" | RClosed | RErr
datatype wres = WTake nat | WErr

record 'a conn =
  alive :: bool
  inp :: "'a rres list"
  outp :: "wres list"
  sent :: "'a list"

text \<open>\<open>Socket::Recv\<close> and \<open>Socket::Send\<close> on a connection; \<open>None\<close> is a call that never returns.\<close>

definition sock_Recv :: "nat \<Rightarrow> 'a conn \<Rightarrow> (int \<times> 'a list \<times> 'a conn) option" where
  "sock_Recv n c =
     (if \<not> alive c then Some (-1, [], c)
      else case inp c of
        [] \<Rightarrow> None
      | RErr # rs \<Rightarrow> Some (-1, [], c\<lparr>inp := rs\<rparr>)
      | RClosed # rs \<Rightarrow> Some (0, [], c)
      | RData bs # rs \<Rightarrow>
          Some (int (length (take n bs)), take n bs,
                c\<lparr>inp := (if length bs \<le> n then rs else RData (drop n bs) # rs)\<rparr>))"

definition sock_Send :: "'a list \<Rightarrow> 'a conn \<Rightarrow> (int \<times> 'a conn) option" where
  "sock_Send bs c =
     (if \<not> alive c then Some (-1, c)
      else case outp c of
        [] \<Rightarrow> None
      | WErr # ws \<Rightarrow> Some (-1, c\<lparr>outp := ws\<rparr>)
      | WTake k # ws \<Rightarrow>
          Some (int (length (take k bs)), c\<lparr>outp := ws, sent := sent c @ take k bs\<rparr>))"

definition SocketStream_Close :: "'a conn \<Rightarrow> 'a conn" where
  "SocketStream_Close c = c\<lparr>alive := False\<rparr>"

definition SocketStream_IsConnected :: "'a conn \<Rightarrow> bool" where
  "SocketStream_IsConnected c \<longleftrightarrow> alive c"

definition SocketStream_read :: "nat \<Rightarrow> 'a conn \<Rightarrow> (int \<times> 'a list \<times> 'a conn) option" where
  "SocketStream_read n c = sock_Recv n c"

definition SocketStream_write :: "'a list \<Rightarrow> 'a conn \<Rightarrow> (int \<times> 'a conn) option" where
  "SocketStream_write bs c = (if \<not> SocketStream_IsConnected c then Some (-1, c) else sock_Send bs c)"

text \<open>The overloads on a byte buffer; an empty vector of buffers is indexed, which is a fault.\<close>

definition SocketStream_read_ba ::
  "nat \<Rightarrow> bytearray \<Rightarrow> byte conn \<Rightarrow> (int \<times> bytearray \<times> byte conn) option res" where
  "SocketStream_read_ba n ba c =
     (if \<not> SocketStream_IsConnected c then Inr (Some (-1, ba, c))
      else bindR (GetWriteBuffers n ba) (\<lambda>(iovs, _, ba1).
        if iovs = [] then Inl OutOfBounds
        else case sock_Recv n c of
          None \<Rightarrow> Inr None
        | Some (rt, bs, c') \<Rightarrow>
            bindR (recv_into iovs bs ba1) (\<lambda>ba2.
              if rt > 0 then bindR (SetPosition (position ba2 + nat rt) ba2) (\<lambda>ba3. Inr (Some (rt, ba3, c')))
              else Inr (Some (rt, ba2, c')))))"

definition SocketStream_write_ba ::
  "nat \<Rightarrow> bytearray \<Rightarrow> byte conn \<Rightarrow> (int \<times> bytearray \<times> byte conn) option res" where
  "SocketStream_write_ba n ba c =
     (if \<not> SocketStream_IsConnected c then Inr (Some (-1, ba, c))
      else bindR (GetReadBuffers n ba) (\<lambda>(iovs, _).
        if iovs = [] then Inl OutOfBounds
        else bindR (gather (nodes ba) iovs) (\<lambda>cs. bindR (cells_bytes cs) (\<lambda>bs.
          case sock_Send bs c of
            None \<Rightarrow> Inr None
          | Some (rt, c') \<Rightarrow>
              if rt > 0 then bindR (SetPosition (position ba + nat rt) ba) (\<lambda>ba'. Inr (Some (rt, ba', c')))
              else Inr (Some (rt, ba, c'))))))"

section \<open>Fixed-size transfers\<close>

definition as_size :: "int \<Rightarrow> nat" where
  "as_size r = nat (r mod 2 ^ 64)"

definition as_int :: "nat \<Rightarrow> int" where
  "as_int n = sint (word_of_nat n :: 32 word)"

fun ReadFixSize_loop ::
  "(nat \<Rightarrow> 's \<Rightarrow> (int \<times> 'a list \<times> 's) option) \<Rightarrow> nat \<Rightarrow> nat \<Rightarrow> 'a option list \<Rightarrow> nat \<Rightarrow> nat \<Rightarrow> 's \<Rightarrow>
     (int \<times> 'a option list \<times> 's) res" where
  "ReadFixSize_loop rd max_len 0 buf off left s = Inl Diverges"
| "ReadFixSize_loop rd max_len (Suc k) buf off left s =
     (if left = 0 then Inr (as_int (length buf), buf, s)
      else case rd (min left max_len) s of
        None \<Rightarrow> Inl Diverges
      | Some (r, bs, s') \<Rightarrow>
          (let len = as_size r in
           if bs \<noteq> [] \<and> off + length bs > length buf then Inl OutOfBounds
           else let buf' = (if bs = [] then buf else overwrite buf off (map Some bs)) in
             if len = 0 then Inr (0, buf', s')
             else ReadFixSize_loop rd max_len k buf' ((off + len) mod 2 ^ 64)
               ((left + 2 ^ 64 - len) mod 2 ^ 64) s'))"

definition ReadFixSize ::
  "(nat \<Rightarrow> 's \<Rightarrow> (int \<times> 'a list \<times> 's) option) \<Rightarrow> nat \<Rightarrow> nat \<Rightarrow> nat \<Rightarrow> 's \<Rightarrow> (int \<times> 'a option list \<times> 's) res" where
  "ReadFixSize rd max_len fuel len s = ReadFixSize_loop rd max_len fuel (replicate len None) 0 len s"

fun WriteFixSize_loop ::
  "('a list \<Rightarrow> 's \<Rightarrow> (int \<times> 's) option) \<Rightarrow> nat \<Rightarrow> nat \<Rightarrow> 'a list \<Rightarrow> nat \<Rightarrow> nat \<Rightarrow> 's \<Rightarrow> (int \<times> 's) res" where
  "WriteFixSize_loop wr max_len 0 buf off left s = Inl Diverges"
| "WriteFixSize_loop wr max_len (Suc k) buf off left s =
     (if left = 0 then Inr (as_int (length buf), s)
      else if off + min left max_len > length buf then Inl OutOfBounds
      else case wr (take (min left max_len) (drop off buf)) s of
        None \<Rightarrow> Inl Diverges
      | Some (r, s') \<Rightarrow>
          (let len = as_size r in
           if len = 0 then Inr (0, s')
           else WriteFixSize_loop wr max_len k buf ((off + len) mod 2 ^ 64)
             ((left + 2 ^ 64 - len) mod 2 ^ 64) s'))"

definition WriteFixSize ::
  "('a list \<Rightarrow> 's \<Rightarrow> (int \<times> 's) option) \<Rightarrow> nat \<Rightarrow> nat \<Rightarrow> 'a list \<Rightarrow> 's \<Rightarrow> (int \<times> 's) res" where
  "WriteFixSize wr max_len fuel buf s = WriteFixSize_loop wr max_len fuel buf 0 (length buf) s"

text \<open>The overloads on a byte buffer, over its read or write operation.\<close>

fun FixSize_ba_loop ::
  "(nat \<Rightarrow> bytearray \<Rightarrow> 's \<Rightarrow> (int \<times> bytearray \<times> 's) option res) \<Rightarrow> nat \<Rightarrow> nat \<Rightarrow> nat \<Rightarrow> nat \<Rightarrow> bytearray \<Rightarrow> 's \<Rightarrow>
     (int \<times> bytearray \<times> 's) res" where
  "FixSize_ba_loop io max_len 0 len left ba s = Inl Diverges"
| "FixSize_ba_loop io max_len (Suc k) len left ba s =
     (if left = 0 then Inr (as_int len, ba, s)
      else bindR (io (min left max_len) ba s) (\<lambda>r. case r of
        None \<Rightarrow> Inl Diverges
      | Some (rt, ba', s') \<Rightarrow>
          if as_size rt = 0 then Inr (0, ba', s')
          else FixSize_ba_loop io max_len k len ((left + 2 ^ 64 - as_size rt) mod 2 ^ 64) ba' s'))"

definition ReadFixSize_ba :: "nat \<Rightarrow> nat \<Rightarrow> nat \<Rightarrow> bytearray \<Rightarrow> byte conn \<Rightarrow> (int \<times> bytearray \<times> byte conn) res" where
  "ReadFixSize_ba max_len fuel len ba c = FixSize_ba_loop SocketStream_read_ba max_len fuel len len ba c"

definition WriteFixSize_ba :: "nat \<Rightarrow> nat \<Rightarrow> nat \<Rightarrow> bytearray \<Rightarrow> byte conn \<Rightarrow> (int \<times> bytearray \<times> byte conn) res" where
  "WriteFixSize_ba max_len fuel len ba c = FixSize_ba_loop SocketStream_write_ba max_len fuel len len ba c"

section \<open>The contracts of sources and sinks\<close>

lemma as_size_nat [simp]: "n < 2 ^ 64 \<Longrightarrow> as_size (int n) = n"
  by (simp add: as_size_def)

lemma as_size_minus_one [simp]: "as_size (- 1) = 2 ^ 64 - 1"
  by (simp add: as_size_def)

lemma sub_mod: "0 < k \<Longrightarrow> k \<le> left \<Longrightarrow> left < 2 ^ 64 \<Longrightarrow> (left + 2 ^ 64 - k) mod 2 ^ 64 = (left - k :: nat)"
  by (simp add: le_mod_geq)

lemma as_int_small [simp]: "n < 2 ^ 31 \<Longrightarrow> as_int n = int n"
  by (simp add: as_int_def signed_of_nat signed_take_bit_eq_take_bit_minus take_bit_int_eq_self bit_iff_odd)

locale byte_source =
  fixes rd :: "nat \<Rightarrow> 's \<Rightarrow> (int \<times> 'a list \<times> 's) option"
    and pend :: "'s \<Rightarrow> 'a list"
  assumes rd_data: "0 < n \<Longrightarrow> pend s \<noteq> [] \<Longrightarrow>
    \<exists>bs s'. rd n s = Some (int (length bs), bs, s') \<and> bs \<noteq> [] \<and> length bs \<le> n \<and> pend s = bs @ pend s'"
begin

lemma ReadFixSize_loop_complete:
  assumes "left \<le> length (pend s)" "off + left = length buf" "length buf < 2 ^ 64" "0 < max_len" "left < fuel"
  shows "\<exists>s'. ReadFixSize_loop rd max_len fuel buf off left s =
    Inr (as_int (length buf), overwrite buf off (map Some (take left (pend s))), s') \<and>
    pend s = take left (pend s) @ pend s'"
  using assms
proof (induction fuel arbitrary: buf off left s)
  case (Suc k)
  show ?case
  proof (cases "left = 0")
    case False
    then obtain bs s1 where rd: "rd (min left max_len) s = Some (int (length bs), bs, s1)"
      and bs: "bs \<noteq> []" "length bs \<le> min left max_len" "pend s = bs @ pend s1"
      using rd_data [of "min left max_len" s] Suc.prems by (metis gr0I le_0_eq length_0_conv min_less_iff_conj)
    let ?buf = "overwrite buf off (map Some bs)" and ?left = "left - length bs"
    have len: "length ?buf = length buf" and pos: "0 < length bs" using Suc.prems bs by simp_all
    have less: "?left < k" using Suc.prems(5) pos bs(2) False by linarith
    have "\<exists>s'. ReadFixSize_loop rd max_len k ?buf (off + length bs) ?left s1 =
      Inr (as_int (length ?buf), overwrite ?buf (off + length bs) (map Some (take ?left (pend s1))), s') \<and>
      pend s1 = take ?left (pend s1) @ pend s'"
      using Suc.prems(1-4) bs len less by (intro Suc.IH) auto
    then obtain s' where rec: "ReadFixSize_loop rd max_len k ?buf (off + length bs) ?left s1 =
      Inr (as_int (length buf), overwrite ?buf (off + length bs) (map Some (take ?left (pend s1))), s')"
      "pend s1 = take ?left (pend s1) @ pend s'" by (auto simp: len)
    have "take left (pend s) = bs @ take ?left (pend s1)" using bs(2,3) by simp
    moreover have "overwrite ?buf (off + length bs) (map Some (take ?left (pend s1))) =
        overwrite buf off (map Some (bs @ take ?left (pend s1)))"
      using overwrite_split [of off "map Some bs" "map Some (take ?left (pend s1))" buf] Suc.prems bs
      by simp
    moreover have "(left + 2 ^ 64 - length bs) mod 2 ^ 64 = ?left"
      using Suc.prems bs pos by (intro sub_mod) auto
    moreover have "(off + length bs) mod 2 ^ 64 = off + length bs" "length bs < 2 ^ 64"
      using Suc.prems bs by auto
    ultimately show ?thesis using rd rec bs Suc.prems False by (auto simp: Let_def)
  qed (use Suc.prems in simp)
qed simp

lemma ReadFixSize_complete:
  assumes "len \<le> length (pend s)" "len < 2 ^ 64" "0 < max_len" "len < fuel"
  shows "\<exists>s'. ReadFixSize rd max_len fuel len s = Inr (as_int len, map Some (take len (pend s)), s') \<and>
    pend s = take len (pend s) @ pend s'"
  using ReadFixSize_loop_complete [of len s 0 "replicate len None" max_len fuel] assms
  by (simp add: ReadFixSize_def overwrite_def)

end

locale byte_sink =
  fixes wr :: "'a list \<Rightarrow> 's \<Rightarrow> (int \<times> 's) option"
    and good :: "'s \<Rightarrow> nat \<Rightarrow> bool"
    and log :: "'s \<Rightarrow> 'a list"
  assumes wr_data: "good s (Suc m) \<Longrightarrow> bs \<noteq> [] \<Longrightarrow>
    \<exists>k s'. wr bs s = Some (int k, s') \<and> 0 < k \<and> k \<le> length bs \<and> log s' = log s @ take k bs \<and> good s' m"
begin

lemma WriteFixSize_loop_complete:
  assumes "good s left" "off + left = length buf" "length buf < 2 ^ 64" "0 < max_len" "left < fuel"
    and mono: "\<And>s m m'. good s m \<Longrightarrow> m' \<le> m \<Longrightarrow> good s m'"
  shows "\<exists>s'. WriteFixSize_loop wr max_len fuel buf off left s = Inr (as_int (length buf), s') \<and>
    log s' = log s @ drop off buf"
  using assms(1-5)
proof (induction fuel arbitrary: off left s)
  case (Suc j)
  show ?case
  proof (cases "left = 0")
    case False
    let ?bs = "take (min left max_len) (drop off buf)"
    have "?bs \<noteq> []" using False Suc.prems by auto
    moreover have "good s (Suc (left - 1))" using Suc.prems False by simp
    ultimately obtain k s1 where wr: "wr ?bs s = Some (int k, s1)" "0 < k" "k \<le> length ?bs"
      "log s1 = log s @ take k ?bs" "good s1 (left - 1)" using wr_data by blast
    have k: "k \<le> left" "k \<le> max_len" using wr(3) by auto
    have "\<exists>s'. WriteFixSize_loop wr max_len j buf (off + k) (left - k) s1 = Inr (as_int (length buf), s') \<and>
        log s' = log s1 @ drop (off + k) buf"
      using Suc.prems wr k mono [OF wr(5), of "left - k"] by (intro Suc.IH) auto
    moreover have "take k ?bs @ drop (off + k) buf = drop off buf"
      using k by (simp add: min_def) (metis append_take_drop_id drop_drop add.commute)
    moreover have "(left + 2 ^ 64 - k) mod 2 ^ 64 = left - k"
      using Suc.prems k wr(2) by (intro sub_mod) auto
    moreover have "(off + k) mod 2 ^ 64 = off + k" "k < 2 ^ 64"
      using Suc.prems k wr(2) by auto
    ultimately show ?thesis using wr False Suc.prems by (auto simp: Let_def)
  qed (use Suc.prems in simp)
qed simp

end

section \<open>The socket stream as a source and a sink\<close>

fun pend_data :: "'a rres list \<Rightarrow> 'a list" where
  "pend_data (RData bs # rs) = (if bs = [] then [] else bs @ pend_data rs)"
| "pend_data _ = []"

definition conn_pend :: "'a conn \<Rightarrow> 'a list" where
  "conn_pend c = (if alive c then pend_data (inp c) else [])"

interpretation ss: byte_source SocketStream_read conn_pend
proof (unfold_locales, goal_cases)
  case (1 n c)
  then obtain bs rs where c: "alive c" "inp c = RData bs # rs" "bs \<noteq> []"
    by (cases "inp c" rule: pend_data.cases) (auto simp: conn_pend_def split: if_splits)
  moreover have "take n bs \<noteq> []" using 1(1) c(3) by simp
  ultimately show ?case
    by (auto simp: SocketStream_read_def sock_Recv_def conn_pend_def intro!: exI [of _ "take n bs"])
qed

definition conn_good :: "'a conn \<Rightarrow> nat \<Rightarrow> bool" where
  "conn_good c m \<longleftrightarrow> alive c \<and> m \<le> length (outp c) \<and> (\<forall>w\<in>set (take m (outp c)). \<exists>k. w = WTake (Suc k))"

interpretation sk: byte_sink SocketStream_write conn_good sent
proof (unfold_locales, goal_cases)
  case (1 c m bs)
  then obtain k ws where c: "alive c" "outp c = WTake (Suc k) # ws"
    by (cases "outp c") (auto simp: conn_good_def)
  then show ?case using 1
    by (auto simp: SocketStream_write_def SocketStream_IsConnected_def sock_Send_def conn_good_def
        intro!: exI [of _ "min (length bs) (Suc k)"] simp: min_def split: list.splits)
qed

lemma conn_good_mono: "conn_good c m \<Longrightarrow> m' \<le> m \<Longrightarrow> conn_good c m'"
  by (auto simp: conn_good_def dest: set_take_subset_set_take [THEN subsetD])

text \<open>Whatever the peer does, a write reports either nothing or the whole length.\<close>

lemma WriteFixSize_loop_result:
  "WriteFixSize_loop wr max_len fuel buf off left s = Inr (r, s') \<Longrightarrow> r = 0 \<or> r = as_int (length buf)"
  by (induction wr max_len fuel buf off left s rule: WriteFixSize_loop.induct)
    (auto simp: Let_def split: if_splits option.splits)

lemma WriteFixSize_result:
  assumes "WriteFixSize wr max_len fuel buf s = Inr (r, s')" "length buf < 2 ^ 31"
  shows "r = 0 \<or> r = int (length buf)"
  using WriteFixSize_loop_result [OF assms(1) [unfolded WriteFixSize_def]] as_int_small [OF assms(2)] by metis

text \<open>
  A read returns a count of at most zero or uses up some of what the peer has scripted; the number of
  entries and bytes left bounds how often it can be repeated before the peer's close is seen.
\<close>

definition inp_size :: "'a conn \<Rightarrow> nat" where
  "inp_size c = sum_list (map (\<lambda>x. case x of RData bs \<Rightarrow> length bs | _ \<Rightarrow> 0) (inp c))"

definition peer_ends :: "'a conn \<Rightarrow> bool" where
  "peer_ends c \<longleftrightarrow> RClosed \<in> set (inp c) \<or> RErr \<in> set (inp c)"

lemma read_progress:
  assumes "peer_ends c" "0 < n"
  obtains r bs c' where "SocketStream_read n c = Some (r, bs, c')" "r \<le> 0"
  | bs c' where "SocketStream_read n c = Some (int (length bs), bs, c')" "bs \<noteq> []" "length bs \<le> n"
      "peer_ends c'" "inp_size c' + length bs = inp_size c"
proof (cases "alive c \<and> (\<exists>bs rs. inp c = RData bs # rs \<and> bs \<noteq> [])")
  case True
  then obtain bs rs where c: "alive c" "inp c = RData bs # rs" "bs \<noteq> []" by blast
  let ?c = "c\<lparr>inp := (if length bs \<le> n then rs else RData (drop n bs) # rs)\<rparr>"
  have "SocketStream_read n c = Some (int (length (take n bs)), take n bs, ?c)"
    using c by (simp add: SocketStream_read_def sock_Recv_def)
  moreover have "take n bs \<noteq> []" "length (take n bs) \<le> n" using c assms(2) by auto
  moreover have "peer_ends ?c" using assms(1) c by (auto simp: peer_ends_def)
  moreover have "inp_size ?c + length (take n bs) = inp_size c" using c by (simp add: inp_size_def min_def)
  ultimately show ?thesis by (rule that(2))
next
  case False
  moreover from assms(1) have "inp c \<noteq> []" by (auto simp: peer_ends_def)
  ultimately have "\<exists>r bs c'. SocketStream_read n c = Some (r, bs, c') \<and> r \<le> 0"
    by (cases "inp c") (auto simp: SocketStream_read_def sock_Recv_def split: rres.splits)
  then show ?thesis using that(1) by blast
qed

section \<open>Properties\<close>

text \<open>
  C23. Fixed-size reads deliver: when at least \<open>len\<close> bytes arrive before the peer closes or an error
  occurs, in whatever portions, \<open>ReadFixSize\<close> returns \<open>len\<close> (as a 32-bit \<open>int\<close>) with exactly the first \<open>len\<close> bytes in the
  buffer and leaves the rest of the input for the next read.
\<close>

theorem ReadFixSize_delivers:
  assumes "len \<le> length (conn_pend c)" "len < 2 ^ 64" "0 < max_len" "len < fuel"
  shows "\<exists>c'. ReadFixSize SocketStream_read max_len fuel len c =
      Inr (as_int len, map Some (take len (conn_pend c)), c') \<and>
    conn_pend c = take len (conn_pend c) @ conn_pend c'"
  using assms by (rule ss.ReadFixSize_complete)

definition demo_conn :: "nat conn" where
  "demo_conn = \<lparr>alive = True, inp = [RData [1, 2, 3], RData [4, 5], RClosed],
     outp = [WTake (Suc 1), WTake (Suc 1), WTake (Suc 1)], sent = []\<rparr>"

theorem ReadFixSize_delivers_witness:
  "\<exists>c'. ReadFixSize SocketStream_read 2 5 4 demo_conn = Inr (4, [Some 1, Some 2, Some 3, Some 4], c')"
  using ReadFixSize_delivers [of 4 demo_conn 2 5] by (auto simp: demo_conn_def conn_pend_def)

text \<open>
  Fixed-size writes deliver: when every send takes at least one byte, \<open>WriteFixSize\<close> returns the
  length (as a 32-bit \<open>int\<close>) and the peer has been sent exactly the buffer, in order.
\<close>

theorem WriteFixSize_delivers:
  assumes "conn_good c (length buf)" "length buf < 2 ^ 64" "0 < max_len" "length buf < fuel"
  shows "\<exists>c'. WriteFixSize SocketStream_write max_len fuel buf c = Inr (as_int (length buf), c') \<and>
    sent c' = sent c @ buf"
  using sk.WriteFixSize_loop_complete [of c "length buf" 0 buf max_len fuel] assms conn_good_mono
  by (auto simp: WriteFixSize_def)

theorem WriteFixSize_delivers_witness:
  "\<exists>c'. WriteFixSize SocketStream_write 2 9 [7, 8, 9] demo_conn = Inr (3, c') \<and> sent c' = [7, 8, 9]"
  using WriteFixSize_delivers [of demo_conn "[7, 8, 9]" 2 9]
  by (simp add: demo_conn_def conn_good_def)

text \<open>
  A receive error is not seen: the count is unsigned, so after an error the loop neither
  returns nor reports it.  It goes on with the offset moved back by one, and data that arrives then
  is written in front of the buffer.
\<close>

theorem ReadFixSize_error_overruns:
  assumes "alive c" "inp c = RErr # RData (b # bs) # rs" "0 < len" "len < 2 ^ 64 - 1" "0 < max_len"
  shows "ReadFixSize SocketStream_read max_len (Suc (Suc k)) len c = Inl OutOfBounds"
proof -
  have l: "(len + 2 ^ 64 - (2 ^ 64 - 1)) mod 2 ^ 64 = len + 1" using assms(4) by simp
  have "min (len + 1) max_len \<noteq> 0" using assms(5) by simp
  then obtain m where m: "min (len + 1) max_len = Suc m" by (cases "min (len + 1) max_len") auto
  have "SocketStream_read (min len max_len) c = Some (-1, [], c\<lparr>inp := RData (b # bs) # rs\<rparr>)"
    using assms(1,2) by (simp add: SocketStream_read_def sock_Recv_def)
  moreover have "\<exists>r s'. SocketStream_read (min (len + 1) max_len) (c\<lparr>inp := RData (b # bs) # rs\<rparr>) =
      Some (r, b # take m bs, s')"
    unfolding m using assms(1) by (simp add: SocketStream_read_def sock_Recv_def)
  ultimately show ?thesis
    using assms(3,4) l by (auto simp: ReadFixSize_def Let_def)
qed

theorem ReadFixSize_error_overruns_witness:
  "ReadFixSize SocketStream_read 16 (Suc (Suc 0)) 4 (demo_conn\<lparr>inp := [RErr, RData [1]]\<rparr>) = Inl OutOfBounds"
  using ReadFixSize_error_overruns [of "demo_conn\<lparr>inp := [RErr, RData [1]]\<rparr>" 1 "[]" "[]" 4 16 0]
  by (simp add: demo_conn_def)

end
