(* ===== verification/HttpSession.thy ===== *)
theory HttpSession
  imports Http Stream
begin

text \<open>
  The glue around the generated HTTP parsers and the server side of a connection
  (\<open>gudov/http/http_parser.cpp\<close>, \<open>gudov/http/http_session.cpp\<close>).  The parsers generated from the Ragel
  grammars are arguments (\<open>ragel\<close>): given the buffered text they return how much they consumed (or
  -1) and which callbacks they ran, with the text from the callback's position to the end of the buffer and
  the callback's length, and afterwards whether they are finished or in error.  \<open>boost::lexical_cast\<close>
  is an argument too.  A 64-bit content length is read as the signed number the session keeps.

  The lemmas show what a session hands out for a complete request, and when copying the buffered
  part of the body leaves the body string.
\<close>

section \<open>Request parser\<close>

datatype req_event =
    EvMethod string nat
  | EvUri string nat
  | EvFragment string nat
  | EvPath string nat
  | EvQuery string nat
  | EvVersion string nat
  | EvHeaderDone string nat
  | EvField string nat string nat

record ('p, 'e) ragel =
  rg_init :: 'p
  rg_exec :: "string \<Rightarrow> 'p \<Rightarrow> int \<times> 'e list \<times> 'p"
  rg_finish :: "'p \<Rightarrow> bool"
  rg_error :: "'p \<Rightarrow> bool"

record 'p req_parser =
  rp_data :: http_request
  rp_error :: nat
  rp_state :: 'p

definition newRequestParser :: "('p, 'e) ragel \<Rightarrow> 'p req_parser" where
  "newRequestParser g = \<lparr>rp_data = newHttpRequest 0x11 True, rp_error = 0, rp_state = rg_init g\<rparr>"

text \<open>\<open>strncmp(at, lit, n) == 0\<close>.\<close>

definition strncmp_eq :: "string \<Rightarrow> string \<Rightarrow> nat \<Rightarrow> bool" where
  "strncmp_eq at lit n \<longleftrightarrow> take n (cstr at) = take n lit"

definition on_request_method :: "string \<Rightarrow> nat \<Rightarrow> 'p req_parser \<Rightarrow> 'p req_parser" where
  "on_request_method at n p =
     (let m = CharsToHttpMethod at in
      if m = INVALID_METHOD then p\<lparr>rp_error := 1000\<rparr>
      else p\<lparr>rp_data := (rp_data p)\<lparr>rq_method := m\<rparr>\<rparr>)"

definition on_request_fragment :: "string \<Rightarrow> nat \<Rightarrow> 'p req_parser \<Rightarrow> 'p req_parser" where
  "on_request_fragment at n p = p\<lparr>rp_data := (rp_data p)\<lparr>rq_fragment := take n at\<rparr>\<rparr>"

definition on_request_path :: "string \<Rightarrow> nat \<Rightarrow> 'p req_parser \<Rightarrow> 'p req_parser" where
  "on_request_path at n p = p\<lparr>rp_data := (rp_data p)\<lparr>rq_path := take n at\<rparr>\<rparr>"

definition on_request_query :: "string \<Rightarrow> nat \<Rightarrow> 'p req_parser \<Rightarrow> 'p req_parser" where
  "on_request_query at n p = p\<lparr>rp_data := (rp_data p)\<lparr>rq_query := take n at\<rparr>\<rparr>"

definition on_request_version :: "string \<Rightarrow> nat \<Rightarrow> 'p req_parser \<Rightarrow> 'p req_parser" where
  "on_request_version at n p =
     (if strncmp_eq at ''HTTP/1.1'' n then p\<lparr>rp_data := (rp_data p)\<lparr>rq_version := 0x11\<rparr>\<rparr>
      else if strncmp_eq at ''HTTP/1.0'' n then p\<lparr>rp_data := (rp_data p)\<lparr>rq_version := 0x10\<rparr>\<rparr>
      else p\<lparr>rp_error := 1001\<rparr>)"

definition on_request_http_field ::
  "string \<Rightarrow> nat \<Rightarrow> string \<Rightarrow> nat \<Rightarrow> 'p req_parser \<Rightarrow> 'p req_parser" where
  "on_request_http_field field flen vtext vlen p =
     (if flen = 0 then p
      else p\<lparr>rp_data := SetHeader (take flen field) (take vlen vtext) (rp_data p)\<rparr>)"

fun run_req_event :: "req_event \<Rightarrow> 'p req_parser \<Rightarrow> 'p req_parser" where
  "run_req_event (EvMethod s n) p = on_request_method s n p"
| "run_req_event (EvUri s n) p = p"
| "run_req_event (EvFragment s n) p = on_request_fragment s n p"
| "run_req_event (EvPath s n) p = on_request_path s n p"
| "run_req_event (EvQuery s n) p = on_request_query s n p"
| "run_req_event (EvVersion s n) p = on_request_version s n p"
| "run_req_event (EvHeaderDone s n) p = p"
| "run_req_event (EvField f fl v vl) p = on_request_http_field f fl v vl p"

text \<open>
  \<open>execute\<close> moves what was not consumed to the front of the buffer and returns the count.  The
  generated parser may return -1, which is a huge unsigned count: the move then leaves the buffer.
\<close>

definition req_execute ::
  "('p, req_event) ragel \<Rightarrow> string \<Rightarrow> 'p req_parser \<Rightarrow> (nat \<times> string \<times> 'p req_parser) res" where
  "req_execute g data p =
     (let (n, evs, st) = rg_exec g data (rp_state p)
      in if n < 0 \<or> n > int (length data) then Inl OutOfBounds
         else Inr (nat n, drop (nat n) data, (fold run_req_event evs p)\<lparr>rp_state := st\<rparr>))"

definition req_IsFinished :: "('p, 'e) ragel \<Rightarrow> 'p req_parser \<Rightarrow> bool" where
  "req_IsFinished g p \<longleftrightarrow> rg_finish g (rp_state p)"

definition req_HasError :: "('p, 'e) ragel \<Rightarrow> 'p req_parser \<Rightarrow> bool" where
  "req_HasError g p \<longleftrightarrow> rp_error p \<noteq> 0 \<or> rg_error g (rp_state p)"

definition req_GetContentLength :: "(string \<Rightarrow> u64 option) \<Rightarrow> 'p req_parser \<Rightarrow> u64" where
  "req_GetContentLength cast p = GetAs cast (rq_headers (rp_data p)) ''content-length'' 0"

section \<open>Sessions\<close>

fun RecvRequest_loop ::
  "('p, req_event) ragel \<Rightarrow> nat \<Rightarrow> nat \<Rightarrow> string \<Rightarrow> 'p req_parser \<Rightarrow> char conn \<Rightarrow>
     (('p req_parser \<times> string) option \<times> char conn) res" where
  "RecvRequest_loop g buff_size 0 buf p c = Inl Diverges"
| "RecvRequest_loop g buff_size (Suc k) buf p c =
     (case SocketStream_read (buff_size - length buf) c of
        None \<Rightarrow> Inl Diverges
      | Some (r, bs, c') \<Rightarrow>
          if r \<le> 0 then Inr (None, SocketStream_Close c')
          else bindR (req_execute g (buf @ bs) p) (\<lambda>(n, rest, p').
            if req_HasError g p' then Inr (None, SocketStream_Close c')
            else if length rest = buff_size then Inr (None, SocketStream_Close c')
            else if req_IsFinished g p' then Inr (Some (p', rest), c')
            else RecvRequest_loop g buff_size k rest p' c'))"

text \<open>
  The body: \<open>resize(length)\<close>, then a copy of everything that is left in the buffer, in both
  branches of the source, then the rest from the connection.
\<close>

definition recv_body :: "nat \<Rightarrow> nat \<Rightarrow> int \<Rightarrow> string \<Rightarrow> char conn \<Rightarrow> (string option \<times> char conn) res" where
  "recv_body max_len fuel len rest c =
     (if int (length rest) > len then Inl OutOfBounds
      else if len - int (length rest) > 0 then
        bindR (ReadFixSize SocketStream_read max_len fuel (nat len - length rest) c) (\<lambda>(r, cells, c').
          if r \<le> 0 then Inr (None, c')
          else case those cells of None \<Rightarrow> Inl Indeterminate | Some bs \<Rightarrow> Inr (Some (rest @ bs), c'))
      else Inr (Some rest, c))"

definition continue_text :: string where
  "continue_text = ''HTTP/1.1 100 Continue'' @ crlf @ crlf"

definition RecvRequest_tail ::
  "(string \<Rightarrow> u64 option) \<Rightarrow> nat \<Rightarrow> nat \<Rightarrow> 'p req_parser \<Rightarrow> string \<Rightarrow> char conn \<Rightarrow>
     (http_request option \<times> char conn) res" where
  "RecvRequest_tail cast max_len fuel p rest c =
     (let len = sint (req_GetContentLength cast p);
          req = rp_data p;
          expects = (strcasecmp (GetHeader ''Expect'' [] req) ''100-continue'' = 0) in
      bindR (if expects then
               bindR (WriteFixSize SocketStream_write max_len fuel continue_text c)
                 (\<lambda>(_, c'). Inr (DelHeader ''Expect'' req, c'))
             else Inr (req, c)) (\<lambda>(req1, c1).
        if len > 0 then
          bindR (recv_body max_len fuel len rest c1) (\<lambda>(b, c2).
            case b of None \<Rightarrow> Inr (None, c2)
            | Some body \<Rightarrow> Inr (Some (http_Init (req1\<lparr>rq_body := body\<rparr>)), c2))
        else Inr (Some (http_Init req1), c1)))"

definition RecvRequest ::
  "('p, req_event) ragel \<Rightarrow> (string \<Rightarrow> u64 option) \<Rightarrow> nat \<Rightarrow> nat \<Rightarrow> nat \<Rightarrow> char conn \<Rightarrow>
     (http_request option \<times> char conn) res" where
  "RecvRequest g cast buff_size max_len fuel c =
     bindR (RecvRequest_loop g buff_size fuel [] (newRequestParser g) c) (\<lambda>(r, c1).
       case r of None \<Rightarrow> Inr (None, c1)
       | Some (p, rest) \<Rightarrow> RecvRequest_tail cast max_len fuel p rest c1)"

definition SendResponse :: "nat \<Rightarrow> nat \<Rightarrow> http_response \<Rightarrow> char conn \<Rightarrow> (int \<times> char conn) res" where
  "SendResponse max_len fuel rsp c = WriteFixSize SocketStream_write max_len fuel (Dump_response rsp) c"

section \<open>Lemmas\<close>

lemma recv_body_complete:
  assumes "0 < len" "int (length rest) \<le> len" "nat len - length rest \<le> length (conn_pend c)"
    "nat len < 2 ^ 31" "0 < max_len" "nat len < fuel"
  shows "\<exists>c'. recv_body max_len fuel len rest c =
    Inr (Some (rest @ take (nat len - length rest) (conn_pend c)), c')"
proof (cases "len - int (length rest) > 0")
  case True
  let ?n = "nat len - length rest"
  have n: "?n < 2 ^ 31" "?n < 2 ^ 64" "?n < fuel" using assms(4,6) by simp_all
  from ss.ReadFixSize_complete [OF assms(3) n(2) assms(5) n(3)] as_int_small [OF n(1)] obtain c' where
    "ReadFixSize SocketStream_read max_len fuel ?n c = Inr (int ?n, map Some (take ?n (conn_pend c)), c')"
    by auto
  then show ?thesis using True assms(2) by (simp add: recv_body_def)
next
  case False
  then have "nat len - length rest = 0" by simp
  then show ?thesis using False assms(2) by (simp add: recv_body_def)
qed

text \<open>The header loop ends once the peer does.\<close>

lemma RecvRequest_loop_returns:
  assumes "peer_ends c" "length buf < buff_size" "inp_size c < k"
  shows "RecvRequest_loop g buff_size k buf p c \<noteq> Inl Diverges"
  using assms
proof (induction k arbitrary: buf p c)
  case (Suc k)
  have "0 < buff_size - length buf" using Suc.prems(2) by simp
  from read_progress [OF Suc.prems(1) this] show ?case
  proof cases
    case (1 r bs c')
    then show ?thesis by simp
  next
    case (2 bs c')
    show ?thesis
    proof (cases "req_execute g (buf @ bs) p")
      case (Inl f)
      then have "f = OutOfBounds" by (auto simp: req_execute_def Let_def split: prod.splits if_splits)
      with Inl 2 show ?thesis by simp
    next
      case (Inr t)
      obtain n rest p' where t: "t = (n, rest, p')" by (cases t)
      have "length rest \<le> buff_size"
        using Inr t 2(3) Suc.prems(2) by (auto simp: req_execute_def Let_def split: prod.splits if_splits)
      moreover have "inp_size c' < k" using 2(2,5) Suc.prems(3) by (cases bs) auto
      ultimately have "length rest \<noteq> buff_size \<Longrightarrow> RecvRequest_loop g buff_size k rest p' c' \<noteq> Inl Diverges"
        by (intro Suc.IH [OF 2(4)]) auto
      then show ?thesis using 2 Inr t by simp
    qed
  qed
qed simp

section \<open>Properties\<close>

definition demo_parser :: "unit req_parser" where
  "demo_parser = \<lparr>rp_data = SetHeader ''Content-Length'' ''5'' (newHttpRequest 0x11 True), rp_error = 0,
     rp_state = ()\<rparr>"

definition demo_cast :: "string \<Rightarrow> u64 option" where
  "demo_cast s = Some (word_of_nat (undec s))"

definition demo_session :: "char conn" where
  "demo_session = \<lparr>alive = True, inp = [RData ''ell'', RData ''o!'', RClosed], outp = [], sent = []\<rparr>"

lemma demo_headers:
  "sint (req_GetContentLength demo_cast demo_parser) = 5"
  "GetHeader ''Expect'' [] (rp_data demo_parser) = []"
  by (simp_all add: req_GetContentLength_def GetAs_def demo_parser_def demo_cast_def SetHeader_def GetHeader_def
      get_or_def newHttpRequest_def CaseInsensitiveLess_iff fold_case_def cstr_def
      of_char_tolower)

definition demo_ragel :: "(nat, req_event) ragel" where
  "demo_ragel = \<lparr>rg_init = 0, rg_exec = (\<lambda>s n. (int (length s), [EvField ''B'' 1 ''x'' 1, EvField ''a'' 1 ''y'' 1], 1)),
     rg_finish = (\<lambda>n. n = 1), rg_error = (\<lambda>_. False)\<rparr>"

text \<open>
  C20. Reading a request header ends: on a connection whose peer eventually closes or fails, with a
  buffer that is not empty, the loop returns (a request, a refusal or a fault) within as many turns
  as bytes can still arrive, whatever the generated parser does.
\<close>

theorem header_loop_terminates:
  assumes "peer_ends c" "0 < buff_size" "inp_size c < fuel"
  shows "RecvRequest_loop g buff_size fuel [] (newRequestParser g) c \<noteq> Inl Diverges"
  using assms by (intro RecvRequest_loop_returns) auto

theorem header_loop_terminates_witness:
  "RecvRequest_loop demo_ragel 64 6 [] (newRequestParser demo_ragel) demo_session \<noteq> Inl Diverges"
  using header_loop_terminates [of demo_session 64 6 demo_ragel]
  by (simp add: demo_session_def peer_ends_def inp_size_def)

text \<open>
  C18. The body of a request: when the headers announce \<open>len > 0\<close> bytes (fewer than \<open>2 ^ 31\<close>), at most that much is already
  buffered and the rest arrives, the session returns the parsed request with a body of exactly the
  buffered text followed by the next bytes of the connection; when more than the announced length is
  buffered, the copy runs past the end of the body string.
\<close>

theorem request_body:
  assumes "sint (req_GetContentLength cast p) = len" "0 < len"
    and "strcasecmp (GetHeader ''Expect'' [] (rp_data p)) ''100-continue'' \<noteq> 0"
    and "nat len - length rest \<le> length (conn_pend c)" "nat len < fuel" "nat len < 2 ^ 31" "0 < max_len"
  shows "if int (length rest) \<le> len
    then \<exists>c'. RecvRequest_tail cast max_len fuel p rest c =
      Inr (Some (http_Init ((rp_data p)\<lparr>rq_body :=
        rest @ take (nat len - length rest) (conn_pend c)\<rparr>)), c')
    else RecvRequest_tail cast max_len fuel p rest c = Inl OutOfBounds"
proof (cases "int (length rest) \<le> len")
  case True
  from recv_body_complete [OF assms(2) True assms(4,6,7,5)] obtain c' where
    "recv_body max_len fuel len rest c =
       Inr (Some (rest @ take (nat len - length rest) (conn_pend c)), c')" by blast
  then show ?thesis using True assms(1-3) by (simp add: RecvRequest_tail_def Let_def)
next
  case False
  then show ?thesis using assms(1-3) by (simp add: RecvRequest_tail_def Let_def recv_body_def)
qed

theorem request_body_witness:
  "\<exists>c'. RecvRequest_tail demo_cast 2 9 demo_parser ''h'' demo_session =
    Inr (Some (http_Init ((rp_data demo_parser)\<lparr>rq_body := ''hello''\<rparr>)), c')"
proof -
  have "strcasecmp (GetHeader ''Expect'' [] (rp_data demo_parser)) ''100-continue'' \<noteq> 0"
    unfolding demo_headers strcasecmp_zero by (simp add: fold_case_def cstr_def of_char_tolower)
  then show ?thesis
    using request_body [OF demo_headers(1), of "''h''" demo_session 9 2]
    by (simp add: demo_session_def conn_pend_def)
qed

end
