(* ===== verification/Uri.thy ===== *)
theory Uri
  imports Text
begin

text \<open>
  Uris (\<open>gudov/uri.h\<close> and the functions of \<open>gudov/uri.rl\<close> after its grammar).  \<open>Uri::Create\<close>, which runs the
  scanner of the grammar, is in \<open>Uri_Parser\<close>; the lookup of the
  host is an argument of \<open>CreateAddress\<close>.

  The lemmas show that the printed text carries the port: two uris of the same scheme, user, host,
  path, query and fragment have the same text exactly when they name the same port.
\<close>

section \<open>Uris\<close>

record uri =
  u_scheme :: string
  u_userinfo :: string
  u_host :: string
  u_path :: string
  u_query :: string
  u_fragment :: string
  u_port :: int

definition Uri_GetPath :: "uri \<Rightarrow> string" where
  "Uri_GetPath u = (if u_path u = [] then ''/'' else u_path u)"

definition Uri_GetPort :: "uri \<Rightarrow> int" where
  "Uri_GetPort u =
     (if u_port u \<noteq> 0 then u_port u
      else if u_scheme u = ''http'' then 80
      else if u_scheme u = ''https'' then 443
      else u_port u)"

definition newUri :: uri where
  "newUri = \<lparr>u_scheme = [], u_userinfo = [], u_host = [], u_path = [], u_query = [], u_fragment = [], u_port = 0\<rparr>"

definition IsDefaultPort :: "uri \<Rightarrow> bool" where
  "IsDefaultPort u =
     (if u_port u = 0 then True
      else if u_scheme u = ''http'' then u_port u = 80
      else if u_scheme u = ''https'' then u_port u = 443
      else False)"

definition Dump_uri :: "uri \<Rightarrow> string" where
  "Dump_uri u =
     u_scheme u @ ''://'' @ u_userinfo u @ (if u_userinfo u = [] then [] else ''@'') @ u_host u @
     (if IsDefaultPort u then [] else '':'' @ sdec (u_port u)) @ Uri_GetPath u @
     (if u_query u = [] then [] else ''?'') @ u_query u @ (if u_fragment u = [] then [] else ''#'') @ u_fragment u"

definition Uri_ToString :: "uri \<Rightarrow> string" where
  "Uri_ToString u = Dump_uri u"

text \<open>\<open>CreateAddress\<close>, over the lookup of the host and the port setter of the address.\<close>

definition Uri_CreateAddress :: "(string \<Rightarrow> 'a option) \<Rightarrow> (u16 \<Rightarrow> 'a \<Rightarrow> 'a) \<Rightarrow> uri \<Rightarrow> 'a option" where
  "Uri_CreateAddress lookup set_port u =
     map_option (set_port (word_of_int (Uri_GetPort u))) (lookup (u_host u))"

section \<open>Lemmas\<close>

text \<open>The port is left out exactly when it is the one a uri of the scheme has without naming any.\<close>

lemma IsDefaultPort_iff: "IsDefaultPort u \<longleftrightarrow> Uri_GetPort u = Uri_GetPort (u\<lparr>u_port := 0\<rparr>)"
  by (auto simp: IsDefaultPort_def Uri_GetPort_def)

lemma Dump_uri_port:
  "Uri_ToString (u\<lparr>u_port := m\<rparr>) = Uri_ToString (u\<lparr>u_port := n\<rparr>) \<longleftrightarrow>
     Uri_GetPort (u\<lparr>u_port := m\<rparr>) = Uri_GetPort (u\<lparr>u_port := n\<rparr>)"
proof -
  have eq: "Uri_ToString (u\<lparr>u_port := m\<rparr>) = Uri_ToString (u\<lparr>u_port := n\<rparr>) \<longleftrightarrow>
      (if IsDefaultPort (u\<lparr>u_port := m\<rparr>) then [] else '':'' @ sdec m) = (if IsDefaultPort (u\<lparr>u_port := n\<rparr>) then [] else '':'' @ sdec n)" for m n
    by (simp add: Uri_ToString_def Dump_uri_def Uri_GetPath_def)
  show ?thesis unfolding eq by (auto simp: sdec_inject IsDefaultPort_def Uri_GetPort_def)
qed

end
