(* ===== verification/HttpConnection.thy ===== *)
theory HttpConnection
  imports HttpSession Uri
begin

text \<open>
  The client side of HTTP (\<open>gudov/http/http_parser.cpp\<close> for responses,
  \<open>gudov/http/http_connection.{h,cpp}\<close>, the accessors of \<open>gudov/uri.{h,rl}\<close>): response parsing with
  fixed-length and chunked bodies, the building of requests, single requests and the connection pool.
  The generated response parser is an argument, like the one for requests; \<open>Uri::Create\<close>, address
  lookup and the outcome of connecting are arguments of the operations that use them.  The message
  texts of \<open>HttpResult\<close> are left out, its codes are not.

  The lemmas show which result codes a request can give, which \<open>Host\<close> header it carries, what a
  response's body is, and that the pool's count of connections is exact and which of them it reuses.
\<close>

section \<open>Response parser\<close>

datatype rsp_event =
    EvReason string nat
  | EvStatus string nat
  | EvChunk string nat
  | EvRspVersion string nat
  | EvRspHeaderDone string nat
  | EvLastChunk string nat
  | EvRspField string nat string nat

record 'p client_ragel =
  cg_new :: 'p
  cg_init :: "'p \<Rightarrow> 'p"
  cg_exec :: "string \<Rightarrow> 'p \<Rightarrow> int \<times> rsp_event list \<times> 'p"
  cg_finish :: "'p \<Rightarrow> bool"
  cg_error :: "'p \<Rightarrow> bool"
  cg_chunked :: "'p \<Rightarrow> bool"
  cg_chunks_done :: "'p \<Rightarrow> bool"
  cg_content_len :: "'p \<Rightarrow> int"

record 'p rsp_parser =
  sp_data :: http_response
  sp_error :: nat
  sp_state :: 'p

definition newResponseParser :: "'p client_ragel \<Rightarrow> 'p rsp_parser" where
  "newResponseParser g =
     \<lparr>sp_data = newHttpResponse 0x11 True, sp_error = 0, sp_state = cg_init g (cg_new g)\<rparr>"

definition on_response_reason :: "string \<Rightarrow> nat \<Rightarrow> 'p rsp_parser \<Rightarrow> 'p rsp_parser" where
  "on_response_reason at n p = p\<lparr>sp_data := (sp_data p)\<lparr>rs_reason := take n at\<rparr>\<rparr>"

definition on_response_status :: "string \<Rightarrow> nat \<Rightarrow> 'p rsp_parser \<Rightarrow> 'p rsp_parser" where
  "on_response_status at n p = p\<lparr>sp_data := (sp_data p)\<lparr>rs_status := atoi at\<rparr>\<rparr>"

definition on_response_version :: "string \<Rightarrow> nat \<Rightarrow> 'p rsp_parser \<Rightarrow> 'p rsp_parser" where
  "on_response_version at n p =
     (if strncmp_eq at ''HTTP/1.1'' n then p\<lparr>sp_data := (sp_data p)\<lparr>rs_version := 0x11\<rparr>\<rparr>
      else if strncmp_eq at ''HTTP/1.0'' n then p\<lparr>sp_data := (sp_data p)\<lparr>rs_version := 0x10\<rparr>\<rparr>
      else p\<lparr>sp_error := 1001\<rparr>)"

definition on_response_http_field ::
  "string \<Rightarrow> nat \<Rightarrow> string \<Rightarrow> nat \<Rightarrow> 'p rsp_parser \<Rightarrow> 'p rsp_parser" where
  "on_response_http_field field flen vtext vlen p =
     (if flen = 0 then p
      else p\<lparr>sp_data := rs_SetHeader (take flen field) (take vlen vtext) (sp_data p)\<rparr>)"

fun run_rsp_event :: "rsp_event \<Rightarrow> 'p rsp_parser \<Rightarrow> 'p rsp_parser" where
  "run_rsp_event (EvReason s n) p = on_response_reason s n p"
| "run_rsp_event (EvStatus s n) p = on_response_status s n p"
| "run_rsp_event (EvChunk s n) p = p"
| "run_rsp_event (EvRspVersion s n) p = on_response_version s n p"
| "run_rsp_event (EvRspHeaderDone s n) p = p"
| "run_rsp_event (EvLastChunk s n) p = p"
| "run_rsp_event (EvRspField f fl v vl) p = on_response_http_field f fl v vl p"

text \<open>\<open>execute\<close>; while chunks are read the parser is initialised again before every call.\<close>

definition rsp_execute ::
  "'p client_ragel \<Rightarrow> bool \<Rightarrow> string \<Rightarrow> 'p rsp_parser \<Rightarrow> (nat \<times> string \<times> 'p rsp_parser) res" where
  "rsp_execute g chunck data p =
     (let st0 = (if chunck then cg_init g (sp_state p) else sp_state p);
          (n, evs, st) = cg_exec g data st0
      in if n < 0 \<or> n > int (length data) then Inl OutOfBounds
         else Inr (nat n, drop (nat n) data, (fold run_rsp_event evs p)\<lparr>sp_state := st\<rparr>))"

definition rsp_IsFinished :: "'p client_ragel \<Rightarrow> 'p rsp_parser \<Rightarrow> bool" where
  "rsp_IsFinished g p \<longleftrightarrow> cg_finish g (sp_state p)"

definition rsp_HasError :: "'p client_ragel \<Rightarrow> 'p rsp_parser \<Rightarrow> bool" where
  "rsp_HasError g p \<longleftrightarrow> sp_error p \<noteq> 0 \<or> cg_error g (sp_state p)"

definition rsp_GetContentLength :: "(string \<Rightarrow> u64 option) \<Rightarrow> 'p rsp_parser \<Rightarrow> u64" where
  "rsp_GetContentLength cast p = GetAs cast (rs_headers (sp_data p)) ''content-length'' 0"

section \<open>Receiving a response\<close>

text \<open>
  The loop that reads until the parser is finished: the first loop of \<open>RecvResponse\<close> for the header
  and, with \<open>chunck\<close> set, its inner loop for the header of one chunk.
\<close>

fun RecvResponse_loop ::
  "'p client_ragel \<Rightarrow> bool \<Rightarrow> nat \<Rightarrow> nat \<Rightarrow> string \<Rightarrow> 'p rsp_parser \<Rightarrow> char conn \<Rightarrow>
     (('p rsp_parser \<times> string) option \<times> char conn) res" where
  "RecvResponse_loop g chunck buff_size 0 buf p c = Inl Diverges"
| "RecvResponse_loop g chunck buff_size (Suc k) buf p c =
     (case SocketStream_read (buff_size - length buf) c of
        None \<Rightarrow> Inl Diverges
      | Some (r, bs, c') \<Rightarrow>
          if r \<le> 0 then Inr (None, SocketStream_Close c')
          else bindR (rsp_execute g chunck (buf @ bs) p) (\<lambda>(n, rest, p').
            if rsp_HasError g p' then Inr (None, SocketStream_Close c')
            else if length rest = buff_size then Inr (None, SocketStream_Close c')
            else if rsp_IsFinished g p' then Inr (Some (p', rest), c')
            else RecvResponse_loop g chunck buff_size k rest p' c'))"

text \<open>The rest of a chunk that is not yet in the buffer.\<close>

fun RecvChunk_left :: "nat \<Rightarrow> nat \<Rightarrow> int \<Rightarrow> string \<Rightarrow> char conn \<Rightarrow> (string option \<times> char conn) res" where
  "RecvChunk_left buff_size 0 left body c = Inl Diverges"
| "RecvChunk_left buff_size (Suc k) left body c =
     (if left \<le> 0 then Inr (Some body, c)
      else case SocketStream_read (if left > int buff_size then buff_size else nat left) c of
        None \<Rightarrow> Inl Diverges
      | Some (r, bs, c') \<Rightarrow>
          if r \<le> 0 then Inr (None, SocketStream_Close c')
          else RecvChunk_left buff_size k (left - r) (body @ bs) c')"

text \<open>
  What is done with the buffer \<open>rest\<close> after the header of a chunk of \<open>clen\<close> bytes.  The length is
  reduced by two first; appending a negative number of characters throws.
\<close>

definition take_chunk ::
  "nat \<Rightarrow> nat \<Rightarrow> int \<Rightarrow> string \<Rightarrow> string \<Rightarrow> char conn \<Rightarrow> ((string \<times> string) option \<times> char conn) res" where
  "take_chunk buff_size fuel clen rest body c =
     (let len = int (length rest) - 2 in
      if clen \<le> len then
        (if clen < 0 then Inl LengthError
         else Inr (Some (body @ take (nat clen) rest, drop (nat clen) (take (nat len) rest)), c))
      else if len < 0 then Inl LengthError
      else bindR (RecvChunk_left buff_size fuel (clen - len) (body @ take (nat len) rest) c) (\<lambda>(b, c').
        Inr (map_option (\<lambda>body'. (body', [])) b, c')))"

fun RecvChunks ::
  "'p client_ragel \<Rightarrow> nat \<Rightarrow> nat \<Rightarrow> nat \<Rightarrow> string \<Rightarrow> string \<Rightarrow> 'p rsp_parser \<Rightarrow> char conn \<Rightarrow>
     (('p rsp_parser \<times> string) option \<times> char conn) res" where
  "RecvChunks g buff_size fuel 0 buf body p c = Inl Diverges"
| "RecvChunks g buff_size fuel (Suc k) buf body p c =
     bindR (RecvResponse_loop g True buff_size fuel buf p c) (\<lambda>(r, c1).
       case r of None \<Rightarrow> Inr (None, c1)
       | Some (p1, rest) \<Rightarrow>
           bindR (take_chunk buff_size fuel (cg_content_len g (sp_state p1)) rest body c1) (\<lambda>(b, c2).
             case b of None \<Rightarrow> Inr (None, c2)
             | Some (body', rest') \<Rightarrow>
                 if cg_chunks_done g (sp_state p1) then Inr (Some (p1, body'), c2)
                 else RecvChunks g buff_size fuel k rest' body' p1 c2))"

text \<open>A body of a known length; unlike on the server side the copy is bounded by it.\<close>

definition recv_rsp_body :: "nat \<Rightarrow> nat \<Rightarrow> int \<Rightarrow> string \<Rightarrow> char conn \<Rightarrow> (string option \<times> char conn) res" where
  "recv_rsp_body max_len fuel len rest c =
     (if len - int (length rest) > 0 then
        bindR (ReadFixSize SocketStream_read max_len fuel (nat len - length rest) c) (\<lambda>(r, cells, c').
          if r \<le> 0 then Inr (None, SocketStream_Close c')
          else case those cells of None \<Rightarrow> Inl Indeterminate | Some bs \<Rightarrow> Inr (Some (rest @ bs), c'))
      else Inr (Some (take (nat len) rest), c))"

definition RecvResponse_tail ::
  "'p client_ragel \<Rightarrow> (string \<Rightarrow> u64 option) \<Rightarrow> nat \<Rightarrow> nat \<Rightarrow> nat \<Rightarrow> 'p rsp_parser \<Rightarrow> string \<Rightarrow> char conn \<Rightarrow>
     (http_response option \<times> char conn) res" where
  "RecvResponse_tail g cast buff_size max_len fuel p rest c =
     (if cg_chunked g (sp_state p) then
        bindR (RecvChunks g buff_size fuel fuel rest [] p c) (\<lambda>(r, c1).
          case r of None \<Rightarrow> Inr (None, c1)
          | Some (p1, body) \<Rightarrow> Inr (Some ((sp_data p1)\<lparr>rs_body := body\<rparr>), c1))
      else let len = sint (rsp_GetContentLength cast p) in
        if len > 0 then
          bindR (recv_rsp_body max_len fuel len rest c) (\<lambda>(b, c1).
            case b of None \<Rightarrow> Inr (None, c1)
            | Some body \<Rightarrow> Inr (Some ((sp_data p)\<lparr>rs_body := body\<rparr>), c1))
        else Inr (Some (sp_data p), c))"

definition RecvResponse ::
  "'p client_ragel \<Rightarrow> (string \<Rightarrow> u64 option) \<Rightarrow> nat \<Rightarrow> nat \<Rightarrow> nat \<Rightarrow> char conn \<Rightarrow>
     (http_response option \<times> char conn) res" where
  "RecvResponse g cast buff_size max_len fuel c =
     bindR (RecvResponse_loop g False buff_size fuel [] (newResponseParser g) c) (\<lambda>(r, c1).
       case r of None \<Rightarrow> Inr (None, c1)
       | Some (p, rest) \<Rightarrow> RecvResponse_tail g cast buff_size max_len fuel p rest c1)"

definition SendRequest :: "nat \<Rightarrow> nat \<Rightarrow> http_request \<Rightarrow> char conn \<Rightarrow> (int \<times> char conn) res" where
  "SendRequest max_len fuel rq c = WriteFixSize SocketStream_write max_len fuel (Dump_request rq) c"

section \<open>Requests\<close>

datatype http_error =
    OK
  | INVALID_URL
  | INVALID_HOST
  | CONNECT_FAIL
  | SEND_CLOSE_BY_PEER
  | SEND_SOCKET_ERROR
  | TIMEOUT
  | CREATE_SOCKET_ERROR
  | POOL_GET_CONNECTION
  | POOL_INVALID_CONNECTION

record http_result =
  hr_result :: http_error
  hr_response :: "http_response option"

text \<open>One turn of the loop over the caller's headers: \<open>has_host\<close> and the request.\<close>

definition add_header :: "string \<times> string \<Rightarrow> bool \<times> http_request \<Rightarrow> bool \<times> http_request" where
  "add_header = (\<lambda>(k, v) (has_host, rq).
     if strcasecmp k ''connection'' = 0 then
       (has_host, if strcasecmp v ''keep-alive'' = 0 then rq\<lparr>rq_close := False\<rparr> else rq)
     else
       (if \<not> has_host \<and> strcasecmp k ''host'' = 0 then v \<noteq> [] else has_host, SetHeader k v rq))"

definition add_headers :: "hmap \<Rightarrow> string \<Rightarrow> http_request \<Rightarrow> http_request" where
  "add_headers headers host rq =
     (let (has_host, rq1) = fold add_header headers (False, rq)
      in if has_host then rq1 else SetHeader ''Host'' host rq1)"

definition build_request :: "nat \<Rightarrow> uri \<Rightarrow> hmap \<Rightarrow> string \<Rightarrow> http_request" where
  "build_request meth u headers body =
     (add_headers headers (u_host u)
        ((newHttpRequest 0x11 True)\<lparr>rq_path := Uri_GetPath u, rq_query := u_query u,
           rq_fragment := u_fragment u, rq_method := meth\<rparr>))\<lparr>rq_body := body\<rparr>"

text \<open>
  What a client needs of its surroundings: the generated parser, the number cast, the sizes and fuel
  of the loops, the lookup of hosts and what connecting to an address gives.
\<close>

record ('p, 'a) client_env =
  ce_parser :: "'p client_ragel"
  ce_cast :: "string \<Rightarrow> u64 option"
  ce_buff_size :: nat
  ce_max_len :: nat
  ce_fuel :: nat
  ce_lookup :: "string \<Rightarrow> 'a option"
  ce_set_port :: "u16 \<Rightarrow> 'a \<Rightarrow> 'a"
  ce_connect :: "'a \<Rightarrow> char conn option"

text \<open>Sending a request on a connection and waiting for the response, shared by both clients.\<close>

definition exchange ::
  "('p, 'a) client_env \<Rightarrow> http_request \<Rightarrow> char conn \<Rightarrow> (http_result \<times> char conn) res" where
  "exchange e rq c =
     bindR (SendRequest (ce_max_len e) (ce_fuel e) rq c) (\<lambda>(rt, c1).
       if rt = 0 then Inr (\<lparr>hr_result = SEND_CLOSE_BY_PEER, hr_response = None\<rparr>, c1)
       else if rt < 0 then Inr (\<lparr>hr_result = SEND_SOCKET_ERROR, hr_response = None\<rparr>, c1)
       else bindR (RecvResponse (ce_parser e) (ce_cast e) (ce_buff_size e) (ce_max_len e) (ce_fuel e) c1)
         (\<lambda>(rsp, c2). case rsp of
            None \<Rightarrow> Inr (\<lparr>hr_result = TIMEOUT, hr_response = None\<rparr>, c2)
          | Some r \<Rightarrow> Inr (\<lparr>hr_result = OK, hr_response = Some r\<rparr>, c2)))"

text \<open>
  \<open>DoRequest\<close> on a request, a uri, and on a url.  The connection is local: its destructor closes it.
\<close>

definition DoRequest_req ::
  "('p, 'a) client_env \<Rightarrow> http_request \<Rightarrow> uri \<Rightarrow> (http_result \<times> char conn option) res" where
  "DoRequest_req e rq u =
     (case Uri_CreateAddress (ce_lookup e) (ce_set_port e) u of
        None \<Rightarrow> Inr (\<lparr>hr_result = INVALID_HOST, hr_response = None\<rparr>, None)
      | Some addr \<Rightarrow>
          (case ce_connect e addr of
             None \<Rightarrow> Inr (\<lparr>hr_result = CONNECT_FAIL, hr_response = None\<rparr>, None)
           | Some c \<Rightarrow>
               bindR (exchange e rq c) (\<lambda>(r, c'). Inr (r, Some (SocketStream_Close c')))))"

definition DoRequest_uri ::
  "('p, 'a) client_env \<Rightarrow> nat \<Rightarrow> uri \<Rightarrow> hmap \<Rightarrow> string \<Rightarrow> (http_result \<times> char conn option) res" where
  "DoRequest_uri e meth u headers body = DoRequest_req e (build_request meth u headers body) u"

definition DoRequest ::
  "('p, 'a) client_env \<Rightarrow> (string \<Rightarrow> uri option) \<Rightarrow> nat \<Rightarrow> string \<Rightarrow> hmap \<Rightarrow> string \<Rightarrow>
     (http_result \<times> char conn option) res" where
  "DoRequest e uri_create meth url headers body =
     (case uri_create url of
        None \<Rightarrow> Inr (\<lparr>hr_result = INVALID_URL, hr_response = None\<rparr>, None)
      | Some u \<Rightarrow> DoRequest_uri e meth u headers body)"

definition DoGet ::
  "('p, 'a) client_env \<Rightarrow> (string \<Rightarrow> uri option) \<Rightarrow> string \<Rightarrow> hmap \<Rightarrow> string \<Rightarrow>
     (http_result \<times> char conn option) res" where
  "DoGet e uri_create url headers body =
     (case uri_create url of
        None \<Rightarrow> Inr (\<lparr>hr_result = INVALID_URL, hr_response = None\<rparr>, None)
      | Some u \<Rightarrow> DoRequest_uri e 1 u headers body)"

definition DoPost ::
  "('p, 'a) client_env \<Rightarrow> (string \<Rightarrow> uri option) \<Rightarrow> string \<Rightarrow> hmap \<Rightarrow> string \<Rightarrow>
     (http_result \<times> char conn option) res" where
  "DoPost e uri_create url headers body =
     (case uri_create url of
        None \<Rightarrow> Inr (\<lparr>hr_result = INVALID_URL, hr_response = None\<rparr>, None)
      | Some u \<Rightarrow> DoRequest_uri e 3 u headers body)"

section \<open>The connection pool\<close>

record http_conn =
  hc_conn :: "char conn"
  hc_create_time :: u64
  hc_request :: u64

definition newHttpConnection :: "char conn \<Rightarrow> http_conn" where
  "newHttpConnection c = \<lparr>hc_conn = c, hc_create_time = 0, hc_request = 0\<rparr>"

record pool =
  pl_host :: string
  pl_vhost :: string
  pl_port :: u32
  pl_max_size :: u32
  pl_max_alive_time :: u32
  pl_max_request :: u32
  pl_conns :: "http_conn list"
  pl_total :: u32

definition newPool :: "string \<Rightarrow> string \<Rightarrow> u32 \<Rightarrow> u32 \<Rightarrow> u32 \<Rightarrow> u32 \<Rightarrow> pool" where
  "newPool host vhost port max_size max_alive_time max_request =
     \<lparr>pl_host = host, pl_vhost = vhost, pl_port = port, pl_max_size = max_size,
      pl_max_alive_time = max_alive_time, pl_max_request = max_request, pl_conns = [], pl_total = 0\<rparr>"

text \<open>
  The loop under the lock: the connections set aside, the one taken and those left.  The time is
  \<open>GetCurrentMS()\<close>; sums are 64-bit.
\<close>

fun pick_conn ::
  "u32 \<Rightarrow> u64 \<Rightarrow> http_conn list \<Rightarrow> http_conn list \<times> http_conn option \<times> http_conn list" where
  "pick_conn max_alive now [] = ([], None, [])"
| "pick_conn max_alive now (c # cs) =
     (if \<not> SocketStream_IsConnected (hc_conn c) \<or> hc_create_time c + ucast max_alive > now then
        (let (bad, r, rest) = pick_conn max_alive now cs in (c # bad, r, rest))
      else ([], Some c, cs))"

text \<open>Opening a connection: the lookup of the host, the port, the connect.\<close>

definition open_conn :: "('p, 'a) client_env \<Rightarrow> pool \<Rightarrow> char conn option" where
  "open_conn e pl =
     (case ce_lookup e (pl_host pl) of
        None \<Rightarrow> None
      | Some addr \<Rightarrow> ce_connect e (ce_set_port e (ucast (pl_port pl)) addr))"

text \<open>\<open>fresh\<close> is what opening a connection gives; it is used only when the pool has none to offer.\<close>

definition take_conn :: "char conn option \<Rightarrow> u64 \<Rightarrow> pool \<Rightarrow> http_conn option \<times> pool" where
  "take_conn fresh now pl =
     (let (bad, r, rest) = pick_conn (pl_max_alive_time pl) now (pl_conns pl);
          pl1 = pl\<lparr>pl_conns := rest, pl_total := pl_total pl - word_of_nat (length bad)\<rparr>
      in case r of
           Some c \<Rightarrow> (Some c, pl1)
         | None \<Rightarrow>
             (case fresh of
                None \<Rightarrow> (None, pl1)
              | Some c \<Rightarrow> (Some (newHttpConnection c), pl1\<lparr>pl_total := pl_total pl1 + 1\<rparr>)))"

definition GetConnection ::
  "('p, 'a) client_env \<Rightarrow> u64 \<Rightarrow> pool \<Rightarrow> http_conn option \<times> pool" where
  "GetConnection e now pl = take_conn (open_conn e pl) now pl"

definition ReleasePtr :: "u64 \<Rightarrow> http_conn \<Rightarrow> pool \<Rightarrow> pool" where
  "ReleasePtr now c pl =
     (let c1 = c\<lparr>hc_request := hc_request c + 1\<rparr> in
      if \<not> SocketStream_IsConnected (hc_conn c1) \<or> hc_create_time c1 + ucast (pl_max_alive_time pl) \<ge> now
         \<or> hc_request c1 \<ge> ucast (pl_max_request pl)
      then pl\<lparr>pl_total := pl_total pl - 1\<rparr>
      else pl\<lparr>pl_conns := pl_conns pl @ [c1]\<rparr>)"

text \<open>
  \<open>doRequest\<close> on a request: the connection is taken at time \<open>t1\<close> and goes back at time \<open>t2\<close>.  Every
  connection of the pool has a socket, so the test for one never fails.
\<close>

definition pool_doRequest_req ::
  "('p, 'a) client_env \<Rightarrow> u64 \<Rightarrow> u64 \<Rightarrow> http_request \<Rightarrow> pool \<Rightarrow> (http_result \<times> pool) res" where
  "pool_doRequest_req e t1 t2 rq pl =
     (let (r, pl1) = GetConnection e t1 pl in
      case r of
        None \<Rightarrow> Inr (\<lparr>hr_result = POOL_GET_CONNECTION, hr_response = None\<rparr>, pl1)
      | Some c \<Rightarrow>
          bindR (exchange e rq (hc_conn c)) (\<lambda>(res, c').
            Inr (res, ReleasePtr t2 (c\<lparr>hc_conn := c'\<rparr>) pl1)))"

definition pool_request :: "pool \<Rightarrow> nat \<Rightarrow> string \<Rightarrow> hmap \<Rightarrow> string \<Rightarrow> http_request" where
  "pool_request pl meth url headers body =
     (add_headers headers (if pl_vhost pl = [] then pl_host pl else pl_vhost pl)
        ((newHttpRequest 0x11 True)\<lparr>rq_path := url, rq_method := meth, rq_close := False\<rparr>))\<lparr>rq_body := body\<rparr>"

definition pool_doRequest ::
  "('p, 'a) client_env \<Rightarrow> u64 \<Rightarrow> u64 \<Rightarrow> nat \<Rightarrow> string \<Rightarrow> hmap \<Rightarrow> string \<Rightarrow> pool \<Rightarrow> (http_result \<times> pool) res" where
  "pool_doRequest e t1 t2 meth url headers body pl =
     pool_doRequest_req e t1 t2 (pool_request pl meth url headers body) pl"

definition uri_target :: "uri \<Rightarrow> string" where
  "uri_target u = Uri_GetPath u @ (if u_query u = [] then [] else ''?'') @ u_query u @
     (if u_fragment u = [] then [] else ''#'') @ u_fragment u"

definition pool_doRequest_uri ::
  "('p, 'a) client_env \<Rightarrow> u64 \<Rightarrow> u64 \<Rightarrow> nat \<Rightarrow> uri \<Rightarrow> hmap \<Rightarrow> string \<Rightarrow> pool \<Rightarrow> (http_result \<times> pool) res" where
  "pool_doRequest_uri e t1 t2 meth u headers body pl =
     pool_doRequest e t1 t2 meth (uri_target u) headers body pl"

definition pool_doGet ::
  "('p, 'a) client_env \<Rightarrow> u64 \<Rightarrow> u64 \<Rightarrow> string \<Rightarrow> hmap \<Rightarrow> string \<Rightarrow> pool \<Rightarrow> (http_result \<times> pool) res" where
  "pool_doGet e t1 t2 url headers body pl = pool_doRequest e t1 t2 1 url headers body pl"

definition pool_doGet_uri ::
  "('p, 'a) client_env \<Rightarrow> u64 \<Rightarrow> u64 \<Rightarrow> uri \<Rightarrow> hmap \<Rightarrow> string \<Rightarrow> pool \<Rightarrow> (http_result \<times> pool) res" where
  "pool_doGet_uri e t1 t2 u headers body pl = pool_doGet e t1 t2 (uri_target u) headers body pl"

definition pool_doPost ::
  "('p, 'a) client_env \<Rightarrow> u64 \<Rightarrow> u64 \<Rightarrow> string \<Rightarrow> hmap \<Rightarrow> string \<Rightarrow> pool \<Rightarrow> (http_result \<times> pool) res" where
  "pool_doPost e t1 t2 url headers body pl = pool_doRequest e t1 t2 3 url headers body pl"

definition pool_doPost_uri ::
  "('p, 'a) client_env \<Rightarrow> u64 \<Rightarrow> u64 \<Rightarrow> uri \<Rightarrow> hmap \<Rightarrow> string \<Rightarrow> pool \<Rightarrow> (http_result \<times> pool) res" where
  "pool_doPost_uri e t1 t2 u headers body pl = pool_doPost e t1 t2 (uri_target u) headers body pl"

section \<open>Lemmas\<close>

lemma exchange_codes:
  assumes "exchange e rq c = Inr (res, c')" "length (Dump_request rq) < 2 ^ 31"
  shows "hr_result res \<in> {OK, SEND_CLOSE_BY_PEER, TIMEOUT}" "hr_response res \<noteq> None \<longleftrightarrow> hr_result res = OK"
proof -
  from assms(1) obtain rt c1 where w: "SendRequest (ce_max_len e) (ce_fuel e) rq c = Inr (rt, c1)"
    by (auto simp: exchange_def bindR_def split: sum.splits)
  have "rt \<ge> 0" using WriteFixSize_result [OF w [unfolded SendRequest_def] assms(2)] by auto
  with assms(1) w show "hr_result res \<in> {OK, SEND_CLOSE_BY_PEER, TIMEOUT}"
    "hr_response res \<noteq> None \<longleftrightarrow> hr_result res = OK"
    by (auto simp: exchange_def bindR_def split: sum.splits if_splits option.splits)
qed

text \<open>The header loop: which entries are copied and when a host has been seen.\<close>

definition is_name :: "string \<Rightarrow> string \<times> string \<Rightarrow> bool" where
  "is_name n kv \<longleftrightarrow> strcasecmp (fst kv) n = 0"

lemma add_header_cases:
  "add_header kv (hh, rq) = (if is_name ''connection'' kv
     then (hh, if strcasecmp (snd kv) ''keep-alive'' = 0 then rq\<lparr>rq_close := False\<rparr> else rq)
     else (hh \<or> is_name ''host'' kv \<and> snd kv \<noteq> [], SetHeader (fst kv) (snd kv) rq))"
  by (cases kv) (auto simp: add_header_def is_name_def)

lemma add_headers_fold:
  "rq_headers (snd (fold add_header hs (hh, rq))) =
     fold (\<lambda>(k, v). map_assign CaseInsensitiveLess k v) (filter (Not \<circ> is_name ''connection'') hs) (rq_headers rq)"
  by (induction hs arbitrary: hh rq) (auto simp: add_header_cases SetHeader_def split_beta)

lemma add_headers_has_host:
  "fst (fold add_header hs (hh, rq)) \<longleftrightarrow>
     hh \<or> (\<exists>kv\<in>set hs. \<not> is_name ''connection'' kv \<and> is_name ''host'' kv \<and> snd kv \<noteq> [])"
  by (induction hs arbitrary: hh rq) (auto simp: add_header_cases)

lemma is_name_fold_case: "is_name n kv \<longleftrightarrow> fold_case (fst kv) = fold_case n"
  by (simp add: is_name_def strcasecmp_zero)

lemma host_not_connection: "is_name ''host'' kv \<Longrightarrow> \<not> is_name ''connection'' kv"
  by (simp add: is_name_fold_case) (simp add: fold_case_def cstr_def of_char_tolower)

lemma find_filter_implies:
  "(\<And>x. P x \<Longrightarrow> Q x) \<Longrightarrow> find P (filter Q xs) = find P xs"
  by (induction xs) auto

lemma hmap_wf_fold_assign:
  "hmap_wf m \<Longrightarrow> hmap_wf (fold (\<lambda>(k, v). map_assign CaseInsensitiveLess k v) kvs m)"
  by (induction kvs arbitrary: m) (auto intro: hmap_wf_assign)

lemma add_headers_host:
  assumes "rq_headers rq = []"
  shows "GetHeader ''host'' [] (add_headers hs host rq) =
    (if \<exists>kv\<in>set hs. is_name ''host'' kv \<and> snd kv \<noteq> []
     then snd (the (find (is_name ''host'') (rev hs))) else host)"
proof -
  obtain hh rq1 where f: "fold add_header hs (False, rq) = (hh, rq1)" by (cases "fold add_header hs (False, rq)")
  have hd: "rq_headers rq1 = fold (\<lambda>(k, v). map_assign CaseInsensitiveLess k v)
      (filter (Not \<circ> is_name ''connection'') hs) []"
    using add_headers_fold [of hs False rq] by (simp add: f assms)
  have hh: "hh \<longleftrightarrow> (\<exists>kv\<in>set hs. is_name ''host'' kv \<and> snd kv \<noteq> [])"
    using add_headers_has_host [of hs False rq] host_not_connection by (auto simp: f)
  have wf: "hmap_wf (rq_headers rq1)" unfolding hd by (rule hmap_wf_fold_assign) (simp add: hmap_wf_def)
  have hst: "fold_case ''Host'' = fold_case ''host''" by (simp add: fold_case_def cstr_def of_char_tolower)
  have look: "map_find CaseInsensitiveLess ''host'' (rq_headers rq1) =
      map_option snd (find (is_name ''host'') (rev hs))"
  proof -
    have "map_find CaseInsensitiveLess ''host'' (rq_headers rq1) =
      (case find (\<lambda>(k, v). fold_case k = fold_case ''host'')
         (rev (filter (Not \<circ> is_name ''connection'') hs)) of Some (_, v) \<Rightarrow> Some v | None \<Rightarrow> None)"
      using hdr.mp.lookup_fold_assign [of "[]" "''host''" "filter (Not \<circ> is_name ''connection'') hs"]
      by (simp add: hd split: option.split)
    also have "(\<lambda>(k, v). fold_case k = fold_case ''host'') = is_name ''host''"
      by (auto simp: is_name_fold_case)
    also have "find (is_name ''host'') (rev (filter (Not \<circ> is_name ''connection'') hs)) =
        find (is_name ''host'') (rev hs)"
      unfolding rev_filter by (rule find_filter_implies) (simp add: host_not_connection)
    finally show ?thesis by (simp split: option.splits)
  qed
  show ?thesis
  proof (cases hh)
    case True
    with hh have "\<exists>kv\<in>set hs. is_name ''host'' kv \<and> snd kv \<noteq> []" by blast
    moreover from this obtain kv where "find (is_name ''host'') (rev hs) = Some kv"
      by (cases "find (is_name ''host'') (rev hs)") (auto simp: find_None_iff)
    ultimately show ?thesis using True f look
      by (simp add: add_headers_def GetHeader_def get_or_def)
  next
    case False
    have "map_find CaseInsensitiveLess ''host'' (map_assign CaseInsensitiveLess ''Host'' host (rq_headers rq1)) = Some host"
      using hdr.mp.lookup_assign [of "rq_headers rq1" "''host''" "''Host''" host] wf hst by (simp add: hmap_wf_def)
    moreover have "\<not> (\<exists>kv\<in>set hs. is_name ''host'' kv \<and> snd kv \<noteq> [])" using False hh by blast
    ultimately show ?thesis using False f
      by (simp add: add_headers_def GetHeader_def get_or_def SetHeader_def del: bex_simps ball_simps)
  qed
qed

section \<open>The pool as a system\<close>

text \<open>
  The pool with the connections handed out and not yet given back.  A holder may use its connection
  in any way; what opening a connection gives may differ from step to step.
\<close>

inductive pool_step :: "pool \<times> http_conn list \<Rightarrow> pool \<times> http_conn list \<Rightarrow> bool" where
  get: "take_conn fresh now pl = (Some c, pl') \<Longrightarrow> pool_step (pl, out) (pl', c # out)"
| get_fail: "take_conn fresh now pl = (None, pl') \<Longrightarrow> pool_step (pl, out) (pl', out)"
| use: "i < length out \<Longrightarrow> pool_step (pl, out) (pl, out[i := (out ! i)\<lparr>hc_conn := c\<rparr>])"
| release: "i < length out \<Longrightarrow>
    pool_step (pl, out) (ReleasePtr now (out ! i) pl, take i out @ drop (Suc i) out)"

inductive_cases pool_stepE: "pool_step (pl, out) s"

inductive pool_reach :: "pool \<Rightarrow> pool \<times> http_conn list \<Rightarrow> bool" for pl0 where
  start: "pool_reach pl0 (pl0, [])"
| step: "pool_reach pl0 s \<Longrightarrow> pool_step s s' \<Longrightarrow> pool_reach pl0 s'"

definition pool_inv :: "u32 \<Rightarrow> u32 \<Rightarrow> pool \<times> http_conn list \<Rightarrow> bool" where
  "pool_inv max_alive max_request = (\<lambda>(pl, out).
     pl_max_alive_time pl = max_alive \<and> pl_max_request pl = max_request \<and>
     pl_total pl = word_of_nat (length (pl_conns pl) + length out) \<and>
     (\<forall>c \<in> set (pl_conns pl) \<union> set out. hc_create_time c = 0) \<and>
     (\<forall>c \<in> set (pl_conns pl). hc_request c < ucast max_request))"

lemma pick_conn_split:
  assumes "pick_conn m now cs = (bad, r, rest)"
  shows "cs = bad @ (case r of None \<Rightarrow> [] | Some c \<Rightarrow> [c]) @ rest" "r = None \<Longrightarrow> rest = []"
  using assms by (induction m now cs arbitrary: bad rule: pick_conn.induct)
    (auto split: if_splits prod.splits)

lemma take_conn_inv:
  assumes "take_conn fresh now pl = (r, pl')" "pool_inv a m (pl, out)"
  shows "pool_inv a m (pl', (case r of None \<Rightarrow> out | Some c \<Rightarrow> c # out))"
proof -
  obtain bad q rest where pick: "pick_conn (pl_max_alive_time pl) now (pl_conns pl) = (bad, q, rest)"
    by (cases "pick_conn (pl_max_alive_time pl) now (pl_conns pl)") auto
  note split = pick_conn_split [OF pick]
  have inv: "pl_max_alive_time pl = a" "pl_max_request pl = m"
    "pl_total pl = word_of_nat (length (pl_conns pl) + length out)"
    "\<forall>c \<in> set (pl_conns pl) \<union> set out. hc_create_time c = 0" "\<forall>c \<in> set (pl_conns pl). hc_request c < ucast m"
    using assms(2) by (auto simp: pool_inv_def)
  show ?thesis
  proof (cases q)
    case (Some c)
    then have "pl_conns pl = bad @ c # rest" using split(1) by simp
    moreover have "r = Some c" "pl' = pl\<lparr>pl_conns := rest, pl_total := pl_total pl - word_of_nat (length bad)\<rparr>"
      using assms(1) Some by (simp_all add: take_conn_def pick Let_def)
    ultimately show ?thesis using inv by (auto simp: pool_inv_def)
  next
    case None
    then have bad: "pl_conns pl = bad" "rest = []" using split by simp_all
    have "(r = None \<and> pl' = pl\<lparr>pl_conns := [], pl_total := word_of_nat (length out)\<rparr>) \<or>
      (\<exists>c. r = Some (newHttpConnection c) \<and> pl' = pl\<lparr>pl_conns := [], pl_total := word_of_nat (length out) + 1\<rparr>)"
      using assms(1) None inv(3) bad by (auto simp: take_conn_def pick Let_def split: option.splits)
    then show ?thesis using inv(1,2,4) by (auto simp: pool_inv_def newHttpConnection_def)
  qed
qed

lemma ReleasePtr_inv:
  assumes "pool_inv a m (pl, xs @ c # ys)"
  shows "pool_inv a m (ReleasePtr now c pl, xs @ ys)"
  using assms by (auto simp: pool_inv_def ReleasePtr_def Let_def not_le)

lemma pool_step_inv:
  assumes "pool_step s s'" "pool_inv a m s"
  shows "pool_inv a m s'"
  using assms
proof cases
  case (get fresh now pl c pl' out)
  then show ?thesis using take_conn_inv [of fresh now pl "Some c" pl' a m out] assms(2) by simp
next
  case (get_fail fresh now pl pl' out)
  then show ?thesis using take_conn_inv [of fresh now pl None pl' a m out] assms(2) by simp
next
  case (use i out pl c)
  then show ?thesis using assms(2)
    by (auto simp: pool_inv_def dest!: set_update_subset_insert [THEN subsetD])
next
  case (release i out pl now)
  then show ?thesis
    using ReleasePtr_inv [of a m pl "take i out" "out ! i" "drop (Suc i) out" now] assms(2)
    by (simp add: id_take_nth_drop [symmetric])
qed

lemma pool_reach_inv:
  assumes "pool_reach pl0 s" "pl0 = newPool host vhost port size_max alive_max rq_max"
  shows "pool_inv alive_max rq_max s"
  using assms(1)
proof induction
  case start
  then show ?case using assms(2) by (simp add: pool_inv_def newPool_def)
next
  case (step s s')
  then show ?case by (blast intro: pool_step_inv)
qed

lemma pick_conn_never_created:
  assumes "\<forall>c\<in>set cs. hc_create_time c = 0"
  shows "pick_conn m now cs =
    (if ucast m > now then (cs, None, [])
     else (takeWhile (\<lambda>c. \<not> alive (hc_conn c)) cs, find (\<lambda>c. alive (hc_conn c)) cs,
           tl (dropWhile (\<lambda>c. \<not> alive (hc_conn c)) cs)))"
  using assms by (induction cs) (auto simp: SocketStream_IsConnected_def)

lemma take_chunk_buffered:
  "take_chunk buff_size fuel (int (length data)) (data @ crlf @ tl1) body c =
     Inr (Some (body @ data, take (length tl1) (crlf @ tl1)), c)"
  by (simp add: take_chunk_def crlf_def Let_def nat_add_distrib)

lemma recv_rsp_body_complete:
  assumes "0 < len" "nat len - length rest \<le> length (conn_pend c)" "nat len < 2 ^ 31" "0 < max_len" "nat len < fuel"
  shows "\<exists>c'. recv_rsp_body max_len fuel len rest c = Inr (Some (take (nat len) (rest @ conn_pend c)), c')"
proof (cases "len - int (length rest) > 0")
  case True
  let ?n = "nat len - length rest"
  have n: "?n < 2 ^ 31" "?n < 2 ^ 64" "?n < fuel" using assms(3,5) by simp_all
  from ss.ReadFixSize_complete [OF assms(2) n(2) assms(4) n(3)] as_int_small [OF n(1)] obtain c' where
    "ReadFixSize SocketStream_read max_len fuel ?n c = Inr (int ?n, map Some (take ?n (conn_pend c)), c')"
    by auto
  then show ?thesis using True by (simp add: recv_rsp_body_def)
qed (simp add: recv_rsp_body_def)

section \<open>Properties\<close>

text \<open>
  C22. The result codes of a single request: for a request of fewer than \<open>2 ^ 31\<close> characters the result
  is one of \<open>OK\<close>, \<open>INVALID_HOST\<close>, \<open>CONNECT_FAIL\<close>, \<open>SEND_CLOSE_BY_PEER\<close> and \<open>TIMEOUT\<close>, a response comes
  exactly with \<open>OK\<close>, and a connection that was opened is closed at the end.  In particular an error of
  the socket while sending is never reported as \<open>SEND_SOCKET_ERROR\<close>.
\<close>

theorem DoRequest_codes:
  assumes "DoRequest_req e rq u = Inr (res, oc)" "length (Dump_request rq) < 2 ^ 31"
  shows "hr_result res \<in> {OK, INVALID_HOST, CONNECT_FAIL, SEND_CLOSE_BY_PEER, TIMEOUT}
    \<and> (hr_response res \<noteq> None \<longleftrightarrow> hr_result res = OK)
    \<and> (oc = None \<longleftrightarrow> hr_result res \<in> {INVALID_HOST, CONNECT_FAIL})
    \<and> (oc \<noteq> None \<longrightarrow> \<not> alive (the oc))"
proof (cases "Uri_CreateAddress (ce_lookup e) (ce_set_port e) u")
  case None
  then show ?thesis using assms(1) by (auto simp: DoRequest_req_def)
next
  case (Some addr)
  show ?thesis
  proof (cases "ce_connect e addr")
    case None
    then show ?thesis using assms(1) Some by (auto simp: DoRequest_req_def)
  next
    case (Some c)
    with assms(1) \<open>Uri_CreateAddress _ _ _ = Some addr\<close> obtain c' where
      ex: "exchange e rq c = Inr (res, c')" and oc: "oc = Some (SocketStream_Close c')"
      by (auto simp: DoRequest_req_def bindR_def split: sum.splits)
    show ?thesis using exchange_codes [OF ex assms(2)] oc by (auto simp: SocketStream_Close_def)
  qed
qed

definition demo_env :: "(unit, unit) client_env" where
  "demo_env = \<lparr>ce_parser = undefined, ce_cast = (\<lambda>_. None), ce_buff_size = 64, ce_max_len = 16, ce_fuel = 2,
     ce_lookup = (\<lambda>h. Some ()), ce_set_port = (\<lambda>p a. a),
     ce_connect = (\<lambda>a. Some \<lparr>alive = True, inp = [], outp = [WTake 0], sent = []\<rparr>)\<rparr>"

definition demo_uri :: uri where
  "demo_uri = \<lparr>u_scheme = ''http'', u_userinfo = [], u_host = ''h'', u_path = [], u_query = [],
     u_fragment = [], u_port = 0\<rparr>"

lemma demo_request_text:
  "Dump_request (newHttpRequest 0x11 True) = ''GET / HTTP/1.1'' @ crlf @ ''connection: close'' @ crlf @ crlf"
  by (simp add: Dump_request_def newHttpRequest_def HttpMethodToString_def HTTP_METHOD_MAP_def version_text_def
      dec.simps digit_def char_of_def bit_0 connection_line_def header_lines_def body_part_def)

lemma demo_exchange:
  "DoRequest_req demo_env (newHttpRequest 0x11 True) demo_uri =
     Inr (\<lparr>hr_result = SEND_CLOSE_BY_PEER, hr_response = None\<rparr>,
       Some \<lparr>alive = False, inp = [], outp = [], sent = []\<rparr>)"
  by (simp add: DoRequest_req_def demo_env_def Uri_CreateAddress_def exchange_def SendRequest_def WriteFixSize_def
      demo_request_text crlf_def SocketStream_write_def SocketStream_IsConnected_def sock_Send_def as_size_def
      eval_nat_numeral SocketStream_Close_def)

theorem DoRequest_codes_witness:
  "DoRequest_req demo_env (newHttpRequest 0x11 True) demo_uri =
     Inr (\<lparr>hr_result = SEND_CLOSE_BY_PEER, hr_response = None\<rparr>,
       Some \<lparr>alive = False, inp = [], outp = [], sent = []\<rparr>) \<and> SEND_CLOSE_BY_PEER \<noteq> SEND_SOCKET_ERROR"
  using DoRequest_codes [OF demo_exchange] demo_exchange by (simp add: demo_request_text crlf_def)

text \<open>
  The \<open>Host\<close> header of a built request: when some entry of the caller's headers is named \<open>host\<close>, in
  any case, with a text that is not empty, the request carries the text of the last such-named entry;
  otherwise it carries the host of the uri.
\<close>

theorem request_host:
  "GetHeader ''host'' [] (build_request meth u hs body) =
    (if \<exists>kv\<in>set hs. is_name ''host'' kv \<and> snd kv \<noteq> []
     then snd (the (find (is_name ''host'') (rev hs))) else u_host u)"
  using add_headers_host [of "(newHttpRequest 0x11 True)\<lparr>rq_path := Uri_GetPath u, rq_query := u_query u,
      rq_fragment := u_fragment u, rq_method := meth\<rparr>" hs "u_host u"]
  by (simp add: build_request_def GetHeader_def newHttpRequest_def)

text \<open>
  C15. The pool's books: in every state reachable from a new pool, whatever its users, the clock and
  the network do, the count of connections is (modulo \<open>2 ^ 32\<close>) the number of pooled ones and of those
  handed out, no connection has a creation time other than zero, and every pooled connection has
  served fewer requests than the limit.
\<close>

theorem pool_books:
  assumes "pool_reach (newPool host vhost port size_max alive_max rq_max) (pl, out)"
  shows "pl_total pl = word_of_nat (length (pl_conns pl) + length out)
    \<and> (\<forall>c \<in> set (pl_conns pl) \<union> set out. hc_create_time c = 0)
    \<and> (\<forall>c \<in> set (pl_conns pl). hc_request c < ucast rq_max)"
  using pool_reach_inv [OF assms refl] by (simp add: pool_inv_def)

definition demo_hconn :: "char conn" where
  "demo_hconn = \<lparr>alive = True, inp = [], outp = [], sent = []\<rparr>"

definition demo_pool :: pool where "demo_pool = newPool ''h'' [] 80 10 30000 5"

lemma demo_pool_reach: "\<exists>pl. pool_reach demo_pool (pl, []) \<and>
    pl_conns pl = [\<lparr>hc_conn = demo_hconn, hc_create_time = 0, hc_request = 1\<rparr>]"
proof -
  have "pool_step (demo_pool, []) (demo_pool\<lparr>pl_total := 1\<rparr>, [newHttpConnection demo_hconn])"
    by (rule pool_step.get [of "Some demo_hconn" 99999]) (simp add: take_conn_def demo_pool_def newPool_def)
  moreover have "pool_step (demo_pool\<lparr>pl_total := 1\<rparr>, [newHttpConnection demo_hconn])
      (ReleasePtr 99999 (newHttpConnection demo_hconn) (demo_pool\<lparr>pl_total := 1\<rparr>), [])"
    using pool_step.release [of 0 "[newHttpConnection demo_hconn]" "demo_pool\<lparr>pl_total := 1\<rparr>" 99999] by simp
  ultimately have "pool_reach demo_pool
      (ReleasePtr 99999 (newHttpConnection demo_hconn) (demo_pool\<lparr>pl_total := 1\<rparr>), [])"
    by (blast intro: pool_reach.intros)
  moreover have "pl_conns (ReleasePtr 99999 (newHttpConnection demo_hconn) (demo_pool\<lparr>pl_total := 1\<rparr>)) =
      [\<lparr>hc_conn = demo_hconn, hc_create_time = 0, hc_request = 1\<rparr>]"
    by (simp add: ReleasePtr_def newHttpConnection_def demo_hconn_def demo_pool_def newPool_def
        SocketStream_IsConnected_def Let_def word_le_nat_alt)
  ultimately show ?thesis by blast
qed

theorem pool_books_witness:
  "\<exists>pl. pool_reach demo_pool (pl, []) \<and> length (pl_conns pl) = 1 \<and> pl_total pl = 1"
proof -
  obtain pl where "pool_reach demo_pool (pl, [])" "length (pl_conns pl) = 1"
    using demo_pool_reach by auto
  then show ?thesis using pool_books [of "''h''" "[]" 80 10 30000 5 pl "[]"] by (auto simp: demo_pool_def)
qed

text \<open>
  What the pool reuses: in every reachable state, once the clock has passed \<open>max_alive_time\<close>, a
  request for a connection drops the closed ones at the front and hands out the first open one however
  long it has been pooled, and opens a new one only when there is none; before that time every pooled
  connection is dropped.  The lifetime is thus compared the wrong way round and never ends a
  connection.
\<close>

theorem pool_reuse:
  assumes "pool_reach (newPool host vhost port size_max alive_max rq_max) (pl, out)"
  shows "fst (GetConnection e now pl) =
    (if ucast alive_max \<le> now \<and> (\<exists>c\<in>set (pl_conns pl). alive (hc_conn c))
     then find (\<lambda>c. alive (hc_conn c)) (pl_conns pl)
     else map_option newHttpConnection (open_conn e pl))
    \<and> (now < ucast alive_max \<longrightarrow> pl_conns (snd (GetConnection e now pl)) = [])"
proof -
  have "\<forall>c\<in>set (pl_conns pl). hc_create_time c = 0" "pl_max_alive_time pl = alive_max"
    using pool_reach_inv [OF assms refl] by (auto simp: pool_inv_def)
  note pick = pick_conn_never_created [OF this(1), of alive_max now] this(2)
  have some: "(\<exists>c\<in>set (pl_conns pl). alive (hc_conn c)) \<longleftrightarrow> find (\<lambda>c. alive (hc_conn c)) (pl_conns pl) \<noteq> None"
    by (auto simp: find_None_iff)
  show ?thesis unfolding some
    by (auto simp: GetConnection_def take_conn_def pick Let_def not_le not_less split: option.splits)
qed

theorem pool_reuse_witness:
  "\<exists>pl. pool_reach demo_pool (pl, []) \<and>
     fst (GetConnection demo_env 99999999 pl) = Some \<lparr>hc_conn = demo_hconn, hc_create_time = 0, hc_request = 1\<rparr>"
proof -
  obtain pl where pl: "pool_reach demo_pool (pl, [])"
    "pl_conns pl = [\<lparr>hc_conn = demo_hconn, hc_create_time = 0, hc_request = 1\<rparr>]"
    using demo_pool_reach by blast
  then show ?thesis
    using pool_reuse [of "''h''" "[]" 80 10 30000 5 pl "[]" demo_env 99999999]
    by (auto simp: demo_pool_def demo_hconn_def)
qed

text \<open>
  C19. The body of a response: with a content length \<open>len > 0\<close> (fewer than \<open>2 ^ 31\<close>) and enough data, the
  body is exactly the first \<open>len\<close> bytes of the buffered text and the input.  For a chunk that is
  completely buffered with its line end, the chunk is appended to the body, but the buffer that is
  kept begins with the chunk's line end and has lost its last two bytes.
\<close>

theorem response_body:
  assumes "\<not> cg_chunked g (sp_state p)" "sint (rsp_GetContentLength cast p) = len" "0 < len"
    "nat len - length rest \<le> length (conn_pend c)" "nat len < 2 ^ 31" "0 < max_len" "nat len < fuel"
  shows "(\<exists>c'. RecvResponse_tail g cast buff_size max_len fuel p rest c =
      Inr (Some ((sp_data p)\<lparr>rs_body := take (nat len) (rest @ conn_pend c)\<rparr>), c'))
    \<and> take_chunk buff_size fuel (int (length data)) (data @ crlf @ tl1) body c =
        Inr (Some (body @ data, take (length tl1) (crlf @ tl1)), c)"
  using recv_rsp_body_complete [OF assms(3-7)] assms(1,2,3)
  by (auto simp: RecvResponse_tail_def Let_def take_chunk_buffered)

definition demo_client :: "unit client_ragel" where
  "demo_client = \<lparr>cg_new = (), cg_init = (\<lambda>_. ()), cg_exec = (\<lambda>_ _. (0, [], ())), cg_finish = (\<lambda>_. True),
     cg_error = (\<lambda>_. False), cg_chunked = (\<lambda>_. False), cg_chunks_done = (\<lambda>_. False), cg_content_len = (\<lambda>_. 0)\<rparr>"

definition demo_rsp :: "unit rsp_parser" where
  "demo_rsp = \<lparr>sp_data = rs_SetHeader ''Content-Length'' ''5'' (newHttpResponse 0x11 True), sp_error = 0, sp_state = ()\<rparr>"

theorem response_body_witness:
  "\<exists>c'. RecvResponse_tail demo_client demo_cast 64 2 9 demo_rsp ''h'' demo_session =
      Inr (Some ((sp_data demo_rsp)\<lparr>rs_body := ''hello''\<rparr>), c')"
proof -
  have "sint (rsp_GetContentLength demo_cast demo_rsp) = 5"
    by (simp add: rsp_GetContentLength_def GetAs_def demo_rsp_def demo_cast_def rs_SetHeader_def newHttpResponse_def
        CaseInsensitiveLess_iff fold_case_def cstr_def of_char_tolower)
  then show ?thesis
    using response_body [of demo_client demo_rsp demo_cast 5 "''h''" demo_session 2 9 64]
    by (simp add: demo_client_def demo_session_def conn_pend_def)
qed

end
