(* ===== verification/Servlet.thy ===== *)
theory Servlet
  imports HttpSession
begin

text \<open>
  Servlets, their dispatch and the HTTP server (\<open>gudov/http/servlet.{h,cpp}\<close>,
  \<open>gudov/http/http_server.{h,cpp}\<close>).  A servlet is a function of the request, the response and the
  session, all of which it may change; servlet pointers may be null.  \<open>fnmatch\<close> is an argument.  The
  read/write lock makes each operation of the dispatch one step.

  The table of exact paths and the list of patterns are both interpreted as maps; from that the
  dispatch is shown to implement a specification over the log of registrations.
\<close>

section \<open>Servlets\<close>

type_synonym handler =
  "http_request \<Rightarrow> http_response \<Rightarrow> char conn \<Rightarrow> (int \<times> http_request \<times> http_response \<times> char conn) res"

text \<open>\<open>OtherServlet\<close> is any further subclass, with its name and its \<open>Handle\<close>.\<close>

datatype servlet =
    FunctionServlet handler
  | NotFoundServlet
  | OtherServlet string handler

definition RSP_BODY :: string where
  "RSP_BODY = ''<html><head><title>404 Not Found'' @
     ''</title></head><body><center><h1>404 Not Found</h1></center>'' @
     ''<hr><center>gudov/1.0.0</center></body></html>''"

definition NotFound_Handle :: handler where
  "NotFound_Handle rq rsp sess =
     (let r1 = rsp\<lparr>rs_status := 404\<rparr>;
          r2 = rs_SetHeader ''Server'' ''gudov/1.0.0'' r1;
          r3 = rs_SetHeader ''Content-Type'' ''text/html'' r2
      in Inr (0, rq, r3\<lparr>rs_body := RSP_BODY\<rparr>, sess))"

fun servlet_Handle :: "servlet \<Rightarrow> handler" where
  "servlet_Handle (FunctionServlet f) rq rsp sess = f rq rsp sess"
| "servlet_Handle NotFoundServlet rq rsp sess = NotFound_Handle rq rsp sess"
| "servlet_Handle (OtherServlet nm f) rq rsp sess = f rq rsp sess"

fun servlet_GetName :: "servlet \<Rightarrow> string" where
  "servlet_GetName (FunctionServlet f) = ''FunctionServlet''"
| "servlet_GetName NotFoundServlet = ''NotFoundServlet''"
| "servlet_GetName (OtherServlet nm f) = nm"

section \<open>Dispatch\<close>

record dispatch =
  datas :: "string \<rightharpoonup> servlet option"
  globs :: "(string \<times> servlet option) list"
  default_slt :: "servlet option"

definition newDispatch :: dispatch where
  "newDispatch = \<lparr>datas = Map.empty, globs = [], default_slt = Some NotFoundServlet\<rparr>"

definition AddServlet :: "string \<Rightarrow> servlet option \<Rightarrow> dispatch \<Rightarrow> dispatch" where
  "AddServlet uri slt d = d\<lparr>datas := (datas d)(uri \<mapsto> slt)\<rparr>"

definition AddServlet_fn :: "string \<Rightarrow> handler \<Rightarrow> dispatch \<Rightarrow> dispatch" where
  "AddServlet_fn uri f d = d\<lparr>datas := (datas d)(uri \<mapsto> Some (FunctionServlet f))\<rparr>"

text \<open>The loop that erases the first entry of a pattern.\<close>

fun glob_erase :: "string \<Rightarrow> (string \<times> 'v) list \<Rightarrow> (string \<times> 'v) list" where
  "glob_erase uri [] = []"
| "glob_erase uri (x # xs) = (if fst x = uri then xs else x # glob_erase uri xs)"

definition glob_assign :: "string \<Rightarrow> 'v \<Rightarrow> (string \<times> 'v) list \<Rightarrow> (string \<times> 'v) list" where
  "glob_assign uri slt gs = glob_erase uri gs @ [(uri, slt)]"

definition AddGlobServlet :: "string \<Rightarrow> servlet option \<Rightarrow> dispatch \<Rightarrow> dispatch" where
  "AddGlobServlet uri slt d = d\<lparr>globs := glob_assign uri slt (globs d)\<rparr>"

definition AddGlobServlet_fn :: "string \<Rightarrow> handler \<Rightarrow> dispatch \<Rightarrow> dispatch" where
  "AddGlobServlet_fn uri f d = AddGlobServlet uri (Some (FunctionServlet f)) d"

definition DelServlet :: "string \<Rightarrow> dispatch \<Rightarrow> dispatch" where
  "DelServlet uri d = d\<lparr>datas := (datas d)(uri := None)\<rparr>"

definition DelGlobServlet :: "string \<Rightarrow> dispatch \<Rightarrow> dispatch" where
  "DelGlobServlet uri d = d\<lparr>globs := glob_erase uri (globs d)\<rparr>"

definition SetDefault :: "servlet option \<Rightarrow> dispatch \<Rightarrow> dispatch" where
  "SetDefault v d = d\<lparr>default_slt := v\<rparr>"

definition GetServlet :: "string \<Rightarrow> dispatch \<Rightarrow> servlet option" where
  "GetServlet uri d = (case datas d uri of None \<Rightarrow> None | Some slt \<Rightarrow> slt)"

fun glob_find :: "(string \<Rightarrow> bool) \<Rightarrow> (string \<times> 'v) list \<Rightarrow> 'v option" where
  "glob_find P [] = None"
| "glob_find P (x # xs) = (if P (fst x) then Some (snd x) else glob_find P xs)"

definition GetGlobServlet :: "string \<Rightarrow> dispatch \<Rightarrow> servlet option" where
  "GetGlobServlet uri d = (case glob_find (\<lambda>k. k = uri) (globs d) of None \<Rightarrow> None | Some slt \<Rightarrow> slt)"

text \<open>\<open>fnm pattern text\<close> says that \<open>fnmatch\<close> returns zero.\<close>

definition GetMatchedServlet :: "(string \<Rightarrow> string \<Rightarrow> bool) \<Rightarrow> string \<Rightarrow> dispatch \<Rightarrow> servlet option" where
  "GetMatchedServlet fnm uri d =
     (case datas d uri of
        Some slt \<Rightarrow> slt
      | None \<Rightarrow>
          (case glob_find (\<lambda>k. fnm (cstr k) (cstr uri)) (globs d) of
             Some slt \<Rightarrow> slt
           | None \<Rightarrow> default_slt d))"

definition dispatch_Handle :: "(string \<Rightarrow> string \<Rightarrow> bool) \<Rightarrow> dispatch \<Rightarrow> handler" where
  "dispatch_Handle fnm d rq rsp sess =
     (case GetMatchedServlet fnm (rq_path rq) d of
        None \<Rightarrow> Inr (0, rq, rsp, sess)
      | Some slt \<Rightarrow> bindR (servlet_Handle slt rq rsp sess) (\<lambda>(_, rq', rsp', sess'). Inr (0, rq', rsp', sess')))"

section \<open>The server\<close>

record http_server =
  sv_keep_alive :: bool
  sv_dispatch :: dispatch
  sv_type :: string
  sv_name :: string

definition newHttpServer :: "bool \<Rightarrow> http_server" where
  "newHttpServer keepalive =
     \<lparr>sv_keep_alive = keepalive, sv_dispatch = newDispatch, sv_type = ''http'', sv_name = ''gudov/1.0.0''\<rparr>"

definition SetServletDispatch :: "dispatch \<Rightarrow> http_server \<Rightarrow> http_server" where
  "SetServletDispatch v sv = sv\<lparr>sv_dispatch := v\<rparr>"

text \<open>\<open>recv\<close> and \<open>send\<close> are the session's operations, with their buffer sizes and fuel.\<close>

fun HandleClient_loop ::
  "(char conn \<Rightarrow> (http_request option \<times> char conn) res) \<Rightarrow> (http_response \<Rightarrow> char conn \<Rightarrow> (int \<times> char conn) res) \<Rightarrow>
     (string \<Rightarrow> string \<Rightarrow> bool) \<Rightarrow> nat \<Rightarrow> http_server \<Rightarrow> char conn \<Rightarrow> char conn res" where
  "HandleClient_loop recv send fnm 0 sv sess = Inl Diverges"
| "HandleClient_loop recv send fnm (Suc k) sv sess =
     bindR (recv sess) (\<lambda>(r, sess1).
       case r of None \<Rightarrow> Inr sess1
       | Some rq \<Rightarrow>
           (let rsp = rs_SetHeader ''Server'' (sv_name sv)
                  (newHttpResponse (rq_version rq) (rq_close rq \<or> \<not> sv_keep_alive sv)) in
            bindR (dispatch_Handle fnm (sv_dispatch sv) rq rsp sess1) (\<lambda>(_, rq', rsp', sess2).
              bindR (send rsp' sess2) (\<lambda>(_, sess3).
                if \<not> sv_keep_alive sv \<or> rq_close rq' then Inr sess3
                else HandleClient_loop recv send fnm k sv sess3))))"

text \<open>The counters of clients started and finished, and the session that is closed at the end.\<close>

definition HandleClient ::
  "('p, req_event) ragel \<Rightarrow> (string \<Rightarrow> u64 option) \<Rightarrow> nat \<Rightarrow> nat \<Rightarrow> nat \<Rightarrow> (string \<Rightarrow> string \<Rightarrow> bool) \<Rightarrow> nat \<Rightarrow>
     http_server \<Rightarrow> int \<times> int \<Rightarrow> char conn \<Rightarrow> ((int \<times> int) \<times> char conn) res" where
  "HandleClient g cast buff_size max_len fuel fnm turns sv counts client =
     bindR (HandleClient_loop (RecvRequest g cast buff_size max_len fuel) (SendResponse max_len fuel) fnm turns sv client)
       (\<lambda>sess. Inr ((fst counts + 1, snd counts + 1), SocketStream_Close sess))"

section \<open>The two tables as maps\<close>

lemma glob_erase_filter: "distinct (map fst gs) \<Longrightarrow> glob_erase k gs = filter (\<lambda>x. fst x \<noteq> k) gs"
proof (induction gs)
  case (Cons x gs)
  then have "fst x = k \<Longrightarrow> filter (\<lambda>x. fst x \<noteq> k) gs = gs"
    by (intro filter_True) (auto simp: image_iff)
  with Cons show ?case by simp
qed simp

lemma glob_find_find: "glob_find P gs = map_option snd (find (P \<circ> fst) gs)"
  by (induction gs) auto

lemma map_fst_filter: "map fst (filter (\<lambda>x. P (fst x)) gs) = filter P (map fst gs)"
  by (induction gs) auto

lemma glob_find_filter_key:
  "glob_find (\<lambda>x. x = k') (filter (\<lambda>x. fst x \<noteq> k) gs) = (if k = k' then None else glob_find (\<lambda>x. x = k') gs)"
  by (induction gs) auto

lemma glob_find_append:
  "glob_find P (xs @ ys) = (case glob_find P xs of None \<Rightarrow> glob_find P ys | Some v \<Rightarrow> Some v)"
  by (induction xs) auto

interpretation exact: dictionary "\<lambda>m. True" "(=)" "\<lambda>k m. m k" "\<lambda>k v m. m(k \<mapsto> v)" "\<lambda>k m. m(k := None)"
  by unfold_locales auto

interpretation gl: dictionary "\<lambda>gs. distinct (map fst gs)" "(=)" "\<lambda>k. glob_find (\<lambda>x. x = k)" glob_assign glob_erase
proof (unfold_locales, goal_cases)
  case (2 gs k v)
  then show ?case
    by (simp add: glob_assign_def glob_erase_filter map_fst_filter [where P = "\<lambda>x. x \<noteq> k"])
next
  case (3 gs k)
  then show ?case by (simp add: glob_erase_filter map_fst_filter [where P = "\<lambda>x. x \<noteq> k"])
next
  case (4 gs k' k v)
  then show ?case
    by (auto simp: glob_assign_def glob_erase_filter glob_find_append glob_find_filter_key split: option.splits)
next
  case (5 gs k' k)
  then show ?case by (simp add: glob_erase_filter glob_find_filter_key)
qed simp

section \<open>The specification over the log of registrations\<close>

datatype reg =
    RegServlet string "servlet option"
  | RegGlob string "servlet option"
  | UnregServlet string
  | UnregGlob string

fun do_reg :: "reg \<Rightarrow> dispatch \<Rightarrow> dispatch" where
  "do_reg (RegServlet u s) d = AddServlet u s d"
| "do_reg (RegGlob u s) d = AddGlobServlet u s d"
| "do_reg (UnregServlet u) d = DelServlet u d"
| "do_reg (UnregGlob u) d = DelGlobServlet u d"

fun exact_op :: "reg \<Rightarrow> (string \<times> servlet option option) list" where
  "exact_op (RegServlet u s) = [(u, Some s)]"
| "exact_op (UnregServlet u) = [(u, None)]"
| "exact_op _ = []"

fun glob_op :: "reg \<Rightarrow> (string \<times> servlet option option) list" where
  "glob_op (RegGlob u s) = [(u, Some s)]"
| "glob_op (UnregGlob u) = [(u, None)]"
| "glob_op _ = []"

text \<open>What the last operation on a key left there, and the keys that are there by the time of that operation.\<close>

definition last_op :: "string \<Rightarrow> (string \<times> 'v option) list \<Rightarrow> 'v option" where
  "last_op k ops = (case find (\<lambda>(k', ov). k' = k) (rev ops) of Some (_, ov) \<Rightarrow> ov | None \<Rightarrow> None)"

definition live_keys :: "(string \<times> 'v option) list \<Rightarrow> string list" where
  "live_keys ops = filter (\<lambda>k. last_op k ops \<noteq> None) (remdups (map fst ops))"

abbreviation apply_ops where
  "apply_ops asg ers \<equiv> fold (\<lambda>(k, ov). case ov of Some v \<Rightarrow> asg k v | None \<Rightarrow> ers k)"

lemma do_regs_tables:
  "datas (fold do_reg rs d) =
     apply_ops (\<lambda>k v m. m(k \<mapsto> v)) (\<lambda>k m. m(k := None)) (concat (map exact_op rs)) (datas d)"
  "globs (fold do_reg rs d) = apply_ops glob_assign glob_erase (concat (map glob_op rs)) (globs d)"
  "default_slt (fold do_reg rs d) = default_slt d"
proof (induction rs arbitrary: d)
  case (Cons r rs)
  { case 1 show ?case using Cons.IH(1) by (cases r)
      (simp_all add: AddServlet_def AddGlobServlet_def DelServlet_def DelGlobServlet_def fun_upd_def) }
  { case 2 show ?case using Cons.IH(2) by (cases r)
      (simp_all add: AddServlet_def AddGlobServlet_def DelServlet_def DelGlobServlet_def) }
  { case 3 show ?case using Cons.IH(3) by (cases r)
      (simp_all add: AddServlet_def AddGlobServlet_def DelServlet_def DelGlobServlet_def) }
qed simp_all

lemma remdups_snoc: "remdups (xs @ [k]) = filter (\<lambda>x. x \<noteq> k) (remdups xs) @ [k]"
  by (induction xs) auto

lemma last_op_snoc: "last_op k (ops @ [(k', ov)]) = (if k' = k then ov else last_op k ops)"
  by (simp add: last_op_def)

lemma live_keys_snoc:
  "live_keys (ops @ [(k, ov)]) = filter (\<lambda>x. x \<noteq> k) (live_keys ops) @ (if ov = None then [] else [k])"
  by (auto simp: live_keys_def remdups_snoc last_op_snoc intro!: filter_cong)

lemma glob_keys:
  "map fst (apply_ops glob_assign glob_erase ops []) = live_keys ops"
proof (induction ops rule: rev_induct)
  case (snoc x ops)
  obtain k ov where x: "x = (k, ov)" by (cases x)
  let ?gs = "apply_ops glob_assign glob_erase ops []"
  have "distinct (map fst ?gs)" by (rule gl.inv_fold_ops) simp
  then have "map fst (glob_erase k ?gs) = filter (\<lambda>y. y \<noteq> k) (live_keys ops)"
    using snoc.IH by (simp add: glob_erase_filter map_fst_filter [where P = "\<lambda>y. y \<noteq> k"])
  then show ?case by (cases ov) (simp_all add: x live_keys_snoc glob_assign_def)
qed (simp add: live_keys_def)

lemma glob_find_first_key:
  "distinct (map fst gs) \<Longrightarrow> glob_find P gs =
     (case find P (map fst gs) of None \<Rightarrow> None | Some k \<Rightarrow> glob_find (\<lambda>x. x = k) gs)"
  by (induction gs) (force split: option.splits dest: find_SomeD)+

definition matched_spec ::
  "(string \<Rightarrow> string \<Rightarrow> bool) \<Rightarrow> reg list \<Rightarrow> servlet option \<Rightarrow> string \<Rightarrow> servlet option" where
  "matched_spec fnm rs dflt uri =
     (case last_op uri (concat (map exact_op rs)) of
        Some slt \<Rightarrow> slt
      | None \<Rightarrow>
          (case find (\<lambda>k. fnm (cstr k) (cstr uri)) (live_keys (concat (map glob_op rs))) of
             Some k \<Rightarrow> the (last_op k (concat (map glob_op rs)))
           | None \<Rightarrow> dflt))"

lemma exact_lookup:
  "apply_ops (\<lambda>k v m. m(k \<mapsto> v)) (\<lambda>k m. m(k := None)) ops Map.empty k = last_op k ops"
  using exact.lookup_fold_ops [where m = Map.empty and k = k and ops = ops] by (simp add: last_op_def)

lemma glob_lookup: "glob_find (\<lambda>x. x = k) (apply_ops glob_assign glob_erase ops []) = last_op k ops"
  using gl.lookup_fold_ops [where m = "[]" and k = k and ops = ops]
  by (simp add: last_op_def split: option.splits)

lemma glob_match:
  "glob_find P (apply_ops glob_assign glob_erase ops []) =
     map_option (\<lambda>k. the (last_op k ops)) (find P (live_keys ops))"
proof -
  have "distinct (map fst (apply_ops glob_assign glob_erase ops []))" by (rule gl.inv_fold_ops) simp
  note first = glob_find_first_key [OF this, of P]
  show ?thesis
  proof (cases "find P (live_keys ops)")
    case (Some k)
    then have "k \<in> set (live_keys ops)" by (auto dest: find_SomeD)
    then have "last_op k ops \<noteq> None" by (simp add: live_keys_def)
    then show ?thesis using first Some by (simp add: glob_keys glob_lookup)
  qed (simp add: first glob_keys)
qed

section \<open>Properties\<close>

text \<open>
  C14. Dispatch implements its specification: after any sequence of registrations and removals the
  servlet chosen for a path is the one last registered for exactly that path, if it was not removed
  since; otherwise the one registered for the first matching pattern, in the order of the last
  registration of each pattern that is still there; otherwise the default.
\<close>

theorem dispatch_refines:
  "GetMatchedServlet fnm uri (fold do_reg rs newDispatch) = matched_spec fnm rs (Some NotFoundServlet) uri"
proof -
  let ?d = "fold do_reg rs newDispatch"
  have "datas ?d uri = last_op uri (concat (map exact_op rs))"
    by (simp add: do_regs_tables newDispatch_def exact_lookup)
  moreover have "glob_find P (globs ?d) = map_option (\<lambda>k. the (last_op k (concat (map glob_op rs))))
      (find P (live_keys (concat (map glob_op rs))))" for P
    by (simp add: do_regs_tables newDispatch_def glob_match)
  moreover have "default_slt ?d = Some NotFoundServlet" by (simp add: do_regs_tables newDispatch_def)
  ultimately show ?thesis
    by (simp add: GetMatchedServlet_def matched_spec_def split: option.splits)
qed

text \<open>The response the server sends when no servlet matches.\<close>

definition not_found_response :: "http_server \<Rightarrow> http_request \<Rightarrow> http_response" where
  "not_found_response sv rq =
     (rs_SetHeader ''Content-Type'' ''text/html'' (rs_SetHeader ''Server'' ''gudov/1.0.0''
        ((rs_SetHeader ''Server'' (sv_name sv)
           (newHttpResponse (rq_version rq) (rq_close rq \<or> \<not> sv_keep_alive sv)))\<lparr>rs_status := 404\<rparr>)))
     \<lparr>rs_body := RSP_BODY\<rparr>"

lemma dispatch_not_found:
  "GetMatchedServlet fnm (rq_path rq) (sv_dispatch sv) = Some NotFoundServlet \<Longrightarrow>
   dispatch_Handle fnm (sv_dispatch sv) rq (rs_SetHeader ''Server'' (sv_name sv)
     (newHttpResponse (rq_version rq) (rq_close rq \<or> \<not> sv_keep_alive sv))) sess =
   Inr (0, rq, not_found_response sv rq, sess)"
  by (simp add: dispatch_Handle_def NotFound_Handle_def not_found_response_def Let_def)

text \<open>
  One exchange of the server: for a request whose path no servlet is registered for, on a server
  that does not keep the connection open or with a request that asks to close it, the client is sent
  exactly the text of the 404 response, the session is closed and both counters are increased.
\<close>

theorem unmatched_gets_404:
  assumes "RecvRequest g cast buff_size max_len fuel client = Inr (Some rq, sess)"
    and "GetMatchedServlet fnm (rq_path rq) (sv_dispatch sv) = Some NotFoundServlet"
    and "rq_close rq \<or> \<not> sv_keep_alive sv"
    and "conn_good sess (length (Dump_response (not_found_response sv rq)))"
    and "length (Dump_response (not_found_response sv rq)) < 2 ^ 64"
    and "0 < max_len" "length (Dump_response (not_found_response sv rq)) < fuel"
  shows "\<exists>c'. HandleClient g cast buff_size max_len fuel fnm (Suc turns) sv (m, n) client = Inr ((m + 1, n + 1), c')
    \<and> sent c' = sent sess @ Dump_response (not_found_response sv rq) \<and> \<not> alive c'"
proof -
  let ?txt = "Dump_response (not_found_response sv rq)"
  from sk.WriteFixSize_loop_complete [of sess "length ?txt" 0 ?txt max_len fuel] assms(4-7) conn_good_mono
  obtain c1 where "SendResponse max_len fuel (not_found_response sv rq) sess = Inr (as_int (length ?txt), c1)"
    "sent c1 = sent sess @ ?txt" by (auto simp: SendResponse_def WriteFixSize_def)
  then show ?thesis using assms(1,3) dispatch_not_found [OF assms(2)]
    by (auto simp: HandleClient_def SocketStream_Close_def Let_def)
qed

definition demo_client_conn :: "char conn" where
  "demo_client_conn = \<lparr>alive = True, inp = [RData ''GET''], outp = replicate 1000 (WTake (Suc 0)), sent = []\<rparr>"

definition demo_request :: http_request where
  "demo_request = SetHeader ''a'' ''y'' (SetHeader ''B'' ''x'' (newHttpRequest 0x11 True))"

lemma demo_received:
  "RecvRequest demo_ragel demo_cast 64 8 2000 demo_client_conn =
     Inr (Some demo_request, demo_client_conn\<lparr>inp := []\<rparr>)"
  by (simp add: RecvRequest_def RecvRequest_tail_def demo_ragel_def demo_client_conn_def SocketStream_read_def
      sock_Recv_def req_execute_def newRequestParser_def newHttpRequest_def eval_nat_numeral req_HasError_def
      req_IsFinished_def on_request_http_field_def SetHeader_def CaseInsensitiveLess_iff strcasecmp_zero http_Init_def
      req_GetContentLength_def GetAs_def GetHeader_def get_or_def fold_case_def cstr_def of_char_tolower demo_request_def)

lemma demo_404_length:
  "length (Dump_response (not_found_response (newHttpServer False) demo_request)) < 1000"
  by (simp add: Dump_response_def not_found_response_def newHttpServer_def demo_request_def SetHeader_def
      newHttpRequest_def newHttpResponse_def rs_SetHeader_def CaseInsensitiveLess_iff strcasecmp_zero fold_case_def
      cstr_def of_char_tolower version_text_def dec.simps header_lines_def connection_line_def body_part_def
      RSP_BODY_def crlf_def HttpStatusToString_def HTTP_STATUS_MAP_def)

theorem unmatched_gets_404_witness:
  "\<exists>c'. HandleClient demo_ragel demo_cast 64 8 2000 (\<lambda>_ _. False) (Suc 0) (newHttpServer False) (0, 0)
      demo_client_conn = Inr ((1, 1), c') \<and> \<not> alive c'"
proof -
  have "GetMatchedServlet (\<lambda>_ _. False) (rq_path demo_request) (sv_dispatch (newHttpServer False)) = Some NotFoundServlet"
    by (simp add: newHttpServer_def newDispatch_def GetMatchedServlet_def)
  moreover have "conn_good (demo_client_conn\<lparr>inp := []\<rparr>)
      (length (Dump_response (not_found_response (newHttpServer False) demo_request)))"
    using demo_404_length by (auto simp: conn_good_def demo_client_conn_def)
  ultimately show ?thesis
    using unmatched_gets_404 [OF demo_received, of "\<lambda>_ _. False" "newHttpServer False" 0 0 0] demo_404_length
    by (auto simp: newHttpServer_def)
qed

end
