(* ===== verification/Ragel.thy ===== *)
theory Ragel
  imports Prelude
begin

text \<open>
  The part of the Ragel language that the grammars of the library use (\<open>uri.rl\<close>,
  \<open>http11_parser.rl\<close>, \<open>httpclient_parser.rl\<close>): regular expressions with embedded actions and priorities,
  and the machine that is generated from them.

  An expression stands for the rest of a match, so a state of the machine is a list of expressions, the
  alternatives that are still open; no alternative is the error state.  An action is embedded with a
  number, its place in the order in which Ragel numbers the embeddings of a grammar; a transition
  that several alternatives share runs their actions in this order, each embedding once.

  The lemmas describe runs over texts piece by piece, for the proofs about the grammars.
\<close>

section \<open>Expressions\<close>

text \<open>
  \<open>Cls\<close> is a set of characters, given by ranges of codes.  \<open>Enter\<close>, \<open>Leave\<close> and \<open>Finish\<close> are the operators
  \<open>>\<close>, \<open>%\<close> and \<open>@\<close> for actions.  The others are priorities: \<open>e :> f\<close> is \<open>Seq (Low k e) (High k f)\<close> and
  \<open>e :>> f\<close> is \<open>Seq (Low k e) (HighFinish k f)\<close> with a key \<open>k\<close> of its own.
\<close>

datatype 'a rx =
    One
  | Cls "(nat \<times> nat) list"
  | Alt "'a rx" "'a rx"
  | Seq "'a rx" "'a rx"
  | Star "'a rx"
  | Enter nat 'a "'a rx"
  | Leave nat 'a "'a rx"
  | Finish nat 'a "'a rx"
  | Low nat "'a rx"
  | High nat "'a rx"
  | HighFinish nat "'a rx"

definition cls_mem :: "char \<Rightarrow> (nat \<times> nat) list \<Rightarrow> bool" where
  "cls_mem c rs \<longleftrightarrow> list_ex (\<lambda>(l, h). l \<le> of_char c \<and> of_char c \<le> h) rs"

definition chars_of :: "string \<Rightarrow> (nat \<times> nat) list" where
  "chars_of s = map (\<lambda>c. (of_char c, of_char c)) s"

definition chr :: "char \<Rightarrow> 'a rx" where "chr c = Cls (chars_of [c])"

fun lit :: "string \<Rightarrow> 'a rx" where
  "lit [] = One"
| "lit [c] = chr c"
| "lit (c # cs) = Seq (chr c) (lit cs)"

definition opt :: "'a rx \<Rightarrow> 'a rx" where "opt r = Alt r One"

definition plus_rx :: "'a rx \<Rightarrow> 'a rx" where "plus_rx r = Seq r (Star r)"

fun times_rx :: "nat \<Rightarrow> 'a rx \<Rightarrow> 'a rx" where
  "times_rx 0 r = One"
| "times_rx (Suc 0) r = r"
| "times_rx (Suc n) r = Seq r (times_rx n r)"

fun upto_rx :: "nat \<Rightarrow> 'a rx \<Rightarrow> 'a rx" where
  "upto_rx 0 r = One"
| "upto_rx (Suc n) r = opt (Seq r (upto_rx n r))"

fun alts :: "'a rx list \<Rightarrow> 'a rx" where
  "alts [] = One"
| "alts [r] = r"
| "alts (r # rs) = Alt r (alts rs)"

fun seqs :: "'a rx list \<Rightarrow> 'a rx" where
  "seqs [] = One"
| "seqs [r] = r"
| "seqs (r # rs) = Seq r (seqs rs)"

text \<open>The difference of two sets of characters, and the character classes of the language.\<close>

definition diff_cls :: "(nat \<times> nat) list \<Rightarrow> (nat \<times> nat) list \<Rightarrow> (nat \<times> nat) list" where
  "diff_cls a b = map (\<lambda>n. (n, n)) (filter (\<lambda>n. list_ex (\<lambda>(l, h). l \<le> n \<and> n \<le> h) a \<and>
     \<not> list_ex (\<lambda>(l, h). l \<le> n \<and> n \<le> h) b) [0..<256])"

definition upper :: "(nat \<times> nat) list" where "upper = [(65, 90)]"
definition alpha :: "(nat \<times> nat) list" where "alpha = [(65, 90), (97, 122)]"
definition digits :: "(nat \<times> nat) list" where "digits = [(48, 57)]"
definition xdigits :: "(nat \<times> nat) list" where "xdigits = [(48, 57), (65, 70), (97, 102)]"
definition spaces :: "(nat \<times> nat) list" where "spaces = [(9, 13), (32, 32)]"
definition any :: "(nat \<times> nat) list" where "any = [(0, 255)]"
definition ascii :: "(nat \<times> nat) list" where "ascii = [(0, 127)]"
definition non_ascii :: "(nat \<times> nat) list" where "non_ascii = [(128, 255)]"

section \<open>The machine\<close>

text \<open>\<open>None\<close> when the state is not final, otherwise the leaving actions that wait there.\<close>

fun leaving :: "'a rx \<Rightarrow> (nat \<times> 'a) list option" where
  "leaving One = Some []"
| "leaving (Cls rs) = None"
| "leaving (Alt r s) =
     (case leaving r of
        None \<Rightarrow> leaving s
      | Some xs \<Rightarrow> (case leaving s of None \<Rightarrow> Some xs | Some ys \<Rightarrow> Some (xs @ ys)))"
| "leaving (Seq r s) =
     (case leaving s of
        None \<Rightarrow> None
      | Some ys \<Rightarrow> (case leaving r of None \<Rightarrow> None | Some xs \<Rightarrow> Some (xs @ ys)))"
| "leaving (Star r) = Some []"
| "leaving (Enter n a r) = leaving r"
| "leaving (Leave n a r) = map_option (\<lambda>xs. xs @ [(n, a)]) (leaving r)"
| "leaving (Finish n a r) = leaving r"
| "leaving (Low k r) = leaving r"
| "leaving (High k r) = leaving r"
| "leaving (HighFinish k r) = leaving r"

text \<open>A transition: its actions, its priorities by key, and what is left to match.\<close>

type_synonym 'a move = "(nat \<times> 'a) list \<times> (nat \<times> nat) list \<times> 'a rx"

fun seq :: "'a rx \<Rightarrow> 'a rx \<Rightarrow> 'a rx" where
  "seq One s = s"
| "seq r s = Seq r s"

fun moves :: "char \<Rightarrow> 'a rx \<Rightarrow> 'a move list" where
  "moves c One = []"
| "moves c (Cls rs) = (if cls_mem c rs then [([], [], One)] else [])"
| "moves c (Alt r s) = moves c r @ moves c s"
| "moves c (Seq r s) = map (\<lambda>(as, ps, t). (as, ps, seq t s)) (moves c r) @
     (case leaving r of None \<Rightarrow> [] | Some xs \<Rightarrow> map (\<lambda>(as, ps, t). (xs @ as, ps, t)) (moves c s))"
| "moves c (Star r) = map (\<lambda>(as, ps, t). (as, ps, seq t (Star r))) (moves c r)"
| "moves c (Enter n a r) = map (\<lambda>(as, ps, t). ((n, a) # as, ps, t)) (moves c r)"
| "moves c (Leave n a r) = map (\<lambda>(as, ps, t). (as, ps, Leave n a t)) (moves c r)"
| "moves c (Finish n a r) =
     map (\<lambda>(as, ps, t). (if leaving t = None then as else as @ [(n, a)], ps, Finish n a t)) (moves c r)"
| "moves c (Low k r) = map (\<lambda>(as, ps, t). (as, (k, 0) # ps, Low k t)) (moves c r)"
| "moves c (High k r) = map (\<lambda>(as, ps, t). (as, (k, 1) # ps, t)) (moves c r)"
| "moves c (HighFinish k r) =
     map (\<lambda>(as, ps, t). (as, if leaving t = None then ps else (k, 1) # ps, HighFinish k t)) (moves c r)"

text \<open>Of two transitions with priorities under one key the lower one is dropped.\<close>

definition outranks :: "'a move \<Rightarrow> 'a move \<Rightarrow> bool" where
  "outranks m m' \<longleftrightarrow> list_ex (\<lambda>(k, p). list_ex (\<lambda>(k', p'). k' = k \<and> p' < p) (fst (snd m'))) (fst (snd m))"

definition in_order :: "(nat \<times> 'a) list \<Rightarrow> 'a list" where
  "in_order xs = map snd (sort_key fst (remdups xs))"

definition rl_step :: "char \<Rightarrow> 'a rx list \<Rightarrow> 'a list \<times> 'a rx list" where
  "rl_step c ts =
     (let ms = concat (map (moves c) ts);
          kept = filter (\<lambda>m. \<not> list_ex (\<lambda>m'. outranks m' m) ms) ms
      in (in_order (concat (map fst kept)), remdups (map (\<lambda>m. snd (snd m)) kept)))"

definition rl_final :: "'a rx list \<Rightarrow> bool" where
  "rl_final ts \<longleftrightarrow> list_ex (\<lambda>t. leaving t \<noteq> None) ts"

text \<open>The actions that run at the end of the input.\<close>

definition eof_actions :: "'a rx list \<Rightarrow> 'a list" where
  "eof_actions ts = in_order (concat (map (\<lambda>t. case leaving t of None \<Rightarrow> [] | Some xs \<Rightarrow> xs) ts))"

text \<open>
  The generated loop.  \<open>f\<close> runs an action at a position; \<open>fbreak\<close> says which actions end the loop
  behind the character.  In the error state the loop stops before the character.
\<close>

fun run_acts :: "('a \<Rightarrow> 's \<Rightarrow> 's res) \<Rightarrow> ('a \<Rightarrow> bool) \<Rightarrow> 'a list \<Rightarrow> 's \<Rightarrow> (bool \<times> 's) res" where
  "run_acts f fbreak [] s = Inr (False, s)"
| "run_acts f fbreak (a # as) s =
     bindR (f a s) (\<lambda>s'. if fbreak a then Inr (True, s') else run_acts f fbreak as s')"

fun rl_exec ::
  "(nat \<Rightarrow> 'a \<Rightarrow> 's \<Rightarrow> 's res) \<Rightarrow> ('a \<Rightarrow> bool) \<Rightarrow> nat \<Rightarrow> string \<Rightarrow> 'a rx list \<Rightarrow> 's \<Rightarrow> (nat \<times> 'a rx list \<times> 's) res" where
  "rl_exec f fbreak p [] ts s = Inr (p, ts, s)"
| "rl_exec f fbreak p (c # cs) ts s =
     (let (as, ts') = rl_step c ts in
      if ts' = [] then Inr (p, [], s)
      else bindR (run_acts (f p) fbreak as s) (\<lambda>(stop, s').
        if stop then Inr (Suc p, ts', s') else rl_exec f fbreak (Suc p) cs ts' s'))"

lemma leaving_Seq_simps [simp]:
  "leaving r = None \<Longrightarrow> leaving (Seq r s) = None" "leaving s = None \<Longrightarrow> leaving (Seq r s) = None"
  "leaving r = Some xs \<Longrightarrow> leaving s = Some ys \<Longrightarrow> leaving (Seq r s) = Some (xs @ ys)"
  by (auto split: option.splits)

declare leaving.simps(4) [simp del]

section \<open>Character classes\<close>

lemma cls_mem_simps [simp]:
  "cls_mem c [] \<longleftrightarrow> False" "cls_mem c ((l, h) # rs) \<longleftrightarrow> l \<le> of_char c \<and> of_char c \<le> h \<or> cls_mem c rs"
  "cls_mem c (rs @ ss) \<longleftrightarrow> cls_mem c rs \<or> cls_mem c ss"
  by (simp_all add: cls_mem_def)

lemma cls_mem_chars_of [simp]: "cls_mem c (chars_of s) \<longleftrightarrow> c \<in> set s"
  by (induction s) (auto simp: chars_of_def cls_mem_def list_ex_iff dest: antisym)

lemma cls_mem_diff_cls [simp]: "cls_mem c (diff_cls a b) \<longleftrightarrow> cls_mem c a \<and> \<not> cls_mem c b"
proof -
  have "list_ex (\<lambda>(l, h). l \<le> n \<and> n \<le> h) (map (\<lambda>n. (n, n)) xs) \<longleftrightarrow> n \<in> set xs" for n :: nat and xs
    by (induction xs) auto
  then show ?thesis unfolding diff_cls_def cls_mem_def by simp
qed

lemma moves_chr [simp]: "moves c (chr d) = (if c = d then [([], [], One)] else [])" "leaving (chr d) = None" "seq (chr d) r = Seq (chr d) r"
  by (simp_all add: chr_def)

lemma seq_lit [simp]: "seq (lit (d # w)) r = Seq (lit (d # w)) r"
  by (cases w) simp_all

lemma moves_lit [simp]: "moves c (lit (d # w)) = (if c = d then [([], [], lit w)] else [])" "leaving (lit (d # w)) = None"
proof -
  show "moves c (lit (d # w)) = (if c = d then [([], [], lit w)] else [])" by (cases w) simp_all
  show "leaving (lit (d # w)) = None" by (cases w) simp_all
qed

declare lit.simps(3) [simp del] upto_rx.simps [simp del]

lemma leaving_upto [simp]: "leaving (upto_rx k (Cls rs)) = Some []"
  by (cases k) (simp_all add: upto_rx.simps opt_def split: option.split)

lemma moves_upto [simp]:
  "moves c (upto_rx k (Cls rs)) = (if 0 < k \<and> cls_mem c rs then [([], [], upto_rx (k - 1) (Cls rs))] else [])"
  by (cases k) (simp_all add: upto_rx.simps opt_def)

section \<open>Steps\<close>

lemmas machine = rl_step_def Let_def outranks_def in_order_def

text \<open>
  Expressions without actions and priorities whose characters all satisfy \<open>P\<close>: inside them a machine
  only moves on, and on other characters it can only leave them.
\<close>

fun tame :: "(char \<Rightarrow> bool) \<Rightarrow> 'a rx \<Rightarrow> bool" where
  "tame P One \<longleftrightarrow> True"
| "tame P (Cls rs) \<longleftrightarrow> (\<forall>c. cls_mem c rs \<longrightarrow> P c)"
| "tame P (Alt r s) \<longleftrightarrow> tame P r \<and> tame P s"
| "tame P (Seq r s) \<longleftrightarrow> tame P r \<and> tame P s"
| "tame P (Star r) \<longleftrightarrow> tame P r"
| "tame P _ \<longleftrightarrow> False"

lemma tame_seq: "tame P r \<Longrightarrow> tame P s \<Longrightarrow> tame P (seq r s)"
  by (cases r) simp_all

lemma tame_leaving: "tame P r \<Longrightarrow> leaving r = None \<or> leaving r = Some []"
  by (induction r) (auto simp: leaving.simps(4))

lemma tame_moves: "tame P r \<Longrightarrow> (as, ps, t) \<in> set (moves c r) \<Longrightarrow> as = [] \<and> ps = [] \<and> tame P t \<and> P c"
proof (induction r arbitrary: as ps t)
  case (Seq r s)
  have tame: "tame P r" "tame P s" using Seq.prems(1) by simp_all
  from Seq.prems(2) tame_leaving [OF tame(1)]
  consider t' where "(as, ps, t') \<in> set (moves c r)" "t = seq t' s" | "(as, ps, t) \<in> set (moves c s)"
    by (auto split: option.splits)
  then show ?case
  proof cases
    case 1
    then show ?thesis using Seq.IH(1) [OF tame(1) 1(1)] tame_seq [OF _ tame(2)] by blast
  qed (use Seq.IH(2) tame(2) in blast)
next
  case (Star r)
  from Star.prems(2) obtain t' where "(as, ps, t') \<in> set (moves c r)" "t = seq t' (Star r)" by auto
  then show ?case using Star.IH [of as ps t'] Star.prems(1) tame_seq [of P t' "Star r"] by simp
next
  case (Alt r s)
  have "(as, ps, t) \<in> set (moves c r) \<or> (as, ps, t) \<in> set (moves c s)" using Alt.prems(2) by simp
  moreover have "tame P r" "tame P s" using Alt.prems(1) by simp_all
  ultimately show ?case using Alt.IH by blast
next
  case (Cls rs)
  then show ?case by (simp split: if_splits)
qed simp_all

lemma tame_stuck:
  assumes "tame P r" "\<not> P c"
  shows "moves c r = []"
proof (cases "moves c r")
  case (Cons m ms)
  then show ?thesis using tame_moves [OF assms(1), of "fst m" "fst (snd m)" "snd (snd m)" c] assms(2) by simp
qed

text \<open>A step without priorities; without actions; and one in which all threads agree.\<close>

lemma rl_step_plain:
  assumes "concat (map (moves c) ts) = ms" "\<And>m. m \<in> set ms \<Longrightarrow> fst (snd m) = []"
  shows "rl_step c ts = (in_order (concat (map fst ms)), remdups (map (\<lambda>m. snd (snd m)) ms))"
proof -
  have "\<not> list_ex (\<lambda>m'. outranks m' m) ms" if "m \<in> set ms" for m
    using assms(2) that by (auto simp: list_ex_iff outranks_def)
  then have "filter (\<lambda>m. \<not> list_ex (\<lambda>m'. outranks m' m) ms) ms = ms" by (simp only: filter_id_conv) blast
  then show ?thesis by (simp add: rl_step_def Let_def assms(1))
qed

lemma in_order_same:
  assumes "set xs = set ys" "distinct ys" "sorted (map fst ys)" "distinct (map fst ys)"
  shows "in_order xs = map snd ys"
proof -
  have "sort_key fst (remdups xs) = ys"
  proof (rule map_sorted_distinct_set_unique [of fst])
    have keys: "inj_on fst (set ys)" using assms(4) by (simp add: distinct_map)
    show "inj_on fst (set (sort_key fst (remdups xs)) \<union> set ys)" using keys assms(1) by simp
    show "distinct (map fst (sort_key fst (remdups xs)))" using keys assms(1) by (simp add: distinct_map)
  qed (use assms in simp_all)
  then show ?thesis by (simp add: in_order_def)
qed

text \<open>Some threads go on without actions, and all others agree on the same actions, already in their order, and the same state.\<close>

lemma rl_step_agree:
  assumes "concat (map (moves c) ts) = map (\<lambda>q. ([], [], q)) qs @ xs" "set xs = {(as, [], t)}"
    "sorted (map fst as)" "distinct (map fst as)" "distinct qs" "t \<notin> set qs"
  shows "rl_step c ts = (map snd as, qs @ [t])"
proof -
  let ?ms = "map (\<lambda>q. ([], [], q)) qs @ xs"
  have "in_order (concat (map fst ?ms)) = map snd as"
    using assms(2-4) by (intro in_order_same) (auto simp: distinct_map)
  moreover have "remdups (map (\<lambda>m. snd (snd m)) ?ms) = qs @ [t]"
  proof -
    have one: "ys = [t]" if "distinct ys" "set ys = {t}" for ys :: "'a rx list"
      using that by (cases ys; cases "tl ys") auto
    have "remdups (map (\<lambda>m. snd (snd m)) xs) = [t]" by (rule one) (use assms(2) in simp_all)
    moreover have "remdups (qs @ ys) = qs @ remdups ys" if "set ys = {t}" for ys
      using assms(5,6) that by (induction qs) auto
    ultimately show ?thesis using assms(2) by (simp add: comp_def)
  qed
  moreover have "rl_step c ts = (in_order (concat (map fst ?ms)), remdups (map (\<lambda>m. snd (snd m)) ?ms))"
    by (rule rl_step_plain [OF assms(1)]) (use assms(2) in auto)
  ultimately show ?thesis by simp
qed

lemma in_order_Nil: "in_order (concat (map (\<lambda>x. []) xs)) = []"
  by (induction xs) (simp_all add: in_order_def)

section \<open>Runs over pieces of text\<close>

text \<open>A run that meets no \<open>fbreak\<close>: which actions run at which character.\<close>

inductive goes :: "('a \<Rightarrow> bool) \<Rightarrow> 'a rx list \<Rightarrow> string \<Rightarrow> 'a list list \<Rightarrow> 'a rx list \<Rightarrow> bool" for fbreak where
  stay: "goes fbreak ts [] [] ts"
| read: "rl_step c ts = (as, ts1) \<Longrightarrow> ts1 \<noteq> [] \<Longrightarrow> list_all (\<lambda>a. \<not> fbreak a) as \<Longrightarrow> goes fbreak ts1 w A ts2 \<Longrightarrow>
    goes fbreak ts (c # w) (as # A) ts2"

lemma goes_append:
  assumes "goes fb ts v A ts1" "goes fb ts1 w B ts2"
  shows "goes fb ts (v @ w) (A @ B) ts2"
  using assms by (induction rule: goes.induct) (auto intro: goes.intros)

lemma goes_length: "goes fb ts w A ts' \<Longrightarrow> length A = length w"
  by (induction rule: goes.induct) auto

lemma goes_one: "rl_step c ts = (as, ts') \<Longrightarrow> ts' \<noteq> [] \<Longrightarrow> list_all (\<lambda>a. \<not> fb a) as \<Longrightarrow> goes fb ts [c] [as] ts'"
  by (auto intro: goes.intros)

lemma goes_loop:
  assumes "\<And>c. c \<in> set w \<Longrightarrow> rl_step c ts = ([], ts)" "ts \<noteq> []"
  shows "goes fb ts w (replicate (length w) []) ts"
  using assms(1) by (induction w) (auto intro!: goes.intros simp: assms(2))

text \<open>A piece of text whose first character runs some actions and whose others run none.\<close>

lemma goes_piece:
  assumes "rl_step c ts = (as, ts1)" "ts1 \<noteq> []" "list_all (\<lambda>a. \<not> fb a) as" "goes fb ts1 w (replicate (length w) []) ts2"
  shows "goes fb ts (c # w) (as # replicate (length w) []) ts2"
  using assms by (auto intro: goes.intros)

declare rl_exec.simps(2) [simp del]

text \<open>The effect of a run.\<close>

fun acts_effect :: "(nat \<Rightarrow> 'a \<Rightarrow> 's \<Rightarrow> 's res) \<Rightarrow> nat \<Rightarrow> 'a list list \<Rightarrow> 's \<Rightarrow> 's res" where
  "acts_effect f p [] s = Inr s"
| "acts_effect f p (as # A) s = bindR (foldl (\<lambda>r a. bindR r (f p a)) (Inr s) as) (acts_effect f (Suc p) A)"

lemma foldl_fault: "foldl (\<lambda>r a. bindR r (g a)) (Inl e) as = Inl e"
  by (induction as) auto

lemma run_acts_no_break:
  "list_all (\<lambda>a. \<not> fb a) as \<Longrightarrow>
     run_acts g fb as s = bindR (foldl (\<lambda>r a. bindR r (g a)) (Inr s) as) (\<lambda>s'. Inr (False, s'))"
proof (induction as arbitrary: s)
  case (Cons a as)
  then show ?case by (cases "g a s") (auto simp: foldl_fault)
qed simp

lemma rl_exec_goes:
  assumes "goes fb ts w A ts'"
  shows "rl_exec f fb p (w @ rest) ts s = bindR (acts_effect f p A s) (rl_exec f fb (p + length w) rest ts')"
  using assms
proof (induction arbitrary: p s rule: goes.induct)
  case (read c ts as ts1 w A ts2)
  then show ?case by (simp add: rl_exec.simps(2) run_acts_no_break bindR_assoc)
qed simp

lemma acts_effect_append:
  "acts_effect f p (A @ B) s = bindR (acts_effect f p A s) (acts_effect f (p + length A) B)"
proof (induction A arbitrary: p s)
  case (Cons as A)
  have "acts_effect f (Suc p) (A @ B) = (\<lambda>x. bindR (acts_effect f (Suc p) A x) (acts_effect f (Suc (p + length A)) B))"
    using Cons.IH [of "Suc p"] by (simp add: fun_eq_iff)
  then show ?case by (simp add: bindR_assoc)
qed simp

lemma acts_effect_silent [simp]: "acts_effect f p (replicate n []) s = Inr s"
  by (induction n arbitrary: p) simp_all

end
