(* ===== verification/Http11_Grammar.thy ===== *)
theory Http11_Grammar
  imports Ragel
begin

text \<open>
  The grammar of HTTP requests (\<open>gudov/http/http11_parser.rl\<close>).  Whether the parser is relaxed about uris
  is an argument: \<open>http_parser_init\<close> does not set the flag.  A machine that is referred to several
  times takes the number of its first embedding as an argument.

  Some expressions of the grammar are not what their layout suggests: in Ragel \<open>0 - 31\<close> is the difference
  of two characters, not a range, and \<open>6( h16 ":" )\<close> is the character with the code 6 followed by a group.
  They are translated as Ragel reads them.

  The lemmas follow the machine through the parts of a request: which actions run where.
\<close>

section \<open>The grammar\<close>

datatype act =
    mark_act
  | start_field
  | write_field
  | start_value
  | write_value
  | request_method
  | request_uri
  | fragment_act
  | start_query
  | query_string
  | http_version
  | request_path
  | done_act
  | xml_act
  | json_act

definition CRLF :: "act rx" where "CRLF = Alt (lit [CHR 0x0D, CHR 0x0A]) (chr (CHR 0x0A))"

definition more_delims :: "bool \<Rightarrow> (nat \<times> nat) list" where
  "more_delims relaxed = (if relaxed then chars_of ''{}^'' else [])"

definition sub_delims :: "bool \<Rightarrow> (nat \<times> nat) list" where
  "sub_delims relaxed = chars_of [CHR ''!'', CHR ''$'', CHR ''&'', CHR 0x27, CHR ''('', CHR '')'', CHR ''*'', CHR ''+'', CHR '','', CHR '';'', CHR ''=''] @
     more_delims relaxed"

definition unreserved :: "(nat \<times> nat) list" where "unreserved = alpha @ digits @ chars_of ''-._~''"

definition pct_encoded :: "act rx" where "pct_encoded = seqs [chr (CHR ''%''), Cls xdigits, Cls xdigits]"

definition pchar :: "bool \<Rightarrow> act rx" where
  "pchar relaxed = Alt (Cls (unreserved @ sub_delims relaxed @ chars_of '':@'')) pct_encoded"

definition fragment :: "bool \<Rightarrow> nat \<Rightarrow> act rx" where
  "fragment relaxed n = Leave (n + 1) fragment_act (Enter n mark_act (Star (Alt (pchar relaxed) (Cls (chars_of ''/?'')))))"

definition query :: "bool \<Rightarrow> nat \<Rightarrow> act rx" where
  "query relaxed n = Leave n query_string (Star (Alt (pchar relaxed) (Cls (chars_of ''/?''))))"

definition segment_nz_nc :: "bool \<Rightarrow> act rx" where
  "segment_nz_nc relaxed = plus_rx (Alt (Cls (unreserved @ sub_delims relaxed @ chars_of ''@'')) pct_encoded)"

definition segment_nz :: "bool \<Rightarrow> act rx" where "segment_nz relaxed = plus_rx (pchar relaxed)"

definition segment :: "bool \<Rightarrow> act rx" where "segment relaxed = Star (pchar relaxed)"

definition path_rootless :: "bool \<Rightarrow> act rx" where
  "path_rootless relaxed = Seq (segment_nz relaxed) (Star (Seq (chr (CHR ''/'')) (segment relaxed)))"

definition path_noscheme :: "bool \<Rightarrow> act rx" where
  "path_noscheme relaxed = Seq (segment_nz_nc relaxed) (Star (Seq (chr (CHR ''/'')) (segment relaxed)))"

definition path_absolute :: "bool \<Rightarrow> act rx" where
  "path_absolute relaxed = Seq (chr (CHR ''/'')) (opt (Seq (segment_nz relaxed) (Star (Seq (chr (CHR ''/'')) (segment relaxed)))))"

definition path_abempty :: "bool \<Rightarrow> act rx" where
  "path_abempty relaxed = Star (Seq (chr (CHR ''/'')) (segment relaxed))"

definition reg_name :: "bool \<Rightarrow> act rx" where
  "reg_name relaxed = Star (Alt (Cls (unreserved @ sub_delims relaxed)) pct_encoded)"

definition dec_octet :: "act rx" where
  "dec_octet = alts [Cls digits, Seq (Cls (diff_cls (chars_of ''1'') (chars_of ''9''))) (Cls digits), Seq (chr (CHR ''1'')) (times_rx 2 (Cls digits)),
     seqs [chr (CHR ''2''), Cls (diff_cls (chars_of ''0'') (chars_of ''4'')), Cls digits],
     Seq (lit ''25'') (Cls (diff_cls (chars_of ''0'') (chars_of ''5'')))]"

definition IPv4address :: "act rx" where
  "IPv4address = seqs [dec_octet, chr (CHR ''.''), dec_octet, chr (CHR ''.''), dec_octet, chr (CHR ''.''), dec_octet]"

definition h16 :: "act rx" where "h16 = Seq (Cls xdigits) (upto_rx 3 (Cls xdigits))"

definition h16c :: "act rx" where "h16c = Seq h16 (chr (CHR '':''))"

definition ls32 :: "act rx" where "ls32 = Alt (seqs [h16, chr (CHR '':''), h16]) IPv4address"

definition before :: "nat \<Rightarrow> act rx" where
  "before n = opt (Seq (Seq (times_rx n h16c) (Star h16c)) h16)"

definition IPv6address :: "act rx" where
  "IPv6address = alts
     [seqs [Cls [(6, 6)], h16c, ls32],
      seqs [lit ''::'', Cls [(5, 5)], h16c, ls32],
      seqs [opt h16, lit ''::'', Cls [(4, 4)], h16c, ls32],
      seqs [before 1, lit ''::'', Cls [(3, 3)], h16c, ls32],
      seqs [before 2, lit ''::'', Cls [(2, 2)], h16c, ls32],
      seqs [before 3, lit ''::'', h16, chr (CHR '':''), ls32],
      seqs [before 4, lit ''::'', ls32],
      seqs [before 5, lit ''::'', h16],
      seqs [before 6, lit ''::'']]"

definition IPvFuture :: "bool \<Rightarrow> act rx" where
  "IPvFuture relaxed = seqs [chr (CHR ''v''), plus_rx (Cls xdigits), chr (CHR ''.''), plus_rx (Cls (unreserved @ sub_delims relaxed @ chars_of '':''))]"

definition IP_literal :: "bool \<Rightarrow> act rx" where
  "IP_literal relaxed = seqs [chr (CHR ''[''), Alt IPv6address (IPvFuture relaxed), chr (CHR '']'')]"

definition host :: "bool \<Rightarrow> act rx" where "host relaxed = alts [IP_literal relaxed, IPv4address, reg_name relaxed]"

definition userinfo :: "bool \<Rightarrow> act rx" where
  "userinfo relaxed = Star (Alt (Cls (unreserved @ sub_delims relaxed @ chars_of '':'')) pct_encoded)"

definition authority :: "bool \<Rightarrow> act rx" where
  "authority relaxed = seqs [opt (Seq (userinfo relaxed) (chr (CHR ''@''))), host relaxed, opt (Seq (chr (CHR '':'')) (Star (Cls digits)))]"

definition scheme :: "act rx" where "scheme = Seq (Cls alpha) (Star (Cls (alpha @ digits @ chars_of ''+-.'')))"

definition relative_part :: "bool \<Rightarrow> act rx" where
  "relative_part relaxed =
     alts [seqs [lit ''//'', authority relaxed, path_abempty relaxed], path_absolute relaxed, path_noscheme relaxed, One]"

definition hier_part :: "bool \<Rightarrow> act rx" where
  "hier_part relaxed =
     alts [seqs [lit ''//'', authority relaxed, path_abempty relaxed], path_absolute relaxed, path_rootless relaxed, One]"

text \<open>The part that \<open>relative_ref\<close> and \<open>URI\<close> share.\<close>

definition with_query :: "bool \<Rightarrow> nat \<Rightarrow> act rx \<Rightarrow> act rx" where
  "with_query relaxed n part =
     Seq (Leave (n + 4) request_uri (Enter n mark_act (Seq (Leave (n + 1) request_path part)
            (opt (Seq (Leave (n + 2) start_query (chr (CHR ''?''))) (query relaxed (n + 3)))))))
         (opt (Seq (chr (CHR ''#'')) (fragment relaxed (n + 5))))"

definition relative_ref :: "bool \<Rightarrow> nat \<Rightarrow> act rx" where
  "relative_ref relaxed n = with_query relaxed n (relative_part relaxed)"

definition URI :: "bool \<Rightarrow> nat \<Rightarrow> act rx" where
  "URI relaxed n = seqs [scheme, chr (CHR '':''), with_query relaxed n (hier_part relaxed)]"

definition URI_reference :: "bool \<Rightarrow> nat \<Rightarrow> act rx" where
  "URI_reference relaxed n = Alt (URI relaxed n) (relative_ref relaxed (n + 7))"

definition Method :: "nat \<Rightarrow> act rx" where
  "Method n = Leave (n + 1) request_method (Enter n mark_act (Seq (Cls (upper @ digits)) (upto_rx 19 (Cls (upper @ digits)))))"

definition HTTP_Version :: "nat \<Rightarrow> act rx" where
  "HTTP_Version n = Leave (n + 1) http_version (Enter n mark_act (Seq (lit ''HTTP/'') (Seq (lit ''1.'') (Cls (chars_of ''01'')))))"

definition Request_Line :: "bool \<Rightarrow> nat \<Rightarrow> act rx" where
  "Request_Line relaxed n =
     seqs [Method n, chr (CHR '' ''), URI_reference relaxed (n + 2), chr (CHR '' ''), HTTP_Version (n + 16), CRLF]"

definition HTTP_CTL :: "(nat \<times> nat) list" where "HTTP_CTL = diff_cls [(0, 0)] [(31, 31)] @ [(127, 127)]"

definition HTTP_separator :: "(nat \<times> nat) list" where
  "HTTP_separator = chars_of (''()<>@,;:'' @ [CHR 0x5C, CHR 0x22] @ ''/[]?={} '' @ [CHR 0x09])"

definition blanks :: "(nat \<times> nat) list" where "blanks = chars_of [CHR '' '', CHR 0x09]"

definition lws :: "act rx" where "lws = Seq (opt CRLF) (plus_rx (Cls blanks))"

definition token_chars :: "(nat \<times> nat) list" where "token_chars = diff_cls ascii (HTTP_CTL @ HTTP_separator)"

definition content :: "act rx" where "content = Alt (Cls (diff_cls any HTTP_CTL)) lws"

definition field_name :: "nat \<Rightarrow> act rx" where
  "field_name n = Leave (n + 1) write_field (Enter n start_field (plus_rx (Cls token_chars)))"

definition field_value :: "nat \<Rightarrow> act rx" where
  "field_value n = Leave (n + 1) write_value (Enter n start_value (Star content))"

definition message_header :: "nat \<Rightarrow> act rx" where
  "message_header n = Seq (Low 0 (seqs [field_name n, chr (CHR '':''), Star lws, field_value (n + 2)])) (High 0 CRLF)"

definition Request :: "bool \<Rightarrow> nat \<Rightarrow> act rx" where
  "Request relaxed n = seqs [Request_Line relaxed n, Star (message_header (n + 18)), CRLF]"

definition SocketJSONStart :: "bool \<Rightarrow> act rx" where "SocketJSONStart relaxed = Seq (chr (CHR ''@'')) (relative_part relaxed)"

definition SocketJSONData :: "act rx" where
  "SocketJSONData = Seq (Low 1 (seqs [chr (CHR ''{''), Star (Cls any), chr (CHR ''}'')])) (HighFinish 1 (Cls [(0, 0)]))"

definition SocketXMLData :: "nat \<Rightarrow> act rx" where
  "SocketXMLData n =
     Seq (Low 2 (seqs [Leave (n + 1) request_path (Enter n mark_act (Seq (chr (CHR ''<'')) (plus_rx (Cls (alpha @ digits @ chars_of ''-.''))))),
                       Cls (chars_of ''/>'' @ spaces), Star (Cls any), chr (CHR ''>'')]))
         (HighFinish 2 (Cls [(0, 0)]))"

definition SocketJSON :: "bool \<Rightarrow> nat \<Rightarrow> act rx" where
  "SocketJSON relaxed n =
     seqs [Leave (n + 1) request_path (Enter n mark_act (SocketJSONStart relaxed)), chr (CHR '' ''),
           Finish (n + 3) json_act (Enter (n + 2) mark_act SocketJSONData)]"

definition SocketXML :: "nat \<Rightarrow> act rx" where "SocketXML n = Finish (n + 2) xml_act (SocketXMLData n)"

definition main_rx :: "bool \<Rightarrow> act rx" where
  "main_rx relaxed = Finish 29 done_act (Alt (Request relaxed 0) (Alt (SocketXML 22) (SocketJSON relaxed 25)))"

section \<open>The states of the machine\<close>

text \<open>The rest of a request after its first line, and behind the parts of the line.\<close>

definition after_line :: "act rx" where "after_line = Seq (Star (message_header 18)) CRLF"

definition in_line :: "act rx \<Rightarrow> act rx" where "in_line r = Finish 29 done_act (Seq r after_line)"

definition after_uri :: "act rx" where "after_uri = Seq (chr (CHR '' '')) (Seq (HTTP_Version 16) CRLF)"

definition after_method :: "bool \<Rightarrow> act rx" where
  "after_method rl = Seq (chr (CHR '' '')) (Seq (URI_reference rl 2) after_uri)"

definition in_method :: "bool \<Rightarrow> nat \<Rightarrow> act rx" where
  "in_method rl k = in_line (Seq (Leave 1 request_method (upto_rx k (Cls (upper @ digits)))) (after_method rl))"

definition at_uri :: "bool \<Rightarrow> act rx" where "at_uri rl = in_line (Seq (URI_reference rl 2) after_uri)"

definition query_opt :: "bool \<Rightarrow> act rx" where
  "query_opt rl = opt (Seq (Leave 11 start_query (chr (CHR ''?''))) (query rl 12))"

definition fragment_opt :: "bool \<Rightarrow> act rx" where "fragment_opt rl = opt (Seq (chr (CHR ''#'')) (fragment rl 14))"

definition in_uri :: "bool \<Rightarrow> act rx \<Rightarrow> act rx" where
  "in_uri rl r = in_line (Seq (Seq (Leave 13 request_uri r) (fragment_opt rl)) after_uri)"

definition in_path :: "bool \<Rightarrow> act rx \<Rightarrow> act rx" where
  "in_path rl r = in_uri rl (Seq (Leave 10 request_path r) (query_opt rl))"

definition segments :: "bool \<Rightarrow> act rx" where
  "segments rl = Star (Seq (chr (CHR ''/'')) (segment rl))"

definition query_char :: "bool \<Rightarrow> act rx" where "query_char rl = Alt (pchar rl) (Cls (chars_of ''/?''))"

text \<open>The characters that stand for themselves in a uri.\<close>

definition plain :: "char \<Rightarrow> bool" where "plain c \<longleftrightarrow> cls_mem c (unreserved @ sub_delims False @ chars_of '':@'')"

lemma plain_mem: "plain c \<Longrightarrow> cls_mem c (unreserved @ sub_delims rl @ chars_of '':@'')"
  by (auto simp: plain_def sub_delims_def more_delims_def)

declare add_2_eq_Suc [simp del] add_2_eq_Suc' [simp del]

lemma leaving_rests [simp]:
  "leaving CRLF = None" "leaving after_line = None" "leaving (HTTP_Version n) = None" "leaving after_uri = None" "leaving (after_method rl) = None"
  by (simp_all add: CRLF_def after_line_def HTTP_Version_def after_uri_def after_method_def)

lemma main_rx_eq:
  "main_rx rl = Finish 29 done_act (Alt (Seq (Seq (Method 0) (after_method rl)) after_line) (Alt (SocketXML 22) (SocketJSON rl 25)))"
  by (simp add: main_rx_def Request_def Request_Line_def after_line_def after_method_def after_uri_def)

lemma moves_socket:
  "c \<noteq> CHR ''<'' \<Longrightarrow> moves c (SocketXML n) = []" "c \<noteq> CHR ''@'' \<Longrightarrow> moves c (SocketJSON rl n) = []"
  by (simp_all add: SocketXML_def SocketXMLData_def SocketJSON_def SocketJSONStart_def split: option.split)

lemma step_method_first:
  assumes "cls_mem c (upper @ digits)"
  shows "rl_step c [main_rx rl] = ([mark_act], [in_method rl 19])"
proof -
  have "c \<noteq> CHR ''<''" "c \<noteq> CHR ''@''" using assms by (auto simp: upper_def digits_def)
  then show ?thesis using assms
    by (simp add: machine main_rx_eq moves_socket Method_def in_method_def in_line_def)
qed

lemma step_method:
  assumes "cls_mem c (upper @ digits)"
  shows "rl_step c [in_method rl (Suc k)] = ([], [in_method rl k])"
proof -
  have "c \<noteq> CHR '' ''" using assms by (auto simp: upper_def digits_def)
  then show ?thesis using assms
    by (simp add: machine in_method_def in_line_def after_method_def)
qed

lemma step_after_method: "rl_step (CHR '' '') [in_method rl k] = ([request_method], [at_uri rl])"
  by (simp add: machine in_method_def in_line_def after_method_def upper_def digits_def at_uri_def)

text \<open>The uri: a path that starts with a slash, then perhaps a query and a fragment.\<close>

lemma moves_pchar:
  "plain c \<Longrightarrow> moves c (pchar rl) = [([], [], One)]"
  "c \<in> set '' ?#/'' \<Longrightarrow> moves c (pchar rl) = []"
proof -
  assume "plain c"
  moreover have "c \<noteq> CHR ''%''" using \<open>plain c\<close> by (auto simp: plain_def unreserved_def alpha_def digits_def sub_delims_def more_delims_def)
  ultimately show "moves c (pchar rl) = [([], [], One)]"
    using plain_mem [of c rl] by (simp add: pchar_def pct_encoded_def)
next
  assume "c \<in> set '' ?#/''"
  then show "moves c (pchar rl) = []"
    by (auto simp: pchar_def pct_encoded_def unreserved_def alpha_def digits_def sub_delims_def more_delims_def)
qed

lemma plain_not: "plain c \<Longrightarrow> c \<notin> set '' ?#/''"
  by (auto simp: plain_def unreserved_def alpha_def digits_def sub_delims_def more_delims_def)

lemma leaving_parts [simp]:
  "leaving (query_opt rl) = Some []" "leaving (fragment_opt rl) = Some []" "leaving (segment rl) = Some []" "leaving (segments rl) = Some []"
  "leaving (pchar rl) = None" "leaving (segment_nz rl) = None" "leaving (query rl n) = Some [(n, query_string)]"
  "leaving (fragment rl n) = Some [(n + 1, fragment_act)]"
  by (simp_all add: query_opt_def fragment_opt_def opt_def segment_def segments_def pchar_def pct_encoded_def
      segment_nz_def plus_rx_def query_def fragment_def)

definition at_path :: "bool \<Rightarrow> act rx list" where
  "at_path rl = [in_path rl (Seq (chr (CHR ''/'')) (Seq (authority rl) (path_abempty rl))), in_path rl (opt (Seq (segment_nz rl) (segments rl)))]"

definition in_segment :: "bool \<Rightarrow> act rx" where "in_segment rl = in_path rl (Seq (segment rl) (segments rl))"

lemma relative_ref_eq:
  "relative_ref rl 9 = Seq (Leave 13 request_uri (Enter 9 mark_act (Seq (Leave 10 request_path (relative_part rl)) (query_opt rl)))) (fragment_opt rl)"
  by (simp add: relative_ref_def with_query_def query_opt_def fragment_opt_def)

lemma moves_slash:
  "moves (CHR ''/'') (URI rl n) = []" "moves (CHR ''/'') (path_noscheme rl) = []"
  "moves (CHR ''/'') (path_absolute rl) = [([], [], opt (Seq (segment_nz rl) (segments rl)))]"
  by (simp_all add: URI_def scheme_def path_noscheme_def segment_nz_nc_def plus_rx_def path_absolute_def segments_def
      pct_encoded_def alpha_def unreserved_def digits_def sub_delims_def more_delims_def)

lemma leaving_uris [simp]: "leaving (URI rl n) = None" "leaving (relative_part rl) = Some []"
  by (simp_all add: URI_def scheme_def relative_part_def path_absolute_def path_noscheme_def segment_nz_nc_def plus_rx_def pct_encoded_def)

lemma moves_relative_ref_slash:
  "moves (CHR ''/'') (relative_ref rl 9) =
     map (\<lambda>r. ([(9, mark_act)], [], Seq (Leave 13 request_uri (Seq (Leave 10 request_path r) (query_opt rl))) (fragment_opt rl)))
       [Seq (chr (CHR ''/'')) (Seq (authority rl) (path_abempty rl)), opt (Seq (segment_nz rl) (segments rl))]"
proof -
  have "moves (CHR ''/'') (relative_part rl) =
      [([], [], Seq (chr (CHR ''/'')) (Seq (authority rl) (path_abempty rl))), ([], [], opt (Seq (segment_nz rl) (segments rl)))]"
    by (simp add: relative_part_def moves_slash)
  moreover have "moves (CHR ''/'') (query_opt rl) = []" "moves (CHR ''/'') (fragment_opt rl) = []"
    by (simp_all add: query_opt_def fragment_opt_def opt_def)
  ultimately show ?thesis by (simp add: relative_ref_eq)
qed

lemma leaving_seq [simp]: "leaving (seq r s) = leaving (Seq r s)"
  by (cases r) (auto simp: leaving.simps split: option.split)

text \<open>Inside a line no character ends the request.\<close>

definition back_in_line :: "act move \<Rightarrow> act move" where
  "back_in_line m = (case m of (as, ps, t) \<Rightarrow> (as, ps, Finish 29 done_act (seq t after_line)))"

lemma moves_in_line: "leaving r = None \<Longrightarrow> moves c (in_line r) = map back_in_line (moves c r)"
  by (simp add: in_line_def back_in_line_def case_prod_unfold)

lemma in_line_inject [simp]: "in_line r = in_line s \<longleftrightarrow> r = s"
  by (simp add: in_line_def)

lemma back_in_line_simps [simp]:
  "back_in_line (as, ps, Seq r s) = (as, ps, in_line (Seq r s))" "back_in_line (as, ps, One) = (as, ps, Finish 29 done_act after_line)"
  by (simp_all add: back_in_line_def in_line_def)

text \<open>Behind the uri.\<close>

lemma moves_after_uri:
  "moves c after_uri = (if c = CHR '' '' then [([], [], Seq (HTTP_Version 16) CRLF)] else [])"
  by (simp add: after_uri_def)

lemma step_slash: "rl_step (CHR ''/'') [at_uri rl] = ([mark_act], at_path rl)"
  by (simp add: machine at_uri_def moves_in_line URI_reference_def moves_slash moves_relative_ref_slash moves_after_uri
      at_path_def in_path_def in_uri_def opt_def split: option.split)


text \<open>Inside the uri: the moves of its current part, and the ways out of it.\<close>

definition back_in_uri :: "bool \<Rightarrow> act move \<Rightarrow> act move" where
  "back_in_uri rl m = (case m of (as, ps, t) \<Rightarrow> (as, ps, in_uri rl t))"

lemma moves_fragment_opt:
  "moves c (fragment_opt rl) = (if c = CHR ''#'' then [([], [], fragment rl 14)] else [])"
  by (simp add: fragment_opt_def opt_def)

lemma moves_query_opt:
  "moves c (query_opt rl) = (if c = CHR ''?'' then [([], [], Seq (Leave 11 start_query One) (query rl 12))] else [])"
  by (simp add: query_opt_def opt_def)

lemma fragment_seq [simp]: "seq (fragment rl n) s = Seq (fragment rl n) s" "seq (query rl n) s = Seq (query rl n) s"
  by (simp_all add: fragment_def query_def)

lemma moves_in_uri:
  "moves c (in_uri rl r) = map (back_in_uri rl) (moves c r) @
     (case leaving r of None \<Rightarrow> []
      | Some xs \<Rightarrow>
          if c = CHR ''#'' then [(xs @ [(13, request_uri)], [], in_line (Seq (fragment rl 14) after_uri))]
          else if c = CHR '' '' then [(xs @ [(13, request_uri)], [], in_line (Seq (HTTP_Version 16) CRLF))] else [])"
  by (cases "leaving r")
    (auto simp: in_uri_def moves_in_line moves_fragment_opt moves_after_uri back_in_uri_def case_prod_unfold)

lemma moves_in_path:
  "moves c (in_path rl r) = map (\<lambda>(as, ps, t). (as, ps, in_path rl t)) (moves c r) @
     (case leaving r of None \<Rightarrow> []
      | Some xs \<Rightarrow>
          if c = CHR ''?'' then [(xs @ [(10, request_path)], [], in_uri rl (Seq (Leave 11 start_query One) (query rl 12)))]
          else if c = CHR ''#'' then [(xs @ [(10, request_path), (13, request_uri)], [], in_line (Seq (fragment rl 14) after_uri))]
          else if c = CHR '' '' then [(xs @ [(10, request_path), (13, request_uri)], [], in_line (Seq (HTTP_Version 16) CRLF))] else [])"
  by (cases "leaving r") (auto simp: in_path_def moves_in_uri moves_query_opt back_in_uri_def case_prod_unfold)


definition at_version :: "act rx" where "at_version = in_line (Seq (HTTP_Version 16) CRLF)"
definition at_query :: "bool \<Rightarrow> act rx" where "at_query rl = in_uri rl (Seq (Leave 11 start_query One) (query rl 12))"
definition in_query :: "bool \<Rightarrow> act rx" where "in_query rl = in_uri rl (Leave 12 query_string (Star (query_char rl)))"
definition at_fragment :: "bool \<Rightarrow> act rx" where "at_fragment rl = in_line (Seq (fragment rl 14) after_uri)"
definition in_fragment :: "bool \<Rightarrow> act rx" where
  "in_fragment rl = in_line (Seq (Leave 15 fragment_act (Star (query_char rl))) after_uri)"

lemma moves_segment:
  "plain c \<Longrightarrow> moves c (segment rl) = [([], [], segment rl)]" "c \<in> set '' ?#/'' \<Longrightarrow> moves c (segment rl) = []"
  "plain c \<Longrightarrow> moves c (segment_nz rl) = [([], [], segment rl)]" "c \<in> set '' ?#/'' \<Longrightarrow> moves c (segment_nz rl) = []"
  "moves c (segments rl) = (if c = CHR ''/'' then [([], [], Seq (segment rl) (segments rl))] else [])"
  by (auto simp: segment_def segment_nz_def plus_rx_def moves_pchar segments_def)

lemma segment_seq [simp]: "seq (segment rl) s = Seq (segment rl) s"
  by (simp add: segment_def)

lemma step_path_first: "plain c \<Longrightarrow> rl_step c (at_path rl) = ([], [in_segment rl])"
  using plain_not [of c]
  by (simp add: machine at_path_def moves_in_path opt_def moves_segment in_segment_def split: option.split)

lemma step_segment: "plain c \<or> c = CHR ''/'' \<Longrightarrow> rl_step c [in_segment rl] = ([], [in_segment rl])"
  using plain_not [of c] by (elim disjE) (simp_all add: machine in_segment_def moves_in_path moves_segment)

lemma step_path_ends:
  assumes "ts = at_path rl \<or> ts = [in_segment rl]"
  shows "rl_step (CHR '' '') ts = ([request_path, request_uri], [at_version])"
    "rl_step (CHR ''?'') ts = ([request_path], [at_query rl])"
    "rl_step (CHR ''#'') ts = ([request_path, request_uri], [at_fragment rl])"
  using assms by (auto simp: machine at_path_def in_segment_def moves_in_path moves_segment opt_def
      at_version_def at_query_def at_fragment_def)

definition query_ok :: "char \<Rightarrow> bool" where "query_ok c \<longleftrightarrow> plain c \<or> c = CHR ''/'' \<or> c = CHR ''?''"

lemma query_ok_not: "query_ok c \<Longrightarrow> c \<noteq> CHR '' '' \<and> c \<noteq> CHR ''#''"
  using plain_not [of c] by (auto simp: query_ok_def)

lemma moves_query_char:
  "query_ok c \<Longrightarrow> moves c (query_char rl) = [([], [], One)]" "c \<in> set '' #'' \<Longrightarrow> moves c (query_char rl) = []"
  using plain_not [of c] by (auto simp: query_ok_def query_char_def moves_pchar)

lemma query_eq: "query rl n = Leave n query_string (Star (query_char rl))"
  "fragment rl n = Leave (n + 1) fragment_act (Enter n mark_act (Star (query_char rl)))"
  by (simp_all add: query_def fragment_def query_char_def)

lemma step_query:
  assumes "query_ok c"
  shows "rl_step c [at_query rl] = ([start_query], [in_query rl])" "rl_step c [in_query rl] = ([], [in_query rl])"
  using assms query_ok_not [OF assms]
  by (simp_all add: machine at_query_def in_query_def moves_in_uri query_eq moves_query_char back_in_uri_def)

lemma step_query_ends:
  "rl_step (CHR '' '') [in_query rl] = ([query_string, request_uri], [at_version])"
  "rl_step (CHR ''#'') [in_query rl] = ([query_string, request_uri], [at_fragment rl])"
  by (simp_all add: machine in_query_def moves_in_uri moves_query_char at_version_def at_fragment_def)

lemma step_fragment:
  assumes "query_ok c"
  shows "rl_step c [at_fragment rl] = ([mark_act], [in_fragment rl])" "rl_step c [in_fragment rl] = ([], [in_fragment rl])"
  using assms query_ok_not [OF assms]
  by (simp_all add: machine at_fragment_def in_fragment_def moves_in_line moves_after_uri query_eq moves_query_char)

lemma step_fragment_ends: "rl_step (CHR '' '') [in_fragment rl] = ([fragment_act], [at_version])"
  by (simp add: machine in_fragment_def moves_in_line moves_after_uri moves_query_char at_version_def)


text \<open>The version and the end of the line.\<close>

lemma moves_CRLF:
  "moves c CRLF = (if c = CHR 0x0D then [([], [], chr (CHR 0x0A))] else if c = CHR 0x0A then [([], [], One)] else [])"
  by (simp add: CRLF_def)

definition in_version :: "act rx \<Rightarrow> act rx" where "in_version r = in_line (Seq (Leave 17 http_version r) CRLF)"
definition line_end :: "act rx" where "line_end = in_line (chr (CHR 0x0A))"
definition headers :: "act rx" where "headers = Finish 29 done_act after_line"

lemma moves_in_version: "leaving r = None \<Longrightarrow> moves c (in_version r) = map (\<lambda>(as, ps, t). (as, ps, in_version t)) (moves c r)"
  by (simp add: in_version_def moves_in_line case_prod_unfold)

lemma goes_in_version: "goes fb [in_version (Seq (lit (c # w)) r)] (c # w) (replicate (length (c # w)) []) [in_version r]"
proof (induction w arbitrary: c)
  case Nil
  have "rl_step c [in_version (Seq (lit [c]) r)] = ([], [in_version r])" by (simp add: machine moves_in_version del: lit.simps(2,3))
  then show ?case by (auto intro: goes.intros)
next
  case (Cons d w)
  have "rl_step c [in_version (Seq (lit (c # d # w)) r)] = ([], [in_version (Seq (lit (d # w)) r)])"
    by (simp add: machine moves_in_version del: lit.simps)
  then show ?case using Cons.IH [of d] by (auto intro: goes.intros)
qed

lemma goes_version:
  assumes "d \<in> set ''01''" "\<not> fb mark_act" "\<not> fb http_version"
  shows "goes fb [at_version] (''HTTP/1.'' @ [d, CHR 0x0D, CHR 0x0A]) ([[mark_act]] @ replicate 7 [] @ [[http_version], []]) [headers]"
proof -
  let ?one = "Seq (lit ''1.'') (Cls (chars_of ''01''))"
  have "rl_step (CHR ''H'') [at_version] = ([mark_act], [in_version (Seq (lit ''TTP/'') ?one)])"
    by (simp add: machine at_version_def HTTP_Version_def moves_in_line in_version_def)
  then have "goes fb [at_version] [CHR ''H''] [[mark_act]] [in_version (Seq (lit ''TTP/'') ?one)]"
    using assms(2) by (intro goes_one) simp_all
  from goes_append [OF goes_append [OF this goes_in_version] goes_in_version]
  have "goes fb [at_version] ''HTTP/1.'' ([mark_act] # replicate 6 []) [in_version (Cls (chars_of ''01''))]"
    by (simp add: eval_nat_numeral)
  moreover have "rl_step d [in_version (Cls (chars_of ''01''))] = ([], [in_version One])"
    using assms(1) by (auto simp: machine moves_in_version)
  moreover have "rl_step (CHR 0x0D) [in_version One] = ([http_version], [line_end])" "rl_step (CHR 0x0A) [line_end] = ([], [headers])"
    by (simp_all add: machine in_version_def line_end_def moves_in_line moves_CRLF headers_def back_in_line_def in_line_def)
  ultimately have "goes fb [at_version] (''HTTP/1.'' @ [d] @ [CHR 0x0D] @ [CHR 0x0A]) (([mark_act] # replicate 6 []) @ [[]] @ [[http_version]] @ [[]]) [headers]"
    using assms(3) by (intro goes_append goes_one) simp_all
  then show ?thesis by (simp add: eval_nat_numeral)
qed

text \<open>The header fields.\<close>

definition in_header :: "act rx \<Rightarrow> act rx" where
  "in_header t = Finish 29 done_act (Seq (Seq t (Star (message_header 18))) CRLF)"

definition in_field :: "act rx \<Rightarrow> act rx" where "in_field r = in_header (Seq (Low 0 r) (High 0 CRLF))"

definition value_rest :: "act rx" where "value_rest = Seq (Star lws) (field_value 20)"

definition in_name :: "act rx" where
  "in_name = in_field (Seq (Leave 19 write_field (Star (Cls token_chars))) (Seq (chr (CHR '':'')) value_rest))"

definition field_end :: "act rx" where "field_end = in_header (chr (CHR 0x0A))"

text \<open>Inside the value: after characters of the value, after blanks, and after blanks that may still stand before it.\<close>

definition in_value :: "act rx" where "in_value = in_field (Leave 21 write_value (Star content))"
definition in_blanks :: "act rx" where "in_blanks = in_field (Leave 21 write_value (Seq (Star (Cls blanks)) (Star content)))"
definition before_value :: "act rx" where
  "before_value = in_field (Seq (Seq (Star (Cls blanks)) (Star lws)) (field_value 20))"

lemma moves_in_field:
  "moves c (in_field r) = map (\<lambda>(as, ps, t). (as, (0, 0) # ps, in_field t)) (moves c r) @
     (case leaving r of None \<Rightarrow> []
      | Some xs \<Rightarrow>
          if c = CHR 0x0D then [(xs, [(0, 1)], field_end)]
          else if c = CHR 0x0A then [(xs, [(0, 1)], headers)] else [])"
  by (cases "leaving r")
    (auto simp: in_field_def in_header_def field_end_def headers_def after_line_def moves_CRLF case_prod_unfold)


lemma in_field_inject [simp]: "in_field r = in_field s \<longleftrightarrow> r = s"
  by (simp add: in_field_def in_header_def)

lemma blank_not: "c \<in> {CHR '' '', CHR 0x09} \<Longrightarrow> c \<noteq> CHR 0x0D \<and> c \<noteq> CHR 0x0A"
  by auto

text \<open>Characters of a value, apart from blanks; \<open>CR\<close> and \<open>LF\<close> are characters of \<open>content\<close>, but end the field first.\<close>

definition value_char :: "char \<Rightarrow> bool" where
  "value_char c \<longleftrightarrow> \<not> cls_mem c HTTP_CTL \<and> c \<notin> {CHR '' '', CHR 0x09, CHR 0x0D, CHR 0x0A}"

lemma any_mem [simp]: "cls_mem c any"
proof -
  have "of_char c \<le> (255 :: nat)" using nat_of_char_less_256 [of c] by linarith
  then show ?thesis by (simp add: any_def)
qed

lemma moves_content:
  "value_char c \<Longrightarrow> moves c lws = []" "value_char c \<Longrightarrow> moves c content = [([], [], One)]"
  "c \<in> {CHR '' '', CHR 0x09} \<Longrightarrow> moves c lws = [([], [], Star (Cls blanks))]"
  "c \<in> {CHR '' '', CHR 0x09} \<Longrightarrow> moves c content = [([], [], One), ([], [], Star (Cls blanks))]"
  by (auto simp: value_char_def lws_def content_def opt_def moves_CRLF plus_rx_def blanks_def HTTP_CTL_def leaving.simps)

lemma moves_message_header:
  "moves c (message_header 18) =
     (if cls_mem c token_chars
      then [([(18, start_field)], [(0, 0)], Seq (Low 0 (Seq (Leave 19 write_field (Star (Cls token_chars))) (Seq (chr (CHR '':'')) value_rest))) (High 0 CRLF))]
      else [])"
  by (simp add: message_header_def field_name_def plus_rx_def value_rest_def)

definition last_line :: "act rx" where "last_line = Finish 29 done_act (chr (CHR 0x0A))"

lemma moves_headers:
  "moves c headers = (if cls_mem c token_chars then [([(18, start_field)], [(0, 0)], in_name)] else []) @
     (if c = CHR 0x0D then [([], [], last_line)]
      else if c = CHR 0x0A then [([(29, done_act)], [], Finish 29 done_act One)] else [])"
  by (simp add: headers_def after_line_def moves_message_header moves_CRLF in_name_def in_field_def in_header_def last_line_def)

lemma step_name:
  assumes "cls_mem c token_chars"
  shows "c \<notin> {CHR 0x0D, CHR 0x0A} \<Longrightarrow> rl_step c [headers] = ([start_field], [in_name])" "rl_step c [in_name] = ([], [in_name])"
proof -
  have "c \<noteq> CHR '':''" using assms by (auto simp: token_chars_def HTTP_separator_def)
  with assms show "c \<notin> {CHR 0x0D, CHR 0x0A} \<Longrightarrow> rl_step c [headers] = ([start_field], [in_name])" "rl_step c [in_name] = ([], [in_name])"
    by (simp_all add: machine moves_headers in_name_def moves_in_field)
qed

lemma step_colon: "rl_step (CHR '':'') [in_name] = ([write_field], [in_field value_rest])"
  by (simp add: machine in_name_def moves_in_field token_chars_def HTTP_separator_def value_rest_def)

text \<open>The states in which a value is read, and how they go on.\<close>

lemma leaving_value [simp]:
  "leaving value_rest = Some [(21, write_value)]" "leaving (field_value 20) = Some [(21, write_value)]"
  by (simp_all add: value_rest_def field_value_def)

lemma moves_value:
  "value_char c \<Longrightarrow> moves c (Leave 21 write_value (Star content)) = [([], [], Leave 21 write_value (Star content))]"
  "value_char c \<Longrightarrow> moves c (field_value 20) = [([(20, start_value)], [], Leave 21 write_value (Star content))]"
  "c \<in> {CHR '' '', CHR 0x09} \<Longrightarrow> moves c (Leave 21 write_value (Star content)) =
     [([], [], Leave 21 write_value (Star content)), ([], [], Leave 21 write_value (Seq (Star (Cls blanks)) (Star content)))]"
  "c \<in> {CHR '' '', CHR 0x09} \<Longrightarrow> moves c (field_value 20) =
     [([(20, start_value)], [], Leave 21 write_value (Star content)),
      ([(20, start_value)], [], Leave 21 write_value (Seq (Star (Cls blanks)) (Star content)))]"
  by (simp_all add: field_value_def moves_content)

lemma value_char_not: "value_char c \<Longrightarrow> \<not> cls_mem c blanks \<and> c \<noteq> CHR 0x0D \<and> c \<noteq> CHR 0x0A"
  by (simp add: value_char_def blanks_def)

lemma step_value_first:
  assumes "value_char c"
  shows "rl_step c [in_field value_rest] = ([start_value], [in_value])"
    "rl_step c [before_value, in_value, in_blanks] = ([start_value], [in_value])"
  using assms value_char_not [OF assms]
  by (simp_all add: machine value_rest_def moves_in_field moves_content moves_value in_value_def before_value_def in_blanks_def)


lemma moves_CR_content: "moves (CHR 0x0D) content = [([], [], One), ([], [], Seq (chr (CHR 0x0A)) (plus_rx (Cls blanks)))]"
  by (simp add: content_def lws_def opt_def moves_CRLF HTTP_CTL_def plus_rx_def blanks_def)

lemma step_value:
  assumes "ts = [in_value] \<or> ts = [in_value, in_blanks]"
  shows "value_char c \<Longrightarrow> rl_step c ts = ([], [in_value])"
    "c \<in> {CHR '' '', CHR 0x09} \<Longrightarrow> rl_step c ts = ([], [in_value, in_blanks])"
    "rl_step (CHR 0x0D) ts = ([write_value], [field_end])"
proof -
  show "value_char c \<Longrightarrow> rl_step c ts = ([], [in_value])"
    using assms value_char_not [of c]
    by (auto simp: machine moves_in_field moves_content moves_value in_value_def in_blanks_def)
  show "c \<in> {CHR '' '', CHR 0x09} \<Longrightarrow> rl_step c ts = ([], [in_value, in_blanks])"
    using assms by (auto simp: machine moves_in_field moves_content moves_value in_value_def in_blanks_def blanks_def)
  show "rl_step (CHR 0x0D) ts = ([write_value], [field_end])"
    using assms by (auto simp: machine moves_in_field in_value_def in_blanks_def blanks_def moves_CR_content)
qed

lemma step_blank_first: "rl_step (CHR '' '') [in_field value_rest] = ([start_value], [before_value, in_value, in_blanks])"
  by (simp add: machine value_rest_def moves_in_field moves_content moves_value in_value_def before_value_def in_blanks_def)

lemma step_empty_value: "rl_step (CHR 0x0D) [in_field value_rest] = ([write_value], [field_end])"
proof -
  have "moves (CHR 0x0D) lws = [([], [], Seq (chr (CHR 0x0A)) (plus_rx (Cls blanks)))]"
    by (simp add: lws_def opt_def moves_CRLF plus_rx_def blanks_def)
  then show ?thesis by (simp add: machine value_rest_def moves_in_field field_value_def moves_CR_content)
qed

lemma step_field_end: "rl_step (CHR 0x0A) [field_end] = ([], [headers])"
  by (simp add: machine field_end_def in_header_def headers_def after_line_def)

lemma step_last_line:
  "rl_step (CHR 0x0D) [headers] = ([start_field], [in_name, last_line])"
  "rl_step (CHR 0x0A) [in_name, last_line] = ([done_act], [in_name, Finish 29 done_act One])"
proof -
  have tok: "cls_mem (CHR 0x0D) token_chars" "cls_mem (CHR 0x0A) token_chars"
    by (simp_all add: token_chars_def ascii_def HTTP_CTL_def HTTP_separator_def)
  show "rl_step (CHR 0x0D) [headers] = ([start_field], [in_name, last_line])"
    using tok by (simp add: machine moves_headers) (simp add: in_name_def last_line_def in_field_def in_header_def chr_def)
  show "rl_step (CHR 0x0A) [in_name, last_line] = ([done_act], [in_name, Finish 29 done_act One])"
    using tok step_name(2) [of "CHR 0x0A"]
    by (simp add: machine last_line_def in_name_def moves_in_field) (simp add: in_field_def in_header_def)
qed


section \<open>The parts of a request\<close>

lemma goes_method:
  assumes "m \<noteq> []" "length m \<le> 20" "list_all (\<lambda>c. cls_mem c (upper @ digits)) m" "\<not> fb mark_act" "\<not> fb request_method"
  shows "goes fb [main_rx rl] (m @ [CHR '' '']) ([mark_act] # replicate (length m - 1) [] @ [[request_method]]) [at_uri rl]"
proof -
  have rest: "goes fb [in_method rl k] w (replicate (length w) []) [in_method rl (k - length w)]"
    if "length w \<le> k" "list_all (\<lambda>c. cls_mem c (upper @ digits)) w" for w k
    using that
  proof (induction w arbitrary: k)
    case (Cons c w)
    then obtain j where "k = Suc j" by (cases k) auto
    then show ?case using Cons step_method [of c rl j] by (auto intro: goes.intros)
  qed (simp add: goes.stay)
  obtain c w where m: "m = c # w" using assms(1) by (cases m) auto
  then have "goes fb [main_rx rl] m ([mark_act] # replicate (length w) []) [in_method rl (19 - length w)]"
    using assms(2-4) rest [of w 19] by (auto intro: goes_piece [OF step_method_first])
  from goes_append [OF this goes_one [OF step_after_method]] assms(5) m show ?thesis by simp
qed

definition path_ok :: "string \<Rightarrow> bool" where
  "path_ok p \<longleftrightarrow> (case p of [] \<Rightarrow> False | c # w \<Rightarrow> c = CHR ''/'' \<and>
     (case w of [] \<Rightarrow> True | d # v \<Rightarrow> plain d \<and> list_all (\<lambda>x. plain x \<or> x = CHR ''/'') v))"

lemma goes_path:
  assumes "path_ok p" "\<not> fb mark_act"
  obtains ts where "goes fb [at_uri rl] p ([mark_act] # replicate (length p - 1) []) ts" "ts = at_path rl \<or> ts = [in_segment rl]"
proof -
  obtain w where p: "p = CHR ''/'' # w" using assms(1) by (cases p) (auto simp: path_ok_def)
  have ne: "at_path rl \<noteq> []" by (simp add: at_path_def)
  show ?thesis
  proof (cases w)
    case Nil
    then show ?thesis using that goes_one [OF step_slash ne] assms(2) p by fastforce
  next
    case (Cons d v)
    have "goes fb [in_segment rl] v (replicate (length v) []) [in_segment rl]"
      using assms(1) p Cons by (intro goes_loop step_segment) (auto simp: path_ok_def list_all_iff)
    then have "goes fb (at_path rl) w (replicate (length w) []) [in_segment rl]"
      using assms(1) p Cons goes_piece [OF step_path_first] by (fastforce simp: path_ok_def)
    then show ?thesis using that goes_piece [OF step_slash ne] assms(2) p by fastforce
  qed
qed

text \<open>The actions of a query and of a fragment, each up to the character that ends it.\<close>

lemma goes_query_fragment:
  assumes "w \<noteq> []" "list_all query_ok w" "\<not> fb start_query" "\<not> fb mark_act"
  shows "goes fb [at_query rl] w ([start_query] # replicate (length w - 1) []) [in_query rl]"
    "goes fb [at_fragment rl] w ([mark_act] # replicate (length w - 1) []) [in_fragment rl]"
proof -
  obtain c v where w: "w = c # v" using assms(1) by (cases w) auto
  have "goes fb [in_query rl] v (replicate (length v) []) [in_query rl]" "goes fb [in_fragment rl] v (replicate (length v) []) [in_fragment rl]"
    using assms(2) w by (auto intro!: goes_loop step_query step_fragment simp: list_all_iff)
  then show "goes fb [at_query rl] w ([start_query] # replicate (length w - 1) []) [in_query rl]"
    "goes fb [at_fragment rl] w ([mark_act] # replicate (length w - 1) []) [in_fragment rl]"
    using assms w goes_piece [OF step_query(1)] goes_piece [OF step_fragment(1)] by fastforce+
qed

definition name_ok :: "string \<Rightarrow> bool" where
  "name_ok n \<longleftrightarrow> n \<noteq> [] \<and> list_all (\<lambda>c. cls_mem c token_chars \<and> c \<notin> {CHR 0x0D, CHR 0x0A}) n"

definition value_ok :: "string \<Rightarrow> bool" where
  "value_ok v \<longleftrightarrow> v \<noteq> [] \<and> value_char (hd v) \<and> list_all (\<lambda>c. value_char c \<or> c \<in> {CHR '' '', CHR 0x09}) v"

lemma goes_name:
  assumes "name_ok n" "\<not> fb start_field" "\<not> fb write_field"
  shows "goes fb [headers] (n @ [CHR '':'']) ([start_field] # replicate (length n - 1) [] @ [[write_field]]) [in_field value_rest]"
proof -
  obtain c w where n: "n = c # w" using assms(1) by (cases n) (auto simp: name_ok_def)
  have "goes fb [in_name] w (replicate (length w) []) [in_name]"
    using assms(1) n by (intro goes_loop step_name) (auto simp: name_ok_def list_all_iff)
  then have "goes fb [headers] n ([start_field] # replicate (length w) []) [in_name]"
    using assms(1,2) n goes_piece [OF step_name(1)] by (fastforce simp: name_ok_def)
  from goes_append [OF this goes_one [OF step_colon]] assms(3) n show ?thesis by simp
qed

lemma goes_value_rest:
  assumes "list_all (\<lambda>c. value_char c \<or> c \<in> {CHR '' '', CHR 0x09}) w" "ts = [in_value] \<or> ts = [in_value, in_blanks]"
  obtains ts' where "goes fb ts w (replicate (length w) []) ts'" "ts' = [in_value] \<or> ts' = [in_value, in_blanks]"
proof -
  have "\<exists>ts'. goes fb ts w (replicate (length w) []) ts' \<and> (ts' = [in_value] \<or> ts' = [in_value, in_blanks])"
    using assms
  proof (induction w arbitrary: ts)
    case Nil
    then show ?case by (auto intro: goes.stay)
  next
    case (Cons c w)
    obtain ts1 where "rl_step c ts = ([], ts1)" "ts1 = [in_value] \<or> ts1 = [in_value, in_blanks]"
      using Cons.prems step_value(1,2) [OF Cons.prems(2), of c] by auto
    then show ?case using Cons.IH [of ts1] Cons.prems(1) by (auto intro!: goes.read)
  qed
  then show ?thesis using that by blast
qed

lemma goes_value_start:
  assumes "value_ok v" "\<not> fb start_value" "ts = [in_field value_rest] \<or> ts = [before_value, in_value, in_blanks]"
  obtains ts' where "goes fb ts v ([start_value] # replicate (length v - 1) []) ts'" "ts' = [in_value] \<or> ts' = [in_value, in_blanks]"
proof -
  obtain c w where v: "v = c # w" using assms(1) by (cases v) (auto simp: value_ok_def)
  then have w: "list_all (\<lambda>c. value_char c \<or> c \<in> {CHR '' '', CHR 0x09}) w" "value_char c" using assms(1) by (auto simp: value_ok_def)
  obtain ts' where g: "goes fb [in_value] w (replicate (length w) []) ts'" "ts' = [in_value] \<or> ts' = [in_value, in_blanks]"
    using goes_value_rest [OF w(1)] by blast
  have "rl_step c ts = ([start_value], [in_value])" using step_value_first [OF w(2)] assms(3) by auto
  from goes_piece [OF this _ _ g(1)] assms(2) v
  have "goes fb ts v ([start_value] # replicate (length v - 1) []) ts'" by simp
  then show ?thesis using that g(2) by blast
qed

lemma goes_value_end:
  assumes "ts = [in_value] \<or> ts = [in_value, in_blanks]" "\<not> fb write_value"
  shows "goes fb ts [CHR 0x0D, CHR 0x0A] [[write_value], []] [headers]"
  using step_value(3) [OF assms(1)] step_field_end assms(2) by (auto intro!: goes.intros)

lemma goes_value:
  assumes "value_ok v" "\<not> fb start_value" "\<not> fb write_value"
    "ts = [in_field value_rest] \<or> ts = [before_value, in_value, in_blanks]"
  shows "goes fb ts (v @ [CHR 0x0D, CHR 0x0A]) ([start_value] # replicate (length v - 1) [] @ [[write_value], []]) [headers]"
proof -
  obtain ts' where g: "goes fb ts v ([start_value] # replicate (length v - 1) []) ts'" "ts' = [in_value] \<or> ts' = [in_value, in_blanks]"
    using goes_value_start [of v fb ts] assms(1,2,4) by blast
  from goes_append [OF g(1) goes_value_end [where fb = fb, OF g(2) assms(3)]] show ?thesis by simp
qed

end
