(* ===== verification/Http11_Parser.thy ===== *)
theory Http11_Parser
  imports Http11_Grammar HttpSession
begin

text \<open>
  The scanner of HTTP requests (\<open>gudov/http/http11_parser.rl\<close>, \<open>http11_parser.h\<close>): the actions of its grammar and
  the functions around the generated loop, as an instance of the scanner that a session uses.
\<close>

section \<open>The parser\<close>

text \<open>Positions are offsets into the buffer of the current call.\<close>

record http_parser =
  hp_cs :: "act rx list"
  hp_body_start :: nat
  hp_content_len :: int
  hp_nread :: nat
  hp_mark :: nat
  hp_field_start :: nat
  hp_field_len :: nat
  hp_query_start :: nat
  hp_xml_sent :: bool
  hp_json_sent :: bool

definition http_parser_init :: "bool \<Rightarrow> http_parser" where
  "http_parser_init relaxed =
     \<lparr>hp_cs = [main_rx relaxed], hp_body_start = 0, hp_content_len = 0, hp_nread = 0, hp_mark = 0, hp_field_start = 0,
      hp_field_len = 0, hp_query_start = 0, hp_xml_sent = False, hp_json_sent = False\<rparr>"

text \<open>
  What a callback is given: the text from a marked position on, and how long the piece is.  A mark that
  an earlier call left behind the current position gives a huge length, which no string can have.
\<close>

definition piece :: "string \<Rightarrow> nat \<Rightarrow> nat \<Rightarrow> (string \<times> nat) res" where
  "piece data at fpc = (if at \<le> fpc then Inr (drop at data, fpc - at) else Inl LengthError)"

fun http_act ::
  "string \<Rightarrow> nat \<Rightarrow> act \<Rightarrow> http_parser \<times> req_event list \<Rightarrow> (http_parser \<times> req_event list) res" where
  "http_act data fpc mark_act (h, evs) = Inr (h\<lparr>hp_mark := fpc\<rparr>, evs)"
| "http_act data fpc start_field (h, evs) = Inr (h\<lparr>hp_field_start := fpc\<rparr>, evs)"
| "http_act data fpc write_field (h, evs) = Inr (h\<lparr>hp_field_len := sz_sub fpc (hp_field_start h)\<rparr>, evs)"
| "http_act data fpc start_value (h, evs) = Inr (h\<lparr>hp_mark := fpc\<rparr>, evs)"
| "http_act data fpc write_value (h, evs) =
     bindR (piece data (hp_mark h) fpc) (\<lambda>(v, n).
       Inr (h, evs @ [EvField (drop (hp_field_start h) data) (hp_field_len h) v n]))"
| "http_act data fpc request_method (h, evs) =
     bindR (piece data (hp_mark h) fpc) (\<lambda>(v, n). Inr (h, evs @ [EvMethod v n]))"
| "http_act data fpc request_uri (h, evs) =
     bindR (piece data (hp_mark h) fpc) (\<lambda>(v, n). Inr (h, evs @ [EvUri v n]))"
| "http_act data fpc fragment_act (h, evs) =
     bindR (piece data (hp_mark h) fpc) (\<lambda>(v, n). Inr (h, evs @ [EvFragment v n]))"
| "http_act data fpc start_query (h, evs) = Inr (h\<lparr>hp_query_start := fpc\<rparr>, evs)"
| "http_act data fpc query_string (h, evs) =
     bindR (piece data (hp_query_start h) fpc) (\<lambda>(v, n). Inr (h, evs @ [EvQuery v n]))"
| "http_act data fpc http_version (h, evs) =
     bindR (piece data (hp_mark h) fpc) (\<lambda>(v, n). Inr (h, evs @ [EvVersion v n]))"
| "http_act data fpc request_path (h, evs) =
     bindR (piece data (hp_mark h) fpc) (\<lambda>(v, n). Inr (h, evs @ [EvPath v n]))"
| "http_act data fpc done_act (h, evs) =
     (if hp_xml_sent h \<or> hp_json_sent h
      then Inr (h\<lparr>hp_body_start := hp_mark h, hp_content_len := int fpc - int (hp_mark h) + 1\<rparr>, evs)
      else Inr (h\<lparr>hp_body_start := fpc + 1\<rparr>, evs @ [EvHeaderDone (drop (fpc + 1) data) (length data - fpc - 1)]))"
| "http_act data fpc xml_act (h, evs) = Inr (h\<lparr>hp_xml_sent := True\<rparr>, evs)"
| "http_act data fpc json_act (h, evs) = Inr (h\<lparr>hp_json_sent := True\<rparr>, evs)"

definition http_parser_has_error :: "http_parser \<Rightarrow> bool" where
  "http_parser_has_error h \<longleftrightarrow> hp_cs h = []"

definition http_parser_is_finished :: "http_parser \<Rightarrow> bool" where
  "http_parser_is_finished h \<longleftrightarrow> rl_final (hp_cs h)"

definition http_parser_finish :: "http_parser \<Rightarrow> int" where
  "http_parser_finish h = (if http_parser_has_error h then -1 else if http_parser_is_finished h then 1 else 0)"

definition fresh_call :: "http_parser \<Rightarrow> http_parser" where
  "fresh_call h = h\<lparr>hp_nread := 0, hp_mark := 0, hp_field_len := 0, hp_field_start := 0\<rparr>"

definition http_parser_execute :: "string \<Rightarrow> http_parser \<Rightarrow> (nat \<times> req_event list \<times> http_parser) res" where
  "http_parser_execute data h =
     (if data = [] then Inr (0, [], h)
      else
        bindR (rl_exec (http_act data) (\<lambda>a. a = done_act) 0 data (hp_cs h) (fresh_call h, [])) (\<lambda>(p, cs, h1, evs).
          let h2 = (if http_parser_has_error h1 then h1 else h1\<lparr>hp_cs := cs\<rparr>)\<lparr>hp_nread := p\<rparr> in
          bindR (requireR (hp_body_start h2 \<le> length data \<and> hp_mark h2 < length data \<and> hp_field_len h2 \<le> length data \<and>
              hp_field_start h2 < length data) AssertFail)
            (\<lambda>_. Inr (p, evs, h2))))"

text \<open>The scanner of a session.  A fault inside it is reported as a negative count, which the session turns into a fault.\<close>

definition http11 :: "bool \<Rightarrow> (http_parser, req_event) ragel" where
  "http11 relaxed =
     \<lparr>rg_init = http_parser_init relaxed,
      rg_exec = (\<lambda>data h. case http_parser_execute data h of Inl _ \<Rightarrow> (-1, [], h) | Inr (n, evs, h') \<Rightarrow> (int n, evs, h')),
      rg_finish = (\<lambda>h. http_parser_finish h = 1), rg_error = http_parser_has_error\<rparr>"

section \<open>Reading a request\<close>

abbreviation scan_http :: "string \<Rightarrow> nat \<Rightarrow> string \<Rightarrow> act rx list \<Rightarrow> http_parser \<times> req_event list \<Rightarrow> (nat \<times> act rx list \<times> http_parser \<times> req_event list) res" where
  "scan_http data \<equiv> rl_exec (http_act data) (\<lambda>a. a = done_act)"

lemma scan_goes:
  assumes "goes (\<lambda>a. a = done_act) ts v A ts'" "acts_effect (http_act data) p A s = Inr s'"
  shows "scan_http data p (v @ rest) ts s = scan_http data (p + length v) rest ts' s'"
  using rl_exec_goes [OF assms(1), of "http_act data" p rest s] assms(2) by simp

text \<open>One header field, with or without a blank before the value.\<close>

definition field_text :: "string \<Rightarrow> bool \<Rightarrow> string \<Rightarrow> string" where
  "field_text n blank v = n @ (if blank then '': '' else '':'') @ v @ crlf"

text \<open>What the assertions at the end of a call ask for, and what holds while the header is read.\<close>

definition checked :: "string \<Rightarrow> http_parser \<Rightarrow> bool" where
  "checked data h \<longleftrightarrow> hp_mark h < length data \<and> hp_field_len h \<le> length data \<and> hp_field_start h < length data \<and>
     hp_body_start h \<le> length data \<and> \<not> hp_xml_sent h \<and> \<not> hp_json_sent h \<and> hp_cs h \<noteq> []"

definition sound :: "string \<Rightarrow> http_parser \<Rightarrow> bool" where
  "sound data h \<longleftrightarrow> hp_mark h < length data \<and> hp_field_len h \<le> length data \<and> hp_field_start h < length data \<and>
     hp_body_start h = 0 \<and> \<not> hp_xml_sent h \<and> \<not> hp_json_sent h \<and> hp_cs h \<noteq> []"

lemma http_parser_execute_eq:
  assumes "data \<noteq> []" "scan_http data 0 data (hp_cs h) (fresh_call h, []) = Inr (p, cs, h1, evs)" "checked data h1"
  shows "http_parser_execute data h = Inr (p, evs, h1\<lparr>hp_cs := cs, hp_nread := p\<rparr>)"
  using assms by (simp add: http_parser_execute_def Let_def checked_def http_parser_has_error_def)

lemma scan_name:
  assumes "name_ok n"
  obtains ts h' where "ts = [in_field value_rest] \<or> ts = [before_value, in_value, in_blanks]"
    "scan_http data (length u) (n @ (if blank then '': '' else '':'') @ rest) [headers] (h, evs) =
       scan_http data (length u + length n + (if blank then 2 else 1)) rest ts (h', evs)"
    "\<And>x. h'\<lparr>hp_mark := x\<rparr> = h\<lparr>hp_field_start := length u, hp_field_len := length n, hp_mark := x\<rparr>"
proof -
  let ?h = "h\<lparr>hp_field_start := length u, hp_field_len := length n\<rparr>"
  have "n \<noteq> []" using assms by (auto simp: name_ok_def)
  then have "acts_effect (http_act data) (length u) ([start_field] # replicate (length n - 1) [] @ [[write_field]]) (h, evs) = Inr (?h, evs)"
    by (simp add: acts_effect_append)
  moreover have "goes (\<lambda>a. a = done_act) [headers] (n @ [CHR '':'']) ([start_field] # replicate (length n - 1) [] @ [[write_field]]) [in_field value_rest]"
    using goes_name [OF assms, of "\<lambda>a. a = done_act"] by simp
  ultimately have name: "scan_http data (length u) ((n @ [CHR '':'']) @ r) [headers] (h, evs) =
      scan_http data (length u + length (n @ [CHR '':''])) r [in_field value_rest] (?h, evs)" for r
    using scan_goes by blast
  show ?thesis
  proof (cases blank)
    case True
    have "goes (\<lambda>a. a = done_act) [in_field value_rest] '' '' [[start_value]] [before_value, in_value, in_blanks]"
      by (rule goes_one [OF step_blank_first]) simp_all
    moreover have "acts_effect (http_act data) (length u + length (n @ [CHR '':''])) [[start_value]] (?h, evs) =
        Inr (?h\<lparr>hp_mark := length u + length (n @ [CHR '':''])\<rparr>, evs)" by simp
    ultimately have "scan_http data (length u + length (n @ [CHR '':''])) ('' '' @ rest) [in_field value_rest] (?h, evs) =
        scan_http data (length u + length n + 2) rest [before_value, in_value, in_blanks] (?h\<lparr>hp_mark := length u + length (n @ [CHR '':''])\<rparr>, evs)"
      using scan_goes by fastforce
    then show ?thesis using name [of "'' '' @ rest"] True
      by (intro that [of _ "?h\<lparr>hp_mark := length u + length (n @ [CHR '':''])\<rparr>"]) simp_all
  next
    case False
    then show ?thesis using name [of rest] by (intro that [of _ ?h]) simp_all
  qed
qed

lemma scan_field:
  assumes "name_ok n" "value_ok v" "data = u @ field_text n blank v @ rest" "sound data h"
  obtains h' e where "scan_http data (length u) (field_text n blank v @ rest) [headers] (h, evs) =
      scan_http data (length (u @ field_text n blank v)) rest [headers] (h', evs @ [e])"
    "sound data h'" "\<And>p :: http_parser req_parser. run_req_event e p = p\<lparr>rp_data := SetHeader n v (rp_data p)\<rparr>"
proof -
  let ?m = "length u + length n + (if blank then 2 else 1)"
  let ?h' = "h\<lparr>hp_field_start := length u, hp_field_len := length n, hp_mark := ?m\<rparr>"
  let ?e = "EvField (drop (length u) data) (length n) (drop ?m data) (length v)"
  have len: "n \<noteq> []" "v \<noteq> []" using assms(1,2) by (auto simp: name_ok_def value_ok_def)
  obtain ts h2 where mid: "ts = [in_field value_rest] \<or> ts = [before_value, in_value, in_blanks]"
    "scan_http data (length u) (n @ (if blank then '': '' else '':'') @ (v @ [CHR 0x0D, CHR 0x0A]) @ rest) [headers] (h, evs) =
       scan_http data ?m ((v @ [CHR 0x0D, CHR 0x0A]) @ rest) ts (h2, evs)" "\<And>x. h2\<lparr>hp_mark := x\<rparr> = h\<lparr>hp_field_start := length u, hp_field_len := length n, hp_mark := x\<rparr>"
    by (rule scan_name [OF assms(1), of data u blank "(v @ [CHR 0x0D, CHR 0x0A]) @ rest" h evs]) (rule that)
  have val: "goes (\<lambda>a. a = done_act) ts (v @ [CHR 0x0D, CHR 0x0A]) ([start_value] # replicate (length v - 1) [] @ [[write_value], []]) [headers]"
    using goes_value [OF assms(2) _ _ mid(1)] by simp
  have "h2\<lparr>hp_mark := ?m\<rparr> = ?h'" using mid(3) [of ?m] by simp
  then have "acts_effect (http_act data) ?m ([start_value] # replicate (length v - 1) [] @ [[write_value], []]) (h2, evs) = Inr (?h', evs @ [?e])"
    using len by (simp add: acts_effect_append piece_def)
  note v = scan_goes [OF val this]
  have "scan_http data (length u) (field_text n blank v @ rest) [headers] (h, evs) =
      scan_http data (length (u @ field_text n blank v)) rest [headers] (?h', evs @ [?e])"
    using mid(2) v [of rest] by (cases blank) (simp_all add: field_text_def crlf_def add.commute add.left_commute)
  moreover have "sound data ?h'" using assms(3,4) len by (auto simp: sound_def field_text_def)
  moreover have "run_req_event ?e p = p\<lparr>rp_data := SetHeader n v (rp_data p)\<rparr>" for p :: "http_parser req_parser"
    using len assms(3) by (cases blank) (simp_all add: on_request_http_field_def field_text_def)
  ultimately show ?thesis using that by blast
qed

text \<open>All header fields.\<close>

definition fields_text :: "(string \<times> bool \<times> string) list \<Rightarrow> string" where
  "fields_text fs = concat (map (\<lambda>(n, blank, v). field_text n blank v) fs)"

definition field_ok :: "string \<times> bool \<times> string \<Rightarrow> bool" where
  "field_ok f = (case f of (n, _, v) \<Rightarrow> name_ok n \<and> value_ok v)"

definition set_fields :: "(string \<times> bool \<times> string) list \<Rightarrow> http_request \<Rightarrow> http_request" where
  "set_fields fs r = fold (\<lambda>(n, _, v). SetHeader n v) fs r"

lemma scan_fields:
  assumes "list_all field_ok fs" "data = u @ fields_text fs @ rest" "sound data h"
  obtains h' es where "scan_http data (length u) (fields_text fs @ rest) [headers] (h, evs) =
      scan_http data (length (u @ fields_text fs)) rest [headers] (h', evs @ es)"
    "sound data h'" "\<And>p :: http_parser req_parser. fold run_req_event es p = p\<lparr>rp_data := set_fields fs (rp_data p)\<rparr>"
proof -
  have "\<exists>h' es. scan_http data (length u) (fields_text fs @ rest) [headers] (h, evs) =
      scan_http data (length (u @ fields_text fs)) rest [headers] (h', evs @ es) \<and> sound data h' \<and>
      (\<forall>p :: http_parser req_parser. fold run_req_event es p = p\<lparr>rp_data := set_fields fs (rp_data p)\<rparr>)"
    using assms
  proof (induction fs arbitrary: u h evs)
    case Nil
    then show ?case by (intro exI [of _ h] exI [of _ "[]"]) (simp add: fields_text_def set_fields_def)
  next
    case (Cons f fs)
    obtain n blank v where f: "f = (n, blank, v)" by (cases f)
    have data: "data = u @ field_text n blank v @ fields_text fs @ rest" using Cons.prems(2) by (simp add: f fields_text_def)
    obtain h1 e where e: "scan_http data (length u) (field_text n blank v @ fields_text fs @ rest) [headers] (h, evs) =
        scan_http data (length (u @ field_text n blank v)) (fields_text fs @ rest) [headers] (h1, evs @ [e])"
      "sound data h1" "\<And>p :: http_parser req_parser. run_req_event e p = p\<lparr>rp_data := SetHeader n v (rp_data p)\<rparr>"
      using scan_field [OF _ _ data Cons.prems(3)] Cons.prems(1) by (auto simp: f field_ok_def)
    have fs: "list_all field_ok fs" "data = (u @ field_text n blank v) @ fields_text fs @ rest" using Cons.prems(1) data by simp_all
    obtain h' es where es: "scan_http data (length (u @ field_text n blank v)) (fields_text fs @ rest) [headers] (h1, evs @ [e]) =
        scan_http data (length ((u @ field_text n blank v) @ fields_text fs)) rest [headers] (h', (evs @ [e]) @ es)"
      "sound data h'" "\<forall>p :: http_parser req_parser. fold run_req_event es p = p\<lparr>rp_data := set_fields fs (rp_data p)\<rparr>"
      using Cons.IH [OF fs e(2), of "evs @ [e]"] by blast
    show ?case
      using e(1,3) es by (intro exI [of _ h'] exI [of _ "e # es"]) (simp add: f fields_text_def set_fields_def)
  qed
  then show ?thesis using that by blast
qed

text \<open>The first line.\<close>

definition line_text :: "string \<Rightarrow> string \<Rightarrow> string \<Rightarrow> string \<Rightarrow> char \<Rightarrow> string" where
  "line_text m p q f d =
     m @ '' '' @ p @ (if q = [] then [] else ''?'') @ q @ (if f = [] then [] else ''#'') @ f @ '' HTTP/1.'' @ [d] @ crlf"

lemma scan_method:
  assumes "m \<noteq> []" "length m \<le> 20" "list_all (\<lambda>c. cls_mem c (upper @ digits)) m"
  shows "scan_http data 0 (m @ '' '' @ rest) [main_rx rl] (h, evs) =
    scan_http data (length m + 1) rest [at_uri rl] (h\<lparr>hp_mark := 0\<rparr>, evs @ [EvMethod data (length m)])"
proof -
  have "acts_effect (http_act data) 0 ([mark_act] # replicate (length m - 1) [] @ [[request_method]]) (h, evs) =
      Inr (h\<lparr>hp_mark := 0\<rparr>, evs @ [EvMethod data (length m)])"
    using assms(1) by (simp add: acts_effect_append piece_def)
  from scan_goes [OF goes_method [OF assms, of "\<lambda>a. a = done_act" rl] this, of rest] show ?thesis by simp
qed

text \<open>The uri up to its end, and up to the blank behind it.\<close>

lemma scan_path_query:
  assumes "path_ok p" "list_all query_ok q" "data = u @ p @ (if q = [] then [] else ''?'') @ q @ rest"
  obtains ts A h' k es es1 where
    "scan_http data (length u) (p @ (if q = [] then [] else ''?'') @ q @ rest) [at_uri rl] (h, evs) =
       scan_http data (length u + length p + (if q = [] then 0 else 1 + length q)) rest ts (h', evs @ es)"
    "rl_step (CHR '' '') ts = (A, [at_version])" "rl_step (CHR ''#'') ts = (A, [at_fragment rl])" "done_act \<notin> set A"
    "acts_effect (http_act data) (length u + length p + (if q = [] then 0 else 1 + length q)) [A] (h', evs @ es) =
       Inr (h', evs @ es @ es1)"
    "h' = h\<lparr>hp_mark := length u, hp_query_start := k\<rparr>"
    "\<And>r :: http_parser req_parser. fold run_req_event (es @ es1) r = r\<lparr>rp_data := (rp_data r)\<lparr>rq_path := p, rq_query := if q = [] then rq_query (rp_data r) else q\<rparr>\<rparr>"
proof -
  let ?fb = "\<lambda>a. a = done_act"
  obtain ts where ts: "goes ?fb [at_uri rl] p ([mark_act] # replicate (length p - 1) []) ts" "ts = at_path rl \<or> ts = [in_segment rl]"
    using goes_path [OF assms(1), of ?fb rl] by auto
  let ?h = "h\<lparr>hp_mark := length u\<rparr>"
  have "acts_effect (http_act data) (length u) ([mark_act] # replicate (length p - 1) []) (h, evs) = Inr (?h, evs)"
    by simp
  note path = scan_goes [OF ts(1) this]
  have len: "p \<noteq> []" using assms(1) by (auto simp: path_ok_def)
  show ?thesis
  proof (cases "q = []")
    case True
    let ?es1 = "[EvPath (drop (length u) data) (length p), EvUri (drop (length u) data) (length p)]"
    have "acts_effect (http_act data) (length u + length p) [[request_path, request_uri]] (?h, evs) = Inr (?h, evs @ ?es1)"
      by (simp add: piece_def)
    moreover have "fold run_req_event ?es1 r = r\<lparr>rp_data := (rp_data r)\<lparr>rq_path := p, rq_query := rq_query (rp_data r)\<rparr>\<rparr>" for r :: "http_parser req_parser"
      using assms(3) by (simp add: on_request_path_def)
    ultimately show ?thesis using path [of rest] step_path_ends [OF ts(2)] True
      by (intro that [of ts ?h "[]" "[request_path, request_uri]" ?es1 "hp_query_start h"]) simp_all
  next
    case False
    let ?n = "length u + length p"
    let ?h' = "?h\<lparr>hp_query_start := ?n + 1\<rparr>"
    let ?es = "[EvPath (drop (length u) data) (length p)]"
    let ?es1 = "[EvQuery (drop (?n + 1) data) (length q), EvUri (drop (length u) data) (length p + 1 + length q)]"
    have "goes ?fb ts (''?'' @ q) ([[request_path]] @ ([start_query] # replicate (length q - 1) [])) [in_query rl]"
      using goes_append [OF goes_one [OF step_path_ends(2) [OF ts(2)]] goes_query_fragment(1) [OF False assms(2)], of ?fb] by simp
    moreover have "acts_effect (http_act data) ?n ([[request_path]] @ ([start_query] # replicate (length q - 1) [])) (?h, evs) = Inr (?h', evs @ ?es)"
      by (simp add: piece_def)
    ultimately have "scan_http data ?n ((''?'' @ q) @ rest) ts (?h, evs) = scan_http data (?n + length (''?'' @ q)) rest [in_query rl] (?h', evs @ ?es)"
      by (rule scan_goes)
    moreover have "acts_effect (http_act data) (?n + 1 + length q) [[query_string, request_uri]] (?h', evs @ ?es) = Inr (?h', evs @ ?es @ ?es1)"
      by (simp add: piece_def)
    moreover have "fold run_req_event (?es @ ?es1) r = r\<lparr>rp_data := (rp_data r)\<lparr>rq_path := p, rq_query := q\<rparr>\<rparr>" for r :: "http_parser req_parser"
      using assms(3) False by (simp add: on_request_path_def on_request_query_def)
    ultimately show ?thesis using path [of "''?'' @ q @ rest"] step_query_ends [of rl] False
      by (intro that [of "[in_query rl]" ?h' ?es "[query_string, request_uri]" ?es1 "?n + 1"]) (simp_all add: add.assoc)
  qed
qed


lemma scan_uri:
  assumes "path_ok p" "list_all query_ok q" "list_all query_ok f"
    "data = u @ p @ (if q = [] then [] else ''?'') @ q @ (if f = [] then [] else ''#'') @ f @ '' '' @ rest"
  obtains h' m k es where
    "scan_http data (length u) (p @ (if q = [] then [] else ''?'') @ q @ (if f = [] then [] else ''#'') @ f @ '' '' @ rest) [at_uri rl] (h, evs) =
       scan_http data (length data - length rest) rest [at_version] (h', evs @ es)"
    "h' = h\<lparr>hp_mark := m, hp_query_start := k\<rparr>" "m < length data"
    "\<And>r :: http_parser req_parser. fold run_req_event es r = r\<lparr>rp_data := (rp_data r)\<lparr>rq_path := p,
       rq_query := if q = [] then rq_query (rp_data r) else q, rq_fragment := if f = [] then rq_fragment (rp_data r) else f\<rparr>\<rparr>"
proof -
  let ?fb = "\<lambda>a. a = done_act"
  let ?rest = "(if f = [] then [] else ''#'') @ f @ '' '' @ rest"
  let ?n = "length u + length p + (if q = [] then 0 else 1 + length q)"
  obtain ts A h1 k es es1 where r: "scan_http data (length u) (p @ (if q = [] then [] else ''?'') @ q @ ?rest) [at_uri rl] (h, evs) =
       scan_http data ?n ?rest ts (h1, evs @ es)"
    "rl_step (CHR '' '') ts = (A, [at_version])" "rl_step (CHR ''#'') ts = (A, [at_fragment rl])" "done_act \<notin> set A"
    "acts_effect (http_act data) ?n [A] (h1, evs @ es) = Inr (h1, evs @ es @ es1)"
    "h1 = h\<lparr>hp_mark := length u, hp_query_start := k\<rparr>"
    "\<And>r :: http_parser req_parser. fold run_req_event (es @ es1) r = r\<lparr>rp_data := (rp_data r)\<lparr>rq_path := p, rq_query := if q = [] then rq_query (rp_data r) else q\<rparr>\<rparr>"
    by (rule scan_path_query [OF assms(1,2,4), of rl h evs]) (rule that)
  have A: "list_all (\<lambda>a. \<not> ?fb a) A" using r(4) by (auto simp: list_all_iff)
  show ?thesis
  proof (cases "f = []")
    case True
    have "goes ?fb ts '' '' [A] [at_version]" using goes_one [OF r(2) _ A] by simp
    note blank = scan_goes [OF this r(5), of rest]
    have "?n + length '' '' = length data - length rest" using assms(4) True by simp
    with blank have "scan_http data ?n ('' '' @ rest) ts (h1, evs @ es) = scan_http data (length data - length rest) rest [at_version] (h1, evs @ es @ es1)"
      by metis
    then show ?thesis using r(1,6,7) True assms(4) by (intro that [of h1 "es @ es1" k "length u"]) simp_all
  next
    case False
    let ?h = "h1\<lparr>hp_mark := ?n + 1\<rparr>"
    let ?e = "EvFragment (drop (?n + 1) data) (length f)"
    have "goes ?fb ts (''#'' @ f @ '' '') ([A] @ ([mark_act] # replicate (length f - 1) []) @ [[fragment_act]]) [at_version]"
      using goes_append [OF goes_one [OF r(3) _ A] goes_append [OF goes_query_fragment(2) [OF False assms(3)] goes_one [OF step_fragment_ends]]] by simp
    moreover have "acts_effect (http_act data) ?n ([A] @ ([mark_act] # replicate (length f - 1) []) @ [[fragment_act]]) (h1, evs @ es) =
        Inr (?h, evs @ es @ es1 @ [?e])"
      using False unfolding acts_effect_append r(5) by (simp add: acts_effect_append piece_def)
    ultimately have "scan_http data ?n ((''#'' @ f @ '' '') @ rest) ts (h1, evs @ es) = scan_http data (?n + length (''#'' @ f @ '' '')) rest [at_version] (?h, evs @ es @ es1 @ [?e])"
      by (rule scan_goes)
    moreover have pos: "?n + length (''#'' @ f @ '' '') = length data - length rest" using assms(4) False by simp
    moreover have whole: "(''#'' @ f @ '' '') @ rest = ?rest" using False by simp
    ultimately have frag: "scan_http data ?n ?rest ts (h1, evs @ es) = scan_http data (length data - length rest) rest [at_version] (?h, evs @ es @ es1 @ [?e])"
      by (simp only:)
    have "take (length f) (drop (?n + 1) data) = f" using assms(4) False by simp
    moreover have "fold run_req_event (es @ es1 @ [?e]) r = run_req_event ?e (fold run_req_event (es @ es1) r)" for r :: "http_parser req_parser" by simp
    ultimately have "fold run_req_event (es @ es1 @ [?e]) r = r\<lparr>rp_data := (rp_data r)\<lparr>rq_path := p,
        rq_query := if q = [] then rq_query (rp_data r) else q, rq_fragment := f\<rparr>\<rparr>" for r :: "http_parser req_parser"
      by (simp only: r(7) run_req_event.simps on_request_fragment_def) simp
    then show ?thesis using r(1,6) frag False assms(4)
      by (intro that [of ?h "es @ es1 @ [?e]" k "?n + 1"]) (simp_all del: fold_append fold_append_concat_rev)
  qed
qed


lemma scan_version:
  assumes "d \<in> set ''01''" "data = u @ ''HTTP/1.'' @ [d] @ crlf @ rest"
  shows "scan_http data (length u) (''HTTP/1.'' @ [d] @ crlf @ rest) [at_version] (h, evs) =
      scan_http data (length data - length rest) rest [headers] (h\<lparr>hp_mark := length u\<rparr>, evs @ [EvVersion (drop (length u) data) 8])"
    "run_req_event (EvVersion (drop (length u) data) 8) r =
       r\<lparr>rp_data := (rp_data r)\<lparr>rq_version := if d = CHR ''1'' then 0x11 else 0x10\<rparr>\<rparr>"
proof -
  have "acts_effect (http_act data) (length u) ([[mark_act]] @ replicate 7 [] @ [[http_version], []]) (h, evs) =
      Inr (h\<lparr>hp_mark := length u\<rparr>, evs @ [EvVersion (drop (length u) data) 8])"
    by (simp add: acts_effect_append piece_def)
  from scan_goes [OF goes_version [OF assms(1), of "\<lambda>a. a = done_act"] this, of rest]
  show "scan_http data (length u) (''HTTP/1.'' @ [d] @ crlf @ rest) [at_version] (h, evs) =
      scan_http data (length data - length rest) rest [headers] (h\<lparr>hp_mark := length u\<rparr>, evs @ [EvVersion (drop (length u) data) 8])"
    by (simp add: crlf_def assms(2) eval_nat_numeral)
  show "run_req_event (EvVersion (drop (length u) data) 8) r =
       r\<lparr>rp_data := (rp_data r)\<lparr>rq_version := if d = CHR ''1'' then 0x11 else 0x10\<rparr>\<rparr>"
    using assms(1) by (auto simp: assms(2) on_request_version_def strncmp_eq_def cstr_def eval_nat_numeral crlf_def)
qed

text \<open>A whole header, from the first character to the action that ends the loop.\<close>

record req_head =
  qh_method :: string
  qh_path :: string
  qh_query :: string
  qh_fragment :: string
  qh_minor :: char
  qh_fields :: "(string \<times> bool \<times> string) list"

definition head_ok :: "req_head \<Rightarrow> bool" where
  "head_ok q \<longleftrightarrow> qh_method q \<noteq> [] \<and> length (qh_method q) \<le> 20 \<and> list_all (\<lambda>c. cls_mem c (upper @ digits)) (qh_method q) \<and>
     path_ok (qh_path q) \<and> list_all query_ok (qh_query q) \<and> list_all query_ok (qh_fragment q) \<and> qh_minor q \<in> set ''01'' \<and>
     list_all field_ok (qh_fields q)"

definition head_text :: "req_head \<Rightarrow> string" where
  "head_text q = line_text (qh_method q) (qh_path q) (qh_query q) (qh_fragment q) (qh_minor q) @ fields_text (qh_fields q) @ crlf"

definition head_request :: "nat \<Rightarrow> req_head \<Rightarrow> http_request \<Rightarrow> http_request" where
  "head_request m q r = set_fields (qh_fields q)
     (r\<lparr>rq_method := m, rq_path := qh_path q, rq_query := if qh_query q = [] then rq_query r else qh_query q,
        rq_fragment := if qh_fragment q = [] then rq_fragment r else qh_fragment q,
        rq_version := if qh_minor q = CHR ''1'' then 0x11 else 0x10\<rparr>)"

lemma scan_line:
  assumes "head_ok q" "data = line_text (qh_method q) (qh_path q) (qh_query q) (qh_fragment q) (qh_minor q) @ rest"
    "CharsToHttpMethod data = m" "m \<noteq> INVALID_METHOD" "sound data h"
  obtains h' es where "scan_http data 0 data [main_rx rl] (h, []) = scan_http data (length data - length rest) rest [headers] (h', es)"
    "sound data h'" "\<And>r :: http_parser req_parser. fold run_req_event es r = r\<lparr>rp_data := head_request m (q\<lparr>qh_fields := []\<rparr>) (rp_data r)\<rparr>"
proof -
  have ok: "qh_method q \<noteq> []" "length (qh_method q) \<le> 20" "list_all (\<lambda>c. cls_mem c (upper @ digits)) (qh_method q)"
     "path_ok (qh_path q)" "list_all query_ok (qh_query q)" "list_all query_ok (qh_fragment q)" "qh_minor q \<in> set ''01''"
    using assms(1) by (simp_all add: head_ok_def)
  let ?v = "''HTTP/1.'' @ [qh_minor q] @ crlf @ rest"
  let ?u = "qh_method q @ '' ''"
  let ?uri = "qh_path q @ (if qh_query q = [] then [] else ''?'') @ qh_query q @ (if qh_fragment q = [] then [] else ''#'') @ qh_fragment q @ '' '' @ ?v"
  have data: "data = ?u @ ?uri" using assms(2) by (simp add: line_text_def)
  have m: "scan_http data 0 data [main_rx rl] (h, []) = scan_http data (length ?u) ?uri [at_uri rl] (h\<lparr>hp_mark := 0\<rparr>, [EvMethod data (length (qh_method q))])"
    using scan_method [OF ok(1-3), of data ?uri rl h "[]"] by (simp add: data)
  obtain h1 a k es where u: "scan_http data (length ?u) ?uri [at_uri rl] (h\<lparr>hp_mark := 0\<rparr>, [EvMethod data (length (qh_method q))]) =
      scan_http data (length data - length ?v) ?v [at_version] (h1, [EvMethod data (length (qh_method q))] @ es)"
    "h1 = h\<lparr>hp_mark := 0\<rparr>\<lparr>hp_mark := a, hp_query_start := k\<rparr>" "a < length data"
    "\<And>r :: http_parser req_parser. fold run_req_event es r = r\<lparr>rp_data := (rp_data r)\<lparr>rq_path := qh_path q,
       rq_query := if qh_query q = [] then rq_query (rp_data r) else qh_query q,
       rq_fragment := if qh_fragment q = [] then rq_fragment (rp_data r) else qh_fragment q\<rparr>\<rparr>"
    by (rule scan_uri [OF ok(4-6) data, of rl "h\<lparr>hp_mark := 0\<rparr>" "[EvMethod data (length (qh_method q))]"]) (rule that)
  define n where "n = length data - length ?v"
  obtain w where w: "data = w @ ?v" "length w = n" unfolding n_def using data by (metis append.assoc length_append add_diff_cancel_right')
  note v = scan_version [OF ok(7) w(1), unfolded w(2)]
  let ?es = "[EvMethod data (length (qh_method q))] @ es @ [EvVersion (drop n data) 8]"
  have "fold run_req_event ?es r = r\<lparr>rp_data := head_request m (q\<lparr>qh_fields := []\<rparr>) (rp_data r)\<rparr>" for r :: "http_parser req_parser"
    using assms(3,4) by (simp add: u(4) v(2) on_request_method_def head_request_def set_fields_def del: run_req_event.simps(6))
  moreover have "sound data (h1\<lparr>hp_mark := n\<rparr>)" using assms(5) w u(2) by (auto simp: sound_def)
  moreover have "scan_http data 0 data [main_rx rl] (h, []) = scan_http data (length data - length rest) rest [headers] (h1\<lparr>hp_mark := n\<rparr>, ?es)"
    unfolding m u(1) n_def [symmetric] v(1) by simp
  ultimately show ?thesis by (intro that)
qed


lemma scan_last_line:
  assumes "data = u @ crlf @ rest" "sound data h"
  obtains h' e where "scan_http data (length u) (crlf @ rest) [headers] (h, evs) =
      Inr (length (u @ crlf), [in_name, Finish 29 done_act One], h', evs @ [e])"
    "checked data h'" "\<And>r. run_req_event e r = r"
proof -
  let ?h = "h\<lparr>hp_field_start := length u\<rparr>"
  have "goes (\<lambda>a. a = done_act) [headers] [CHR 0x0D] [[start_field]] [in_name, last_line]"
    by (rule goes_one [OF step_last_line(1)]) simp_all
  moreover have "acts_effect (http_act data) (length u) [[start_field]] (h, evs) = Inr (?h, evs)" by simp
  ultimately have "scan_http data (length u) ([CHR 0x0D] @ CHR 0x0A # rest) [headers] (h, evs) =
      scan_http data (length u + length [CHR 0x0D]) (CHR 0x0A # rest) [in_name, last_line] (?h, evs)"
    by (rule scan_goes)
  then show ?thesis using assms
    by (intro that [of "?h\<lparr>hp_body_start := length u + 2\<rparr>" "EvHeaderDone (drop (length u + 2) data) (length data - length u - 2)"])
      (auto simp: crlf_def rl_exec.simps(2) step_last_line(2) sound_def checked_def)
qed

text \<open>A call that has come to the header fields reads them and finishes.\<close>

lemma execute_headers:
  assumes "data = w @ fields_text gs @ crlf @ rest" "list_all field_ok gs"
    "scan_http data 0 data (hp_cs h) (fresh_call h, []) = scan_http data (length w) (fields_text gs @ crlf @ rest) [headers] (h1, es1)" "sound data h1"
  obtains h' es where "http_parser_execute data h = Inr (length (w @ fields_text gs @ crlf), es1 @ es, h')"
    "http_parser_finish h' = 1" "\<not> http_parser_has_error h'"
    "\<And>r :: http_parser req_parser. fold run_req_event es r = r\<lparr>rp_data := set_fields gs (rp_data r)\<rparr>"
proof -
  have ne: "data \<noteq> []" using assms(1) by (simp add: crlf_def)
  obtain h2 es2 where 2: "scan_http data (length w) (fields_text gs @ crlf @ rest) [headers] (h1, es1) =
      scan_http data (length (w @ fields_text gs)) (crlf @ rest) [headers] (h2, es1 @ es2)"
    "sound data h2" "\<And>r :: http_parser req_parser. fold run_req_event es2 r = r\<lparr>rp_data := set_fields gs (rp_data r)\<rparr>"
    by (rule scan_fields [OF assms(2,1,4)]) (rule that)
  have d: "data = (w @ fields_text gs) @ crlf @ rest" using assms(1) by simp
  obtain h3 e where 3: "scan_http data (length (w @ fields_text gs)) (crlf @ rest) [headers] (h2, es1 @ es2) =
      Inr (length ((w @ fields_text gs) @ crlf), [in_name, Finish 29 done_act One], h3, (es1 @ es2) @ [e])"
    "checked data h3" "\<And>r :: http_parser req_parser. run_req_event e r = r"
    by (rule scan_last_line [OF d 2(2)]) (rule that)
  let ?h = "h3\<lparr>hp_cs := [in_name, Finish 29 done_act One], hp_nread := length (w @ fields_text gs @ crlf)\<rparr>"
  have "http_parser_execute data h = Inr (length (w @ fields_text gs @ crlf), es1 @ es2 @ [e], ?h)"
    using assms(3) 2(1) 3(1,2) ne by (intro http_parser_execute_eq) simp_all
  then show ?thesis using 2(3) 3(3)
    by (intro that [of "es2 @ [e]" ?h])
      (simp_all add: http_parser_finish_def http_parser_has_error_def http_parser_is_finished_def rl_final_def)
qed

lemma request_scanned:
  assumes "head_ok q" "CharsToHttpMethod (head_text q @ rest) = m" "m \<noteq> INVALID_METHOD"
  obtains h es where "http_parser_execute (head_text q @ rest) (http_parser_init rl) = Inr (length (head_text q), es, h)"
    "http_parser_finish h = 1" "\<not> http_parser_has_error h"
    "\<And>r :: http_parser req_parser. fold run_req_event es r = r\<lparr>rp_data := head_request m q (rp_data r)\<rparr>"
proof -
  let ?d = "head_text q @ rest"
  let ?line = "line_text (qh_method q) (qh_path q) (qh_query q) (qh_fragment q) (qh_minor q)"
  let ?ini = "http_parser_init rl"
  have fs: "list_all field_ok (qh_fields q)" using assms(1) by (simp add: head_ok_def)
  have s0: "sound ?d ?ini" by (simp add: sound_def http_parser_init_def head_text_def crlf_def)
  have d: "?d = ?line @ fields_text (qh_fields q) @ crlf @ rest" by (simp add: head_text_def)
  obtain h1 es1 where 1: "scan_http ?d 0 ?d [main_rx rl] (?ini, []) = scan_http ?d (length ?line) (fields_text (qh_fields q) @ crlf @ rest) [headers] (h1, es1)"
    "sound ?d h1" "\<And>r :: http_parser req_parser. fold run_req_event es1 r = r\<lparr>rp_data := head_request m (q\<lparr>qh_fields := []\<rparr>) (rp_data r)\<rparr>"
    using scan_line [OF assms(1) d assms(2,3) s0, of rl] by (auto simp: head_text_def)
  have "scan_http ?d 0 ?d (hp_cs ?ini) (fresh_call ?ini, []) = scan_http ?d (length ?line) (fields_text (qh_fields q) @ crlf @ rest) [headers] (h1, es1)"
    using 1(1) by (simp add: http_parser_init_def fresh_call_def)
  then obtain h es where ex: "http_parser_execute ?d ?ini = Inr (length (?line @ fields_text (qh_fields q) @ crlf), es1 @ es, h)"
    "http_parser_finish h = 1" "\<not> http_parser_has_error h"
    "\<And>r :: http_parser req_parser. fold run_req_event es r = r\<lparr>rp_data := set_fields (qh_fields q) (rp_data r)\<rparr>"
    by (rule execute_headers [OF d fs _ 1(2)]) (rule that)
  have "fold run_req_event (es1 @ es) r = r\<lparr>rp_data := head_request m q (rp_data r)\<rparr>" for r :: "http_parser req_parser"
    by (simp add: 1(3) ex(4) head_request_def set_fields_def)
  with ex(1-3) show ?thesis by (intro that [of "es1 @ es" h]) (simp_all add: head_text_def)
qed

end
