(* ===== verification/Http_Wire.thy ===== *)
theory Http_Wire
  imports Http11_Parser
begin

text \<open>
  Requests on the wire: what a client writes with \<open>HttpRequest::Dump\<close> (\<open>gudov/http/http.cpp\<close>) is read by the scanner
  of \<open>gudov/http/http11_parser.rl\<close> inside \<open>HttpSession::RecvRequest\<close> (\<open>gudov/http/http_session.cpp\<close>) as the same request, when the header arrives
  in one read; and what happens to a header that arrives in two.
\<close>

lemma sint_of_nat_small: "n < 2 ^ 31 \<Longrightarrow> sint (word_of_nat n :: u64) = int n"
  using sint_word64_small [of "int n"] by simp

section \<open>What a request looks like on the wire\<close>

definition CL :: string where "CL = ''content-length''"

definition other_headers :: "http_request \<Rightarrow> hmap" where
  "other_headers r = filter (\<lambda>(k, v). strcasecmp k ''connection'' \<noteq> 0) (rq_headers r)"

definition wire_ok :: "http_request \<Rightarrow> bool" where
  "wire_ok r \<longleftrightarrow> rq_method r < INVALID_METHOD \<and> list_all (\<lambda>c. c \<noteq> CHR '' '') (HttpMethodToString (rq_method r)) \<and>
     path_ok (rq_path r) \<and> list_all query_ok (rq_query r) \<and> list_all query_ok (rq_fragment r) \<and>
     (rq_version r = 0x10 \<or> rq_version r = 0x11) \<and> hmap_wf (rq_headers r) \<and>
     list_all (\<lambda>(k, v). name_ok k \<and> value_ok v \<and> fold_case k \<noteq> fold_case CL \<and> fold_case k \<noteq> fold_case ''expect'') (other_headers r)"

lemma wire_ok_other:
  assumes "wire_ok r" "(k, v) \<in> set (other_headers r)"
  shows "name_ok k" "value_ok v" "fold_case k \<noteq> fold_case CL" "fold_case k \<noteq> fold_case ''expect''"
proof -
  have "list_all (\<lambda>(k, v). name_ok k \<and> value_ok v \<and> fold_case k \<noteq> fold_case CL \<and> fold_case k \<noteq> fold_case ''expect'') (other_headers r)"
    using assms(1) unfolding wire_ok_def by blast
  from this [unfolded list_all_iff, THEN bspec, OF assms(2)]
  show "name_ok k" "value_ok v" "fold_case k \<noteq> fold_case CL" "fold_case k \<noteq> fold_case ''expect''" by simp_all
qed

definition connection_text :: "http_request \<Rightarrow> string" where
  "connection_text r = (if rq_close r then ''close'' else ''keep-alive'')"

definition wire_head :: "http_request \<Rightarrow> req_head" where
  "wire_head r = \<lparr>qh_method = HttpMethodToString (rq_method r), qh_path = rq_path r, qh_query = rq_query r,
     qh_fragment = rq_fragment r, qh_minor = (if rq_version r = 0x11 then CHR ''1'' else CHR ''0''),
     qh_fields = (''connection'', True, connection_text r) # map (\<lambda>(k, v). (k, False, v)) (other_headers r) @
       (if rq_body r = [] then [] else [(CL, True, dec (length (rq_body r)))])\<rparr>"

lemma Dump_request_head:
  assumes "wire_ok r"
  shows "Dump_request r = head_text (wire_head r) @ rq_body r"
proof -
  have ver: "version_text 0x10 = ''1.0''" "version_text 0x11 = ''1.1''"
    by code_simp+
  have "rq_version r = 0x10 \<or> rq_version r = 0x11" using assms by (simp add: wire_ok_def)
  moreover have "fields_text (map (\<lambda>(k, v). (k, False, v)) hs) = concat (map (\<lambda>(k, v). k @ '':'' @ v @ crlf) hs)" for hs
    by (induction hs) (auto simp: fields_text_def field_text_def)
  moreover have "fields_text (a @ b) = fields_text a @ fields_text b" "fields_text [] = []"
    "fields_text (f # fs) = field_text (fst f) (fst (snd f)) (snd (snd f)) @ fields_text fs" for a b f fs
    by (auto simp: fields_text_def split: prod.splits)
  ultimately show ?thesis
    by (auto simp: Dump_request_def head_text_def wire_head_def line_text_def ver connection_line_def header_lines_def body_part_def
        other_headers_def field_text_def connection_text_def CL_def)
qed

text \<open>The scanner finds the method by its name and the blank that follows.\<close>

lemma has_prefix_word:
  assumes "CHR 0x00 \<notin> set n" "take (Suc (length n)) s \<noteq> n @ '' ''"
  shows "has_prefix s (n @ '' '' @ rest) \<longleftrightarrow> take (length s) n = s"
proof -
  have word: "cstr (n @ '' '' @ rest) = n @ CHR '' '' # cstr rest" using assms(1) by (auto simp: cstr_def takeWhile_append)
  show ?thesis
  proof (cases "length s \<le> length n")
    case True
    then show ?thesis unfolding has_prefix_def word by simp
  next
    case False
    then have "length (take (length s) n) \<noteq> length s" by simp
    then have "take (length s) n \<noteq> s" by metis
    moreover have "take (length s) (n @ CHR '' '' # cstr rest) \<noteq> s"
    proof
      assume "take (length s) (n @ CHR '' '' # cstr rest) = s"
      then have "take (Suc (length n)) s = take (Suc (length n)) (take (length s) (n @ CHR '' '' # cstr rest))" by simp
      moreover have "Suc 0 \<le> length s - length n" using False by simp
      ultimately show False using assms(2) False by (simp add: min_def)
    qed
    ultimately show ?thesis unfolding has_prefix_def word by blast
  qed
qed

lemma method_found:
  assumes "m < INVALID_METHOD" "list_all (\<lambda>c. c \<noteq> CHR '' '') (HttpMethodToString m)"
  shows "CharsToHttpMethod (HttpMethodToString m @ '' '' @ rest) = m"
    "HttpMethodToString m \<noteq> []" "length (HttpMethodToString m) \<le> 20" "list_all (\<lambda>c. cls_mem c (upper @ digits)) (HttpMethodToString m)"
proof -
  let ?n = "HttpMethodToString m"
  have m: "m \<in> set [0..<34]" using assms(1) by (simp add: INVALID_METHOD_def)
  have names: "\<forall>m \<in> set [0..<34]. list_all (\<lambda>c. c \<noteq> CHR '' '') (HttpMethodToString m) \<longrightarrow>
      HttpMethodToString m \<noteq> [] \<and> length (HttpMethodToString m) \<le> 20 \<and>
      list_all (\<lambda>c. c \<in> set ''ABCDEFGHIJKLMNOPQRSTUVWXYZ'') (HttpMethodToString m)"
    by code_simp
  have found: "\<forall>m \<in> set [0..<34]. list_all (\<lambda>x. take (Suc (length (HttpMethodToString m))) (snd x) \<noteq> HttpMethodToString m @ '' '') HTTP_METHOD_MAP \<and>
      find (\<lambda>x. take (length (snd x)) (HttpMethodToString m) = snd x) HTTP_METHOD_MAP = Some (m, HttpMethodToString m)"
    by code_simp
  have upper: "list_all (\<lambda>c. c \<in> set ''ABCDEFGHIJKLMNOPQRSTUVWXYZ'') ?n" using names m assms(2) by blast
  show "?n \<noteq> []" "length ?n \<le> 20" using names m assms(2) by blast+
  have "cls_mem c (upper @ digits)" if "c \<in> set ''ABCDEFGHIJKLMNOPQRSTUVWXYZ''" for c
    using that by (auto simp: upper_def digits_def)
  then show "list_all (\<lambda>c. cls_mem c (upper @ digits)) ?n" using upper by (auto simp: list_all_iff)
  have nul: "CHR 0x00 \<notin> set ?n" using upper by (auto simp: list_all_iff)
  have "find (\<lambda>(_, s). has_prefix s (?n @ '' '' @ rest)) HTTP_METHOD_MAP = find (\<lambda>x. take (length (snd x)) ?n = snd x) HTTP_METHOD_MAP"
  proof (rule find_cong [OF refl])
    fix x assume "x \<in> set HTTP_METHOD_MAP"
    then have "take (Suc (length ?n)) (snd x) \<noteq> ?n @ '' ''" using found m unfolding list_all_iff by blast
    then show "(case x of (_, s) \<Rightarrow> has_prefix s (?n @ '' '' @ rest)) = (take (length (snd x)) ?n = snd x)"
      using has_prefix_word [OF nul] by (cases x) simp
  qed
  then show "CharsToHttpMethod (?n @ '' '' @ rest) = m" using found m by (simp add: CharsToHttpMethod_def)
qed

lemma wire_head_ok:
  assumes "wire_ok r"
  shows "head_ok (wire_head r)"
proof -
  have "list_all field_ok (map (\<lambda>(k, v). (k, False, v)) (other_headers r))"
    using wire_ok_other [OF assms] by (auto simp: field_ok_def list_all_iff)
  moreover have "value_ok (dec n)" for n
  proof -
    have "value_char c" if "is_digit c" for c using that by (auto simp: value_char_def is_digit_def HTTP_CTL_def)
    then show ?thesis using dec_digits [of n] dec_not_Nil [of n] by (cases "dec n") (auto simp: value_ok_def list_all_iff)
  qed
  moreover have "name_ok ''connection''" "name_ok CL" "value_ok (connection_text r)"
    by (simp_all add: connection_text_def CL_def name_ok_def value_ok_def value_char_def token_chars_def HTTP_CTL_def HTTP_separator_def ascii_def)
  ultimately show ?thesis
    using assms method_found unfolding wire_ok_def by (auto simp: head_ok_def wire_head_def field_ok_def)
qed

section \<open>The headers that arrive\<close>

abbreviation hfind :: "string \<Rightarrow> hmap \<Rightarrow> string option" where
  "hfind \<equiv> map_find CaseInsensitiveLess"

lemma hfind_Cons [simp]:
  "hfind k ((a, v) # m) = (if fold_case a < fold_case k then hfind k m else if fold_case k < fold_case a then None else Some v)"
  by (simp add: CaseInsensitiveLess_iff [of a k] CaseInsensitiveLess_iff [of k a])

declare map_find.simps(2) [simp del]

lemma hmap_find_above:
  assumes "\<And>e. e \<in> set m \<Longrightarrow> fold_case k < fold_case (fst e)"
  shows "hfind k m = None"
proof (cases m)
  case (Cons e m')
  then have "fold_case k < fold_case (fst e)" using assms by simp
  then show ?thesis using Cons by (cases e) auto
qed simp

lemma hfind_key: "hfind k m = Some v \<Longrightarrow> \<exists>a. (a, v) \<in> set m \<and> fold_case a = fold_case k"
  by (induction m) (auto split: if_splits)

lemma hmap_find_filter:
  assumes "hmap_wf m"
  shows "hfind k (filter (\<lambda>(a, v). fold_case a \<noteq> x) m) =
    (if fold_case k = x then None else hfind k m)"
  using assms
proof (induction m)
  case (Cons e m)
  obtain a v where e: "e = (a, v)" by (cases e)
  have wf: "hmap_wf m" and above: "\<And>e. e \<in> set m \<Longrightarrow> fold_case a < fold_case (fst e)"
    using Cons.prems by (auto simp: e hmap_wf_def CaseInsensitiveLess_iff)
  have "hfind k (filter (\<lambda>(a, v). fold_case a \<noteq> x) m) = None" if "fold_case k \<le> fold_case a"
    using above that by (intro hmap_find_above) force
  then show ?case using Cons.IH [OF wf] by (auto simp: e)
qed simp

lemma hmap_find_fold:
  assumes "hmap_wf kvs" "hmap_wf m"
  shows "hfind k (fold (\<lambda>(k, v). map_assign CaseInsensitiveLess k v) kvs m) =
    (case hfind k kvs of Some v \<Rightarrow> Some v | None \<Rightarrow> hfind k m)"
  using assms
proof (induction kvs arbitrary: m)
  case (Cons e kvs)
  obtain a v where e: "e = (a, v)" by (cases e)
  have wf: "hmap_wf kvs" and above: "\<And>e. e \<in> set kvs \<Longrightarrow> fold_case a < fold_case (fst e)"
    using Cons.prems(1) by (auto simp: e hmap_wf_def CaseInsensitiveLess_iff)
  have "hfind k (map_assign CaseInsensitiveLess a v m) =
      (if fold_case a = fold_case k then Some v else hfind k m)"
    using hdr.mp.lookup_assign [of m k a v] Cons.prems(2) by (simp add: hmap_wf_def)
  moreover have "hfind k kvs = None" if "fold_case k \<le> fold_case a"
    using above that by (intro hmap_find_above) force
  ultimately show ?case using Cons.IH [OF wf hmap_wf_assign [OF Cons.prems(2)], of a v]
    by (auto simp: e split: option.splits)
qed simp

lemma hmap_wf_other: "wire_ok r \<Longrightarrow> hmap_wf (other_headers r)"
  unfolding wire_ok_def other_headers_def hmap_wf_def by (simp add: sorted_wrt_map sorted_wrt_filter)

lemma hfind_other:
  assumes "wire_ok r"
  shows "hfind k (other_headers r) = (if fold_case k = fold_case ''connection'' then None else HasHeader k r)"
  using assms unfolding other_headers_def strcasecmp_zero HasHeader_def by (intro hmap_find_filter) (simp add: wire_ok_def)

definition arrived :: "http_request \<Rightarrow> http_request" where
  "arrived r = head_request (rq_method r) (wire_head r) (newHttpRequest 0x11 True)"

text \<open>The headers of the request that the scanner builds.\<close>

definition wire_header :: "http_request \<Rightarrow> string \<Rightarrow> string option" where
  "wire_header r k =
     (if fold_case k = fold_case CL then (if rq_body r = [] then None else Some (dec (length (rq_body r))))
      else if fold_case k = fold_case ''connection'' then Some (connection_text r)
      else HasHeader k r)"

lemma set_fields_headers:
  "rq_headers (set_fields fs q) = fold (\<lambda>(k, v). map_assign CaseInsensitiveLess k v) (map (\<lambda>(k, _, v). (k, v)) fs) (rq_headers q)"
proof -
  have "set_fields fs q = fold (\<lambda>(k, v). SetHeader k v) (map (\<lambda>(k, _, v). (k, v)) fs) q"
    by (simp add: set_fields_def fold_map comp_def case_prod_unfold)
  then show ?thesis by (simp only: fold_SetHeader)
qed

lemma CL_connection: "fold_case CL \<noteq> fold_case ''connection''"
  by (simp add: CL_def fold_case_def cstr_def of_char_tolower)

lemma arrived_headers:
  assumes "wire_ok r"
  shows "hfind k (rq_headers (arrived r)) = wire_header r k"
proof -
  let ?a = "map_assign CaseInsensitiveLess"
  let ?c = "?a ''connection'' (connection_text r) []"
  let ?m = "fold (\<lambda>(k, v). ?a k v) (other_headers r) ?c"
  have wf: "hmap_wf ?c" "hmap_wf ?m"
    using hdr.mp.inv_fold_assign [of ?c "other_headers r"] by (simp_all add: hmap_wf_def)
  have "rq_headers (arrived r) = (if rq_body r = [] then ?m else ?a CL (dec (length (rq_body r))) ?m)"
    by (simp add: arrived_def head_request_def set_fields_headers wire_head_def newHttpRequest_def comp_def case_prod_unfold)
  moreover have "hfind k (?a CL x ?m) = (if fold_case CL = fold_case k then Some x else hfind k ?m)" for x
    using hdr.mp.lookup_assign [of ?m k CL x] wf(2) by (simp add: hmap_wf_def)
  moreover have "hfind k ?c = (if fold_case ''connection'' = fold_case k then Some (connection_text r) else None)"
    by auto
  moreover have "hfind k (other_headers r) = None" if "fold_case k = fold_case CL"
    using hfind_key [of k "other_headers r"] wire_ok_other(3) [OF assms] that by (cases "hfind k (other_headers r)") auto
  ultimately show ?thesis using hmap_find_fold [OF hmap_wf_other [OF assms] wf(1), of k]
    hfind_other [OF assms, of k] CL_connection by (auto simp: wire_header_def split: option.splits)
qed

lemma arrived_fields:
  "rq_method (arrived r) = rq_method r" "rq_path (arrived r) = rq_path r" "rq_query (arrived r) = rq_query r"
  "rq_fragment (arrived r) = rq_fragment r" "rq_body (arrived r) = []"
  "wire_ok r \<Longrightarrow> rq_version (arrived r) = rq_version r"
proof -
  have "rq_method (set_fields fs q) = rq_method q \<and> rq_path (set_fields fs q) = rq_path q \<and> rq_query (set_fields fs q) = rq_query q \<and>
      rq_fragment (set_fields fs q) = rq_fragment q \<and> rq_body (set_fields fs q) = rq_body q \<and> rq_version (set_fields fs q) = rq_version q" for fs q
    by (induction fs arbitrary: q) (auto simp: set_fields_def SetHeader_def)
  then show "rq_method (arrived r) = rq_method r" "rq_path (arrived r) = rq_path r" "rq_query (arrived r) = rq_query r"
      "rq_fragment (arrived r) = rq_fragment r" "rq_body (arrived r) = []" "wire_ok r \<Longrightarrow> rq_version (arrived r) = rq_version r"
    by (auto simp: arrived_def head_request_def wire_head_def newHttpRequest_def wire_ok_def)
qed

lemma Init_arrived:
  assumes "wire_ok r" "rq_headers q = rq_headers (arrived r)"
  shows "http_Init q = q\<lparr>rq_close := rq_close r\<rparr>"
proof -
  have "GetHeader ''connection'' [] q = connection_text r"
    using arrived_headers [OF assms(1), of "''connection''"] assms(2)
    by (simp add: GetHeader_def get_or_def wire_header_def CL_def fold_case_def cstr_def of_char_tolower)
  moreover have "strcasecmp (connection_text r) ''keep-alive'' = 0 \<longleftrightarrow> \<not> rq_close r"
    by (simp add: strcasecmp_zero connection_text_def fold_case_def cstr_def of_char_tolower)
  moreover have "connection_text r \<noteq> []" by (simp add: connection_text_def)
  ultimately show ?thesis by (simp add: http_Init_def Let_def)
qed

lemma not_expecting:
  assumes "wire_ok r"
  shows "strcasecmp (GetHeader ''Expect'' [] (arrived r)) ''100-continue'' \<noteq> 0"
proof -
  have "hfind ''Expect'' (other_headers r) = None"
  proof (rule ccontr)
    assume "hfind ''Expect'' (other_headers r) \<noteq> None"
    then obtain k v where "(k, v) \<in> set (other_headers r)" "fold_case k = fold_case ''Expect''" using hfind_key by blast
    moreover have "fold_case ''Expect'' = fold_case ''expect''" by (simp add: fold_case_def cstr_def of_char_tolower)
    ultimately show False using wire_ok_other(4) [OF assms] by metis
  qed
  moreover have "hfind k (other_headers r) = (if fold_case k = fold_case ''connection'' then None else HasHeader k r)" for k
    using hfind_other [OF assms] .
  ultimately have "HasHeader ''Expect'' r = None" by (auto simp: fold_case_def cstr_def of_char_tolower split: if_splits)
  then have "hfind ''Expect'' (rq_headers (arrived r)) = None"
    unfolding arrived_headers [OF assms] wire_header_def CL_def by (simp add: fold_case_def cstr_def of_char_tolower)
  then show ?thesis by (simp add: GetHeader_def get_or_def strcasecmp_zero fold_case_def cstr_def)
qed

section \<open>One read\<close>

text \<open>The loop of a session leaves with the request and what follows the header, after its first read.\<close>

lemma wire_loop:
  assumes "wire_ok r" "alive c" "inp c = RData (head_text (wire_head r) @ b) # rs"
    "length (head_text (wire_head r) @ b) \<le> buff_size"
  obtains p where "RecvRequest_loop (http11 rl) buff_size (Suc k) [] (newRequestParser (http11 rl)) c = Inr (Some (p, b), c\<lparr>inp := rs\<rparr>)"
    "rp_data p = arrived r"
proof -
  let ?d = "head_text (wire_head r) @ b"
  have m: "rq_method r < INVALID_METHOD" "list_all (\<lambda>c. c \<noteq> CHR '' '') (HttpMethodToString (rq_method r))"
    using assms(1) by (simp_all add: wire_ok_def)
  have name: "CharsToHttpMethod ?d = rq_method r" "rq_method r \<noteq> INVALID_METHOD"
    using method_found(1) [OF m] m(1) by (simp_all add: head_text_def line_text_def wire_head_def)
  obtain h es where ex: "http_parser_execute ?d (http_parser_init rl) = Inr (length (head_text (wire_head r)), es, h)"
      "http_parser_finish h = 1" "\<not> http_parser_has_error h"
      "\<And>q :: http_parser req_parser. fold run_req_event es q = q\<lparr>rp_data := head_request (rq_method r) (wire_head r) (rp_data q)\<rparr>"
    by (rule request_scanned [OF wire_head_ok [OF assms(1)] name, of rl]) (rule that)
  let ?p = "(newRequestParser (http11 rl))\<lparr>rp_data := arrived r, rp_state := h\<rparr>"
  have "req_execute (http11 rl) ?d (newRequestParser (http11 rl)) = Inr (length (head_text (wire_head r)), b, ?p)"
    using ex(1,4) by (simp add: req_execute_def http11_def newRequestParser_def arrived_def)
  moreover have "\<not> req_HasError (http11 rl) ?p" "req_IsFinished (http11 rl) ?p"
    using ex(2,3) by (simp_all add: req_HasError_def req_IsFinished_def newRequestParser_def http11_def)
  moreover have "\<not> int (length (head_text (wire_head r))) + int (length b) \<le> 0" "head_text (wire_head r) \<noteq> []"
    by (simp_all add: head_text_def crlf_def)
  ultimately show ?thesis using assms(2-4)
    by (intro that [of ?p]) (auto simp: SocketStream_read_def sock_Recv_def)
qed

section \<open>Two reads\<close>

text \<open>
  Everything before a split inside a value is consumed by the first call.  The second call starts with all marks at the start of its own
  buffer and a name of length 0, so that the callback ignores the field.
\<close>

definition head_upto :: "req_head \<Rightarrow> string \<Rightarrow> bool \<Rightarrow> string \<Rightarrow> string" where
  "head_upto q n blank v = line_text (qh_method q) (qh_path q) (qh_query q) (qh_fragment q) (qh_minor q) @
     fields_text (qh_fields q) @ n @ (if blank then '': '' else '':'') @ v"

lemma first_call:
  assumes "head_ok q" "name_ok n" "value_ok v" "CharsToHttpMethod (head_upto q n blank v) = m" "m \<noteq> INVALID_METHOD"
  obtains h es ts where "http_parser_execute (head_upto q n blank v) (http_parser_init rl) = Inr (length (head_upto q n blank v), es, h)"
    "hp_cs h = ts" "ts = [in_value] \<or> ts = [in_value, in_blanks]" "hp_body_start h = 0" "\<not> hp_xml_sent h" "\<not> hp_json_sent h"
    "\<And>r :: http_parser req_parser. fold run_req_event es r = r\<lparr>rp_data := head_request m q (rp_data r)\<rparr>"
proof -
  let ?d = "head_upto q n blank v"
  let ?line = "line_text (qh_method q) (qh_path q) (qh_query q) (qh_fragment q) (qh_minor q)"
  let ?u = "?line @ fields_text (qh_fields q)"
  let ?sep = "if blank then '': '' else '':''"
  let ?ini = "http_parser_init rl"
  have fs: "list_all field_ok (qh_fields q)" using assms(1) by (simp add: head_ok_def)
  have len: "v \<noteq> []" "n \<noteq> []" using assms(2,3) by (auto simp: value_ok_def name_ok_def)
  have s0: "sound ?d ?ini" using len by (simp add: sound_def http_parser_init_def head_upto_def)
  have d: "?d = ?line @ fields_text (qh_fields q) @ n @ ?sep @ v" by (simp add: head_upto_def)
  obtain h1 es1 where 1: "scan_http ?d 0 ?d [main_rx rl] (?ini, []) = scan_http ?d (length ?line) (fields_text (qh_fields q) @ n @ ?sep @ v) [headers] (h1, es1)"
    "sound ?d h1" "\<And>r :: http_parser req_parser. fold run_req_event es1 r = r\<lparr>rp_data := head_request m (q\<lparr>qh_fields := []\<rparr>) (rp_data r)\<rparr>"
    using scan_line [OF assms(1) d assms(4,5) s0, of rl] by (auto simp: d)
  obtain h2 es2 where 2: "scan_http ?d (length ?line) (fields_text (qh_fields q) @ n @ ?sep @ v) [headers] (h1, es1) =
      scan_http ?d (length ?u) (n @ ?sep @ v) [headers] (h2, es1 @ es2)"
    "sound ?d h2" "\<And>r :: http_parser req_parser. fold run_req_event es2 r = r\<lparr>rp_data := set_fields (qh_fields q) (rp_data r)\<rparr>"
    by (rule scan_fields [OF fs d 1(2)]) (rule that)
  let ?m = "length ?u + length n + (if blank then 2 else 1)"
  obtain ts1 h3 where 3: "ts1 = [in_field value_rest] \<or> ts1 = [before_value, in_value, in_blanks]"
    "scan_http ?d (length ?u) (n @ ?sep @ v) [headers] (h2, es1 @ es2) = scan_http ?d ?m v ts1 (h3, es1 @ es2)"
    "\<And>x. h3\<lparr>hp_mark := x\<rparr> = h2\<lparr>hp_field_start := length ?u, hp_field_len := length n, hp_mark := x\<rparr>"
    by (rule scan_name [OF assms(2), of ?d ?u blank v h2 "es1 @ es2"]) (rule that)
  obtain ts where g: "goes (\<lambda>a. a = done_act) ts1 v ([start_value] # replicate (length v - 1) []) ts" "ts = [in_value] \<or> ts = [in_value, in_blanks]"
    using goes_value_start [of v "\<lambda>a. a = done_act" ts1] assms(3) 3(1) by auto
  let ?h = "h2\<lparr>hp_field_start := length ?u, hp_field_len := length n, hp_mark := ?m\<rparr>"
  have "acts_effect (http_act ?d) ?m ([start_value] # replicate (length v - 1) []) (h3, es1 @ es2) = Inr (?h, es1 @ es2)"
    using 3(3) [of ?m] by simp
  note v = scan_goes [OF g(1) this, of "[]"]
  have "?m + length v = length ?d" by (simp add: head_upto_def)
  then have "scan_http ?d 0 ?d (hp_cs ?ini) (fresh_call ?ini, []) = Inr (length ?d, ts, ?h, es1 @ es2)"
    using 1(1) 2(1) 3(2) v by (simp add: http_parser_init_def fresh_call_def)
  moreover have "checked ?d ?h" using 2(2) len by (auto simp: sound_def checked_def head_upto_def)
  ultimately have "http_parser_execute ?d ?ini = Inr (length ?d, es1 @ es2, ?h\<lparr>hp_cs := ts, hp_nread := length ?d\<rparr>)"
    using len by (intro http_parser_execute_eq) (simp_all add: head_upto_def)
  then show ?thesis using g(2) 1(3) 2(2,3)
    by (intro that [of "es1 @ es2" "?h\<lparr>hp_cs := ts, hp_nread := length ?d\<rparr>" ts]) (simp_all add: head_request_def set_fields_def sound_def)
qed

lemma second_call:
  assumes "hp_cs h = [in_value] \<or> hp_cs h = [in_value, in_blanks]" "hp_body_start h = 0" "\<not> hp_xml_sent h" "\<not> hp_json_sent h"
    "list_all (\<lambda>c. value_char c \<or> c \<in> {CHR '' '', CHR 0x09}) v" "list_all field_ok gs"
  obtains h' es where "http_parser_execute (v @ crlf @ fields_text gs @ crlf @ rest) h = Inr (length (v @ crlf @ fields_text gs @ crlf), es, h')"
    "http_parser_finish h' = 1" "\<not> http_parser_has_error h'"
    "\<And>r :: http_parser req_parser. fold run_req_event es r = r\<lparr>rp_data := set_fields gs (rp_data r)\<rparr>"
proof -
  let ?w = "v @ crlf"
  let ?d = "?w @ fields_text gs @ crlf @ rest"
  have ne: "?d \<noteq> []" by (simp add: crlf_def)
  obtain ts' where "goes (\<lambda>a. a = done_act) (hp_cs h) v (replicate (length v) []) ts'" and ts': "ts' = [in_value] \<or> ts' = [in_value, in_blanks]"
    using goes_value_rest [OF assms(5,1)] by blast
  from goes_append [OF this(1) goes_value_end [OF ts']]
  have g: "goes (\<lambda>a. a = done_act) (hp_cs h) ?w (replicate (length v) [] @ [[write_value], []]) [headers]" by (simp add: crlf_def)
  let ?e = "EvField ?d 0 ?d (length v)"
  have "acts_effect (http_act ?d) 0 (replicate (length v) [] @ [[write_value], []]) (fresh_call h, []) = Inr (fresh_call h, [?e])"
    by (simp add: acts_effect_append piece_def fresh_call_def)
  note v = scan_goes [OF g this, of "fields_text gs @ crlf @ rest"]
  have s0: "sound ?d (fresh_call h)" using ne assms(1-4) by (auto simp: sound_def fresh_call_def)
  obtain h' es where ex: "http_parser_execute ?d h = Inr (length (?w @ fields_text gs @ crlf), [?e] @ es, h')"
    "http_parser_finish h' = 1" "\<not> http_parser_has_error h'"
    "\<And>r :: http_parser req_parser. fold run_req_event es r = r\<lparr>rp_data := set_fields gs (rp_data r)\<rparr>"
    by (rule execute_headers [OF refl assms(6) _ s0, of h "[?e]"]) (use v in simp, rule that)
  then show ?thesis by (intro that [of "[?e] @ es" h']) (simp_all add: on_request_http_field_def)
qed

section \<open>Properties\<close>

text \<open>
  C6. A request survives the wire: what \<open>Dump\<close> writes of a request that the grammar can express is received by a
  session as the same request. The header has to arrive in one read that fits the buffer; the body may
  arrive in any pieces. Method, path, query, fragment, version, body and the close flag are the sender's, and every
  header has the sender's value, apart from the two that \<open>Dump\<close> writes itself.
\<close>

theorem request_roundtrip:
  assumes "wire_ok rq" "Dump_request rq = d @ later" "length (Dump_request rq) - length (rq_body rq) \<le> length d"
    and "alive c" "inp c = RData d # rs" "take (length later) (pend_data rs) = later"
    and "length d \<le> buff_size" "length (rq_body rq) < 2 ^ 31" "length (rq_body rq) < fuel" "0 < max_len"
    and "cast (dec (length (rq_body rq))) = Some (word_of_nat (length (rq_body rq)))"
  shows "\<exists>rq' c'. RecvRequest (http11 relaxed) cast buff_size max_len fuel c = Inr (Some rq', c') \<and>
    rq_method rq' = rq_method rq \<and> rq_path rq' = rq_path rq \<and> rq_query rq' = rq_query rq \<and>
    rq_fragment rq' = rq_fragment rq \<and> rq_version rq' = rq_version rq \<and> rq_close rq' = rq_close rq \<and>
    rq_body rq' = rq_body rq \<and> (\<forall>k. HasHeader k rq' = wire_header rq k)"
proof -
  let ?h = "head_text (wire_head rq)"
  note dump = Dump_request_head [OF assms(1)]
  define b where "b = drop (length ?h) d"
  have len: "length ?h \<le> length d" using assms(3) by (simp add: dump)
  then have "?h = take (length ?h) d" and body: "rq_body rq = b @ later"
    using assms(2) unfolding dump b_def by (auto simp: append_eq_append_conv_if)
  then have d: "d = ?h @ b" unfolding b_def by (metis append_take_drop_id)
  obtain j where fuel: "fuel = Suc j" using assms(9) by (cases fuel) auto
  obtain p where lp: "RecvRequest_loop (http11 relaxed) buff_size fuel [] (newRequestParser (http11 relaxed)) c =
      Inr (Some (p, b), c\<lparr>inp := rs\<rparr>)" "rp_data p = arrived rq"
    unfolding fuel using wire_loop [OF assms(1,4)] assms(5,7) unfolding d by blast
  let ?q = "(arrived rq)\<lparr>rq_body := rq_body rq\<rparr>"
  have nexp: "strcasecmp (GetHeader ''Expect'' [] (arrived rq)) ''100-continue'' \<noteq> 0" using not_expecting [OF assms(1)] .
  have clen: "sint (req_GetContentLength cast p) = int (length (rq_body rq))"
    using arrived_headers [OF assms(1), of CL] assms(8,11) lp(2)
    by (auto simp: req_GetContentLength_def GetAs_def wire_header_def CL_def sint_of_nat_small)
  have "\<exists>c'. RecvRequest_tail cast max_len fuel p b (c\<lparr>inp := rs\<rparr>) = Inr (Some (http_Init ?q), c')"
  proof (cases "rq_body rq = []")
    case True
    then have "?q = arrived rq" using arrived_fields(5) [of rq] by (cases "arrived rq") simp
    then show ?thesis using clen nexp lp(2) True by (simp add: RecvRequest_tail_def Let_def)
  next
    case False
    have "\<exists>c'. recv_body max_len fuel (int (length (rq_body rq))) b (c\<lparr>inp := rs\<rparr>) =
        Inr (Some (b @ take (nat (int (length (rq_body rq))) - length b) (conn_pend (c\<lparr>inp := rs\<rparr>))), c')"
    proof (rule recv_body_complete)
      have "length (take (length later) (pend_data rs)) = length later" using assms(6) by simp
      then show "nat (int (length (rq_body rq))) - length b \<le> length (conn_pend (c\<lparr>inp := rs\<rparr>))"
        using assms(4) by (simp add: conn_pend_def body)
      show "0 < int (length (rq_body rq))" using False by (cases "rq_body rq") simp_all
    qed (use assms(8-10) body in auto)
    moreover have "b @ take (nat (int (length (rq_body rq))) - length b) (conn_pend (c\<lparr>inp := rs\<rparr>)) = rq_body rq"
      using assms(4,6) unfolding body nat_int by (simp add: conn_pend_def)
    ultimately show ?thesis using clen nexp lp(2) False by (auto simp: RecvRequest_tail_def Let_def)
  qed
  then obtain c' where "RecvRequest (http11 relaxed) cast buff_size max_len fuel c = Inr (Some (http_Init ?q), c')"
    using lp(1) by (auto simp: RecvRequest_def)
  moreover have "http_Init ?q = ?q\<lparr>rq_close := rq_close rq\<rparr>" using Init_arrived [OF assms(1), of ?q] by simp
  ultimately show ?thesis using arrived_fields [of rq] arrived_headers [OF assms(1)] assms(1) by (auto simp: HasHeader_def)
qed

definition demo_wire :: http_request where
  "demo_wire = (newHttpRequest 0x11 False)\<lparr>rq_method := 3, rq_path := ''/a'', rq_query := ''x=1'', rq_body := ''hi'', rq_headers := [(''Host'', ''h'')]\<rparr>"

definition demo_wire_conn :: "char conn" where
  "demo_wire_conn = \<lparr>alive = True, inp = [RData (butlast (Dump_request demo_wire)), RData ''i!''], outp = [], sent = []\<rparr>"

theorem request_roundtrip_witness:
  "\<exists>rq c'. RecvRequest (http11 False) demo_cast 4096 8 9 demo_wire_conn = Inr (Some rq, c') \<and> rq_method rq = 3 \<and> rq_path rq = ''/a'' \<and>
     rq_query rq = ''x=1'' \<and> rq_body rq = ''hi'' \<and> \<not> rq_close rq \<and> HasHeader ''host'' rq = Some ''h''"
proof -
  have others: "other_headers demo_wire = [(''Host'', ''h'')]"
    by (simp add: demo_wire_def newHttpRequest_def other_headers_def strcasecmp_zero fold_case_def cstr_def of_char_tolower)
  have ok: "wire_ok demo_wire"
    unfolding wire_ok_def others
    by (simp add: demo_wire_def newHttpRequest_def hmap_wf_def INVALID_METHOD_def HttpMethodToString_def HTTP_METHOD_MAP_def path_ok_def
        query_ok_def plain_def unreserved_def sub_delims_def name_ok_def value_ok_def value_char_def token_chars_def HTTP_CTL_def HTTP_separator_def
        ascii_def alpha_def digits_def CL_def fold_case_def cstr_def of_char_tolower)
  have dump: "length (Dump_request demo_wire) \<le> 4096" by code_simp
  have sizes: "length (rq_body demo_wire) = 2" by (simp add: demo_wire_def)
  have hdr: "wire_header demo_wire ''host'' = Some ''h''"
    by (simp add: wire_header_def CL_def HasHeader_def demo_wire_def newHttpRequest_def fold_case_def cstr_def of_char_tolower)
  have "Dump_request demo_wire = butlast (Dump_request demo_wire) @ ''i''"
    unfolding Dump_request_head [OF ok] by (simp add: demo_wire_def newHttpRequest_def butlast_append)
  from request_roundtrip [OF ok this, of demo_wire_conn "[RData ''i!'']" 4096 9 8 demo_cast False] dump hdr
  have "\<exists>rq c'. RecvRequest (http11 False) demo_cast 4096 8 9 demo_wire_conn = Inr (Some rq, c') \<and> rq_method rq = rq_method demo_wire \<and>
      rq_path rq = rq_path demo_wire \<and> rq_query rq = rq_query demo_wire \<and> rq_body rq = rq_body demo_wire \<and> rq_close rq = rq_close demo_wire \<and>
      HasHeader ''host'' rq = Some ''h''"
    using sizes by (fastforce simp: demo_wire_conn_def demo_cast_def undec_dec simp del: undec.simps)
  then show ?thesis by (simp add: demo_wire_def newHttpRequest_def)
qed

text \<open>
  C17. A header field whose value is split over two reads is lost: the session accepts the request without any error, with all the other
  fields, but without this one, because the scanner keeps its state between two calls and forgets where the
  name of the field was. When the field is the content length, the body that follows is not read as one.
\<close>

theorem split_field_lost:
  assumes "head_ok q" "name_ok n" "value_ok (v @ w)" "v \<noteq> []" "list_all field_ok gs"
    and "CharsToHttpMethod (head_upto q n blank v) = m" "m \<noteq> INVALID_METHOD"
    and "alive c" "inp c = RData (head_upto q n blank v) # RData (w @ crlf @ fields_text gs @ crlf @ rest) # rs"
    and "length (head_upto q n blank v) \<le> buff_size" "length (w @ crlf @ fields_text gs @ crlf @ rest) \<le> buff_size"
  shows "\<exists>p. RecvRequest_loop (http11 relaxed) buff_size (Suc (Suc k)) [] (newRequestParser (http11 relaxed)) c =
      Inr (Some (p, rest), c\<lparr>inp := rs\<rparr>) \<and>
    rp_data p = head_request m (q\<lparr>qh_fields := qh_fields q @ gs\<rparr>) (newHttpRequest 0x11 True)"
proof -
  let ?g = "http11 relaxed"
  let ?d = "head_upto q n blank v"
  let ?e = "w @ crlf @ fields_text gs @ crlf"
  have v: "value_ok v" "list_all (\<lambda>c. value_char c \<or> c \<in> {CHR '' '', CHR 0x09}) w" using assms(3,4) by (auto simp: value_ok_def)
  obtain h es ts where 1: "http_parser_execute ?d (http_parser_init relaxed) = Inr (length ?d, es, h)"
    "hp_cs h = ts" "ts = [in_value] \<or> ts = [in_value, in_blanks]" "hp_body_start h = 0" "\<not> hp_xml_sent h" "\<not> hp_json_sent h"
    "\<And>r :: http_parser req_parser. fold run_req_event es r = r\<lparr>rp_data := head_request m q (rp_data r)\<rparr>"
    by (rule first_call [OF assms(1,2) v(1) assms(6,7), of relaxed]) (rule that)
  obtain h' es' where 2: "http_parser_execute (w @ crlf @ fields_text gs @ crlf @ rest) h = Inr (length ?e, es', h')"
    "http_parser_finish h' = 1" "\<not> http_parser_has_error h'"
    "\<And>r :: http_parser req_parser. fold run_req_event es' r = r\<lparr>rp_data := set_fields gs (rp_data r)\<rparr>"
    by (rule second_call [of h, OF 1(3) [folded 1(2)] 1(4-6) v(2) assms(5)]) (rule that)
  let ?p = "(newRequestParser ?g)\<lparr>rp_data := head_request m q (newHttpRequest 0x11 True), rp_state := h\<rparr>"
  let ?p' = "?p\<lparr>rp_data := head_request m (q\<lparr>qh_fields := qh_fields q @ gs\<rparr>) (newHttpRequest 0x11 True), rp_state := h'\<rparr>"
  have "req_execute ?g ?d (newRequestParser ?g) = Inr (length ?d, [], ?p)"
    using 1(1,7) by (simp add: req_execute_def http11_def newRequestParser_def)
  moreover have "\<not> req_HasError ?g ?p" "\<not> req_IsFinished ?g ?p"
    using 1(2,3) by (auto simp: req_HasError_def req_IsFinished_def newRequestParser_def http11_def http_parser_finish_def
        http_parser_has_error_def http_parser_is_finished_def rl_final_def in_value_def in_blanks_def in_field_def in_header_def)
  moreover have "req_execute ?g (w @ crlf @ fields_text gs @ crlf @ rest) ?p = Inr (length ?e, rest, ?p')"
    using 2(1,4) by (simp add: req_execute_def http11_def newRequestParser_def head_request_def set_fields_def)
  moreover have "\<not> req_HasError ?g ?p'" "req_IsFinished ?g ?p'"
    using 2(2,3) by (simp_all add: req_HasError_def req_IsFinished_def newRequestParser_def http11_def)
  moreover have "?d \<noteq> []" "length crlf = 2" using assms(4) by (simp_all add: head_upto_def crlf_def)
  ultimately show ?thesis using assms(8-11)
    by (intro exI [of _ ?p']) (simp add: SocketStream_read_def sock_Recv_def)
qed

definition demo_head :: req_head where
  "demo_head = \<lparr>qh_method = ''POST'', qh_path = ''/'', qh_query = [], qh_fragment = [], qh_minor = CHR ''1'', qh_fields = [(''Host'', True, ''h'')]\<rparr>"

definition demo_split_conn :: "char conn" where
  "demo_split_conn = \<lparr>alive = True,
     inp = [RData (head_upto demo_head ''Content-Length'' True ''1''), RData (''2'' @ crlf @ fields_text [] @ crlf @ ''hello, world''), RClosed],
     outp = [], sent = []\<rparr>"

theorem split_field_lost_witness:
  "\<exists>p c'. RecvRequest_loop (http11 False) 4096 9 [] (newRequestParser (http11 False)) demo_split_conn = Inr (Some (p, ''hello, world''), c') \<and>
     HasHeader ''Host'' (rp_data p) = Some ''h'' \<and> HasHeader ''Content-Length'' (rp_data p) = None"
proof -
  have ok: "head_ok demo_head" "name_ok ''Content-Length''" "value_ok (''1'' @ ''2'')"
    by (simp_all add: demo_head_def head_ok_def field_ok_def path_ok_def name_ok_def value_ok_def value_char_def token_chars_def HTTP_CTL_def
        HTTP_separator_def ascii_def upper_def)
  have m: "CharsToHttpMethod (head_upto demo_head ''Content-Length'' True ''1'') = 3"
    using method_found(1) [of 3 "drop 5 (head_upto demo_head ''Content-Length'' True ''1'')"]
    by (simp add: head_upto_def line_text_def demo_head_def HttpMethodToString_def HTTP_METHOD_MAP_def INVALID_METHOD_def)
  have "\<exists>p. RecvRequest_loop (http11 False) 4096 (Suc (Suc 7)) [] (newRequestParser (http11 False)) demo_split_conn =
      Inr (Some (p, ''hello, world''), demo_split_conn\<lparr>inp := [RClosed]\<rparr>) \<and>
      rp_data p = head_request 3 (demo_head\<lparr>qh_fields := qh_fields demo_head @ []\<rparr>) (newHttpRequest 0x11 True)"
    by (rule split_field_lost [OF ok _ _ m])
      (simp_all add: demo_split_conn_def INVALID_METHOD_def head_upto_def line_text_def demo_head_def fields_text_def field_text_def crlf_def)
  moreover have "HasHeader ''Host'' (head_request 3 demo_head (newHttpRequest 0x11 True)) = Some ''h''"
      "HasHeader ''Content-Length'' (head_request 3 demo_head (newHttpRequest 0x11 True)) = None"
    by (simp_all add: HasHeader_def head_request_def demo_head_def set_fields_def SetHeader_def newHttpRequest_def fold_case_def cstr_def of_char_tolower)
  ultimately show ?thesis by (auto simp: eval_nat_numeral)
qed

end
