(* ===== verification/Uri_Parser.thy ===== *)
theory Uri_Parser
  imports Ragel Uri
begin

text \<open>
  \<open>Uri::Create\<close> (\<open>gudov/uri.rl\<close>): the grammar of uris with its actions, and the function around the generated
  loop.  The literal \<open>2\<close> in \<open>dec_octet\<close> is the character with the code 2.  A string that is made from a null pointer
  is an exception.

  The lemmas follow the machine through the parts of a uri; the alternatives that are open at the same time (a user or a
  host, an address or a name) are kept as a list of expressions, of which one is always the name.
\<close>

section \<open>The grammar\<close>

datatype uact =
    marku
  | markh
  | save_scheme
  | save_port
  | save_userinfo
  | save_host
  | save_path
  | save_query
  | save_fragment

definition u_sub_delims :: "(nat \<times> nat) list" where
  "u_sub_delims = chars_of [CHR ''!'', CHR ''$'', CHR ''&'', CHR 0x27, CHR ''('', CHR '')'', CHR ''*'', CHR ''+'', CHR '','', CHR '';'', CHR ''='']"

definition u_unreserved :: "(nat \<times> nat) list" where "u_unreserved = alpha @ digits @ chars_of ''-._~''"

definition u_pct_encoded :: "uact rx" where "u_pct_encoded = seqs [chr (CHR ''%''), Cls xdigits, Cls xdigits]"

definition u_scheme_rx :: "nat \<Rightarrow> uact rx" where
  "u_scheme_rx n = Leave (n + 1) save_scheme (Enter n marku (Seq (Cls alpha) (Star (Cls (alpha @ digits @ chars_of ''+-.'')))))"

definition u_userinfo_rx :: "uact rx" where
  "u_userinfo_rx = Star (Alt (Cls (u_unreserved @ u_sub_delims @ chars_of '':'')) u_pct_encoded)"

definition u_dec_octet :: "uact rx" where
  "u_dec_octet = alts [Cls digits, Seq (Cls [(49, 57)]) (Cls digits), Seq (chr (CHR ''1'')) (times_rx 2 (Cls digits)),
     seqs [Cls [(2, 2)], Cls [(48, 52)], Cls digits], Seq (lit ''25'') (Cls [(48, 53)])]"

definition u_IPv4address :: "uact rx" where
  "u_IPv4address = seqs [u_dec_octet, chr (CHR ''.''), u_dec_octet, chr (CHR ''.''), u_dec_octet, chr (CHR ''.''), u_dec_octet]"

definition u_h16 :: "uact rx" where "u_h16 = Seq (Cls xdigits) (upto_rx 3 (Cls xdigits))"

definition u_h16s :: "nat \<Rightarrow> uact rx" where "u_h16s n = times_rx n (Seq u_h16 (chr (CHR '':'')))"

definition u_ls32 :: "uact rx" where "u_ls32 = Alt (seqs [u_h16, chr (CHR '':''), u_h16]) u_IPv4address"

definition u_IPv6address :: "uact rx" where
  "u_IPv6address = alts
     [Seq (u_h16s 6) u_ls32,
      seqs [lit ''::'', u_h16s 5, u_ls32],
      seqs [opt u_h16, lit ''::'', u_h16s 4, u_ls32],
      seqs [opt (Seq (u_h16s 1) u_h16), lit ''::'', u_h16s 3, u_ls32],
      seqs [opt (Seq (u_h16s 2) u_h16), lit ''::'', u_h16s 2, u_ls32],
      seqs [opt (Seq (u_h16s 3) u_h16), lit ''::'', u_h16s 1, u_ls32],
      seqs [opt (Seq (u_h16s 4) u_h16), lit ''::'', u_ls32],
      seqs [opt (Seq (u_h16s 5) u_h16), lit ''::'', u_h16],
      seqs [opt (Seq (u_h16s 6) u_h16), lit ''::'']]"

definition u_IPvFuture :: "uact rx" where
  "u_IPvFuture = seqs [chr (CHR ''v''), plus_rx (Cls xdigits), chr (CHR ''.''), plus_rx (Cls (u_unreserved @ u_sub_delims @ chars_of '':''))]"

definition u_IP_literal :: "uact rx" where
  "u_IP_literal = seqs [chr (CHR ''[''), Alt u_IPv6address u_IPvFuture, chr (CHR '']'')]"

definition u_reg_name :: "uact rx" where
  "u_reg_name = Star (Alt (Cls (u_unreserved @ u_sub_delims)) u_pct_encoded)"

definition u_host_rx :: "uact rx" where "u_host_rx = alts [u_IP_literal, u_IPv4address, u_reg_name]"

definition u_port_rx :: "uact rx" where "u_port_rx = Star (Cls digits)"

definition u_authority :: "nat \<Rightarrow> uact rx" where
  "u_authority n = Enter n markh (seqs
     [opt (Seq (Leave (n + 1) save_userinfo u_userinfo_rx) (chr (CHR ''@''))),
      Leave (n + 3) save_host (Enter (n + 2) markh u_host_rx),
      opt (Seq (chr (CHR '':'')) (Leave (n + 5) save_port (Enter (n + 4) markh u_port_rx)))])"

definition u_pchar_but :: "string \<Rightarrow> uact rx" where
  "u_pchar_but s = Alt (Cls (diff_cls (non_ascii @ u_unreserved @ u_sub_delims @ chars_of '':@'') (chars_of s))) u_pct_encoded"

definition u_pchar :: "uact rx" where "u_pchar = u_pchar_but []"

definition u_segment :: "uact rx" where "u_segment = Star u_pchar"
definition u_segment_nz :: "uact rx" where "u_segment_nz = plus_rx u_pchar"
definition u_segment_nz_nc :: "uact rx" where "u_segment_nz_nc = plus_rx (u_pchar_but '':'')"

definition u_segments :: "uact rx" where "u_segments = Star (Seq (chr (CHR ''/'')) u_segment)"

definition u_path_abempty :: "uact rx" where "u_path_abempty = Seq (opt (Seq (chr (CHR ''/'')) u_segment)) u_segments"
definition u_path_absolute :: "uact rx" where "u_path_absolute = Seq (chr (CHR ''/'')) (opt (Seq u_segment_nz u_segments))"
definition u_path_noscheme :: "uact rx" where "u_path_noscheme = Seq u_segment_nz_nc u_segments"
definition u_path_rootless :: "uact rx" where "u_path_rootless = Seq u_segment_nz u_segments"

definition u_query_chars :: "uact rx" where "u_query_chars = Star (Alt u_pchar (Cls (chars_of ''/?'')))"

definition u_query_rx :: "nat \<Rightarrow> uact rx" where
  "u_query_rx n = Leave (n + 1) save_query (Enter n marku u_query_chars)"

definition u_fragment_rx :: "nat \<Rightarrow> uact rx" where
  "u_fragment_rx n = Leave (n + 1) save_fragment (Enter n marku u_query_chars)"

definition u_tail :: "nat \<Rightarrow> uact rx" where
  "u_tail n = Seq (opt (Seq (chr (CHR ''?'')) (u_query_rx n))) (opt (Seq (chr (CHR ''#'')) (u_fragment_rx (n + 2))))"

definition u_hier_part :: "nat \<Rightarrow> uact rx" where
  "u_hier_part n = alts
     [seqs [lit ''//'', u_authority n, Leave (n + 7) save_path (Enter (n + 6) markh u_path_abempty)],
      u_path_absolute, u_path_rootless, One]"

definition u_relative_part :: "nat \<Rightarrow> uact rx" where
  "u_relative_part n = alts [seqs [lit ''//'', u_authority n, u_path_abempty], u_path_absolute, u_path_noscheme, One]"

definition u_relative_ref :: "nat \<Rightarrow> uact rx" where
  "u_relative_ref n = Seq (u_relative_part n) (u_tail (n + 6))"

definition u_URI :: "nat \<Rightarrow> uact rx" where
  "u_URI n = seqs [u_scheme_rx n, chr (CHR '':''), u_hier_part (n + 2), u_tail (n + 10)]"

definition u_main :: "uact rx" where "u_main = Alt (u_URI 0) (u_relative_ref 14)"

section \<open>The parser\<close>

text \<open>\<open>std::string(mark, fpc - mark)\<close>; the mark is a position in the text or null.\<close>

definition marked :: "string \<Rightarrow> nat \<Rightarrow> nat option \<Rightarrow> string res" where
  "marked s fpc m = (case m of None \<Rightarrow> Inl LogicError | Some i \<Rightarrow> Inr (take (fpc - i) (drop i s)))"

fun uri_act :: "string \<Rightarrow> nat \<Rightarrow> uact \<Rightarrow> nat option \<times> uri \<Rightarrow> (nat option \<times> uri) res" where
  "uri_act s fpc marku (m, u) = Inr (Some fpc, u)"
| "uri_act s fpc markh (m, u) = Inr (Some fpc, u)"
| "uri_act s fpc save_scheme (m, u) = bindR (marked s fpc m) (\<lambda>t. Inr (None, u\<lparr>u_scheme := t\<rparr>))"
| "uri_act s fpc save_port (m, u) =
     (if m \<noteq> Some fpc
      then (case m of None \<Rightarrow> Inl NullDeref | Some i \<Rightarrow> Inr (None, u\<lparr>u_port := atoi (cstr (drop i s))\<rparr>))
      else Inr (None, u))"
| "uri_act s fpc save_userinfo (m, u) =
     (if m \<noteq> None then bindR (marked s fpc m) (\<lambda>t. Inr (None, u\<lparr>u_userinfo := t\<rparr>)) else Inr (None, u))"
| "uri_act s fpc save_host (m, u) =
     (if m \<noteq> None then bindR (marked s fpc m) (\<lambda>t. Inr (m, u\<lparr>u_host := t\<rparr>)) else Inr (m, u))"
| "uri_act s fpc save_path (m, u) = bindR (marked s fpc m) (\<lambda>t. Inr (None, u\<lparr>u_path := t\<rparr>))"
| "uri_act s fpc save_query (m, u) = bindR (marked s fpc m) (\<lambda>t. Inr (None, u\<lparr>u_query := t\<rparr>))"
| "uri_act s fpc save_fragment (m, u) = bindR (marked s fpc m) (\<lambda>t. Inr (None, u\<lparr>u_fragment := t\<rparr>))"

text \<open>The end of the loop: the leaving actions run once more when all of the text was read.\<close>

definition uri_end :: "string \<Rightarrow> nat \<times> uact rx list \<times> nat option \<times> uri \<Rightarrow> uri option res" where
  "uri_end s r = (case r of (p, ts, st) \<Rightarrow>
     if ts = [] then Inr None
     else bindR (run_acts (uri_act s p) (\<lambda>_. False) (eof_actions ts) st) (\<lambda>(_, _, u).
       Inr (if rl_final ts then Some u else None)))"

definition Uri_Create :: "string \<Rightarrow> uri option res" where
  "Uri_Create s = bindR (rl_exec (uri_act s) (\<lambda>_. False) 0 s [u_main] (None, newUri)) (uri_end s)"

section \<open>The states of the machine\<close>

definition host_char :: "char \<Rightarrow> bool" where "host_char c \<longleftrightarrow> cls_mem c (u_unreserved @ u_sub_delims)"
definition path_char :: "char \<Rightarrow> bool" where "path_char c \<longleftrightarrow> cls_mem c (non_ascii @ u_unreserved @ u_sub_delims @ chars_of '':@'')"
definition scheme_char :: "char \<Rightarrow> bool" where "scheme_char c \<longleftrightarrow> cls_mem c (alpha @ digits @ chars_of ''+-.'')"

definition path_part :: "uact rx" where "path_part = Leave 9 save_path (Enter 8 markh u_path_abempty)"
definition port_part :: "uact rx" where "port_part = opt (Seq (chr (CHR '':'')) (Leave 7 save_port (Enter 6 markh u_port_rx)))"
definition host_part :: "uact rx" where "host_part = Leave 5 save_host (Enter 4 markh u_host_rx)"

definition after_auth :: "uact rx \<Rightarrow> uact rx" where "after_auth r = Seq (Seq r path_part) (u_tail 10)"

definition in_host :: "uact rx \<Rightarrow> uact rx" where "in_host r = after_auth (Seq (Leave 5 save_host r) port_part)"
definition in_userinfo :: "uact rx" where
  "in_userinfo = after_auth (Seq (Seq (Leave 3 save_userinfo u_userinfo_rx) (chr (CHR ''@''))) (Seq host_part port_part))"
definition at_host :: "uact rx" where "at_host = after_auth (Seq host_part port_part)"
definition at_authority :: "uact rx" where "at_authority = after_auth (u_authority 2)"
definition at_port :: "uact rx" where "at_port = after_auth (Leave 7 save_port (Enter 6 markh u_port_rx))"
definition in_port :: "uact rx" where "in_port = after_auth (Leave 7 save_port u_port_rx)"
definition in_upath :: "uact rx" where "in_upath = Seq (Leave 9 save_path (Seq u_segment u_segments)) (u_tail 10)"
definition fragment_part :: "uact rx" where "fragment_part = opt (Seq (chr (CHR ''#'')) (u_fragment_rx 12))"
definition at_uquery :: "uact rx" where "at_uquery = Seq (u_query_rx 10) fragment_part"
definition in_uquery :: "uact rx" where "in_uquery = Seq (Leave 11 save_query u_query_chars) fragment_part"
definition at_ufragment :: "uact rx" where "at_ufragment = u_fragment_rx 12"
definition in_ufragment :: "uact rx" where "in_ufragment = Leave 13 save_fragment u_query_chars"

definition at_hier :: "uact rx" where "at_hier = Seq (u_hier_part 2) (u_tail 10)"
definition in_scheme :: "uact rx list" where
  "in_scheme = [Seq (Leave 1 save_scheme (Star (Cls (alpha @ digits @ chars_of ''+-.'')))) (Seq (chr (CHR '':'')) at_hier),
     Seq (Seq (Star (u_pchar_but '':'')) u_segments) (u_tail 20)]"
definition in_slashes :: "uact rx list" where
  "in_slashes = [Seq (Seq (chr (CHR ''/'')) (Seq (u_authority 2) path_part)) (u_tail 10), Seq (opt (Seq u_segment_nz u_segments)) (u_tail 10)]"

declare add_2_eq_Suc [simp del] add_2_eq_Suc' [simp del]

lemmas chars_defs = u_unreserved_def u_sub_delims_def alpha_def digits_def non_ascii_def

lemma moves_pct: "c \<noteq> CHR ''%'' \<Longrightarrow> moves c u_pct_encoded = []" "leaving u_pct_encoded = None"
  by (simp_all add: u_pct_encoded_def)

lemma chars_not:
  "host_char c \<Longrightarrow> c \<notin> set ''/:?#@%[''" "path_char c \<Longrightarrow> c \<notin> set ''/?#%''" "scheme_char c \<Longrightarrow> c \<notin> set ''/:?#@%''"
  by (auto simp: host_char_def path_char_def scheme_char_def chars_defs)

lemma moves_upchar:
  "path_char c \<Longrightarrow> moves c u_pchar = [([], [], One)]" "c \<in> set ''/?#'' \<Longrightarrow> moves c u_pchar = []" "leaving u_pchar = None"
proof -
  have all: "moves c u_pchar = (if path_char c then [([], [], One)] else []) @ moves c u_pct_encoded"
    by (simp add: u_pchar_def u_pchar_but_def path_char_def)
  show "path_char c \<Longrightarrow> moves c u_pchar = [([], [], One)]" using all chars_not(2) [of c] moves_pct(1) [of c] by auto
  have "\<not> path_char c \<and> c \<noteq> CHR ''%''" if "c \<in> set ''/?#''" using chars_not(2) [of c] that by auto
  then show "c \<in> set ''/?#'' \<Longrightarrow> moves c u_pchar = []" using all moves_pct(1) [of c] by auto
  show "leaving u_pchar = None" by (simp add: u_pchar_def u_pchar_but_def moves_pct(2))
qed

lemma leaving_tail [simp]: "leaving (u_tail n) = Some []" "leaving u_segment = Some []" "leaving u_segments = Some []" "leaving u_query_chars = Some []"
  "leaving u_path_abempty = Some []" "leaving u_port_rx = Some []" "leaving fragment_part = Some []" "leaving u_userinfo_rx = Some []"
  by (simp_all add: u_tail_def opt_def u_segment_def u_segments_def u_query_chars_def u_path_abempty_def u_port_rx_def fragment_part_def u_userinfo_rx_def)

lemma moves_tail:
  "c \<notin> set ''?#'' \<Longrightarrow> moves c (u_tail n) = []" "moves (CHR ''?'') (u_tail 10) = [([], [], at_uquery)]" "moves (CHR ''#'') (u_tail 10) = [([], [], at_ufragment)]"
  by (simp_all add: u_tail_def opt_def at_uquery_def at_ufragment_def fragment_part_def u_query_rx_def)

text \<open>The scheme.\<close>

lemma moves_noscheme:
  assumes "c \<notin> set ''%/''"
  shows "moves c (u_relative_ref 14) = (if path_char c \<and> c \<noteq> CHR '':'' then [([], [], Seq (Seq (Star (u_pchar_but '':'')) u_segments) (u_tail 20))] else []) @ moves c (u_tail 20)"
  using assms by (auto simp: u_relative_ref_def u_relative_part_def u_path_absolute_def u_path_noscheme_def u_segment_nz_nc_def plus_rx_def
      u_pchar_but_def moves_pct path_char_def)

lemma step_scheme:
  "cls_mem c alpha \<Longrightarrow> rl_step c [u_main] = ([marku], in_scheme)"
  "scheme_char c \<Longrightarrow> rl_step c in_scheme = ([], in_scheme)"
  "rl_step (CHR '':'') in_scheme = ([save_scheme], [at_hier])"
proof -
  show "rl_step c [u_main] = ([marku], in_scheme)" if c: "cls_mem c alpha"
  proof -
    have "path_char c" "c \<notin> set ''%/:?#''" using c by (auto simp: path_char_def chars_defs)
    then show ?thesis using c
      by (simp add: machine u_main_def moves_noscheme moves_tail u_URI_def u_scheme_rx_def in_scheme_def at_hier_def)
  qed
  show "rl_step c in_scheme = ([], in_scheme)" if c: "scheme_char c"
  proof -
    have "path_char c" using c by (auto simp: path_char_def scheme_char_def chars_defs)
    then show ?thesis using c chars_not(3) [OF c]
      by (simp add: machine in_scheme_def u_segments_def u_pchar_but_def moves_pct moves_tail path_char_def scheme_char_def)
  qed
  show "rl_step (CHR '':'') in_scheme = ([save_scheme], [at_hier])"
    by (simp add: machine in_scheme_def u_segments_def u_pchar_but_def moves_pct moves_tail alpha_def digits_def at_hier_def)
qed

lemma step_slashes:
  "rl_step (CHR ''/'') [at_hier] = ([], in_slashes)"
  "rl_step (CHR ''/'') in_slashes = ([], [at_authority])"
  by (simp_all add: machine at_hier_def u_hier_part_def in_slashes_def path_part_def at_authority_def after_auth_def u_path_absolute_def u_path_rootless_def
      u_segment_nz_def plus_rx_def moves_upchar moves_tail opt_def)

text \<open>
  The authority.  A host may be an address and a name at the same time; the states inside it are the list of what the
  alternatives leave to match, one of which is always the name.
\<close>

abbreviation stops :: "char \<Rightarrow> bool" where "stops c \<equiv> c \<in> set ''/:?#@''"

definition host_threads :: "uact rx list \<Rightarrow> bool" where
  "host_threads us \<longleftrightarrow> u_reg_name \<in> set us \<and> list_all (tame (\<lambda>c. \<not> stops c)) us"

lemma tame_host: "tame (\<lambda>c. \<not> stops c) u_reg_name" "tame (\<lambda>c. \<not> stops c) u_IPv4address"
proof -
  have cls: "\<not> cls_mem (CHR ''/'') rs \<Longrightarrow> \<not> cls_mem (CHR '':'') rs \<Longrightarrow> \<not> cls_mem (CHR ''?'') rs \<Longrightarrow> \<not> cls_mem (CHR ''#'') rs \<Longrightarrow> \<not> cls_mem (CHR ''@'') rs
    \<Longrightarrow> \<forall>c. cls_mem c rs \<longrightarrow> \<not> stops c" for rs by auto
  show "tame (\<lambda>c. \<not> stops c) u_reg_name"
    unfolding u_reg_name_def u_pct_encoded_def chr_def seqs.simps tame.simps by (intro conjI cls) (simp_all add: chars_defs xdigits_def)
  show "tame (\<lambda>c. \<not> stops c) u_IPv4address"
    unfolding u_IPv4address_def u_dec_octet_def chr_def seqs.simps alts.simps lit.simps eval_nat_numeral times_rx.simps tame.simps
    by (intro conjI cls) (auto simp: chars_defs)
qed

lemma moves_reg_name: "host_char c \<Longrightarrow> moves c u_reg_name = [([], [], u_reg_name)]" "leaving u_reg_name = Some []"
  using chars_not(1) [of c] by (simp_all add: u_reg_name_def moves_pct host_char_def)

lemma moves_userinfo:
  "host_char c \<Longrightarrow> moves c u_userinfo_rx = [([], [], u_userinfo_rx)]" "moves (CHR '':'') u_userinfo_rx = [([], [], u_userinfo_rx)]"
  "c \<in> set ''/@?#'' \<Longrightarrow> moves c u_userinfo_rx = []"
  using chars_not(1) [of c] by (auto simp: u_userinfo_rx_def moves_pct host_char_def)

lemma moves_path_part:
  "c \<noteq> CHR ''/'' \<Longrightarrow> moves c path_part = []"
  "moves (CHR ''/'') path_part = [([(8, markh)], [], Leave 9 save_path (Seq u_segment u_segments)), ([(8, markh)], [], Leave 9 save_path (Seq u_segment u_segments))]"
  "leaving path_part = Some [(9, save_path)]"
  by (simp_all add: path_part_def u_path_abempty_def opt_def u_segments_def u_segment_def)

lemma moves_port_part:
  "c \<noteq> CHR '':'' \<Longrightarrow> moves c port_part = []" "moves (CHR '':'') port_part = [([], [], Leave 7 save_port (Enter 6 markh u_port_rx))]"
  "leaving port_part = Some []"
  by (simp_all add: port_part_def opt_def)

lemma moves_in_userinfo:
  "host_char c \<or> c = CHR '':'' \<Longrightarrow> moves c in_userinfo = [([], [], in_userinfo)]"
  "moves (CHR ''@'') in_userinfo = [([(3, save_userinfo)], [], at_host)]" "c \<in> set ''/?#'' \<Longrightarrow> moves c in_userinfo = []" "leaving in_userinfo = None"
  using chars_not(1) [of c] by (auto simp: in_userinfo_def at_host_def after_auth_def moves_userinfo host_part_def)

text \<open>Inside the host a thread moves on, or leaves it and goes on behind it.\<close>

definition host_exit :: "char \<Rightarrow> uact move list" where
  "host_exit c =
     (if c = CHR '':'' then [([(5, save_host)], [], at_port)]
      else if c = CHR ''/'' then [([(5, save_host), (8, markh)], [], in_upath), ([(5, save_host), (8, markh)], [], in_upath)]
      else if c = CHR ''?'' then [([(5, save_host), (9, save_path)], [], at_uquery)]
      else if c = CHR ''#'' then [([(5, save_host), (9, save_path)], [], at_ufragment)] else [])"

lemma moves_in_host:
  assumes "tame P u"
  shows "moves c (in_host u) = map (\<lambda>m. ([], [], in_host (snd (snd m)))) (moves c u) @ (if leaving u = None then [] else host_exit c)"
proof -
  have "moves c u = map (\<lambda>m. ([], [], snd (snd m))) (moves c u)"
    by (rule map_idI [symmetric]) (use tame_moves [OF assms] in force)
  then have "map (\<lambda>(as, ps, t). (as, ps, in_host t)) (moves c u) = map (\<lambda>m. ([], [], in_host (snd (snd m)))) (moves c u)"
    by (metis (no_types, lifting) case_prod_conv comp_def map_map map_cong)
  then show ?thesis
    using tame_leaving [OF assms]
    by (auto simp: in_host_def after_auth_def moves_port_part moves_path_part moves_tail host_exit_def at_port_def in_upath_def case_prod_beta comp_def split: option.splits)
qed

lemma remdups_map_inj: "inj f \<Longrightarrow> remdups (map f xs) = map f (remdups xs)"
  by (induction xs) (auto dest: injD)

lemma inj_in_host: "inj in_host"
  by (auto simp: inj_def in_host_def after_auth_def)

lemma in_host_userinfo: "in_userinfo \<noteq> in_host u"
  by (simp add: in_userinfo_def in_host_def after_auth_def)

abbreviation host_state :: "bool \<Rightarrow> uact rx list \<Rightarrow> uact rx list" where
  "host_state b us \<equiv> (if b then [in_userinfo] else []) @ map in_host us"

lemma remdups_host_state: "remdups (host_state b us) = host_state b (remdups us)"
  using in_host_userinfo by (auto simp: remdups_map_inj [OF inj_in_host])

definition host_next :: "char \<Rightarrow> uact rx list \<Rightarrow> uact rx list" where
  "host_next c us = remdups (concat (map (\<lambda>u. map (\<lambda>m. snd (snd m)) (moves c u)) us))"

lemma host_next_threads:
  assumes "host_threads us" "host_char c"
  shows "host_threads (host_next c us)"
proof -
  have "u_reg_name \<in> set (host_next c us)"
    using assms moves_reg_name(1) by (force simp: host_threads_def host_next_def)
  moreover have "list_all (tame (\<lambda>c. \<not> stops c)) (host_next c us)"
    using assms(1) tame_moves [of "\<lambda>c. \<not> stops c"] by (fastforce simp: host_threads_def host_next_def list_all_iff)
  ultimately show ?thesis by (simp add: host_threads_def)
qed

lemma step_host:
  assumes "host_threads us" "host_char c"
  shows "rl_step c (host_state b us) = ([], host_state b (host_next c us))"
proof -
  have "host_exit c = []" using chars_not(1) [OF assms(2)] by (simp add: host_exit_def)
  then have in_host: "moves c (in_host u) = map (\<lambda>m. ([], [], in_host (snd (snd m)))) (moves c u)" if "u \<in> set us" for u
    using assms(1) moves_in_host [of "\<lambda>c. \<not> stops c" u c] that by (auto simp: host_threads_def list_all_iff)
  let ?ms = "concat (map (moves c) (host_state b us))"
  have ms: "?ms = map (\<lambda>t. ([], [], t)) (host_state b (concat (map (\<lambda>u. map (\<lambda>m. snd (snd m)) (moves c u)) us)))"
    using assms(2) in_host by (simp add: moves_in_userinfo map_concat comp_def cong: map_cong)
  show ?thesis by (subst rl_step_plain [OF ms]) (auto simp: comp_def remdups_host_state host_next_def in_order_Nil)
qed

lemma host_state_exit:
  assumes "host_threads us" "stops c"
  shows "concat (map (moves c) (map in_host us)) = concat (map (\<lambda>u. if leaving u = None then [] else host_exit c) us)"
    "\<exists>u \<in> set us. leaving u \<noteq> None"
proof -
  have "moves c (in_host u) = (if leaving u = None then [] else host_exit c)" if "u \<in> set us" for u
    using assms that tame_stuck [of "\<lambda>c. \<not> stops c" u c] moves_in_host [of "\<lambda>c. \<not> stops c" u c]
    by (simp add: host_threads_def list_all_iff)
  then show "concat (map (moves c) (map in_host us)) = concat (map (\<lambda>u. if leaving u = None then [] else host_exit c) us)"
    by (simp add: comp_def cong: map_cong)
  show "\<exists>u \<in> set us. leaving u \<noteq> None" using assms(1) moves_reg_name(2) by (force simp: host_threads_def)
qed

lemma step_host_exit:
  assumes "host_threads us" "set (host_exit c) = {(as, [], t)}" "sorted (map fst as)" "distinct (map fst as)"
  shows "c \<in> set ''/?#'' \<Longrightarrow> rl_step c (host_state b us) = (map snd as, [t])"
    "c = CHR '':'' \<Longrightarrow> t \<noteq> in_userinfo \<Longrightarrow> rl_step c (host_state b us) = (map snd as, (if b then [in_userinfo] else []) @ [t])"
proof -
  have xs: "set (concat (map (\<lambda>u. if leaving u = None then [] else host_exit c) us)) = {(as, [], t)}" if "stops c"
    using host_state_exit(2) [OF assms(1) that] assms(2) by auto
  show "rl_step c (host_state b us) = (map snd as, [t])" if c: "c \<in> set ''/?#''"
  proof -
    have "stops c" using c by auto
    have "rl_step c (host_state b us) = (map snd as, [] @ [t])"
    proof (rule rl_step_agree [OF _ xs [OF \<open>stops c\<close>] assms(3,4)])
      show "concat (map (moves c) (host_state b us)) =
          map (\<lambda>q. ([], [], q)) [] @ concat (map (\<lambda>u. if leaving u = None then [] else host_exit c) us)"
        using host_state_exit(1) [OF assms(1) \<open>stops c\<close>] moves_in_userinfo(3) [OF c] by simp
    qed simp_all
    then show ?thesis by simp
  qed
  show "rl_step c (host_state b us) = (map snd as, (if b then [in_userinfo] else []) @ [t])" if "c = CHR '':''" "t \<noteq> in_userinfo"
    by (rule rl_step_agree [OF _ xs assms(3,4)])
      (use host_state_exit(1) [OF assms(1), of c] moves_in_userinfo(1) that in auto)
qed

lemma step_after_host:
  assumes "host_threads us"
  shows "rl_step (CHR ''/'') (host_state b us) = ([save_host, markh], [in_upath])"
    "rl_step (CHR '':'') (host_state b us) = ([save_host], (if b then [in_userinfo] else []) @ [at_port])"
    "rl_step (CHR ''@'') (host_state True us) = ([save_userinfo], [at_host])"
proof -
  show "rl_step (CHR ''/'') (host_state b us) = ([save_host, markh], [in_upath])"
    using step_host_exit(1) [OF assms, of "CHR ''/''" "[(5, save_host), (8, markh)]" in_upath] by (simp add: host_exit_def)
  have "at_port \<noteq> in_userinfo" by (simp add: at_port_def in_userinfo_def after_auth_def)
  then show "rl_step (CHR '':'') (host_state b us) = ([save_host], (if b then [in_userinfo] else []) @ [at_port])"
    using step_host_exit(2) [OF assms, of "CHR '':''" "[(5, save_host)]" at_port] by (simp add: host_exit_def)
  have "concat (map (moves (CHR ''@'')) (map in_host us)) = []" using host_state_exit(1) [OF assms, of "CHR ''@''"] by (auto simp: host_exit_def)
  then have "concat (map (moves (CHR ''@'')) (host_state True us)) = map (\<lambda>q. ([], [], q)) [] @ [([(3, save_userinfo)], [], at_host)]"
    by (simp add: moves_in_userinfo)
  from rl_step_agree [OF this] show "rl_step (CHR ''@'') (host_state True us) = ([save_userinfo], [at_host])" by simp
qed

lemma moves_host_rx:
  assumes "host_char c"
  shows "moves c u_host_rx = map (\<lambda>t. ([], [], t)) (map (\<lambda>m. snd (snd m)) (moves c u_IPv4address) @ [u_reg_name])" "leaving u_host_rx = Some []"
proof -
  have "moves c u_IP_literal = []" "leaving u_IP_literal = None" "leaving u_IPv4address = None"
    using chars_not(1) [OF assms] by (simp_all add: u_IP_literal_def u_IPv4address_def u_dec_octet_def)
  moreover have "moves c u_IPv4address = map (\<lambda>m. ([], [], snd (snd m))) (moves c u_IPv4address)"
    by (rule map_idI [symmetric]) (use tame_moves [OF tame_host(2)] in force)
  ultimately show "moves c u_host_rx = map (\<lambda>t. ([], [], t)) (map (\<lambda>m. snd (snd m)) (moves c u_IPv4address) @ [u_reg_name])" "leaving u_host_rx = Some []"
    using moves_reg_name(1) [of c] moves_reg_name(2) assms by (simp_all add: u_host_rx_def comp_def)
qed

text \<open>The first character of the host: it marks the place, once for the authority and once for the host.\<close>

definition host_first :: "char \<Rightarrow> uact rx list" where
  "host_first c = remdups (map (\<lambda>m. snd (snd m)) (moves c u_IPv4address) @ [u_reg_name])"

lemma host_first_threads: "host_threads (host_first c)"
  using tame_host tame_moves [OF tame_host(2), of _ _ _ c] by (fastforce simp: host_threads_def host_first_def list_all_iff)

lemma step_host_first:
  assumes "host_char c"
  shows "rl_step c [at_host] = ([markh], host_state False (host_first c))"
    "rl_step c [at_authority] = ([markh, markh], host_state True (host_first c))"
proof -
  define us where "us = map (\<lambda>m. snd (snd m)) (moves c u_IPv4address) @ [u_reg_name]"
  have us: "us \<noteq> []" "remdups us = host_first c" by (simp_all add: us_def host_first_def)
  have c: "c \<notin> set ''/:?#@''" using chars_not(1) [OF assms] by auto
  have host: "moves c (Leave 5 save_host (Enter 4 markh u_host_rx)) = map (\<lambda>u. ([(4, markh)], [], Leave 5 save_host u)) us"
    by (simp add: moves_host_rx [OF assms] us_def)
  then have "concat (map (moves c) [at_host]) = map (\<lambda>u. ([(4, markh)], [], in_host u)) us"
    using c by (simp add: at_host_def after_auth_def host_part_def moves_host_rx(2) [OF assms] moves_port_part moves_path_part moves_tail in_host_def)
  then have "rl_step c [at_host] = (in_order (concat (map (\<lambda>u. [(4, markh)]) us)), remdups (map in_host us))"
    by (subst rl_step_plain) (auto simp: comp_def)
  moreover have "in_order (concat (map (\<lambda>u. [(4, markh)]) us)) = map snd [(4 :: nat, markh)]" by (rule in_order_same) (use us(1) in \<open>auto simp: image_constant_conv\<close>)
  ultimately show "rl_step c [at_host] = ([markh], host_state False (host_first c))"
    by (simp add: remdups_map_inj [OF inj_in_host] us(2))
  let ?ms = "([(2, markh)], [], in_userinfo) # map (\<lambda>u. ([(2, markh), (4, markh)], [], in_host u)) us"
  have "concat (map (moves c) [at_authority]) = ?ms"
    using c host moves_userinfo(1) [OF assms]
    by (simp add: at_authority_def u_authority_def after_auth_def host_part_def moves_host_rx(2) [OF assms] moves_port_part moves_path_part moves_tail
        in_host_def in_userinfo_def opt_def port_part_def)
  then have step: "rl_step c [at_authority] = (in_order (concat (map fst ?ms)), remdups (in_userinfo # map in_host us))"
    by (subst rl_step_plain) (auto simp: comp_def)
  have acts: "in_order (concat (map fst ?ms)) = map snd [(2 :: nat, markh), (4, markh)]" by (rule in_order_same) (use us(1) in \<open>auto simp: image_constant_conv\<close>)
  have threads: "remdups (in_userinfo # map in_host us) = host_state True (host_first c)"
    using remdups_host_state [of True us] us(2) by simp
  from step [unfolded acts threads] show "rl_step c [at_authority] = ([markh, markh], host_state True (host_first c))" by simp
qed

text \<open>The port, the path, the query and the fragment.\<close>

lemma step_port:
  assumes "qs = [] \<or> qs = [in_userinfo]"
  shows "cls_mem c digits \<Longrightarrow> rl_step c (qs @ [at_port]) = ([markh], qs @ [in_port])"
    "cls_mem c digits \<Longrightarrow> rl_step c (qs @ [in_port]) = ([], qs @ [in_port])"
    "rl_step (CHR ''/'') (qs @ [in_port]) = ([save_port, markh], [in_upath])"
proof -
  have digit: "host_char c" "c \<notin> set ''/:?#@''" if "cls_mem c digits" for c using that by (auto simp: host_char_def chars_defs)
  have ne: "in_userinfo \<noteq> in_port" by (simp add: in_userinfo_def in_port_def after_auth_def)
  show "rl_step c (qs @ [at_port]) = ([markh], qs @ [in_port])" if "cls_mem c digits"
    using assms digit [OF that] that ne
    by (auto simp: machine moves_in_userinfo) (simp_all add: at_port_def in_port_def after_auth_def u_port_rx_def moves_path_part moves_tail)
  show "rl_step c (qs @ [in_port]) = ([], qs @ [in_port])" if "cls_mem c digits"
    using assms digit [OF that] that ne
    by (auto simp: machine moves_in_userinfo) (simp_all add: in_port_def after_auth_def u_port_rx_def moves_path_part moves_tail)
  show "rl_step (CHR ''/'') (qs @ [in_port]) = ([save_port, markh], [in_upath])"
    using assms by (auto simp: machine moves_in_userinfo) (simp_all add: in_port_def after_auth_def u_port_rx_def moves_path_part moves_tail digits_def in_upath_def)
qed

lemma moves_segments:
  "path_char c \<Longrightarrow> moves c u_segment = [([], [], u_segment)]" "c \<in> set ''/?#'' \<Longrightarrow> moves c u_segment = []"
  "moves (CHR ''/'') u_segments = [([], [], Seq u_segment u_segments)]" "c \<noteq> CHR ''/'' \<Longrightarrow> moves c u_segments = []" "seq u_segment r = Seq u_segment r"
  by (simp_all add: u_segment_def u_segments_def moves_upchar)

lemma step_upath:
  "path_char c \<or> c = CHR ''/'' \<Longrightarrow> rl_step c [in_upath] = ([], [in_upath])"
  "rl_step (CHR ''?'') [in_upath] = ([save_path], [at_uquery])"
  "rl_step (CHR ''#'') [in_upath] = ([save_path], [at_ufragment])"
  using chars_not(2) [of c] by (auto simp: machine in_upath_def moves_segments moves_tail)

definition uquery_char :: "char \<Rightarrow> bool" where "uquery_char c \<longleftrightarrow> path_char c \<or> c \<in> set ''/?''"

lemma moves_uquery:
  "uquery_char c \<Longrightarrow> moves c u_query_chars = [([], [], u_query_chars)]" "moves (CHR ''#'') u_query_chars = []"
  using chars_not(2) [of c] by (auto simp: u_query_chars_def uquery_char_def moves_upchar)

lemma step_uquery:
  "uquery_char c \<Longrightarrow> rl_step c [at_uquery] = ([marku], [in_uquery])" "uquery_char c \<Longrightarrow> rl_step c [in_uquery] = ([], [in_uquery])"
  "rl_step (CHR ''#'') [in_uquery] = ([save_query], [at_ufragment])"
  "uquery_char c \<Longrightarrow> rl_step c [at_ufragment] = ([marku], [in_ufragment])" "uquery_char c \<Longrightarrow> rl_step c [in_ufragment] = ([], [in_ufragment])"
proof -
  have "uquery_char c \<Longrightarrow> c \<noteq> CHR ''#''" using chars_not(2) [of c] by (auto simp: uquery_char_def)
  then show "uquery_char c \<Longrightarrow> rl_step c [at_uquery] = ([marku], [in_uquery])" "uquery_char c \<Longrightarrow> rl_step c [in_uquery] = ([], [in_uquery])"
    "rl_step (CHR ''#'') [in_uquery] = ([save_query], [at_ufragment])"
    "uquery_char c \<Longrightarrow> rl_step c [at_ufragment] = ([marku], [in_ufragment])" "uquery_char c \<Longrightarrow> rl_step c [in_ufragment] = ([], [in_ufragment])"
    by (simp_all add: machine at_uquery_def in_uquery_def u_query_rx_def at_ufragment_def in_ufragment_def u_fragment_rx_def moves_uquery fragment_part_def opt_def)
qed

text \<open>What runs at the end of the text, and that it may end there.\<close>

lemma eof_states:
  assumes "host_threads us"
  shows "eof_actions (host_state b us) = [save_host, save_path] \<and> rl_final (host_state b us)"
    "eof_actions [in_port] = [save_port, save_path] \<and> eof_actions [in_userinfo, in_port] = [save_port, save_path]"
    "eof_actions [in_upath] = [save_path] \<and> rl_final [in_upath]" "eof_actions [in_uquery] = [save_query] \<and> rl_final [in_uquery]"
    "eof_actions [in_ufragment] = [save_fragment] \<and> rl_final [in_ufragment]"
proof -
  have tame: "leaving u = None \<or> leaving u = Some []" if "u \<in> set us" for u
    using assms that tame_leaving [of "\<lambda>c. \<not> stops c" u] by (auto simp: host_threads_def list_all_iff)
  have host: "leaving (in_host u) = (if leaving u = None then None else Some [(5, save_host), (9, save_path)])" if "u \<in> set us" for u
    using tame [OF that] by (auto simp: in_host_def after_auth_def moves_port_part moves_path_part)
  have final: "leaving (in_host u_reg_name) = Some [(5, save_host), (9, save_path)]" "u_reg_name \<in> set us"
    using assms host [of u_reg_name] moves_reg_name(2) by (auto simp: host_threads_def)
  have "eof_actions (host_state b us) = map snd [(5 :: nat, save_host), (9, save_path)]"
    unfolding eof_actions_def
  proof (rule in_order_same)
    show "set (concat (map (\<lambda>t. case leaving t of None \<Rightarrow> [] | Some xs \<Rightarrow> xs) (host_state b us))) = set [(5, save_host), (9, save_path)]"
      using host final by (auto simp: moves_in_userinfo split: if_splits)
  qed simp_all
  moreover have "rl_final (host_state b us)" using final by (auto simp: rl_final_def list_ex_iff)
  ultimately show "eof_actions (host_state b us) = [save_host, save_path] \<and> rl_final (host_state b us)" by simp
  show "eof_actions [in_port] = [save_port, save_path] \<and> eof_actions [in_userinfo, in_port] = [save_port, save_path]"
    by (simp add: eof_actions_def moves_in_userinfo in_order_def) (simp add: in_port_def after_auth_def moves_path_part)
  show "eof_actions [in_upath] = [save_path] \<and> rl_final [in_upath]" "eof_actions [in_uquery] = [save_query] \<and> rl_final [in_uquery]"
      "eof_actions [in_ufragment] = [save_fragment] \<and> rl_final [in_ufragment]"
    by (simp_all add: eof_actions_def rl_final_def in_order_def in_upath_def in_uquery_def in_ufragment_def)
qed

section \<open>Reading a uri\<close>

abbreviation ugoes :: "uact rx list \<Rightarrow> string \<Rightarrow> uact list list \<Rightarrow> uact rx list \<Rightarrow> bool" where "ugoes \<equiv> goes (\<lambda>_. False)"
abbreviation uscan :: "string \<Rightarrow> nat \<Rightarrow> string \<Rightarrow> uact rx list \<Rightarrow> nat option \<times> uri \<Rightarrow> (nat \<times> uact rx list \<times> nat option \<times> uri) res" where
  "uscan s \<equiv> rl_exec (uri_act s) (\<lambda>_. False)"

lemma uscan_goes:
  assumes "ugoes ts v A ts'" "acts_effect (uri_act s) p A st = Inr st'"
  shows "uscan s p (v @ rest) ts st = uscan s (p + length v) rest ts' st'"
  using rl_exec_goes [OF assms(1), of "uri_act s" p rest st] assms(2) by simp

text \<open>A piece whose first character marks its place.\<close>

lemma uscan_piece:
  assumes "rl_step c ts = (as, ts1)" "ugoes ts1 w (replicate (length w) []) ts2" "ts1 \<noteq> []" "set as \<subseteq> {marku, markh}" "as \<noteq> []"
  shows "uscan s p ((c # w) @ rest) ts (m, u) = uscan s (p + length (c # w)) rest ts2 (Some p, u)"
proof -
  have "foldl (\<lambda>r a. bindR r (uri_act s p a)) (Inr (m, u)) as = Inr (if as = [] then m else Some p, u)" if "set as \<subseteq> {marku, markh}" for as
    using that by (induction as rule: rev_induct) auto
  from this [OF assms(4)] assms(5) have "acts_effect (uri_act s) p (as # replicate (length w) []) (m, u) = Inr (Some p, u)" by simp
  moreover have "ugoes ts (c # w) (as # replicate (length w) []) ts2" using assms(1-3) by (intro goes_piece) (simp_all add: list.pred_True)
  ultimately show ?thesis using uscan_goes by blast
qed

lemma uscan_one:
  assumes "rl_step c ts = (as, ts')" "ts' \<noteq> []" "foldl (\<lambda>r a. bindR r (uri_act s p a)) (Inr st) as = Inr st'"
  shows "uscan s p (c # rest) ts st = uscan s (Suc p) rest ts' st'"
  using uscan_goes [of ts "[c]" "[as]" ts' s p st st' rest] goes_one [OF assms(1,2)] assms(3) by (simp add: list.pred_True)

definition scheme_ok :: "string \<Rightarrow> bool" where
  "scheme_ok w \<longleftrightarrow> (case w of [] \<Rightarrow> False | c # v \<Rightarrow> cls_mem c alpha \<and> list_all scheme_char v)"

lemma uscan_scheme:
  assumes "scheme_ok w" "s = w @ ''://'' @ rest"
  shows "uscan s 0 s [u_main] (None, u) = uscan s (length w + 3) rest [at_authority] (None, u\<lparr>u_scheme := w\<rparr>)"
proof -
  obtain c v where w: "w = c # v" "cls_mem c alpha" "list_all scheme_char v" using assms(1) by (cases w) (auto simp: scheme_ok_def)
  have "ugoes in_scheme v (replicate (length v) []) in_scheme"
    using w(3) step_scheme(2) by (intro goes_loop) (auto simp: list_all_iff in_scheme_def)
  from uscan_piece [OF step_scheme(1) [OF w(2)] this, of s 0 "''://'' @ rest" None u]
  have "uscan s 0 s [u_main] (None, u) = uscan s (length w) (''://'' @ rest) in_scheme (Some 0, u)"
    by (simp add: assms(2) w(1) in_scheme_def)
  also have "\<dots> = uscan s (Suc (length w)) (''//'' @ rest) [at_hier] (None, u\<lparr>u_scheme := w\<rparr>)"
    using uscan_one [OF step_scheme(3), of s "length w" "(Some 0, u)" _ "''//'' @ rest"] by (simp add: marked_def assms(2))
  also have "\<dots> = uscan s (length w + 3) rest [at_authority] (None, u\<lparr>u_scheme := w\<rparr>)"
    using uscan_one [OF step_slashes(1), of s "Suc (length w)" "(None, u\<lparr>u_scheme := w\<rparr>)" _ "''/'' @ rest"]
      uscan_one [OF step_slashes(2), of s "Suc (Suc (length w))" "(None, u\<lparr>u_scheme := w\<rparr>)" _ rest]
    by (simp add: in_slashes_def eval_nat_numeral)
  finally show ?thesis .
qed

text \<open>The authority.\<close>

lemma host_loop:
  assumes "host_threads us" "list_all host_char w"
  obtains us' where "host_threads us'" "ugoes (host_state b us) w (replicate (length w) []) (host_state b us')"
proof -
  have "\<exists>us'. host_threads us' \<and> ugoes (host_state b us) w (replicate (length w) []) (host_state b us')"
    using assms
  proof (induction w arbitrary: us)
    case Nil
    then show ?case by (auto intro: goes.stay)
  next
    case (Cons c w)
    then have next_ok: "host_threads (host_next c us)" using host_next_threads by simp
    then have "host_next c us \<noteq> []" by (auto simp: host_threads_def)
    then have "ugoes (host_state b us) (c # w) ([] # A) ts" if "ugoes (host_state b (host_next c us)) w A ts" for A ts
      using goes.read [OF step_host _ _ that] Cons.prems by simp
    then show ?case using Cons.IH [OF next_ok] Cons.prems(2) by fastforce
  qed
  then show ?thesis using that by blast
qed

lemma uscan_host:
  assumes "w \<noteq> []" "list_all host_char w"
  obtains us where "host_threads us"
    "uscan s p (w @ rest) (if b then [at_authority] else [at_host]) (m, u) = uscan s (p + length w) rest (host_state b us) (Some p, u)"
proof -
  obtain c v where w: "w = c # v" "host_char c" "list_all host_char v" using assms by (cases w) auto
  obtain us where us: "host_threads us" "ugoes (host_state b (host_first c)) v (replicate (length v) []) (host_state b us)"
    using host_loop [OF host_first_threads w(3)] by blast
  have ne: "host_state b (host_first c) \<noteq> []" using host_first_threads [of c] by (auto simp: host_threads_def)
  have "uscan s p ((c # v) @ rest) (if b then [at_authority] else [at_host]) (m, u) = uscan s (p + length (c # v)) rest (host_state b us) (Some p, u)"
    using uscan_piece [OF step_host_first(1) [OF w(2)] _ , of v] uscan_piece [OF step_host_first(2) [OF w(2)], of v] us(2) ne by (cases b) auto
  then show ?thesis using that us(1) w(1) by blast
qed

definition user_text :: "string \<Rightarrow> string" where "user_text ui = ui @ (if ui = [] then [] else ''@'')"

lemma uscan_user_host:
  assumes "list_all host_char ui" "h \<noteq> []" "list_all host_char h" "s = z @ user_text ui @ h @ rest" "u_userinfo u = []"
  obtains b us where "host_threads us"
    "uscan s (length z) (user_text ui @ h @ rest) [at_authority] (None, u) =
       uscan s (length (z @ user_text ui @ h)) rest (host_state b us) (Some (length (z @ user_text ui)), u\<lparr>u_userinfo := ui\<rparr>)"
proof (cases "ui = []")
  case True
  then have "u\<lparr>u_userinfo := ui\<rparr> = u" using assms(5) by (cases u) simp
  then show ?thesis
    using uscan_host [OF assms(2,3), of s "length z" rest True None u] that [of _ True] True by (auto simp: user_text_def)
next
  case False
  obtain us0 where u0: "host_threads us0" "uscan s (length z) (ui @ ''@'' @ h @ rest) [at_authority] (None, u) =
      uscan s (length z + length ui) (''@'' @ h @ rest) (host_state True us0) (Some (length z), u)"
    using uscan_host [OF False assms(1), of s "length z" "''@'' @ h @ rest" True None u] by auto
  have "take (length ui) (drop (length z) s) = ui" using assms(4) by (simp add: user_text_def)
  then have "uscan s (length z + length ui) (''@'' @ h @ rest) (host_state True us0) (Some (length z), u) =
      uscan s (Suc (length z + length ui)) (h @ rest) [at_host] (None, u\<lparr>u_userinfo := ui\<rparr>)"
    using uscan_one [OF step_after_host(3) [OF u0(1)], of s "length z + length ui" "(Some (length z), u)" _ "h @ rest"] by (simp add: marked_def)
  moreover obtain us where "host_threads us" "uscan s (Suc (length z + length ui)) (h @ rest) [at_host] (None, u\<lparr>u_userinfo := ui\<rparr>) =
      uscan s (Suc (length z + length ui) + length h) rest (host_state False us) (Some (Suc (length z + length ui)), u\<lparr>u_userinfo := ui\<rparr>)"
    using uscan_host [OF assms(2,3), of s "Suc (length z + length ui)" rest False None "u\<lparr>u_userinfo := ui\<rparr>"] by auto
  ultimately show ?thesis using u0(2) False by (intro that [of us False]) (simp_all add: user_text_def add.assoc)
qed

lemma atoi_prefix:
  assumes "n < 2 ^ 31" "t = [] \<or> \<not> is_digit (hd t)"
  shows "atoi (cstr (dec n @ t)) = int n"
proof -
  have plain: "takeWhile is_digit (dec n) = dec n" "CHR 0x00 \<notin> set (dec n)"
    using dec_digits [of n] by (auto simp: takeWhile_eq_all_conv list_all_iff is_digit_def)
  have "cstr (dec n @ t) = dec n @ cstr t" using plain(2) by (auto simp: cstr_def takeWhile_append)
  moreover have "takeWhile is_digit (dec n @ cstr t) = dec n"
  proof -
    have "takeWhile is_digit (cstr t) = []" using assms(2) by (cases t) (auto simp: cstr_def)
    then show ?thesis using dec_digits [of n] by (auto simp: takeWhile_append list_all_iff)
  qed
  moreover obtain c v where "dec n = c # v" "is_digit c" using dec_digits [of n] dec_not_Nil [of n] by (cases "dec n") auto
  moreover have "\<not> is_space c" "c \<noteq> CHR ''-''" "c \<noteq> CHR ''+''" if "is_digit c" for c
    using that by (auto simp: is_digit_def is_space_def)
  ultimately have "strtol10 (cstr (dec n @ t)) = min (2 ^ 63 - 1) (int n)"
    using undec_dec [of n] by (simp add: strtol10_def del: undec.simps)
  then show ?thesis using assms(1) by (simp add: atoi_def to_int32_small)
qed

text \<open>The text of the port and the slash behind it.\<close>

definition port_text :: "int \<Rightarrow> string" where "port_text n = (if n = 0 then [] else '':'' @ sdec n)"

lemma uscan_digits:
  assumes "host_threads us" "s = z @ h @ '':'' @ dec n @ rest"
  shows "uscan s (length (z @ h)) ('':'' @ dec n @ rest) (host_state b us) (Some (length z), u) =
    uscan s (Suc (length (z @ h)) + length (dec n)) rest ((if b then [in_userinfo] else []) @ [in_port]) (Some (Suc (length (z @ h))), u\<lparr>u_host := h\<rparr>)"
proof -
  define qs where "qs = (if b then [in_userinfo] else [])"
  have qs: "qs = [] \<or> qs = [in_userinfo]" by (simp add: qs_def)
  let ?p = "Suc (length (z @ h))"
  have "uscan s (length (z @ h)) ('':'' @ dec n @ rest) (host_state b us) (Some (length z), u) =
      uscan s ?p (dec n @ rest) (qs @ [at_port]) (Some (length z), u\<lparr>u_host := h\<rparr>)"
    using uscan_one [OF step_after_host(2) [OF assms(1), of b], of s "length (z @ h)" "(Some (length z), u)" _ "dec n @ rest"] assms(2)
    by (simp add: marked_def qs_def)
  also have "\<dots> = uscan s (?p + length (dec n)) rest (qs @ [in_port]) (Some ?p, u\<lparr>u_host := h\<rparr>)"
  proof -
    obtain c v where d: "dec n = c # v" using dec_not_Nil [of n] by (cases "dec n") auto
    have digit: "cls_mem x digits" if "x \<in> set (dec n)" for x using that dec_digits [of n] by (auto simp: list_all_iff is_digit_def digits_def)
    then have "ugoes (qs @ [in_port]) v (replicate (length v) []) (qs @ [in_port])" using d step_port(2) [OF qs] by (intro goes_loop) auto
    from uscan_piece [OF step_port(1) [OF qs] this, of c] show ?thesis using digit d by simp
  qed
  finally show ?thesis by (simp add: qs_def)
qed

lemma uscan_port:
  assumes "host_threads us" "0 \<le> n" "n < 2 ^ 31" "s = z @ h @ port_text n @ ''/'' @ rest" "u_port u = 0"
  shows "uscan s (length (z @ h)) (port_text n @ ''/'' @ rest) (host_state b us) (Some (length z), u) =
    uscan s (length (z @ h @ port_text n) + 1) rest [in_upath] (Some (length (z @ h @ port_text n)), u\<lparr>u_host := h, u_port := n\<rparr>)"
proof (cases "n = 0")
  case True
  then have "u\<lparr>u_host := h, u_port := n\<rparr> = u\<lparr>u_host := h\<rparr>" using assms(5) by (cases u) simp
  then show ?thesis
    using uscan_one [OF step_after_host(1) [OF assms(1), of b], of s "length (z @ h)" "(Some (length z), u)" _ rest] True assms(4)
    by (simp add: marked_def port_text_def)
next
  case False
  let ?qs = "if b then [in_userinfo] else []"
  have qs: "?qs = [] \<or> ?qs = [in_userinfo]" by simp
  have ptext: "port_text n = '':'' @ dec (nat n)" using False assms(2) by (simp add: port_text_def sdec_def)
  let ?p = "Suc (length (z @ h))"
  have "uscan s (length (z @ h)) ('':'' @ dec (nat n) @ ''/'' @ rest) (host_state b us) (Some (length z), u) =
      uscan s (?p + length (dec (nat n))) (''/'' @ rest) (?qs @ [in_port]) (Some ?p, u\<lparr>u_host := h\<rparr>)"
    using uscan_digits [OF assms(1), of s z h "nat n" "''/'' @ rest"] assms(4) ptext by simp
  also have "\<dots> = uscan s (length (z @ h @ port_text n) + 1) rest [in_upath] (Some (length (z @ h @ port_text n)), u\<lparr>u_host := h, u_port := n\<rparr>)"
  proof -
    have "atoi (cstr (drop ?p s)) = n" using assms(2,3,4) ptext atoi_prefix [of "nat n" "''/'' @ rest"] by (simp add: is_digit_def)
    moreover have "dec (nat n) \<noteq> []" by simp
    ultimately show ?thesis
      using uscan_one [OF step_port(3) [OF qs], of s "?p + length (dec (nat n))" "(Some ?p, u\<lparr>u_host := h\<rparr>)" _ rest] by (simp add: ptext add.assoc)
  qed
  finally show ?thesis by (simp add: ptext)
qed

text \<open>Path, query and fragment, up to the end of the text.\<close>

lemma marked_piece: "s = z @ w @ rest \<Longrightarrow> i = length z \<Longrightarrow> fpc = i + length w \<Longrightarrow> marked s fpc (Some i) = Inr w"
  by (simp add: marked_def)

lemma uri_fragment:
  assumes "f \<noteq> []" "list_all uquery_char f" "s = z @ f"
  shows "bindR (uscan s (length z) f [at_ufragment] (m, u)) (uri_end s) = Inr (Some (u\<lparr>u_fragment := f\<rparr>))"
proof -
  obtain c v where f: "f = c # v" using assms(1) by (cases f) auto
  have "ugoes [in_ufragment] v (replicate (length v) []) [in_ufragment]"
    using assms(2) f step_uquery(5) by (intro goes_loop) (auto simp: list_all_iff)
  from uscan_piece [OF step_uquery(4) this, of c s "length z" "[]" m u] assms(2) f
  have "uscan s (length z) f [at_ufragment] (m, u) = Inr (length z + length f, [in_ufragment], Some (length z), u)" by simp
  then show ?thesis using eof_states(5) [OF host_first_threads] marked_piece [of s z f "[]"] assms(3) by (simp add: uri_end_def)
qed

definition query_text :: "string \<Rightarrow> string" where "query_text q = (if q = [] then [] else ''?'') @ q"
definition fragment_text :: "string \<Rightarrow> string" where "fragment_text f = (if f = [] then [] else ''#'') @ f"

lemma uri_query:
  assumes "q \<noteq> []" "list_all uquery_char q" "list_all uquery_char f" "s = z @ q @ fragment_text f" "u_fragment u = []"
  shows "bindR (uscan s (length z) (q @ fragment_text f) [at_uquery] (m, u)) (uri_end s) = Inr (Some (u\<lparr>u_query := q, u_fragment := f\<rparr>))"
proof -
  obtain c v where q: "q = c # v" using assms(1) by (cases q) auto
  have "ugoes [in_uquery] v (replicate (length v) []) [in_uquery]"
    using assms(2) q step_uquery(2) by (intro goes_loop) (auto simp: list_all_iff)
  from uscan_piece [OF step_uquery(1) this, of c s "length z" "fragment_text f" m u] assms(2) q
  have scan: "uscan s (length z) (q @ fragment_text f) [at_uquery] (m, u) = uscan s (length z + length q) (fragment_text f) [in_uquery] (Some (length z), u)"
    by simp
  note piece = marked_piece [OF assms(4) refl refl]
  show ?thesis
  proof (cases "f = []")
    case True
    then have "u\<lparr>u_query := q, u_fragment := f\<rparr> = u\<lparr>u_query := q\<rparr>" using assms(5) by (cases u) simp
    then show ?thesis using True scan piece eof_states(4) [OF host_first_threads] by (simp add: uri_end_def fragment_text_def)
  next
    case False
    have "uscan s (length z + length q) (fragment_text f) [in_uquery] (Some (length z), u) = uscan s (length (z @ q @ ''#'')) f [at_ufragment] (None, u\<lparr>u_query := q\<rparr>)"
      using uscan_one [OF step_uquery(3), of s "length z + length q" "(Some (length z), u)" _ f] piece False by (simp add: fragment_text_def)
    then show ?thesis using scan uri_fragment [OF False assms(3), of s "z @ q @ ''#''" None "u\<lparr>u_query := q\<rparr>"] assms(4) False by (simp add: fragment_text_def)
  qed
qed

definition upath_ok :: "string \<Rightarrow> bool" where
  "upath_ok v \<longleftrightarrow> v \<noteq> [] \<and> hd v = CHR ''/'' \<and> list_all (\<lambda>c. path_char c \<or> c = CHR ''/'') v"

lemma uri_path:
  assumes "list_all (\<lambda>c. path_char c \<or> c = CHR ''/'') v" "list_all uquery_char q" "list_all uquery_char f"
    "s = z @ (CHR ''/'' # v) @ query_text q @ fragment_text f" "u_query u = []" "u_fragment u = []"
  shows "bindR (uscan s (length z + 1) (v @ query_text q @ fragment_text f) [in_upath] (Some (length z), u)) (uri_end s) =
    Inr (Some (u\<lparr>u_path := CHR ''/'' # v, u_query := q, u_fragment := f\<rparr>))"
proof -
  have "ugoes [in_upath] v (replicate (length v) []) [in_upath]"
    using assms(1) step_upath(1) by (intro goes_loop) (auto simp: list_all_iff)
  moreover have "acts_effect (uri_act s) (length z + 1) (replicate (length v) []) (Some (length z), u) = Inr (Some (length z), u)"
    for v :: string by (induction v arbitrary: z) auto
  ultimately have scan: "uscan s (length z + 1) (v @ query_text q @ fragment_text f) [in_upath] (Some (length z), u) =
      uscan s (length z + length (CHR ''/'' # v)) (query_text q @ fragment_text f) [in_upath] (Some (length z), u)"
    using uscan_goes by fastforce
  let ?u = "u\<lparr>u_path := CHR ''/'' # v\<rparr>"
  note piece = marked_piece [OF assms(4) refl refl]
  have one: "uscan s (length z + length (CHR ''/'' # v)) (c # r) [in_upath] (Some (length z), u) = uscan s (length (z @ (CHR ''/'' # v) @ [c])) r [t] (None, ?u)"
    if "rl_step c [in_upath] = ([save_path], [t])" for c r t
    using uscan_one [OF that, of s "length z + length (CHR ''/'' # v)" "(Some (length z), u)" _ r] piece by simp
  show ?thesis
  proof (cases "q = []")
    case False
    then show ?thesis using scan one [OF step_upath(2)] uri_query [OF False assms(2,3), of s "z @ (CHR ''/'' # v) @ ''?''" ?u None] assms(4,6)
      by (simp add: query_text_def)
  next
    case True
    then have q: "w\<lparr>u_path := y, u_query := q, u_fragment := f\<rparr> = w\<lparr>u_path := y, u_fragment := f\<rparr>" if "u_query w = []" for w y using that by (cases w) simp
    show ?thesis
    proof (cases "f = []")
      case False
      then show ?thesis using scan one [OF step_upath(3)] uri_fragment [OF False assms(3), of s "z @ (CHR ''/'' # v) @ ''#''" None ?u] assms(4,5) True q
        by (simp add: query_text_def fragment_text_def)
    next
      case no_fragment: True
      then have "?u\<lparr>u_query := q, u_fragment := f\<rparr> = ?u" using assms(5,6) True by (cases u) simp
      then show ?thesis using scan piece True no_fragment eof_states(3) [OF host_first_threads] by (simp add: uri_end_def query_text_def fragment_text_def)
    qed
  qed
qed

text \<open>From the beginning of the text to the end of the host.\<close>

lemma uscan_start:
  assumes "scheme_ok w" "list_all host_char ui" "h \<noteq> []" "list_all host_char h" "s = w @ ''://'' @ user_text ui @ h @ rest"
  obtains b us where "host_threads us"
    "uscan s 0 s [u_main] (None, newUri) = uscan s (length (w @ ''://'' @ user_text ui @ h)) rest (host_state b us)
       (Some (length (w @ ''://'' @ user_text ui)), newUri\<lparr>u_scheme := w, u_userinfo := ui\<rparr>)"
proof -
  have s: "s = (w @ ''://'') @ user_text ui @ h @ rest" using assms(5) by simp
  obtain b us where us: "host_threads us" "uscan s (length (w @ ''://'')) (user_text ui @ h @ rest) [at_authority] (None, newUri\<lparr>u_scheme := w\<rparr>) =
       uscan s (length ((w @ ''://'') @ user_text ui @ h)) rest (host_state b us)
         (Some (length ((w @ ''://'') @ user_text ui)), newUri\<lparr>u_scheme := w, u_userinfo := ui\<rparr>)"
    by (rule uscan_user_host [OF assms(2-4) s, of "newUri\<lparr>u_scheme := w\<rparr>"]) (simp add: newUri_def, rule that)
  have "length (w @ ''://'') = length w + 3" by simp
  then show ?thesis using that [OF us(1), of b] us(2) uscan_scheme [OF assms(1,5), of newUri] by (simp only: append.assoc)
qed

section \<open>Properties\<close>

definition uri_ok :: "uri \<Rightarrow> bool" where
  "uri_ok u \<longleftrightarrow> scheme_ok (u_scheme u) \<and> list_all host_char (u_userinfo u) \<and> u_host u \<noteq> [] \<and> list_all host_char (u_host u) \<and>
     0 \<le> u_port u \<and> u_port u < 2 ^ 31 \<and> (u_path u = [] \<or> upath_ok (u_path u)) \<and> list_all uquery_char (u_query u) \<and> list_all uquery_char (u_fragment u)"

text \<open>
  C32. Printing a uri made of plain characters and reading the text back gives the uri: scheme, user, host, path, query and fragment
  are the same, an empty path having become the slash that is printed for it, and the port is the one that was printed, so that both
  name the same port.  Plain means: a scheme of the grammar; user information without a colon and a host that is not empty, both of
  unreserved characters and sub-delimiters; a port from 0 below \<open>2 ^ 31\<close>; a path that is empty or begins with a slash; path, query and
  fragment of the characters the grammar allows there.  Percent-encoded characters and IP literals in brackets are left out.
\<close>

theorem uri_roundtrip:
  assumes "uri_ok u"
  shows "Uri_Create (Uri_ToString u) = Inr (Some (u\<lparr>u_path := Uri_GetPath u, u_port := if IsDefaultPort u then 0 else u_port u\<rparr>))"
proof -
  let ?n = "if IsDefaultPort u then 0 else u_port u"
  let ?z = "u_scheme u @ ''://'' @ user_text (u_userinfo u)"
  have "upath_ok (Uri_GetPath u)" using assms by (auto simp: uri_ok_def Uri_GetPath_def upath_ok_def)
  then obtain v where path: "Uri_GetPath u = CHR ''/'' # v" "list_all (\<lambda>c. path_char c \<or> c = CHR ''/'') v"
    by (cases "Uri_GetPath u") (auto simp: upath_ok_def)
  define s where "s = Uri_ToString u"
  have port: "0 \<le> ?n" "?n < 2 ^ 31" using assms by (simp_all add: uri_ok_def)
  have "u_port u \<noteq> 0" if "\<not> IsDefaultPort u" using that by (auto simp: IsDefaultPort_def)
  then have s: "s = u_scheme u @ ''://'' @ user_text (u_userinfo u) @ u_host u @ port_text ?n @ ''/'' @ v @ query_text (u_query u) @ fragment_text (u_fragment u)"
    by (simp add: s_def Uri_ToString_def Dump_uri_def user_text_def port_text_def query_text_def fragment_text_def path(1))
  have ok: "scheme_ok (u_scheme u)" "list_all host_char (u_userinfo u)" "u_host u \<noteq> []" "list_all host_char (u_host u)"
    "list_all uquery_char (u_query u)" "list_all uquery_char (u_fragment u)" using assms by (simp_all add: uri_ok_def)
  obtain b us where us: "host_threads us" "uscan s 0 s [u_main] (None, newUri) =
      uscan s (length (u_scheme u @ ''://'' @ user_text (u_userinfo u) @ u_host u)) (port_text ?n @ ''/'' @ v @ query_text (u_query u) @ fragment_text (u_fragment u))
        (host_state b us) (Some (length ?z), newUri\<lparr>u_scheme := u_scheme u, u_userinfo := u_userinfo u\<rparr>)"
    by (rule uscan_start [OF ok(1-4) s]) (rule that)
  let ?u = "newUri\<lparr>u_scheme := u_scheme u, u_userinfo := u_userinfo u, u_host := u_host u, u_port := ?n\<rparr>"
  have "uscan s 0 s [u_main] (None, newUri) = uscan s (length (?z @ u_host u @ port_text ?n) + 1) (v @ query_text (u_query u) @ fragment_text (u_fragment u)) [in_upath]
      (Some (length (?z @ u_host u @ port_text ?n)), ?u)"
    using us(2) uscan_port [OF us(1) port, of s ?z "u_host u" "v @ query_text (u_query u) @ fragment_text (u_fragment u)"
        "newUri\<lparr>u_scheme := u_scheme u, u_userinfo := u_userinfo u\<rparr>" b] s by (simp add: newUri_def)
  moreover have "bindR (uscan s (length (?z @ u_host u @ port_text ?n) + 1) (v @ query_text (u_query u) @ fragment_text (u_fragment u)) [in_upath]
      (Some (length (?z @ u_host u @ port_text ?n)), ?u)) (uri_end s) =
      Inr (Some (?u\<lparr>u_path := CHR ''/'' # v, u_query := u_query u, u_fragment := u_fragment u\<rparr>))"
    by (rule uri_path [OF path(2) ok(5,6)]) (use s in \<open>simp_all add: newUri_def\<close>)
  moreover have "?u\<lparr>u_path := CHR ''/'' # v, u_query := u_query u, u_fragment := u_fragment u\<rparr> = u\<lparr>u_path := Uri_GetPath u, u_port := ?n\<rparr>"
    unfolding path(1) by (cases u) (simp add: newUri_def)
  ultimately show ?thesis unfolding s_def [symmetric] Uri_Create_def by simp
qed

definition demo_text_uri :: uri where
  "demo_text_uri = newUri\<lparr>u_scheme := ''http'', u_userinfo := ''me'', u_host := ''127.0.0.1'', u_port := 8020, u_query := ''a=1''\<rparr>"

theorem uri_roundtrip_witness: "Uri_Create ''http://me@127.0.0.1:8020/?a=1'' = Inr (Some (demo_text_uri\<lparr>u_path := ''/''\<rparr>))"
proof -
  have "uri_ok demo_text_uri"
    by (simp add: uri_ok_def demo_text_uri_def newUri_def scheme_ok_def scheme_char_def host_char_def uquery_char_def path_char_def chars_defs)
  moreover have "Uri_ToString demo_text_uri = ''http://me@127.0.0.1:8020/?a=1''"
    by (simp add: demo_text_uri_def newUri_def Uri_ToString_def Dump_uri_def IsDefaultPort_def Uri_GetPath_def sdec_def dec.simps digit_def char_of_def bit_0)
  moreover have "\<not> IsDefaultPort demo_text_uri" "Uri_GetPath demo_text_uri = ''/''" by (simp_all add: demo_text_uri_def newUri_def IsDefaultPort_def Uri_GetPath_def)
  ultimately show ?thesis using uri_roundtrip [of demo_text_uri] by (simp add: demo_text_uri_def)
qed

text \<open>
  C33. A uri that ends with its authority is misread: without a port the path becomes the text of the host, and with a port the
  constructor of the path gets a null pointer and throws.
\<close>

theorem uri_without_path:
  assumes "scheme_ok w" "list_all host_char ui" "h \<noteq> []" "list_all host_char h"
  shows "Uri_Create (w @ ''://'' @ user_text ui @ h) = Inr (Some (newUri\<lparr>u_scheme := w, u_userinfo := ui, u_host := h, u_path := h\<rparr>)) \<and>
    Uri_Create (w @ ''://'' @ user_text ui @ h @ '':'' @ dec n) = Inl LogicError"
proof
  let ?z = "w @ ''://'' @ user_text ui"
  let ?u = "newUri\<lparr>u_scheme := w, u_userinfo := ui\<rparr>"
  let ?s = "?z @ h"
  have s: "?s = w @ ''://'' @ user_text ui @ h @ []" by simp
  obtain b us where us: "host_threads us"
    "uscan ?s 0 ?s [u_main] (None, newUri) = uscan ?s (length (w @ ''://'' @ user_text ui @ h)) [] (host_state b us) (Some (length ?z), ?u)"
    by (rule uscan_start [OF assms s]) (rule that)
  have "host_state b us \<noteq> []" using us(1) by (auto simp: host_threads_def)
  moreover have "marked ?s (length ?s) (Some (length ?z)) = Inr h" by (rule marked_piece [of _ ?z h "[]"]) simp_all
  ultimately have "Uri_Create ?s = Inr (Some (newUri\<lparr>u_scheme := w, u_userinfo := ui, u_host := h, u_path := h\<rparr>))"
    using us(2) eof_states(1) [OF us(1), of b] by (simp add: Uri_Create_def uri_end_def)
  then show "Uri_Create (w @ ''://'' @ user_text ui @ h) = Inr (Some (newUri\<lparr>u_scheme := w, u_userinfo := ui, u_host := h, u_path := h\<rparr>))" by simp
next
  let ?z = "w @ ''://'' @ user_text ui"
  let ?u = "newUri\<lparr>u_scheme := w, u_userinfo := ui\<rparr>"
  let ?t = "w @ ''://'' @ user_text ui @ h @ '':'' @ dec n"
  obtain b us where us: "host_threads us"
    "uscan ?t 0 ?t [u_main] (None, newUri) = uscan ?t (length (w @ ''://'' @ user_text ui @ h)) ('':'' @ dec n) (host_state b us) (Some (length ?z), ?u)"
    by (rule uscan_start [OF assms refl]) (rule that)
  have "uscan ?t (length (?z @ h)) ('':'' @ dec n @ []) (host_state b us) (Some (length ?z), ?u) =
      uscan ?t (Suc (length (?z @ h)) + length (dec n)) [] ((if b then [in_userinfo] else []) @ [in_port]) (Some (Suc (length (?z @ h))), ?u\<lparr>u_host := h\<rparr>)"
    by (rule uscan_digits [OF us(1)]) simp
  with us(2) have "uscan ?t 0 ?t [u_main] (None, newUri) =
      Inr (Suc (length (?z @ h)) + length (dec n), (if b then [in_userinfo] else []) @ [in_port], Some (Suc (length (?z @ h))), ?u\<lparr>u_host := h\<rparr>)"
    by simp
  then show "Uri_Create ?t = Inl LogicError"
    using eof_states(2) [OF us(1)] by (cases b) (simp_all add: Uri_Create_def uri_end_def marked_def)
qed

theorem uri_without_path_witness:
  "Uri_Create ''http://www.example.org'' = Inr (Some (newUri\<lparr>u_scheme := ''http'', u_host := ''www.example.org'', u_path := ''www.example.org''\<rparr>)) \<and>
   Uri_Create ''http://www.example.org:80'' = Inl LogicError"
proof -
  have "dec 80 = ''80''" by (simp add: dec.simps digit_def char_of_def bit_0)
  moreover have "scheme_ok ''http''" "list_all host_char ''www.example.org''"
    by (simp_all add: scheme_ok_def scheme_char_def host_char_def chars_defs)
  ultimately show ?thesis
    using uri_without_path [of "''http''" "[]" "''www.example.org''" 80] by (simp add: user_text_def newUri_def)
qed

end
