(* ===== verification/Lexical_Cast.thy ===== *)
theory Lexical_Cast
  imports Std_Ordered Text "HOL-Library.List_Lexorder" "HOL-Library.Char_ord"
begin

text \<open>
  The conversions between configuration values and their texts (\<open>LexicalCast\<close> in \<open>gudov/config.h\<close>).
  A template instance is a type description: a base type converted by \<open>boost::lexical_cast\<close>, or a
  container of one.  yaml-cpp and boost are arguments, collected in \<open>lexenv\<close>; \<open>yaml\<close> is the tree
  yaml-cpp's nodes expose.  \<open>None\<close> is an exception.

  The lemmas show that a readable value comes back from its text for every type without unordered containers,
  as long as vectors have at most one element, and what the cast to a vector reads otherwise.
\<close>

section \<open>Nodes\<close>

datatype yaml = YNull | YScalar string | YSeq "yaml list" | YMap "(yaml \<times> yaml) list"

text \<open>\<open>Scalar()\<close> is empty on a node that is no scalar.\<close>

definition Scalar :: "yaml \<Rightarrow> string" where
  "Scalar n = (case n of YScalar s \<Rightarrow> s | _ \<Rightarrow> [])"

definition push_back :: "yaml \<Rightarrow> yaml \<Rightarrow> yaml" where
  "push_back n x = (case n of YSeq xs \<Rightarrow> YSeq (xs @ [x]) | _ \<Rightarrow> YSeq [x])"

fun set_entry :: "string \<Rightarrow> yaml \<Rightarrow> (yaml \<times> yaml) list \<Rightarrow> (yaml \<times> yaml) list" where
  "set_entry k x [] = [(YScalar k, x)]"
| "set_entry k x ((k', y) # m) = (if k' = YScalar k then (k', x) # m else (k', y) # set_entry k x m)"

definition set_key :: "string \<Rightarrow> yaml \<Rightarrow> yaml \<Rightarrow> yaml" where
  "set_key k x n = (case n of YMap m \<Rightarrow> YMap (set_entry k x m) | _ \<Rightarrow> YMap [(YScalar k, x)])"

section \<open>Types and values\<close>

datatype 'bt ctype =
    TBase 'bt
  | TVector "'bt ctype"
  | TList "'bt ctype"
  | TSet "'bt ctype"
  | TUSet "'bt ctype"
  | TMap "'bt ctype"
  | TUMap "'bt ctype"

text \<open>The elements of a container are listed in the order of its iterators.\<close>

datatype 'b cval = CBase 'b | CSeq "'b cval list" | CDict "(string \<times> 'b cval) list"

text \<open>
  \<open>y_index\<close> is what indexing a map node by a number gives; \<open>less_val\<close> is \<open>operator<\<close> of the elements of
  a set; \<open>uinsert\<close> and \<open>uminsert\<close> insert into the unordered containers.
\<close>

record ('bt, 'b) lexenv =
  y_load :: "string \<Rightarrow> yaml option"
  y_emit :: "yaml \<Rightarrow> string"
  y_index :: "(yaml \<times> yaml) list \<Rightarrow> nat \<Rightarrow> yaml option"
  lex :: "'bt \<Rightarrow> string \<Rightarrow> 'b option"
  unlex :: "'bt \<Rightarrow> 'b \<Rightarrow> string option"
  less_val :: "'b cval \<Rightarrow> 'b cval \<Rightarrow> bool"
  uinsert :: "'b cval \<Rightarrow> 'b cval list \<Rightarrow> 'b cval list"
  uminsert :: "string \<Rightarrow> 'b cval \<Rightarrow> (string \<times> 'b cval) list \<Rightarrow> (string \<times> 'b cval) list"

section \<open>From text\<close>

text \<open>The nodes that the loop over \<open>node.size()\<close> and \<open>node[i]\<close> visits.\<close>

definition elements :: "('bt, 'b, 'z) lexenv_scheme \<Rightarrow> yaml \<Rightarrow> yaml list option" where
  "elements E n = (case n of
     YSeq xs \<Rightarrow> Some xs
   | YMap m \<Rightarrow> those (map (y_index E m) [0..<length m])
   | _ \<Rightarrow> Some [])"

text \<open>
  In the cast to a vector the stream is never emptied (\<open>ss.str()\<close> only reads it): the text of an
  element is appended to those before it.
\<close>

fun vector_loop ::
  "('bt, 'b, 'z) lexenv_scheme \<Rightarrow> (string \<Rightarrow> 'b cval option) \<Rightarrow> string \<Rightarrow> yaml list \<Rightarrow> 'b cval list \<Rightarrow> 'b cval list option" where
  "vector_loop E cast ss [] vec = Some vec"
| "vector_loop E cast ss (n # ns) vec =
     (let ss' = ss @ y_emit E n in
      Option.bind (cast ss') (\<lambda>v. vector_loop E cast ss' ns (vec @ [v])))"

fun insert_loop ::
  "('bt, 'b, 'z) lexenv_scheme \<Rightarrow> (string \<Rightarrow> 'b cval option) \<Rightarrow> ('b cval \<Rightarrow> 'b cval list \<Rightarrow> 'b cval list) \<Rightarrow>
     yaml list \<Rightarrow> 'b cval list \<Rightarrow> 'b cval list option" where
  "insert_loop E cast ins [] vec = Some vec"
| "insert_loop E cast ins (n # ns) vec =
     Option.bind (cast (y_emit E n)) (\<lambda>v. insert_loop E cast ins ns (ins v vec))"

fun pair_loop ::
  "('bt, 'b, 'z) lexenv_scheme \<Rightarrow> (string \<Rightarrow> 'b cval option) \<Rightarrow>
     (string \<Rightarrow> 'b cval \<Rightarrow> (string \<times> 'b cval) list \<Rightarrow> (string \<times> 'b cval) list) \<Rightarrow>
     (yaml \<times> yaml) list \<Rightarrow> (string \<times> 'b cval) list \<Rightarrow> (string \<times> 'b cval) list option" where
  "pair_loop E cast ins [] vec = Some vec"
| "pair_loop E cast ins ((k, n) # m) vec =
     Option.bind (cast (y_emit E n)) (\<lambda>v. pair_loop E cast ins m (ins (Scalar k) v vec))"

text \<open>
  Iterating a sequence gives values without a key, and reading the key of one throws; other nodes
  have no entries.
\<close>

definition entries :: "yaml \<Rightarrow> (yaml \<times> yaml) list option" where
  "entries n = (case n of YMap m \<Rightarrow> Some m | YSeq xs \<Rightarrow> if xs = [] then Some [] else None | _ \<Rightarrow> Some [])"

primrec from_str :: "('bt, 'b, 'z) lexenv_scheme \<Rightarrow> 'bt ctype \<Rightarrow> string \<Rightarrow> 'b cval option" where
  "from_str E (TBase t) s = map_option CBase (lex E t s)"
| "from_str E (TVector t) s =
     Option.bind (y_load E s) (\<lambda>node. Option.bind (elements E node) (\<lambda>ns.
       map_option CSeq (vector_loop E (from_str E t) [] ns [])))"
| "from_str E (TList t) s =
     Option.bind (y_load E s) (\<lambda>node. Option.bind (elements E node) (\<lambda>ns.
       map_option CSeq (insert_loop E (from_str E t) (\<lambda>v vec. vec @ [v]) ns [])))"
| "from_str E (TSet t) s =
     Option.bind (y_load E s) (\<lambda>node. Option.bind (elements E node) (\<lambda>ns.
       map_option CSeq (insert_loop E (from_str E t) (set_insert (less_val E)) ns [])))"
| "from_str E (TUSet t) s =
     Option.bind (y_load E s) (\<lambda>node. Option.bind (elements E node) (\<lambda>ns.
       map_option CSeq (insert_loop E (from_str E t) (uinsert E) ns [])))"
| "from_str E (TMap t) s =
     Option.bind (y_load E s) (\<lambda>node. Option.bind (entries node) (\<lambda>m.
       map_option CDict (pair_loop E (from_str E t) (map_insert (<)) m [])))"
| "from_str E (TUMap t) s =
     Option.bind (y_load E s) (\<lambda>node. Option.bind (entries node) (\<lambda>m.
       map_option CDict (pair_loop E (from_str E t) (uminsert E) m [])))"

section \<open>To text\<close>

fun push_loop :: "('bt, 'b, 'z) lexenv_scheme \<Rightarrow> ('b cval \<Rightarrow> string option) \<Rightarrow> 'b cval list \<Rightarrow> yaml \<Rightarrow> yaml option" where
  "push_loop E cast [] node = Some node"
| "push_loop E cast (v # vs) node =
     Option.bind (cast v) (\<lambda>s. Option.bind (y_load E s) (\<lambda>n. push_loop E cast vs (push_back node n)))"

fun key_loop ::
  "('bt, 'b, 'z) lexenv_scheme \<Rightarrow> ('b cval \<Rightarrow> string option) \<Rightarrow> (string \<times> 'b cval) list \<Rightarrow> yaml \<Rightarrow> yaml option" where
  "key_loop E cast [] node = Some node"
| "key_loop E cast ((k, v) # m) node =
     Option.bind (cast v) (\<lambda>s. Option.bind (y_load E s) (\<lambda>n. key_loop E cast m (set_key k n node)))"

text \<open>A value that is not of the type has no text; the type system rules it out.\<close>

definition seq_text :: "('bt, 'b, 'z) lexenv_scheme \<Rightarrow> ('b cval \<Rightarrow> string option) \<Rightarrow> 'b cval \<Rightarrow> string option" where
  "seq_text E cast v =
     (case v of CSeq vs \<Rightarrow> map_option (y_emit E) (push_loop E cast vs YNull) | _ \<Rightarrow> None)"

definition dict_text :: "('bt, 'b, 'z) lexenv_scheme \<Rightarrow> ('b cval \<Rightarrow> string option) \<Rightarrow> 'b cval \<Rightarrow> string option" where
  "dict_text E cast v =
     (case v of CDict m \<Rightarrow> map_option (y_emit E) (key_loop E cast m YNull) | _ \<Rightarrow> None)"

primrec to_str :: "('bt, 'b, 'z) lexenv_scheme \<Rightarrow> 'bt ctype \<Rightarrow> 'b cval \<Rightarrow> string option" where
  "to_str E (TBase t) v = (case v of CBase b \<Rightarrow> unlex E t b | _ \<Rightarrow> None)"
| "to_str E (TVector t) v = seq_text E (to_str E t) v"
| "to_str E (TList t) v = seq_text E (to_str E t) v"
| "to_str E (TSet t) v = seq_text E (to_str E t) v"
| "to_str E (TUSet t) v = seq_text E (to_str E t) v"
| "to_str E (TMap t) v = dict_text E (to_str E t) v"
| "to_str E (TUMap t) v = dict_text E (to_str E t) v"

section \<open>Reading texts back\<close>

text \<open>
  What reading a value back relies on: yaml-cpp reads what it wrote for the nodes that occur, the text
  of a base value is read back also after a pass through yaml-cpp; sets and maps are in their order;
  vectors have at most one element.
\<close>

definition reloads :: "('bt, 'b, 'z) lexenv_scheme \<Rightarrow> yaml option \<Rightarrow> bool" where
  "reloads E n = (case n of None \<Rightarrow> False | Some x \<Rightarrow> y_load E (y_emit E x) = Some x)"

definition seq_reloads :: "('bt, 'b, 'z) lexenv_scheme \<Rightarrow> 'bt ctype \<Rightarrow> 'b cval list \<Rightarrow> bool" where
  "seq_reloads E t vs = reloads E (push_loop E (to_str E t) vs YNull)"

primrec readable :: "('bt, 'b, 'z) lexenv_scheme \<Rightarrow> 'bt ctype \<Rightarrow> 'b cval \<Rightarrow> bool" where
  "readable E (TBase t) v =
     (case v of
        CBase b \<Rightarrow>
          (case unlex E t b of
             None \<Rightarrow> False
           | Some s \<Rightarrow> lex E t s = Some b \<and>
               (case y_load E s of None \<Rightarrow> False | Some n \<Rightarrow> lex E t (y_emit E n) = Some b))
      | _ \<Rightarrow> False)"
| "readable E (TVector t) v =
     (case v of CSeq vs \<Rightarrow> length vs \<le> 1 \<and> list_all (readable E t) vs \<and> seq_reloads E t vs | _ \<Rightarrow> False)"
| "readable E (TList t) v =
     (case v of CSeq vs \<Rightarrow> list_all (readable E t) vs \<and> seq_reloads E t vs | _ \<Rightarrow> False)"
| "readable E (TSet t) v =
     (case v of CSeq vs \<Rightarrow> sorted_wrt (less_val E) vs \<and> list_all (readable E t) vs \<and> seq_reloads E t vs | _ \<Rightarrow> False)"
| "readable E (TUSet t) v = False"
| "readable E (TMap t) v =
     (case v of CDict m \<Rightarrow> sorted_wrt (<) (map fst m) \<and> list_all (\<lambda>kv. readable E t (snd kv)) m \<and>
        reloads E (key_loop E (to_str E t) m YNull) | _ \<Rightarrow> False)"
| "readable E (TUMap t) v = False"

section \<open>Lemmas\<close>

text \<open>A cast through the text and node of a value, as the containers make it for their elements.\<close>

definition passes ::
  "('bt, 'b, 'z) lexenv_scheme \<Rightarrow> ('b cval \<Rightarrow> string option) \<Rightarrow> (string \<Rightarrow> 'b cval option) \<Rightarrow> ('b cval \<Rightarrow> yaml) \<Rightarrow> 'b cval \<Rightarrow> bool" where
  "passes E to from nd v \<longleftrightarrow>
     (\<exists>s. to v = Some s \<and> y_load E s = Some (nd v)) \<and> from (y_emit E (nd v)) = Some v"

lemma push_loop_nodes:
  assumes "\<And>v. v \<in> set vs \<Longrightarrow> passes E to from nd v"
  shows "push_loop E to vs YNull = Some (if vs = [] then YNull else YSeq (map nd vs))"
proof -
  have "push_loop E to vs (YSeq xs) = Some (YSeq (xs @ map nd vs))" if "\<And>v. v \<in> set vs \<Longrightarrow> passes E to from nd v" for vs xs
    using that
  proof (induction vs arbitrary: xs)
    case (Cons v vs)
    obtain s where "to v = Some s" "y_load E s = Some (nd v)" using Cons.prems [of v] by (auto simp: passes_def)
    then show ?case using Cons by (simp add: push_back_def)
  qed simp
  note run = this
  show ?thesis
  proof (cases vs)
    case (Cons v ws)
    obtain s where "to v = Some s" "y_load E s = Some (nd v)" using assms [of v] Cons by (auto simp: passes_def)
    then show ?thesis using run [of ws "[nd v]"] assms Cons by (simp add: push_back_def)
  qed simp
qed

lemma insert_loop_nodes:
  assumes "\<And>v. v \<in> set vs \<Longrightarrow> passes E to from nd v"
    and "\<And>xs v ys. vs = xs @ v # ys \<Longrightarrow> ins v xs = xs @ [v]"
  shows "insert_loop E from ins (map nd vs) [] = Some vs"
proof -
  have "insert_loop E from ins (map nd ys) xs = Some (xs @ ys)" if "vs = xs @ ys" for xs ys
    using that
  proof (induction ys arbitrary: xs)
    case (Cons v ys)
    have "from (y_emit E (nd v)) = Some v" "ins v xs = xs @ [v]"
      using assms Cons.prems by (auto simp: passes_def)
    then show ?case using Cons by simp
  qed simp
  then show ?thesis by simp
qed

lemma vector_loop_nodes:
  "length vs \<le> 1 \<Longrightarrow> (\<And>v. v \<in> set vs \<Longrightarrow> passes E to from nd v) \<Longrightarrow>
     vector_loop E from [] (map nd vs) [] = Some vs"
  by (cases vs) (auto simp: passes_def)

lemma set_entry_last: "YScalar k \<notin> fst ` set m \<Longrightarrow> set_entry k x m = m @ [(YScalar k, x)]"
  by (induction k x m rule: set_entry.induct) auto

lemma elements_nodes: "elements E (if vs = [] then YNull else YSeq (map nd vs)) = Some (map nd vs)"
  by (simp add: elements_def)

lemma key_loop_nodes:
  assumes "\<And>kv. kv \<in> set m \<Longrightarrow> passes E to from nd (snd kv)" "distinct (map fst m)"
  shows "key_loop E to m YNull = Some (if m = [] then YNull else YMap (map (\<lambda>(k, v). (YScalar k, nd v)) m))"
proof -
  have "key_loop E to ys (YMap (map (\<lambda>(k, v). (YScalar k, nd v)) xs)) = Some (YMap (map (\<lambda>(k, v). (YScalar k, nd v)) m))"
    if "m = xs @ ys" for xs ys
    using that
  proof (induction ys arbitrary: xs)
    case (Cons kv ys)
    obtain k v where kv: "kv = (k, v)" by (cases kv)
    obtain s where "to v = Some s" "y_load E s = Some (nd v)" using assms(1) [of kv] Cons.prems by (auto simp: passes_def kv)
    moreover have "YScalar k \<notin> fst ` set (map (\<lambda>(k, v). (YScalar k, nd v)) xs)" using assms(2) Cons.prems by (force simp: kv)
    ultimately show ?case using Cons.IH [of "xs @ [kv]"] Cons.prems by (simp add: kv set_key_def set_entry_last)
  qed simp
  note run = this
  show ?thesis
  proof (cases m)
    case (Cons kv ys)
    obtain k v where kv: "kv = (k, v)" by (cases kv)
    obtain s where "to v = Some s" "y_load E s = Some (nd v)" using assms(1) [of kv] Cons by (auto simp: passes_def kv)
    then show ?thesis using run [of "[kv]" ys] Cons by (simp add: kv set_key_def)
  qed simp
qed

lemma pair_loop_nodes:
  assumes "\<And>kv. kv \<in> set m \<Longrightarrow> passes E to from nd (snd kv)" "sorted_wrt (<) (map fst m)"
  shows "pair_loop E from (map_insert (<)) (map (\<lambda>(k, v). (YScalar k, nd v)) m) [] = Some m"
proof -
  have "pair_loop E from (map_insert (<)) (map (\<lambda>(k, v). (YScalar k, nd v)) ys) xs = Some m" if "m = xs @ ys" for xs ys
    using that
  proof (induction ys arbitrary: xs)
    case (Cons kv ys)
    obtain k v where kv: "kv = (k, v)" by (cases kv)
    have "from (y_emit E (nd v)) = Some v" using assms(1) [of kv] Cons.prems by (auto simp: passes_def kv)
    moreover have "map_insert (<) k v xs = xs @ [(k, v)]"
      using assms(2) Cons.prems by (intro map_insert_last) (auto simp: kv sorted_wrt_append)
    ultimately show ?case using Cons.IH [of "xs @ [kv]"] Cons.prems by (simp add: kv Scalar_def)
  qed simp
  then show ?thesis by simp
qed

text \<open>The node of a value's text.\<close>

definition node_of :: "('bt, 'b, 'z) lexenv_scheme \<Rightarrow> 'bt ctype \<Rightarrow> 'b cval \<Rightarrow> yaml" where
  "node_of E t v = the (Option.bind (to_str E t v) (y_load E))"

lemma seq_text_back:
  assumes "\<And>x. x \<in> set vs \<Longrightarrow> passes E (to_str E t) (from_str E t) (node_of E t) x" "seq_reloads E t vs"
  shows "\<exists>s n. seq_text E (to_str E t) (CSeq vs) = Some s \<and> y_load E s = Some n \<and> y_emit E n = s \<and>
    elements E n = Some (map (node_of E t) vs)"
  using push_loop_nodes [OF assms(1)] assms(2) elements_nodes [of E vs "node_of E t"]
  by (simp add: seq_text_def seq_reloads_def reloads_def)

lemma dict_text_back:
  assumes "\<And>kv. kv \<in> set m \<Longrightarrow> passes E (to_str E t) (from_str E t) (node_of E t) (snd kv)" "distinct (map fst m)"
    and "reloads E (key_loop E (to_str E t) m YNull)"
  shows "\<exists>s n. dict_text E (to_str E t) (CDict m) = Some s \<and> y_load E s = Some n \<and> y_emit E n = s \<and>
    entries n = Some (map (\<lambda>(k, v). (YScalar k, node_of E t v)) m)"
  using key_loop_nodes [OF assms(1,2)] assms(3) by (simp add: dict_text_def reloads_def entries_def)

lemma readable_back:
  "readable E t v \<Longrightarrow> \<exists>s n. to_str E t v = Some s \<and> y_load E s = Some n \<and> from_str E t s = Some v
     \<and> from_str E t (y_emit E n) = Some v"
proof (induction t arbitrary: v)
  case (TBase t)
  then show ?case by (cases v) (auto split: option.splits)
next
  case (TVector t)
  have el: "readable E t x \<Longrightarrow> passes E (to_str E t) (from_str E t) (node_of E t) x" for x
    using TVector.IH [of x] by (auto simp: passes_def node_of_def)
  obtain vs where v: "v = CSeq vs" "length vs \<le> 1" "list_all (readable E t) vs" "seq_reloads E t vs"
    using TVector.prems by (cases v) auto
  have ps: "\<And>x. x \<in> set vs \<Longrightarrow> passes E (to_str E t) (from_str E t) (node_of E t) x"
    using v(3) el by (simp add: list_all_iff)
  from seq_text_back [OF ps v(4)] vector_loop_nodes [OF v(2) ps] show ?case by (auto simp: v(1))
next
  case (TList t)
  have el: "readable E t x \<Longrightarrow> passes E (to_str E t) (from_str E t) (node_of E t) x" for x
    using TList.IH [of x] by (auto simp: passes_def node_of_def)
  obtain vs where v: "v = CSeq vs" "list_all (readable E t) vs" "seq_reloads E t vs"
    using TList.prems by (cases v) auto
  have ps: "\<And>x. x \<in> set vs \<Longrightarrow> passes E (to_str E t) (from_str E t) (node_of E t) x"
    using v(2) el by (simp add: list_all_iff)
  from seq_text_back [OF ps v(3)] insert_loop_nodes [OF ps, where ins = "\<lambda>v vec. vec @ [v]"] show ?case
    by (auto simp: v(1))
next
  case (TSet t)
  have el: "readable E t x \<Longrightarrow> passes E (to_str E t) (from_str E t) (node_of E t) x" for x
    using TSet.IH [of x] by (auto simp: passes_def node_of_def)
  obtain vs where v: "v = CSeq vs" "sorted_wrt (less_val E) vs" "list_all (readable E t) vs" "seq_reloads E t vs"
    using TSet.prems by (cases v) auto
  have ps: "\<And>x. x \<in> set vs \<Longrightarrow> passes E (to_str E t) (from_str E t) (node_of E t) x"
    using v(3) el by (simp add: list_all_iff)
  have "insert_loop E (from_str E t) (set_insert (less_val E)) (map (node_of E t) vs) [] = Some vs"
  proof (rule insert_loop_nodes [OF ps])
    fix xs x ys assume "vs = xs @ x # ys"
    then show "set_insert (less_val E) x xs = xs @ [x]"
      using v(2) by (intro set_insert_last) (auto simp: sorted_wrt_append)
  qed
  with seq_text_back [OF ps v(4)] show ?case by (auto simp: v(1))
next
  case (TMap t)
  have el: "readable E t x \<Longrightarrow> passes E (to_str E t) (from_str E t) (node_of E t) x" for x
    using TMap.IH [of x] by (auto simp: passes_def node_of_def)
  obtain m where v: "v = CDict m" "sorted_wrt (<) (map fst m)" "list_all (\<lambda>kv. readable E t (snd kv)) m"
      "reloads E (key_loop E (to_str E t) m YNull)"
    using TMap.prems by (cases v) auto
  have ps: "\<And>kv. kv \<in> set m \<Longrightarrow> passes E (to_str E t) (from_str E t) (node_of E t) (snd kv)"
    using v(3) el by (simp add: list_all_iff)
  have "distinct (map fst m)" using v(2) by (simp add: strict_sorted_iff)
  from dict_text_back [OF ps this v(4)] pair_loop_nodes [OF ps v(2)] show ?case by (auto simp: v(1))
qed simp_all

lemma vector_loop_prefixes:
  "vector_loop E cast ss ns vec = map_option (\<lambda>vs. vec @ vs)
     (those (map (\<lambda>k. cast (ss @ concat (map (y_emit E) (take (Suc k) ns)))) [0..<length ns]))"
proof (induction ns arbitrary: ss vec)
  case (Cons n ns)
  show ?case
    by (cases "cast (ss @ y_emit E n)")
       (simp_all add: upt_conv_Cons Cons map_Suc_upt [symmetric] comp_def option.map_comp del: upt_Suc)
qed simp

section \<open>Properties\<close>

text \<open>
  C34. A configuration value that is readable comes back from its text.  Readable are values of base
  types, lists, sets, maps and vectors of at most one element, nested in any way, but without unordered
  containers, when: sets and maps are in their order; the sequence and map nodes built for the value are
  read by yaml-cpp as they were written; and each base value is read by \<open>boost::lexical_cast\<close> both from its
  text and from what yaml-cpp writes after loading that text, since containers load the text of an
  element as YAML.  A string element that YAML does not read as the same plain scalar, like the empty
  one, \<^verbatim>\<open>null\<close>, \<^verbatim>\<open>a: b\<close> or \<^verbatim>\<open>x # y\<close>, is not readable.
\<close>

theorem value_text_roundtrip:
  assumes "readable E t v"
  shows "Option.bind (to_str E t v) (from_str E t) = Some v"
  using readable_back [OF assms] by auto

text \<open>Numbers in a list, with just enough of a YAML library to write and read them.\<close>

definition demo_lex :: "(unit, nat) lexenv" where
  "demo_lex = \<lparr>
     y_load = (\<lambda>s. if s = ''- 2\<newline>- 3'' then Some (YSeq [YScalar ''2'', YScalar ''3'']) else Some (YScalar s)),
     y_emit = (\<lambda>n. case n of YScalar s \<Rightarrow> s | _ \<Rightarrow> ''- 2\<newline>- 3''),
     y_index = (\<lambda>_ _. None), lex = (\<lambda>_ s. Some (undec s)), unlex = (\<lambda>_ n. Some (dec n)),
     less_val = (\<lambda>_ _. False), uinsert = (\<lambda>v vs. vs), uminsert = (\<lambda>_ _ m. m)\<rparr>"

lemma demo_lex_simps [simp]:
  "y_emit demo_lex (YScalar s) = s" "y_emit demo_lex (YSeq ns) = ''- 2\<newline>- 3''"
  "unlex demo_lex u n = Some (dec n)" "lex demo_lex u s = Some (undec s)"
  "y_load demo_lex ''- 2\<newline>- 3'' = Some (YSeq [YScalar ''2'', YScalar ''3''])"
  "y_load demo_lex ''2'' = Some (YScalar ''2'')" "y_load demo_lex ''3'' = Some (YScalar ''3'')"
  by (simp_all add: demo_lex_def)

lemma dec_2_3: "dec 2 = ''2''" "dec 3 = ''3''"
  by code_simp+

text \<open>A map of lists of numbers, with the four documents that occur.\<close>

definition demo_value :: "nat cval" where
  "demo_value = CDict [(''a'', CSeq [CBase 2, CBase 3]), (''b'', CSeq [CBase 3])]"

definition demo_docs :: "(string \<times> yaml) list" where
  "demo_docs =
     [(''- 2\<newline>- 3'', YSeq [YScalar ''2'', YScalar ''3'']), (''- 3'', YSeq [YScalar ''3'']),
      (''a:\<newline>  - 2\<newline>  - 3\<newline>b:\<newline>  - 3'',
       YMap [(YScalar ''a'', YSeq [YScalar ''2'', YScalar ''3'']), (YScalar ''b'', YSeq [YScalar ''3''])])]"

definition demo_yaml :: "(unit, nat) lexenv" where
  "demo_yaml = demo_lex\<lparr>
     y_load := (\<lambda>s. case map_of demo_docs s of Some n \<Rightarrow> Some n | None \<Rightarrow> Some (YScalar s)),
     y_emit := (\<lambda>n. case n of YScalar s \<Rightarrow> s
        | _ \<Rightarrow> (case find (\<lambda>d. snd d = n) demo_docs of Some d \<Rightarrow> fst d | None \<Rightarrow> []))\<rparr>"

lemma demo_yaml_simps [simp]:
  "unlex demo_yaml u n = Some (dec n)" "lex demo_yaml u s = Some (undec s)"
  by (simp_all add: demo_yaml_def demo_lex_def)

lemma demo_yaml_docs [simp]:
  "y_emit demo_yaml (YScalar s) = s"
  "y_emit demo_yaml (YSeq [YScalar ''2'', YScalar ''3'']) = ''- 2\<newline>- 3''" "y_emit demo_yaml (YSeq [YScalar ''3'']) = ''- 3''"
  "y_load demo_yaml ''2'' = Some (YScalar ''2'')" "y_load demo_yaml ''3'' = Some (YScalar ''3'')"
  "y_load demo_yaml ''- 2\<newline>- 3'' = Some (YSeq [YScalar ''2'', YScalar ''3''])" "y_load demo_yaml ''- 3'' = Some (YSeq [YScalar ''3''])"
  "y_load demo_yaml (y_emit demo_yaml
     (YMap [(YScalar ''a'', YSeq [YScalar ''2'', YScalar ''3'']), (YScalar ''b'', YSeq [YScalar ''3''])])) =
     Some (YMap [(YScalar ''a'', YSeq [YScalar ''2'', YScalar ''3'']), (YScalar ''b'', YSeq [YScalar ''3''])])"
  by (simp_all add: demo_yaml_def demo_docs_def)

theorem value_text_roundtrip_witness:
  "Option.bind (to_str demo_yaml (TMap (TList (TBase ()))) demo_value) (from_str demo_yaml (TMap (TList (TBase ())))) =
     Some demo_value"
proof (rule value_text_roundtrip)
  have two: "undec ''2'' = 2" "undec ''3'' = 3" by code_simp+
  have lt: "(''a'' :: string) < ''b''" by (simp add: less_char_def)
  show "readable demo_yaml (TMap (TList (TBase ()))) demo_value"
    unfolding demo_value_def using lt two
    by (simp add: seq_reloads_def reloads_def push_back_def seq_text_def set_key_def dec_2_3)
qed

text \<open>
  The cast to a vector does not separate the elements: element \<open>k\<close> is converted from the texts of the
  elements \<open>0\<close> to \<open>k\<close> written one after the other.
\<close>

theorem vector_cast_accumulates:
  assumes "y_load E s = Some (YSeq ns)"
  shows "from_str E (TVector t) s = map_option CSeq
    (those (map (\<lambda>k. from_str E t (concat (map (y_emit E) (take (Suc k) ns)))) [0..<length ns]))"
  using assms vector_loop_prefixes [of E "from_str E t" "[]" ns "[]"] by (simp add: elements_def option.map_comp comp_def)

theorem vector_cast_accumulates_witness:
  "from_str demo_lex (TVector (TBase ())) ''- 2\<newline>- 3'' = Some (CSeq [CBase 2, CBase 23])"
  using vector_cast_accumulates [of demo_lex "''- 2\<newline>- 3''" "[YScalar ''2'', YScalar ''3'']" "TBase ()"]
  by simp

end
