(* ===== verification/Config.thy ===== *)
theory Config
  imports Lexical_Cast "HOL-Library.AList"
begin

text \<open>
  Configuration variables and their registry (\<open>gudov/config.{h,cpp}\<close>).  Variables are objects in a
  store, reached by name through the registry or by the pointers handed out, so that a pointer
  outlives \<open>Config::Clear\<close>.  What depends on the type of a variable (the conversions and \<open>==\<close>) is
  given by \<open>traits\<close>; \<open>cast_traits\<close> are those of \<open>Lexical_Cast\<close>.  The listeners a call notifies are
  returned in order, with the old and the new value.

  The lemmas show that the registry stays consistent, what loading a YAML tree does to every
  variable, that listeners are called in the order of their registration and on changes only, and
  that loading an unchanged directory again does nothing.
\<close>

section \<open>Variables\<close>

record ('ty, 'v) traits =
  FromStr :: "'ty \<Rightarrow> string \<Rightarrow> 'v option"
  ToStr :: "'ty \<Rightarrow> 'v \<Rightarrow> string option"
  val_eq :: "'ty \<Rightarrow> 'v \<Rightarrow> 'v \<Rightarrow> bool"

definition cast_traits :: "('bt, 'b, 'z) lexenv_scheme \<Rightarrow> ('bt ctype, 'b cval) traits" where
  "cast_traits E = \<lparr>FromStr = from_str E, ToStr = to_str E, val_eq = (\<lambda>_. (=))\<rparr>"

record ('ty, 'v, 'cb) cvar =
  cv_name :: string
  cv_description :: string
  cv_type :: 'ty
  cv_value :: 'v
  callbacks :: "(u64 \<times> 'cb) list"

definition newConfigVar :: "'ty \<Rightarrow> string \<Rightarrow> 'v \<Rightarrow> string \<Rightarrow> ('ty, 'v, 'cb) cvar" where
  "newConfigVar ty name default_value description =
     \<lparr>cv_name = map tolower name, cv_description = description, cv_type = ty, cv_value = default_value, callbacks = []\<rparr>"

text \<open>The store of variables, the registry, the listener counter of each type and the times of the files loaded.\<close>

record ('ty, 'v, 'cb) cfg =
  vars :: "('ty, 'v, 'cb) cvar list"
  datas :: "(string \<times> nat) list"
  s_fun_id :: "'ty \<Rightarrow> u64"
  file2modifytime :: "(string \<times> u64) list"

type_synonym ('v, 'cb) notice = "'cb \<times> 'v \<times> 'v"

definition upd_var :: "nat \<Rightarrow> (('ty, 'v, 'cb) cvar \<Rightarrow> ('ty, 'v, 'cb) cvar) \<Rightarrow> ('ty, 'v, 'cb) cfg \<Rightarrow> ('ty, 'v, 'cb) cfg" where
  "upd_var p f c = c\<lparr>vars := (vars c)[p := f (vars c ! p)]\<rparr>"

definition ConfigVar_ToString :: "('ty, 'v) traits \<Rightarrow> nat \<Rightarrow> ('ty, 'v, 'cb) cfg \<Rightarrow> string" where
  "ConfigVar_ToString T p c =
     (case ToStr T (cv_type (vars c ! p)) (cv_value (vars c ! p)) of Some s \<Rightarrow> s | None \<Rightarrow> [])"

definition GetValue :: "nat \<Rightarrow> ('ty, 'v, 'cb) cfg \<Rightarrow> 'v" where
  "GetValue p c = cv_value (vars c ! p)"

text \<open>
  Listeners are called in the order of their keys, before the value is assigned; the calls made are
  returned as notices.  This is \<open>SetValue\<close> with listeners that do not throw, as those of the repository
  do not; \<open>SetValue_throws\<close> below is the general case.
\<close>

definition SetValue :: "('ty, 'v) traits \<Rightarrow> nat \<Rightarrow> 'v \<Rightarrow> ('ty, 'v, 'cb) cfg \<Rightarrow> ('v, 'cb) notice list \<times> ('ty, 'v, 'cb) cfg" where
  "SetValue T p v c =
     (let x = vars c ! p in
      if val_eq T (cv_type x) v (cv_value x) then ([], c)
      else (map (\<lambda>(_, cb). (cb, cv_value x, v)) (callbacks x), upd_var p (\<lambda>x. x\<lparr>cv_value := v\<rparr>) c))"

text \<open>
  A listener that throws: the listeners after it are not called, the value is not assigned, and the
  exception leaves \<open>SetValue\<close> (\<open>fromString\<close> catches it).  \<open>throws\<close> says which calls throw; the last result is
  whether one did.
\<close>

fun notify_all :: "(('v, 'cb) notice \<Rightarrow> bool) \<Rightarrow> ('v, 'cb) notice list \<Rightarrow> ('v, 'cb) notice list \<times> bool" where
  "notify_all throws [] = ([], False)"
| "notify_all throws (n # ns) =
     (if throws n then ([n], True) else let (called, b) = notify_all throws ns in (n # called, b))"

definition SetValue_throws ::
  "(('v, 'cb) notice \<Rightarrow> bool) \<Rightarrow> ('ty, 'v) traits \<Rightarrow> nat \<Rightarrow> 'v \<Rightarrow> ('ty, 'v, 'cb) cfg \<Rightarrow>
     ('v, 'cb) notice list \<times> ('ty, 'v, 'cb) cfg \<times> bool" where
  "SetValue_throws throws T p v c =
     (let x = vars c ! p in
      if val_eq T (cv_type x) v (cv_value x) then ([], c, False)
      else let (called, b) = notify_all throws (map (\<lambda>(_, cb). (cb, cv_value x, v)) (callbacks x)) in
        (called, if b then c else upd_var p (\<lambda>x. x\<lparr>cv_value := v\<rparr>) c, b))"

lemma notify_all_spec:
  "notify_all throws ns = (case find throws ns of
     None \<Rightarrow> (ns, False) | Some n \<Rightarrow> (takeWhile (\<lambda>n. \<not> throws n) ns @ [n], True))"
  by (induction ns) (auto split: option.splits)

text \<open>
  Without a throwing call this is \<open>SetValue\<close>; with one, the calls are a prefix of those of \<open>SetValue\<close> up to
  the first that throws, and nothing has changed.
\<close>

lemma SetValue_throws_spec:
  "SetValue_throws throws T p v c =
     (case find throws (fst (SetValue T p v c)) of
        None \<Rightarrow> (fst (SetValue T p v c), snd (SetValue T p v c), False)
      | Some n \<Rightarrow> (takeWhile (\<lambda>n. \<not> throws n) (fst (SetValue T p v c)) @ [n], c, True))"
  by (simp add: SetValue_throws_def SetValue_def notify_all_spec Let_def split: option.splits)

text \<open>The result is \<open>false\<close> whether or not the text could be converted.\<close>

definition fromString ::
  "('ty, 'v) traits \<Rightarrow> nat \<Rightarrow> string \<Rightarrow> ('ty, 'v, 'cb) cfg \<Rightarrow> bool \<times> ('v, 'cb) notice list \<times> ('ty, 'v, 'cb) cfg" where
  "fromString T p val c =
     (case FromStr T (cv_type (vars c ! p)) val of
        None \<Rightarrow> (False, [], c)
      | Some v \<Rightarrow> (False, SetValue T p v c))"

definition AddListener :: "nat \<Rightarrow> 'cb \<Rightarrow> ('ty, 'v, 'cb) cfg \<Rightarrow> u64 \<times> ('ty, 'v, 'cb) cfg" where
  "AddListener p cb c =
     (let ty = cv_type (vars c ! p); k = s_fun_id c ty + 1;
          c1 = c\<lparr>s_fun_id := (s_fun_id c)(ty := k)\<rparr>
      in (k, upd_var p (\<lambda>x. x\<lparr>callbacks := map_assign (<) k cb (callbacks x)\<rparr>) c1))"

definition DelListener :: "nat \<Rightarrow> u64 \<Rightarrow> ('ty, 'v, 'cb) cfg \<Rightarrow> ('ty, 'v, 'cb) cfg" where
  "DelListener p k c = upd_var p (\<lambda>x. x\<lparr>callbacks := map_erase (<) k (callbacks x)\<rparr>) c"

definition GetListener :: "nat \<Rightarrow> u64 \<Rightarrow> ('ty, 'v, 'cb) cfg \<Rightarrow> 'cb option" where
  "GetListener p k c = map_find (<) k (callbacks (vars c ! p))"

definition clearListener :: "nat \<Rightarrow> ('ty, 'v, 'cb) cfg \<Rightarrow> ('ty, 'v, 'cb) cfg" where
  "clearListener p c = upd_var p (\<lambda>x. x\<lparr>callbacks := []\<rparr>) c"

section \<open>The registry\<close>

definition name_chars :: string where "name_chars = ''abcdefghijklmnopqrstuvwxyz._0123456789''"

definition valid_name :: "string \<Rightarrow> bool" where
  "valid_name s = list_all (\<lambda>ch. ch \<in> set name_chars) s"

definition LookupBase :: "string \<Rightarrow> ('ty, 'v, 'cb) cfg \<Rightarrow> nat option" where
  "LookupBase name c = map_of (datas c) name"

text \<open>A null pointer is \<open>None\<close>; a registered variable of another type is not found.\<close>

definition Lookup_default ::
  "'ty \<Rightarrow> string \<Rightarrow> 'v \<Rightarrow> string \<Rightarrow> ('ty, 'v, 'cb) cfg \<Rightarrow> (nat option \<times> ('ty, 'v, 'cb) cfg) res" where
  "Lookup_default ty name default_value description c =
     (case map_of (datas c) name of
        Some p \<Rightarrow> Inr (if cv_type (vars c ! p) = ty then Some p else None, c)
      | None \<Rightarrow>
          if \<not> valid_name name then Inl InvalidArgument
          else Inr (Some (length (vars c)),
            c\<lparr>vars := vars c @ [newConfigVar ty name default_value description],
              datas := datas c @ [(name, length (vars c))]\<rparr>))"

definition Lookup_var :: "'ty \<Rightarrow> string \<Rightarrow> ('ty, 'v, 'cb) cfg \<Rightarrow> nat option" where
  "Lookup_var ty name c =
     (case map_of (datas c) name of
        None \<Rightarrow> None
      | Some p \<Rightarrow> if cv_type (vars c ! p) = ty then Some p else None)"

definition Config_Clear :: "('ty, 'v, 'cb) cfg \<Rightarrow> ('ty, 'v, 'cb) cfg" where
  "Config_Clear c = c\<lparr>datas := []\<rparr>"

text \<open>The order in which \<open>Visit\<close> reaches the variables is that of the hash table, given as a permutation \<open>ord\<close>.\<close>

definition Visit :: "((string \<times> nat) list \<Rightarrow> (string \<times> nat) list) \<Rightarrow> (nat \<Rightarrow> 's \<Rightarrow> 's) \<Rightarrow> ('ty, 'v, 'cb) cfg \<Rightarrow> 's \<Rightarrow> 's" where
  "Visit ord callback c s = fold (\<lambda>(_, p). callback p) (ord (datas c)) s"

section \<open>Loading\<close>

lemma size_entry: "(k, v) \<in> set m \<Longrightarrow> size v < Suc (size_list (size_prod size size) m)"
  by (induction m) auto

function ListAllMember :: "string \<Rightarrow> yaml \<Rightarrow> (string \<times> yaml) list" where
  "ListAllMember prefix node =
     (if \<not> valid_name prefix then []
      else (prefix, node) #
        (case node of
           YMap m \<Rightarrow> concat (map (\<lambda>(k, v).
             ListAllMember (if prefix = [] then Scalar k else prefix @ ''.'' @ Scalar k) v) m)
         | _ \<Rightarrow> []))"
  by pat_completeness auto

termination ListAllMember
  by (relation "measure (\<lambda>(_, n). size n)") (auto simp: size_entry)

declare ListAllMember.simps [simp del]

definition node_text :: "(yaml \<Rightarrow> string) \<Rightarrow> yaml \<Rightarrow> string" where
  "node_text emit n = (case n of YScalar s \<Rightarrow> s | _ \<Rightarrow> emit n)"

definition load_entry ::
  "('ty, 'v) traits \<Rightarrow> (yaml \<Rightarrow> string) \<Rightarrow> string \<times> yaml \<Rightarrow> ('v, 'cb) notice list \<times> ('ty, 'v, 'cb) cfg \<Rightarrow>
     ('v, 'cb) notice list \<times> ('ty, 'v, 'cb) cfg" where
  "load_entry T emit e s =
     (let key = fst e; (ns, c) = s in
      if key = [] then s
      else case LookupBase (map tolower key) c of
          None \<Rightarrow> s
        | Some p \<Rightarrow> (let (_, ns', c') = fromString T p (node_text emit (snd e)) c in (ns @ ns', c')))"

definition LoadFromYaml ::
  "('ty, 'v) traits \<Rightarrow> (yaml \<Rightarrow> string) \<Rightarrow> yaml \<Rightarrow> ('ty, 'v, 'cb) cfg \<Rightarrow> ('v, 'cb) notice list \<times> ('ty, 'v, 'cb) cfg" where
  "LoadFromYaml T emit root c = fold (load_entry T emit) (ListAllMember [] root) ([], c)"

text \<open>
  \<open>files\<close> is what \<open>FSUtil::ListAllFile\<close> finds, \<open>mtime\<close> and \<open>file\<close> what the system says of each file and
  what yaml-cpp reads from it (\<open>None\<close> when it throws).  A file that has no recorded time has the time 0.
\<close>

definition recorded :: "string \<Rightarrow> ('ty, 'v, 'cb) cfg \<Rightarrow> u64" where
  "recorded i c = (case map_of (file2modifytime c) i of Some t \<Rightarrow> t | None \<Rightarrow> 0)"

definition load_file ::
  "('ty, 'v) traits \<Rightarrow> (yaml \<Rightarrow> string) \<Rightarrow> (string \<Rightarrow> u64) \<Rightarrow> (string \<Rightarrow> yaml option) \<Rightarrow> bool \<Rightarrow> string \<Rightarrow>
     ('v, 'cb) notice list \<times> ('ty, 'v, 'cb) cfg \<Rightarrow> ('v, 'cb) notice list \<times> ('ty, 'v, 'cb) cfg" where
  "load_file T emit mtime file force i s =
     (let (ns, c) = s in
      if \<not> force \<and> recorded i c = mtime i then s
      else let c1 = c\<lparr>file2modifytime := AList.update i (mtime i) (file2modifytime c)\<rparr> in
        case file i of
          None \<Rightarrow> (ns, c1)
        | Some root \<Rightarrow> (let (ns', c2) = LoadFromYaml T emit root c1 in (ns @ ns', c2)))"

definition LoadFromConfDir ::
  "('ty, 'v) traits \<Rightarrow> (yaml \<Rightarrow> string) \<Rightarrow> (string \<Rightarrow> u64) \<Rightarrow> (string \<Rightarrow> yaml option) \<Rightarrow> bool \<Rightarrow> string list \<Rightarrow>
     ('ty, 'v, 'cb) cfg \<Rightarrow> ('v, 'cb) notice list \<times> ('ty, 'v, 'cb) cfg" where
  "LoadFromConfDir T emit mtime file force files c = fold (load_file T emit mtime file force) files ([], c)"

section \<open>Reachable states\<close>

text \<open>
  Names are registered once, in the permitted characters, for distinct variables that carry them;
  the listeners of a variable are ordered by their numbers, which the counter of its type bounds.
\<close>

definition var_wf :: "('ty \<Rightarrow> u64) \<Rightarrow> ('ty, 'v, 'cb) cvar \<Rightarrow> bool" where
  "var_wf ids x \<longleftrightarrow> sorted_wrt (<) (map fst (callbacks x)) \<and> list_all (\<lambda>e. fst e \<le> ids (cv_type x)) (callbacks x)"

definition cfg_wf :: "('ty, 'v, 'cb) cfg \<Rightarrow> bool" where
  "cfg_wf c \<longleftrightarrow> distinct (map fst (datas c)) \<and>
     list_all (\<lambda>e. snd e < length (vars c) \<and> valid_name (fst e) \<and> cv_name (vars c ! snd e) = fst e) (datas c) \<and>
     list_all (var_wf (s_fun_id c)) (vars c)"

definition newConfig :: "('ty, 'v, 'cb) cfg" where
  "newConfig = \<lparr>vars = [], datas = [], s_fun_id = (\<lambda>_. 0), file2modifytime = []\<rparr>"

inductive cfg_step :: "('ty, 'v) traits \<Rightarrow> (yaml \<Rightarrow> string) \<Rightarrow> ('ty, 'v, 'cb) cfg \<Rightarrow> ('ty, 'v, 'cb) cfg \<Rightarrow> bool" for T emit where
  lookup: "Lookup_default ty name v d c = Inr (r, c') \<Longrightarrow> cfg_step T emit c c'"
| set_value: "p < length (vars c) \<Longrightarrow> cfg_step T emit c (snd (SetValue T p v c))"
| from_string: "p < length (vars c) \<Longrightarrow> cfg_step T emit c (snd (snd (fromString T p val c)))"
| add_listener: "p < length (vars c) \<Longrightarrow> s_fun_id c (cv_type (vars c ! p)) \<noteq> - 1 \<Longrightarrow>
    cfg_step T emit c (snd (AddListener p cb c))"
| del_listener: "p < length (vars c) \<Longrightarrow> cfg_step T emit c (DelListener p k c)"
| clear_listener: "p < length (vars c) \<Longrightarrow> cfg_step T emit c (clearListener p c)"
| load_yaml: "cfg_step T emit c (snd (LoadFromYaml T emit root c))"
| load_dir: "cfg_step T emit c (snd (LoadFromConfDir T emit mtime file force files c))"
| clear: "cfg_step T emit c (Config_Clear c)"

section \<open>Lemmas\<close>

text \<open>Names and the numbers of listeners are keys of maps.\<close>

interpretation names: strict_weak "(<) :: string \<Rightarrow> string \<Rightarrow> bool"
  by unfold_locales auto

interpretation cbs: strict_weak "(<) :: u64 \<Rightarrow> u64 \<Rightarrow> bool"
  by unfold_locales auto

lemma upd_var_simps [simp]:
  "datas (upd_var p f c) = datas c" "s_fun_id (upd_var p f c) = s_fun_id c"
  "file2modifytime (upd_var p f c) = file2modifytime c" "length (vars (upd_var p f c)) = length (vars c)"
  "vars (upd_var p f c) = (vars c)[p := f (vars c ! p)]"
  by (simp_all add: upd_var_def)

text \<open>What a variable keeps whatever is done to its value.\<close>

definition same_but_value :: "('ty, 'v, 'cb) cfg \<Rightarrow> ('ty, 'v, 'cb) cfg \<Rightarrow> bool" where
  "same_but_value c c' \<longleftrightarrow> datas c' = datas c \<and> s_fun_id c' = s_fun_id c \<and> length (vars c') = length (vars c) \<and>
     file2modifytime c' = file2modifytime c \<and>
     (\<forall>q < length (vars c). \<exists>v. vars c' ! q = (vars c ! q)\<lparr>cv_value := v\<rparr>)"

lemma same_but_value_refl [simp]: "same_but_value c c"
  unfolding same_but_value_def by (metis cvar.surjective cvar.update_convs(4))

lemma same_but_value_trans: "same_but_value c c1 \<Longrightarrow> same_but_value c1 c2 \<Longrightarrow> same_but_value c c2"
  unfolding same_but_value_def by (elim conjE, intro conjI allI impI) (simp_all, metis cvar.update_convs(4) cvar.surjective)

lemma value_update_same: "x\<lparr>cv_value := cv_value x\<rparr> = x"
  by simp

lemma same_but_value_SetValue: "same_but_value c (snd (SetValue T p v c))"
proof -
  have "\<exists>w. (vars c)[p := (vars c ! p)\<lparr>cv_value := v\<rparr>] ! q = (vars c ! q)\<lparr>cv_value := w\<rparr>" if "q < length (vars c)" for q
    using that by (cases "q = p") (auto intro: exI [of _ "cv_value (vars c ! q)"])
  then show ?thesis by (simp add: SetValue_def Let_def same_but_value_def) (metis value_update_same)
qed

lemma same_but_value_fromString: "same_but_value c (snd (snd (fromString T p val c)))"
  by (auto simp: fromString_def same_but_value_SetValue split: option.splits)

lemma same_but_value_load_entry: "same_but_value (snd s) (snd (load_entry T emit e s))"
proof -
  obtain ns c where s: "s = (ns, c)" by (cases s)
  have "same_but_value c c'" if "fromString T p val c = (b, ns', c')" for p val b ns' c'
    using same_but_value_fromString [of c T p val] that by simp
  then show ?thesis by (auto simp: s load_entry_def Let_def split: prod.splits option.splits)
qed

lemma same_but_value_LoadFromYaml: "same_but_value c (snd (LoadFromYaml T emit root c))"
proof -
  have "same_but_value (snd s) (snd (fold (load_entry T emit) es s))" for es and s :: "('b, 'c) notice list \<times> ('a, 'b, 'c) cfg"
  proof (induction es arbitrary: s)
    case (Cons e es)
    show ?case using same_but_value_trans [OF same_but_value_load_entry Cons.IH] by simp
  qed simp
  then show ?thesis unfolding LoadFromYaml_def by (metis snd_conv)
qed

lemma cfg_wf_same_but_value:
  assumes "cfg_wf c" "same_but_value c c'"
  shows "cfg_wf c'"
proof -
  have "cv_name (vars c' ! q) = cv_name (vars c ! q) \<and> cv_type (vars c' ! q) = cv_type (vars c ! q) \<and>
      callbacks (vars c' ! q) = callbacks (vars c ! q)" if "q < length (vars c)" for q
    using assms(2) that by (fastforce simp: same_but_value_def)
  then show ?thesis using assms unfolding cfg_wf_def same_but_value_def var_wf_def list_all_length
    by (fastforce simp: in_set_conv_nth)
qed

lemma cfg_wf_upd_var:
  assumes "cfg_wf c" "p < length (vars c)" "cv_name (f (vars c ! p)) = cv_name (vars c ! p)" "var_wf (s_fun_id c) (f (vars c ! p))"
  shows "cfg_wf (upd_var p f c)"
  using assms by (auto simp: cfg_wf_def list_all_iff nth_list_update dest!: set_update_subset_insert [THEN subsetD])

lemma map_assign_set: "e \<in> set (map_assign lt k v m) \<Longrightarrow> e \<in> set m \<or> e = (k, v) \<or> (\<exists>w. (fst e, w) \<in> set m)"
  by (induction lt k v m rule: map_assign.induct) (auto split: if_splits)

lemma map_erase_set: "e \<in> set (map_erase lt k m) \<Longrightarrow> e \<in> set m"
  by (induction lt k m rule: map_erase.induct) (auto split: if_splits)

lemma word_less_add_1: "(x :: u64) \<noteq> - 1 \<Longrightarrow> x < x + 1"
proof -
  assume "x \<noteq> - 1"
  then have "1 + x \<noteq> 0" by (metis add.commute add_eq_0_iff)
  then show ?thesis using unatSuc [of x] by (simp add: word_less_nat_alt add.commute)
qed

lemma cfg_wf_AddListener:
  assumes "cfg_wf c" "p < length (vars c)" "s_fun_id c (cv_type (vars c ! p)) \<noteq> - 1"
  shows "cfg_wf (snd (AddListener p cb c))"
proof -
  let ?x = "vars c ! p"
  let ?k = "s_fun_id c (cv_type ?x) + 1"
  let ?c = "c\<lparr>s_fun_id := (s_fun_id c)(cv_type ?x := ?k)\<rparr>"
  have up: "s_fun_id c (cv_type ?x) < ?k" using assms(3) by (rule word_less_add_1)
  have vs: "var_wf (s_fun_id c) y" if "y \<in> set (vars c)" for y using assms(1) that by (auto simp: cfg_wf_def list_all_iff)
  have "var_wf (s_fun_id ?c) y" if "y \<in> set (vars c)" for y
    using vs [OF that] up by (fastforce simp: var_wf_def list_all_iff)
  then have wf: "cfg_wf ?c" using assms(1) by (auto simp: cfg_wf_def list_all_iff)
  have "var_wf (s_fun_id c) ?x" using vs assms(2) by simp
  then have "sorted_wrt (<) (map fst (map_assign (<) ?k cb (callbacks ?x)))"
      "list_all (\<lambda>e. fst e \<le> ?k) (map_assign (<) ?k cb (callbacks ?x))"
    using cbs.mp.inv_assign [of "callbacks ?x" ?k cb] up
    by (auto simp: var_wf_def list_all_iff dest!: map_assign_set intro: order.trans less_imp_le)
  then show ?thesis using cfg_wf_upd_var [OF wf, of p] assms(2) by (auto simp: AddListener_def Let_def var_wf_def)
qed

lemma AddListener_callbacks:
  assumes "cfg_wf c" "p < length (vars c)" "s_fun_id c (cv_type (vars c ! p)) \<noteq> - 1"
  shows "vars (snd (AddListener p cb c)) =
    (vars c)[p := (vars c ! p)\<lparr>callbacks := callbacks (vars c ! p) @ [(s_fun_id c (cv_type (vars c ! p)) + 1, cb)]\<rparr>]"
proof -
  let ?x = "vars c ! p"
  let ?k = "s_fun_id c (cv_type ?x) + 1"
  have "var_wf (s_fun_id c) ?x" using assms(1,2) by (auto simp: cfg_wf_def list_all_iff)
  then have "\<And>l. l \<in> set (callbacks ?x) \<Longrightarrow> fst l < ?k"
    using word_less_add_1 [OF assms(3)] by (auto simp: var_wf_def list_all_iff)
  then have "map_assign (<) ?k cb (callbacks ?x) = callbacks ?x @ [(?k, cb)]" by (rule map_assign_last)
  then show ?thesis by (simp add: AddListener_def Let_def)
qed

lemma valid_name_lower: "valid_name s \<Longrightarrow> map tolower s = s"
proof -
  assume "valid_name s"
  moreover have "list_all (\<lambda>ch. tolower ch = ch) name_chars" by code_simp
  ultimately show ?thesis by (intro map_idI) (auto simp: valid_name_def list_all_iff)
qed

lemma cfg_wf_lookup:
  assumes "cfg_wf c" "Lookup_default ty name v d c = Inr (r, c')"
  shows "cfg_wf c'"
proof (cases "map_of (datas c) name")
  case None
  have nm: "name \<notin> fst ` set (datas c)" using None by (simp add: map_of_eq_None_iff)
  have "valid_name name" and c': "c' = c\<lparr>vars := vars c @ [newConfigVar ty name v d], datas := datas c @ [(name, length (vars c))]\<rparr>"
    using assms(2) None by (auto simp: Lookup_default_def split: if_splits)
  with valid_name_lower [of name] have "var_wf (s_fun_id c) (newConfigVar ty name v d)" "cv_name (newConfigVar ty name v d) = name"
    by (simp_all add: newConfigVar_def var_wf_def)
  then show ?thesis using assms(1) nm \<open>valid_name name\<close> unfolding c' cfg_wf_def
    by (auto simp: list_all_iff nth_append)
next
  case (Some p)
  then show ?thesis using assms by (auto simp: Lookup_default_def)
qed

lemma load_file_inv:
  assumes "cfg_wf (snd s)"
  shows "cfg_wf (snd (load_file T emit mtime file force i s))"
proof -
  obtain ns c where s: "s = (ns, c)" by (cases s)
  let ?c = "c\<lparr>file2modifytime := AList.update i (mtime i) (file2modifytime c)\<rparr>"
  have "cfg_wf ?c" using assms by (simp add: s cfg_wf_def)
  then have "cfg_wf c2" if "LoadFromYaml T emit root ?c = (ns', c2)" for root ns' c2
    using cfg_wf_same_but_value same_but_value_LoadFromYaml [of ?c T emit root] that by fastforce
  with \<open>cfg_wf ?c\<close> assms show ?thesis by (auto simp: s load_file_def Let_def split: option.splits prod.splits)
qed

lemma cfg_step_wf: "cfg_step T emit c c' \<Longrightarrow> cfg_wf c \<Longrightarrow> cfg_wf c'"
proof (induction rule: cfg_step.induct)
  case (lookup ty name v d c r c')
  then show ?case by (rule cfg_wf_lookup [rotated])
next
  case (set_value p c v)
  then show ?case by (blast intro: cfg_wf_same_but_value same_but_value_SetValue)
next
  case (from_string p c val)
  then show ?case by (blast intro: cfg_wf_same_but_value same_but_value_fromString)
next
  case (add_listener p c cb)
  then show ?case by (intro cfg_wf_AddListener)
next
  case (del_listener p c k)
  then have "var_wf (s_fun_id c) (vars c ! p)" by (auto simp: cfg_wf_def list_all_iff)
  then show ?case unfolding DelListener_def using del_listener cbs.mp.inv_erase [of "callbacks (vars c ! p)" k]
    by (intro cfg_wf_upd_var) (auto simp: var_wf_def list_all_iff dest!: map_erase_set)
next
  case (clear_listener p c)
  then show ?case unfolding clearListener_def by (intro cfg_wf_upd_var) (auto simp: var_wf_def)
next
  case (load_yaml c root)
  then show ?case by (blast intro: cfg_wf_same_but_value same_but_value_LoadFromYaml)
next
  case (load_dir c mtime fl force files)
  have "cfg_wf (snd (fold (load_file T emit mtime fl force) fs s))" if "cfg_wf (snd s)" for fs and s :: "('b, 'c) notice list \<times> ('a, 'b, 'c) cfg"
    using that by (induction fs arbitrary: s) (simp_all add: load_file_inv)
  then show ?case using load_dir by (simp add: LoadFromConfDir_def)
next
  case (clear c)
  then show ?case by (simp add: cfg_wf_def Config_Clear_def)
qed

lemma newConfig_wf [simp]: "cfg_wf newConfig"
  by (simp add: cfg_wf_def newConfig_def)

interpretation cfgs: transition_system newConfig "cfg_step T emit" cfg_wf for T emit
  by unfold_locales (auto intro: cfg_step_wf)

text \<open>Nodes below a root, by the keys that lead to them.\<close>

inductive yaml_path :: "yaml \<Rightarrow> string list \<Rightarrow> yaml \<Rightarrow> bool" where
  here: "yaml_path n [] n"
| step: "(k, v) \<in> set m \<Longrightarrow> yaml_path v ks n \<Longrightarrow> yaml_path (YMap m) (Scalar k # ks) n"

inductive_cases yaml_path_NilE: "yaml_path r [] n"
inductive_cases yaml_path_ConsE: "yaml_path r (k # ks) n"

definition dot :: "string \<Rightarrow> string \<Rightarrow> string" where
  "dot p k = (if p = [] then k else p @ ''.'' @ k)"

lemma valid_name_dot: "valid_name p \<Longrightarrow> valid_name (dot p k) \<longleftrightarrow> valid_name k"
proof -
  have "CHR ''.'' \<in> set name_chars" by code_simp
  then show "valid_name p \<Longrightarrow> ?thesis" by (auto simp: valid_name_def dot_def)
qed

lemma ListAllMember_rec:
  "set (ListAllMember p r) = (if valid_name p then {(p, r)} \<union>
     {e. \<exists>m k v. r = YMap m \<and> (k, v) \<in> set m \<and> e \<in> set (ListAllMember (dot p (Scalar k)) v)} else {})"
proof (cases r)
  case (YMap m)
  show ?thesis unfolding YMap
    by (subst ListAllMember.simps, simp only: dot_def [symmetric]) (auto intro: bexI [rotated])
qed (simp_all add: ListAllMember.simps)

lemma ListAllMember_iff:
  "(q, n) \<in> set (ListAllMember p r) \<longleftrightarrow>
     valid_name p \<and> (\<exists>ks. yaml_path r ks n \<and> list_all valid_name ks \<and> q = foldl dot p ks)"
proof
  show "(q, n) \<in> set (ListAllMember p r) \<Longrightarrow>
     valid_name p \<and> (\<exists>ks. yaml_path r ks n \<and> list_all valid_name ks \<and> q = foldl dot p ks)"
  proof (induction r arbitrary: p rule: measure_induct_rule [of size])
    case (less r)
    show ?case
    proof (cases "(q, n) = (p, r)")
      case True
      then show ?thesis using less.prems by (subst (asm) ListAllMember_rec) (auto intro: here exI [of _ "[]"] split: if_splits)
    next
      case False
      then obtain m k v where r: "valid_name p" "r = YMap m" "(k, v) \<in> set m" "(q, n) \<in> set (ListAllMember (dot p (Scalar k)) v)"
        using less.prems by (subst (asm) ListAllMember_rec) (auto split: if_splits)
      have "size v < size r" using size_entry [OF r(3)] by (simp add: r(2))
      from less.IH [OF this r(4)] obtain ks where "valid_name (dot p (Scalar k))" "yaml_path v ks n" "list_all valid_name ks"
        "q = foldl dot (dot p (Scalar k)) ks" by blast
      then show ?thesis using r(1,2) step [OF r(3)]
        by (intro conjI exI [of _ "Scalar k # ks"]) (simp_all add: valid_name_dot)
    qed
  qed
  show "valid_name p \<and> (\<exists>ks. yaml_path r ks n \<and> list_all valid_name ks \<and> q = foldl dot p ks) \<Longrightarrow>
     (q, n) \<in> set (ListAllMember p r)"
  proof (elim conjE exE)
    fix ks
    assume "yaml_path r ks n" "valid_name p" "list_all valid_name ks" "q = foldl dot p ks"
    then show "(q, n) \<in> set (ListAllMember p r)"
    proof (induction arbitrary: p rule: yaml_path.induct)
      case (here n)
      then show ?case by (subst ListAllMember_rec) simp
    next
      case (step k v m ks n)
      then have "(q, n) \<in> set (ListAllMember (dot p (Scalar k)) v)" by (simp add: valid_name_dot)
      then show ?case using step by (subst ListAllMember_rec) auto
    qed
  qed
qed

text \<open>What the texts listed for a name make of a value, one after the other.\<close>

definition assign_text :: "('ty, 'v) traits \<Rightarrow> 'ty \<Rightarrow> 'v \<Rightarrow> string \<Rightarrow> 'v" where
  "assign_text T ty v t = (case FromStr T ty t of None \<Rightarrow> v | Some w \<Rightarrow> if val_eq T ty w v then v else w)"

definition texts_for :: "(yaml \<Rightarrow> string) \<Rightarrow> string \<Rightarrow> (string \<times> yaml) list \<Rightarrow> string list" where
  "texts_for emit k es = map (\<lambda>e. node_text emit (snd e)) (filter (\<lambda>e. fst e = k \<and> k \<noteq> []) es)"

lemma fromString_vars:
  "fromString T p t c = (b, ns, c') \<Longrightarrow> p < length (vars c) \<Longrightarrow>
     vars c' = (vars c)[p := (vars c ! p)\<lparr>cv_value := assign_text T (cv_type (vars c ! p)) (cv_value (vars c ! p)) t\<rparr>]"
  by (auto simp: fromString_def SetValue_def assign_text_def Let_def split: option.splits if_splits)

lemma load_entry_value:
  assumes "cfg_wf (snd s)" "valid_name (fst e)" "q < length (vars (snd s))"
  shows "vars (snd (load_entry T emit e s)) ! q =
    (if fst e \<noteq> [] \<and> LookupBase (fst e) (snd s) = Some q
     then (vars (snd s) ! q)\<lparr>cv_value := assign_text T (cv_type (vars (snd s) ! q)) (cv_value (vars (snd s) ! q)) (node_text emit (snd e))\<rparr>
     else vars (snd s) ! q)"
proof -
  obtain ns c where s: "s = (ns, c)" by (cases s)
  have "p < length (vars c)" if "LookupBase (fst e) c = Some p" for p
    using assms(1) that by (auto simp: s cfg_wf_def LookupBase_def list_all_iff dest!: map_of_SomeD)
  then show ?thesis using assms(2,3) fromString_vars [of T _ "node_text emit (snd e)" c]
    by (auto simp: s load_entry_def Let_def valid_name_lower nth_list_update split: option.splits prod.splits)
qed

lemma load_entry_wf: "cfg_wf (snd s) \<Longrightarrow> cfg_wf (snd (load_entry T emit e s))"
  by (rule cfg_wf_same_but_value [OF _ same_but_value_load_entry])

lemma load_entry_registry: "LookupBase k (snd (load_entry T emit e s)) = LookupBase k (snd s)"
  using same_but_value_load_entry [of s T emit e] by (simp add: LookupBase_def same_but_value_def)

lemma load_entry_length: "length (vars (snd (load_entry T emit e s))) = length (vars (snd s))"
  using same_but_value_load_entry [of s T emit e] by (simp add: same_but_value_def)

lemma lookup_wf:
  assumes "cfg_wf c" "LookupBase k c = Some p"
  shows "p < length (vars c) \<and> cv_name (vars c ! p) = k \<and> valid_name k"
  using assms by (auto simp: cfg_wf_def LookupBase_def list_all_iff dest!: map_of_SomeD)

lemma fold_load_value:
  assumes "cfg_wf (snd s)" "\<And>e. e \<in> set es \<Longrightarrow> valid_name (fst e)" "LookupBase k (snd s) = Some p"
  shows "vars (snd (fold (load_entry T emit) es s)) ! p =
    (vars (snd s) ! p)\<lparr>cv_value := foldl (assign_text T (cv_type (vars (snd s) ! p))) (cv_value (vars (snd s) ! p)) (texts_for emit k es)\<rparr>"
  using assms
proof (induction es arbitrary: s)
  case (Cons e es)
  let ?s = "load_entry T emit e s"
  have p: "p < length (vars (snd s))" "cv_name (vars (snd s) ! p) = k" using lookup_wf [OF Cons.prems(1,3)] by auto
  have "LookupBase (fst e) (snd s) = Some p \<longleftrightarrow> fst e = k"
    using lookup_wf [OF Cons.prems(1), of "fst e" p] p(2) Cons.prems(3) by auto
  then have "vars (snd ?s) ! p = (vars (snd s) ! p)\<lparr>cv_value :=
      foldl (assign_text T (cv_type (vars (snd s) ! p))) (cv_value (vars (snd s) ! p)) (texts_for emit k [e])\<rparr>"
    using load_entry_value [OF Cons.prems(1) Cons.prems(2) [of e] p(1), of T emit] by (auto simp: texts_for_def)
  then show ?case
    using Cons.IH [of ?s] Cons.prems by (auto simp: load_entry_wf load_entry_registry texts_for_def)
qed (simp add: texts_for_def)

lemma fold_load_other:
  assumes "cfg_wf (snd s)" "\<And>e. e \<in> set es \<Longrightarrow> valid_name (fst e)" "q < length (vars (snd s))" "\<And>k. LookupBase k (snd s) \<noteq> Some q"
  shows "vars (snd (fold (load_entry T emit) es s)) ! q = vars (snd s) ! q"
  using assms
  by (induction es arbitrary: s) (simp_all add: load_entry_wf load_entry_registry load_entry_value load_entry_length)

lemma members_valid: "e \<in> set (ListAllMember [] root) \<Longrightarrow> valid_name (fst e)"
proof -
  assume "e \<in> set (ListAllMember [] root)"
  then obtain ks where "list_all valid_name ks" "fst e = foldl dot [] ks"
    using ListAllMember_iff [of "fst e" "snd e" "[]" root] by auto
  moreover have "list_all valid_name ks \<Longrightarrow> valid_name p \<Longrightarrow> valid_name (foldl dot p ks)" for p ks
    by (induction ks arbitrary: p) (auto simp: valid_name_dot)
  ultimately show "valid_name (fst e)" by (simp add: valid_name_def)
qed

lemma LoadFromYaml_value:
  assumes "cfg_wf c" "LookupBase k c = Some p"
  shows "GetValue p (snd (LoadFromYaml T emit root c)) =
    foldl (assign_text T (cv_type (vars c ! p))) (GetValue p c) (texts_for emit k (ListAllMember [] root))"
  using fold_load_value [of "([], c)" "ListAllMember [] root" k p T emit] assms members_valid
  by (simp add: LoadFromYaml_def GetValue_def)

section \<open>Properties\<close>

text \<open>
  C30. In every reachable configuration a registered name is written in the permitted characters, belongs
  to one variable that carries it and to no other name, and the listeners of the variable are ordered
  by their numbers, none above the counter of the type.
\<close>

theorem registry_invariant:
  assumes "(cfg_step T emit)\<^sup>*\<^sup>* newConfig c" "LookupBase k c = Some p"
  shows "p < length (vars c) \<and> cv_name (vars c ! p) = k \<and> valid_name k \<and> (\<forall>k'. LookupBase k' c = Some p \<longrightarrow> k' = k)
    \<and> sorted_wrt (<) (map fst (callbacks (vars c ! p)))
    \<and> (\<forall>l \<in> set (callbacks (vars c ! p)). fst l \<le> s_fun_id c (cv_type (vars c ! p)))"
proof -
  have wf: "cfg_wf c" using assms(1) by (rule cfgs.reachable_inv)
  note p = lookup_wf [OF wf assms(2)]
  then have "var_wf (s_fun_id c) (vars c ! p)" using wf by (auto simp: cfg_wf_def list_all_iff)
  with p lookup_wf [OF wf, of _ p] show ?thesis by (auto simp: var_wf_def list_all_iff)
qed

definition demo_traits :: "(unit, string) traits" where
  "demo_traits = \<lparr>FromStr = (\<lambda>_ s. if s = [] then None else Some s), ToStr = (\<lambda>_. Some), val_eq = (\<lambda>_. (=))\<rparr>"

definition demo_cfg :: "(unit, string, nat) cfg" where
  "demo_cfg = \<lparr>vars = [\<lparr>cv_name = ''a.b'', cv_description = [], cv_type = (), cv_value = ''x'', callbacks = []\<rparr>],
     datas = [(''a.b'', 0)], s_fun_id = (\<lambda>_. 0), file2modifytime = []\<rparr>"

lemma demo_cfg_lookup: "Lookup_default () ''a.b'' ''x'' [] (newConfig :: (unit, string, nat) cfg) = Inr (Some 0, demo_cfg)"
  by (simp add: Lookup_default_def newConfig_def valid_name_def name_chars_def newConfigVar_def demo_cfg_def tolower_def)

lemma demo_cfg_wf: "cfg_wf demo_cfg"
  by (rule cfg_wf_lookup [OF newConfig_wf demo_cfg_lookup])

theorem registry_invariant_witness:
  "cv_name (vars demo_cfg ! 0) = ''a.b'' \<and> valid_name ''a.b''"
  using registry_invariant [of demo_traits Scalar demo_cfg "''a.b''" 0] cfg_step.lookup [OF demo_cfg_lookup]
  by (auto simp: LookupBase_def demo_cfg_def)

text \<open>
  The entries listed from a YAML tree are exactly its nodes that are reached through keys in the
  permitted characters, each under the keys of its path joined by dots.
\<close>

theorem members_are_paths:
  "(q, n) \<in> set (ListAllMember [] root) \<longleftrightarrow>
     (\<exists>ks. yaml_path root ks n \<and> list_all valid_name ks \<and> q = foldl dot [] ks)"
  by (simp add: ListAllMember_iff valid_name_def)

text \<open>
  C31. Loading a YAML tree: the value of a registered variable becomes what the texts of the nodes listed
  under its name make of it, one after the other, where a text that cannot be converted or that gives
  an equal value changes nothing; variables that are not registered, all names, types and listeners
  stay as they are.
\<close>

theorem LoadFromYaml_values:
  assumes "cfg_wf c" "LoadFromYaml T emit root c = (ns, c')"
  shows "(LookupBase k c = Some p \<longrightarrow>
      GetValue p c' = foldl (assign_text T (cv_type (vars c ! p))) (GetValue p c) (texts_for emit k (ListAllMember [] root)))
    \<and> (q < length (vars c) \<and> (\<forall>k. LookupBase k c \<noteq> Some q) \<longrightarrow> vars c' ! q = vars c ! q)
    \<and> same_but_value c c'"
proof (intro conjI impI)
  have c': "c' = snd (fold (load_entry T emit) (ListAllMember [] root) ([], c))"
    using assms(2) by (simp add: LoadFromYaml_def)
  show "GetValue p c' = foldl (assign_text T (cv_type (vars c ! p))) (GetValue p c) (texts_for emit k (ListAllMember [] root))"
    if "LookupBase k c = Some p"
    using LoadFromYaml_value [OF assms(1) that, of T emit root] assms(2) by simp
  show "vars c' ! q = vars c ! q" if "q < length (vars c) \<and> (\<forall>k. LookupBase k c \<noteq> Some q)"
    using fold_load_other [of "([], c)" "ListAllMember [] root" q T emit] assms(1) members_valid that by (simp add: c')
  show "same_but_value c c'" using same_but_value_LoadFromYaml [of c T emit root] assms(2) by simp
qed

theorem LoadFromYaml_values_witness:
  "GetValue 0 (snd (LoadFromYaml demo_traits Scalar (YMap [(YScalar ''a'', YMap [(YScalar ''b'', YScalar ''y'')])]) demo_cfg)) = ''y''"
proof -
  let ?root = "YMap [(YScalar ''a'', YMap [(YScalar ''b'', YScalar ''y'')])]"
  obtain ns c' where l: "LoadFromYaml demo_traits Scalar ?root demo_cfg = (ns, c')" by fastforce
  have "texts_for Scalar ''a.b'' (ListAllMember [] ?root) = [''y'']"
    by (simp add: ListAllMember.simps texts_for_def Scalar_def valid_name_def name_chars_def node_text_def)
  then show ?thesis using LoadFromYaml_values [OF demo_cfg_wf l, of "''a.b''" 0] l
    by (auto simp: LookupBase_def demo_cfg_def demo_traits_def assign_text_def)
qed

text \<open>
  Listeners are called in the order in which they were added and only on a change: after adding a
  listener it is the last one, found under its number; setting a different value notifies all of them
  with the old and the new value, and setting an equal one notifies none.
\<close>

theorem listeners_in_order:
  assumes "cfg_wf c" "p < length (vars c)" "s_fun_id c (cv_type (vars c ! p)) \<noteq> - 1" "AddListener p cb c = (k, c')"
  shows "GetListener p k c' = Some cb
    \<and> SetValue T p v c' =
        (if val_eq T (cv_type (vars c ! p)) v (GetValue p c) then ([], c')
         else (map (\<lambda>l. (snd l, GetValue p c, v)) (callbacks (vars c ! p)) @ [(cb, GetValue p c, v)],
               upd_var p (\<lambda>x. x\<lparr>cv_value := v\<rparr>) c'))"
proof -
  let ?x = "vars c ! p"
  have k: "k = s_fun_id c (cv_type ?x) + 1" "c' = snd (AddListener p cb c)" using assms(4) by (auto simp: AddListener_def Let_def)
  then have x': "vars c' ! p = ?x\<lparr>callbacks := callbacks ?x @ [(k, cb)]\<rparr>"
    using assms(2) by (simp add: AddListener_callbacks [OF assms(1-3)])
  have "callbacks (vars c' ! p) = map_assign (<) k cb (callbacks ?x)" using assms(2) by (simp add: k AddListener_def Let_def)
  moreover have "sorted_wrt (<) (map fst (callbacks ?x))" using assms(1,2) by (auto simp: cfg_wf_def list_all_iff var_wf_def)
  ultimately have "map_find (<) k (callbacks ?x @ [(k, cb)]) = Some cb"
    using cbs.mp.lookup_assign_same [of "callbacks ?x" k cb] x' by simp
  then show ?thesis using x' by (simp add: GetListener_def SetValue_def Let_def GetValue_def case_prod_unfold)
qed

theorem listeners_in_order_witness:
  "fst (SetValue demo_traits 0 ''y'' (snd (AddListener 0 7 demo_cfg))) = [(7, ''x'', ''y'')]"
  using listeners_in_order [OF demo_cfg_wf, of 0 7 "fst (AddListener 0 7 demo_cfg)" "snd (AddListener 0 7 demo_cfg)" demo_traits "''y''"]
  by (simp add: demo_cfg_def demo_traits_def GetValue_def)

lemma load_file_recorded:
  "recorded j (snd (load_file T emit mtime file force i s)) = (if j = i then mtime i else recorded j (snd s))"
proof -
  obtain ns c where s: "s = (ns, c)" by (cases s)
  let ?c = "c\<lparr>file2modifytime := AList.update i (mtime i) (file2modifytime c)\<rparr>"
  have c: "recorded j ?c = (if j = i then mtime i else recorded j c)" by (simp add: recorded_def update_conv')
  have "file2modifytime c2 = file2modifytime ?c" if "LoadFromYaml T emit root ?c = (ns', c2)" for root ns' c2
    using same_but_value_LoadFromYaml [of ?c T emit root] that by (simp add: same_but_value_def)
  then have "recorded j c2 = recorded j ?c" if "LoadFromYaml T emit root ?c = (ns', c2)" for root ns' c2
    unfolding recorded_def using that by metis
  with c show ?thesis by (auto simp: s load_file_def Let_def split: option.splits prod.splits)
qed

lemma fold_load_file_recorded:
  "j \<in> set fs \<or> recorded j (snd s) = mtime j \<Longrightarrow> recorded j (snd (fold (load_file T emit mtime file force) fs s)) = mtime j"
proof (induction fs arbitrary: s)
  case (Cons i fs)
  have "j \<in> set fs \<or> recorded j (snd (load_file T emit mtime file force i s)) = mtime j"
    using Cons.prems by (auto simp: load_file_recorded)
  from Cons.IH [OF this] show ?case by simp
qed simp

lemma fold_load_file_others:
  "j \<notin> set fs \<Longrightarrow> recorded j (snd (fold (load_file T emit mtime file force) fs s)) = recorded j (snd s)"
  by (induction fs arbitrary: s) (simp_all add: load_file_recorded)

lemma fold_load_file_skips:
  "(\<And>i. i \<in> set fs \<Longrightarrow> recorded i c = mtime i) \<Longrightarrow> fold (load_file T emit mtime file False) fs ([], c) = ([], c)"
  by (induction fs) (simp_all add: load_file_def)

text \<open>
  Loading a directory again without \<open>force\<close>, when no file has changed its time, reads nothing and
  changes nothing, whatever the files hold by then.
\<close>

theorem reload_unchanged:
  "LoadFromConfDir T emit mtime file' False files (snd (LoadFromConfDir T emit mtime file force files c)) =
     ([], snd (LoadFromConfDir T emit mtime file force files c))"
proof -
  let ?c = "snd (LoadFromConfDir T emit mtime file force files c)"
  have "\<And>i. i \<in> set files \<Longrightarrow> recorded i ?c = mtime i"
    by (simp add: LoadFromConfDir_def fold_load_file_recorded)
  then show ?thesis unfolding LoadFromConfDir_def [of T emit mtime file' False] by (rule fold_load_file_skips)
qed

end
