(* ===== verification/Address.thy ===== *)
theory Address
  imports Endian Text "HOL-Library.List_Lexorder"
begin

text \<open>
  Socket addresses (\<open>gudov/address.{h,cpp}\<close>): the four kinds of address with the fields of their
  \<open>sockaddr\<close> structures as they lie in memory (ports and IPv4 addresses in network order), creation
  from raw memory, printing, the arithmetic of masks, comparison, and the splitting of a host text
  before its lookup.  \<open>getaddrinfo\<close>, \<open>inet_pton\<close> and \<open>getifaddrs\<close> are arguments.

  Memory that holds an address is a list of bytes.  The lemmas show that addresses survive the way
  through memory, what the mask operations compute in host order and when their shifts are undefined,
  and that counting the bits of a netmask gives back the prefix length.
\<close>

unbundle bit_operations_syntax

section \<open>Structures\<close>

definition AF_UNSPEC :: int where "AF_UNSPEC = 0"
definition AF_UNIX :: int where "AF_UNIX = 1"
definition AF_INET :: int where "AF_INET = 2"
definition AF_INET6 :: int where "AF_INET6 = 10"

lemmas family_defs = AF_UNSPEC_def AF_UNIX_def AF_INET_def AF_INET6_def

record sockaddr_in =
  sin_family :: u16
  sin_port :: u16
  sin_addr :: u32
  sin_zero :: "byte list"

record sockaddr_in6 =
  sin6_family :: u16
  sin6_port :: u16
  sin6_flowinfo :: u32
  sin6_addr :: "byte list"
  sin6_scope_id :: u32

record sockaddr_un =
  sun_family :: u16
  sun_path :: "byte list"

record sockaddr =
  sa_family :: u16
  sa_data :: "byte list"

datatype address =
    IPv4Address sockaddr_in
  | IPv6Address sockaddr_in6
  | UnixAddress sockaddr_un nat
  | UnknownAddress sockaddr

text \<open>The structures in memory.\<close>

definition sin_bytes :: "sockaddr_in \<Rightarrow> byte list" where
  "sin_bytes s = word_bytes (sin_family s) @ word_bytes (sin_port s) @ word_bytes (sin_addr s) @ sin_zero s"

definition sin6_bytes :: "sockaddr_in6 \<Rightarrow> byte list" where
  "sin6_bytes s = word_bytes (sin6_family s) @ word_bytes (sin6_port s) @ word_bytes (sin6_flowinfo s) @
     sin6_addr s @ word_bytes (sin6_scope_id s)"

fun GetAddr :: "address \<Rightarrow> byte list" where
  "GetAddr (IPv4Address s) = sin_bytes s"
| "GetAddr (IPv6Address s) = sin6_bytes s"
| "GetAddr (UnixAddress s n) = word_bytes (sun_family s) @ sun_path s"
| "GetAddr (UnknownAddress s) = word_bytes (sa_family s) @ sa_data s"

fun GetAddrLen :: "address \<Rightarrow> nat" where
  "GetAddrLen (IPv4Address s) = 16"
| "GetAddrLen (IPv6Address s) = 28"
| "GetAddrLen (UnixAddress s n) = n"
| "GetAddrLen (UnknownAddress s) = 16"

fun GetFamily :: "address \<Rightarrow> int" where
  "GetFamily (IPv4Address s) = uint (sin_family s)"
| "GetFamily (IPv6Address s) = uint (sin6_family s)"
| "GetFamily (UnixAddress s n) = uint (sun_family s)"
| "GetFamily (UnknownAddress s) = uint (sa_family s)"

definition sin_of :: "byte list \<Rightarrow> sockaddr_in" where
  "sin_of bs = \<lparr>sin_family = bytes_word (take 2 bs), sin_port = bytes_word (take 2 (drop 2 bs)),
     sin_addr = bytes_word (take 4 (drop 4 bs)), sin_zero = take 8 (drop 8 bs)\<rparr>"

definition sin6_of :: "byte list \<Rightarrow> sockaddr_in6" where
  "sin6_of bs = \<lparr>sin6_family = bytes_word (take 2 bs), sin6_port = bytes_word (take 2 (drop 2 bs)),
     sin6_flowinfo = bytes_word (take 4 (drop 4 bs)), sin6_addr = take 16 (drop 8 bs),
     sin6_scope_id = bytes_word (take 4 (drop 24 bs))\<rparr>"

text \<open>
  \<open>Address::Create\<close> reads the family and then as much memory as the structure it stands for has.
\<close>

definition Address_Create :: "byte list option \<Rightarrow> address option res" where
  "Address_Create addr =
     (case addr of
        None \<Rightarrow> Inr None
      | Some bs \<Rightarrow>
          if length bs < 2 then Inl OutOfBounds
          else let fam = uint (bytes_word (take 2 bs) :: u16) in
            if fam = AF_INET then
              (if length bs < 16 then Inl OutOfBounds else Inr (Some (IPv4Address (sin_of bs))))
            else if fam = AF_INET6 then
              (if length bs < 28 then Inl OutOfBounds else Inr (Some (IPv6Address (sin6_of bs))))
            else if length bs < 16 then Inl OutOfBounds
            else Inr (Some (UnknownAddress \<lparr>sa_family = bytes_word (take 2 bs), sa_data = take 14 (drop 2 bs)\<rparr>)))"

section \<open>Constructors\<close>

definition newIPv4Address :: "u32 \<Rightarrow> u16 \<Rightarrow> sockaddr_in" where
  "newIPv4Address addr port =
     \<lparr>sin_family = word_of_int AF_INET, sin_port = ByteSwapOnLittleEndian port,
      sin_addr = ByteSwapOnLittleEndian addr, sin_zero = replicate 8 0\<rparr>"

text \<open>\<open>pton\<close> is \<open>inet_pton\<close>: \<open>None\<close> for a result of at most zero, else the memory it stores.\<close>

definition IPv4_Create :: "(string \<Rightarrow> u32 option) \<Rightarrow> string \<Rightarrow> u16 \<Rightarrow> sockaddr_in option" where
  "IPv4_Create pton addr port =
     (case pton (cstr addr) of
        None \<Rightarrow> None
      | Some w \<Rightarrow> Some ((newIPv4Address 0 0)\<lparr>sin_port := ByteSwapOnLittleEndian port, sin_addr := w\<rparr>))"

definition newIPv6Address :: sockaddr_in6 where
  "newIPv6Address = \<lparr>sin6_family = word_of_int AF_INET6, sin6_port = 0, sin6_flowinfo = 0,
     sin6_addr = replicate 16 0, sin6_scope_id = 0\<rparr>"

definition newIPv6Address_bytes :: "byte list \<Rightarrow> u16 \<Rightarrow> sockaddr_in6" where
  "newIPv6Address_bytes addr port =
     newIPv6Address\<lparr>sin6_port := ByteSwapOnLittleEndian port, sin6_addr := take 16 addr\<rparr>"

definition IPv6_Create :: "(string \<Rightarrow> byte list option) \<Rightarrow> string \<Rightarrow> u16 \<Rightarrow> sockaddr_in6 option" where
  "IPv6_Create pton addr port =
     (case pton (cstr addr) of
        None \<Rightarrow> None
      | Some bs \<Rightarrow> Some (newIPv6Address\<lparr>sin6_port := ByteSwapOnLittleEndian port, sin6_addr := bs\<rparr>))"

definition MAX_PATH_LEN :: nat where "MAX_PATH_LEN = 107"

definition newUnixAddress :: address where
  "newUnixAddress = UnixAddress \<lparr>sun_family = word_of_int AF_UNIX, sun_path = replicate 108 0\<rparr> (2 + MAX_PATH_LEN)"

definition newUnixAddress_path :: "byte list \<Rightarrow> address res" where
  "newUnixAddress_path path =
     (let len = (if path \<noteq> [] \<and> hd path = 0 then length path else length path + 1) in
      if len > 108 then Inl LogicError
      else Inr (UnixAddress \<lparr>sun_family = word_of_int AF_UNIX,
        sun_path = overwrite (replicate 108 0) 0 (take len (path @ [0]))\<rparr> (len + 2)))"

fun SetAddrLen :: "nat \<Rightarrow> address \<Rightarrow> address" where
  "SetAddrLen n (UnixAddress s m) = UnixAddress s n"
| "SetAddrLen n a = a"

definition newUnknownAddress :: "int \<Rightarrow> address" where
  "newUnknownAddress family = UnknownAddress \<lparr>sa_family = word_of_int family, sa_data = replicate 14 0\<rparr>"

section \<open>Ports\<close>

text \<open>\<open>IPAddress\<close> is the common base of the two kinds that have a port.\<close>

fun is_ip :: "address \<Rightarrow> bool" where
  "is_ip (IPv4Address s) = True"
| "is_ip (IPv6Address s) = True"
| "is_ip _ = False"

fun GetPort :: "address \<Rightarrow> u32" where
  "GetPort (IPv4Address s) = ucast (ByteSwapOnLittleEndian (sin_port s))"
| "GetPort (IPv6Address s) = ucast (ByteSwapOnLittleEndian (sin6_port s))"
| "GetPort _ = 0"

fun SetPort :: "u16 \<Rightarrow> address \<Rightarrow> address" where
  "SetPort v (IPv4Address s) = IPv4Address (s\<lparr>sin_port := ByteSwapOnLittleEndian v\<rparr>)"
| "SetPort v (IPv6Address s) = IPv6Address (s\<lparr>sin6_port := ByteSwapOnLittleEndian v\<rparr>)"
| "SetPort v a = a"

section \<open>Masks\<close>

text \<open>
  \<open>(1 << (sizeof(T) * 8 - bits)) - 1\<close>: the difference is a \<open>size_t\<close>, the shift and the subtraction are
  those of a 32-bit \<open>int\<close>, then the result is cut to \<open>T\<close>.
\<close>

definition CreateMask :: "u32 \<Rightarrow> 'a::len word res" where
  "CreateMask bits =
     (let sh = (int LENGTH('a) - uint bits) mod 2 ^ 64 in
      if sh \<ge> 32 then Inl BadShift
      else let v = sint (push_bit (nat sh) 1 :: 32 word) in
        if v - 1 < - (2 ^ 31) then Inl SignedOverflow else Inr (word_of_int (v - 1)))"

function CountBytes :: "'a::len word \<Rightarrow> nat" where
  "CountBytes v = (if v = 0 then 0 else Suc (CountBytes (v AND (v - 1))))"
  by pat_completeness auto

lemma and_pred_less: "v \<noteq> 0 \<Longrightarrow> v AND (v - 1) < (v :: 'a::len word)"
proof -
  assume "v \<noteq> 0"
  then have "v - 1 < v" by (simp add: word_less_nat_alt unat_minus_one unat_gt_0)
  moreover have "v AND (v - 1) \<le> v - 1" by (rule word_and_le1)
  ultimately show ?thesis by (rule le_less_trans [rotated])
qed

termination CountBytes
  by (relation "measure unat") (auto simp: word_less_nat_alt [symmetric] and_pred_less)

declare CountBytes.simps [simp del]

definition IPv4_BroadcastAddress :: "u32 \<Rightarrow> sockaddr_in \<Rightarrow> sockaddr_in option res" where
  "IPv4_BroadcastAddress prefixLen s =
     (if prefixLen > 32 then Inr None
      else bindR (CreateMask prefixLen) (\<lambda>m.
        Inr (Some (s\<lparr>sin_addr := sin_addr s OR ByteSwapOnLittleEndian m\<rparr>))))"

definition IPv4_NetworkAddress :: "u32 \<Rightarrow> sockaddr_in \<Rightarrow> sockaddr_in option res" where
  "IPv4_NetworkAddress prefixLen s =
     (if prefixLen > 32 then Inr None
      else bindR (CreateMask prefixLen) (\<lambda>m.
        Inr (Some (s\<lparr>sin_addr := sin_addr s AND ByteSwapOnLittleEndian m\<rparr>))))"

definition IPv4_SubnetAddress :: "u32 \<Rightarrow> sockaddr_in res" where
  "IPv4_SubnetAddress prefixLen =
     bindR (CreateMask prefixLen) (\<lambda>m.
       Inr \<lparr>sin_family = word_of_int AF_INET, sin_port = 0, sin_addr = NOT (ByteSwapOnLittleEndian m),
         sin_zero = replicate 8 0\<rparr>)"

text \<open>The sixteen bytes of an IPv6 address, with the bounds of the array.\<close>

definition IPv6_BroadcastAddress :: "u32 \<Rightarrow> sockaddr_in6 \<Rightarrow> sockaddr_in6 res" where
  "IPv6_BroadcastAddress prefixLen s =
     (let i = unat prefixLen div 8 in
      bindR (CreateMask (prefixLen mod 8)) (\<lambda>m.
        if i \<ge> 16 then Inl OutOfBounds
        else Inr (s\<lparr>sin6_addr := take i (sin6_addr s) @ [sin6_addr s ! i OR m] @ replicate (15 - i) 0xff\<rparr>)))"

definition IPv6_NetworkAddress :: "u32 \<Rightarrow> sockaddr_in6 \<Rightarrow> sockaddr_in6 res" where
  "IPv6_NetworkAddress prefixLen s =
     (let i = unat prefixLen div 8 in
      bindR (CreateMask (prefixLen mod 8)) (\<lambda>m.
        if i \<ge> 16 then Inl OutOfBounds
        else Inr (s\<lparr>sin6_addr := take i (sin6_addr s) @ [sin6_addr s ! i AND m] @ replicate (15 - i) 0\<rparr>)))"

definition IPv6_SubnetAddress :: "u32 \<Rightarrow> sockaddr_in6 res" where
  "IPv6_SubnetAddress prefixLen =
     (let i = unat prefixLen div 8 in
      bindR (CreateMask (prefixLen mod 8)) (\<lambda>m.
        if i \<ge> 16 then Inl OutOfBounds
        else Inr (newIPv6Address\<lparr>sin6_addr := replicate i 0xff @ [NOT m] @ replicate (15 - i) 0\<rparr>)))"

section \<open>Printing\<close>

definition IPv4_Insert :: "sockaddr_in \<Rightarrow> string" where
  "IPv4_Insert s =
     (let a = ByteSwapOnLittleEndian (sin_addr s) in
      ''[IPv4 '' @ dec (unat (drop_bit 24 a AND 0xff)) @ ''.'' @ dec (unat (drop_bit 16 a AND 0xff)) @ ''.'' @
      dec (unat (drop_bit 8 a AND 0xff)) @ ''.'' @ dec (unat (a AND 0xff)) @ '':'' @
      dec (unat (ByteSwapOnLittleEndian (sin_port s))) @ '']'')"

text \<open>The loop over the eight groups from group \<open>i\<close> on: the text so far and whether zeros were skipped.\<close>

definition group :: "byte list \<Rightarrow> nat \<Rightarrow> u16" where
  "group a i = bytes_word (take 2 (drop (2 * i) a))"

definition IPv6_group :: "byte list \<Rightarrow> nat \<Rightarrow> string \<times> bool \<Rightarrow> string \<times> bool" where
  "IPv6_group a i = (\<lambda>(os, usedZeros).
     if group a i = 0 \<and> \<not> usedZeros then (os, usedZeros)
     else let (os1, used1) = (if 0 < i \<and> group a (i - 1) = 0 \<and> \<not> usedZeros then (os @ '':'', True)
            else (os, usedZeros))
       in ((if 0 < i then os1 @ '':'' else os1) @ hex (unat (ByteSwapOnLittleEndian (group a i))), used1))"

definition IPv6_Insert :: "sockaddr_in6 \<Rightarrow> string" where
  "IPv6_Insert s =
     (let a = sin6_addr s;
          (os, usedZeros) = fold (IPv6_group a) [0..<8] (''[IPv6 ['', False)
      in (if \<not> usedZeros \<and> group a 7 = 0 then os @ ''::'' else os) @ '']:'' @
         dec (unat (ByteSwapOnLittleEndian (sin6_port s))) @ '']'')"

definition chars :: "byte list \<Rightarrow> string" where
  "chars bs = map (\<lambda>b. char_of (unat b)) bs"

definition Unix_Insert :: "sockaddr_un \<Rightarrow> nat \<Rightarrow> string res" where
  "Unix_Insert s n =
     (if n > 2 \<and> sun_path s ! 0 = 0 then
        (if n - 2 > length (sun_path s) then Inl OutOfBounds
         else Inr (CHR 0x5C # ''0'' @ chars (take (n - 3) (drop 1 (sun_path s)))))
      else if 0 \<notin> set (sun_path s) then Inl OutOfBounds
      else Inr (cstr (chars (sun_path s))))"

fun Address_Insert :: "address \<Rightarrow> string res" where
  "Address_Insert (IPv4Address s) = Inr (IPv4_Insert s)"
| "Address_Insert (IPv6Address s) = Inr (IPv6_Insert s)"
| "Address_Insert (UnixAddress s n) = Unix_Insert s n"
| "Address_Insert (UnknownAddress s) = Inr (''[UnknownAddress family='' @ dec (unat (sa_family s)) @ '']'')"

section \<open>Comparison\<close>

text \<open>\<open>memcmp\<close> over the shorter length, as the order of lists of bytes; a length past the structure is a fault.\<close>

definition addr_prefix :: "nat \<Rightarrow> address \<Rightarrow> nat list res" where
  "addr_prefix n a = (if n > length (GetAddr a) then Inl OutOfBounds else Inr (map unat (take n (GetAddr a))))"

definition Address_less :: "address \<Rightarrow> address \<Rightarrow> bool res" where
  "Address_less a b =
     (let n = min (GetAddrLen a) (GetAddrLen b) in
      bindR (addr_prefix n a) (\<lambda>x. bindR (addr_prefix n b) (\<lambda>y.
        Inr (if x < y then True else if y < x then False else GetAddrLen a < GetAddrLen b))))"

definition Address_eq :: "address \<Rightarrow> address \<Rightarrow> bool res" where
  "Address_eq a b =
     (if GetAddrLen a \<noteq> GetAddrLen b then Inr False
      else bindR (addr_prefix (GetAddrLen a) a) (\<lambda>x. bindR (addr_prefix (GetAddrLen a) b) (\<lambda>y. Inr (x = y))))"

definition Address_neq :: "address \<Rightarrow> address \<Rightarrow> bool res" where
  "Address_neq a b = bindR (Address_eq a b) (\<lambda>r. Inr (\<not> r))"

section \<open>Lookup\<close>

text \<open>\<open>memchr\<close> from a position on, as a position.\<close>

fun index_of :: "char \<Rightarrow> string \<Rightarrow> nat option" where
  "index_of c [] = None"
| "index_of c (x # xs) = (if x = c then Some 0 else map_option Suc (index_of c xs))"

definition memchr_from :: "nat \<Rightarrow> char \<Rightarrow> string \<Rightarrow> nat option" where
  "memchr_from i c s = map_option (\<lambda>j. i + j) (index_of c (drop i s))"

text \<open>The node, and the service as a pointer into the text (one more than its length is past its NUL).\<close>

definition split_brackets :: "string \<Rightarrow> string \<times> nat option" where
  "split_brackets host =
     (if host \<noteq> [] \<and> hd host = CHR ''['' then
        (case memchr_from 1 (CHR '']'') host of
           None \<Rightarrow> ([], None)
         | Some i \<Rightarrow>
             (take (i - 1) (drop 1 host),
              if i + 1 = length host \<or> host ! (i + 1) = CHR 0x00 then Some (i + 2) else None))
      else ([], None))"

definition split_colon :: "string \<Rightarrow> string \<times> nat option" where
  "split_colon host =
     (case memchr_from 0 (CHR '':'') host of
        None \<Rightarrow> ([], None)
      | Some i \<Rightarrow>
          (if memchr_from (i + 1) (CHR '':'') host = None then (take i host, Some (i + 1))
           else ([], Some i)))"

definition split_host :: "string \<Rightarrow> string \<times> nat option" where
  "split_host host =
     (let (node, service) = split_brackets host;
          (node, service) = (if node = [] then split_colon host else (node, service))
      in (if node = [] then host else node, service))"

definition service_text :: "string \<Rightarrow> nat option \<Rightarrow> string option res" where
  "service_text host service =
     (case service of
        None \<Rightarrow> Inr None
      | Some i \<Rightarrow> if i > length host then Inl OutOfBounds else Inr (Some (cstr (drop i host))))"

text \<open>
  \<open>gai\<close> is \<open>getaddrinfo\<close> with its hints (family, type, protocol): \<open>None\<close> for an error, else the memory of
  the addresses found.
\<close>

type_synonym gai = "string \<Rightarrow> string option \<Rightarrow> int \<times> int \<times> int \<Rightarrow> byte list option list option"

fun create_all :: "byte list option list \<Rightarrow> address option list res" where
  "create_all [] = Inr []"
| "create_all (b # bs) = bindR (Address_Create b) (\<lambda>a. bindR (create_all bs) (\<lambda>as. Inr (a # as)))"

definition Lookup :: "gai \<Rightarrow> address option list \<Rightarrow> string \<Rightarrow> int \<times> int \<times> int \<Rightarrow> (bool \<times> address option list) res" where
  "Lookup gai result host hints =
     (let (node, service) = split_host host in
      bindR (service_text host service) (\<lambda>srv.
        case gai (cstr node) srv hints of
          None \<Rightarrow> Inr (False, result)
        | Some raws \<Rightarrow> bindR (create_all raws) (\<lambda>as. Inr (True, result @ as))))"

definition LookupAny :: "gai \<Rightarrow> string \<Rightarrow> int \<times> int \<times> int \<Rightarrow> address option res" where
  "LookupAny gai host hints =
     bindR (Lookup gai [] host hints) (\<lambda>(ok, result).
       if ok then (case result of [] \<Rightarrow> Inl OutOfBounds | a # _ \<Rightarrow> Inr a) else Inr None)"

text \<open>Every address found is printed to the log first, which dereferences it.\<close>

definition LookupAnyIPAddress :: "gai \<Rightarrow> string \<Rightarrow> int \<times> int \<times> int \<Rightarrow> address option res" where
  "LookupAnyIPAddress gai host hints =
     bindR (Lookup gai [] host hints) (\<lambda>(ok, result).
       if \<not> ok then Inr None
       else if None \<in> set result then Inl NullDeref
       else Inr (Option.bind (find (\<lambda>a. is_ip (the a)) result) id))"

definition IPAddress_Create :: "(string \<Rightarrow> byte list option list option) \<Rightarrow> string \<Rightarrow> u16 \<Rightarrow> address option res" where
  "IPAddress_Create gai_numeric addr port =
     (case gai_numeric (cstr addr) of
        None \<Rightarrow> Inr None
      | Some raws \<Rightarrow>
          if raws = [] then Inl NullDeref
          else bindR (Address_Create (hd raws)) (\<lambda>a. case a of
            None \<Rightarrow> Inr None
          | Some x \<Rightarrow> Inr (if is_ip x then Some (SetPort port x) else None)))"

section \<open>Interfaces\<close>

text \<open>
  \<open>getifaddrs\<close> gives names, addresses and netmasks as memory; a \<open>multimap\<close> is a list in the order of its
  keys in which equal keys keep the order of insertion.
\<close>

definition key_le :: "string \<Rightarrow> string \<Rightarrow> bool" where
  "key_le a b \<longleftrightarrow> map (of_char :: char \<Rightarrow> nat) a \<le> map of_char b"

fun mm_insert :: "string \<Rightarrow> 'v \<Rightarrow> (string \<times> 'v) list \<Rightarrow> (string \<times> 'v) list" where
  "mm_insert k v [] = [(k, v)]"
| "mm_insert k v (x # xs) = (if key_le (fst x) k then x # mm_insert k v xs else (k, v) # x # xs)"

definition iface_entry :: "byte list \<Rightarrow> byte list option \<Rightarrow> (address option \<times> u32) res" where
  "iface_entry addr netmask =
     (let fam = uint (bytes_word (take 2 addr) :: u16) in
      if fam = AF_INET then
        bindR (Address_Create (Some addr)) (\<lambda>a. case netmask of
          None \<Rightarrow> Inl NullDeref
        | Some m \<Rightarrow> Inr (a, word_of_nat (CountBytes (sin_addr (sin_of m)))))
      else if fam = AF_INET6 then
        bindR (Address_Create (Some addr)) (\<lambda>a. case netmask of
          None \<Rightarrow> Inl NullDeref
        | Some m \<Rightarrow> Inr (a, word_of_nat (sum_list (map CountBytes (sin6_addr (sin6_of m))))))
      else Inr (None, NOT 0))"

fun iface_loop ::
  "int \<Rightarrow> (string \<times> byte list option \<times> byte list option) list \<Rightarrow> (string \<times> address \<times> u32) list \<Rightarrow>
     (string \<times> address \<times> u32) list res" where
  "iface_loop family [] result = Inr result"
| "iface_loop family ((name, addr, netmask) # rest) result =
     (case addr of
        None \<Rightarrow> Inl NullDeref
      | Some bs \<Rightarrow>
          if family \<noteq> AF_UNSPEC \<and> family \<noteq> uint (bytes_word (take 2 bs) :: u16) then iface_loop family rest result
          else bindR (iface_entry bs netmask) (\<lambda>(a, prefixLen).
            case a of None \<Rightarrow> iface_loop family rest result
            | Some x \<Rightarrow> iface_loop family rest (mm_insert name (x, prefixLen) result)))"

definition GetInterfaceAddress_all ::
  "(string \<times> byte list option \<times> byte list option) list option \<Rightarrow> (string \<times> address \<times> u32) list \<Rightarrow> int \<Rightarrow>
     (bool \<times> (string \<times> address \<times> u32) list) res" where
  "GetInterfaceAddress_all ifs result family =
     (case ifs of
        None \<Rightarrow> Inr (False, result)
      | Some xs \<Rightarrow> bindR (iface_loop family xs result) (\<lambda>r. Inr (True, r)))"

definition GetInterfaceAddress ::
  "(string \<times> byte list option \<times> byte list option) list option \<Rightarrow> (address \<times> u32) list \<Rightarrow> string \<Rightarrow> int \<Rightarrow>
     (bool \<times> (address \<times> u32) list) res" where
  "GetInterfaceAddress ifs result iface family =
     (if iface = [] \<or> iface = ''*'' then
        Inr (True, result @
          (if family = AF_INET \<or> family = AF_UNSPEC then [(IPv4Address (newIPv4Address 0 0), 0)] else []) @
          (if family = AF_INET6 \<or> family = AF_UNSPEC then [(IPv6Address newIPv6Address, 0)] else []))
      else bindR (GetInterfaceAddress_all ifs [] family) (\<lambda>(ok, results).
        if \<not> ok then Inr (False, result)
        else Inr (True, result @ map snd (filter (\<lambda>x. fst x = iface) results))))"

section \<open>Counting bits\<close>

text \<open>Clearing the lowest bit that is set: the step of the counting loop.\<close>

lemma and_pred_clears:
  fixes v :: "'a::len word"
  assumes "bit v n" "\<And>i. i < n \<Longrightarrow> \<not> bit v i"
  shows "v AND (v - 1) = v AND NOT (push_bit n 1)"
proof -
  define w where "w = v AND NOT (push_bit n 1 :: 'a word)"
  have "v = w OR push_bit n 1"
    using assms(1) by (intro bit_word_eqI) (auto simp: w_def bit_simps)
  moreover have "w AND push_bit n 1 = 0" by (intro bit_word_eqI) (auto simp: w_def bit_simps)
  ultimately have "v = w + 2 ^ n" by (simp add: disjunctive_add_eq_or push_bit_eq_mult)
  then have "v - 1 = w + mask n" by (simp add: mask_eq_exp_minus_1)
  also have "w AND mask n = 0"
    using assms(2) by (intro bit_word_eqI) (auto simp: w_def bit_simps)
  then have "w + mask n = w OR mask n" by (rule disjunctive_add_eq_or)
  finally have "v - 1 = w OR mask n" .
  then show ?thesis
    using assms by (intro bit_word_eqI) (auto simp: w_def bit_simps)
qed

lemma CountBytes_card: "CountBytes v = card {i. bit v i}"
proof (induction v rule: CountBytes.induct)
  case (1 v)
  show ?case
  proof (cases "v = 0")
    case True
    then show ?thesis by (simp add: CountBytes.simps)
  next
    case False
    then obtain k where "bit v k" by (auto simp: bit_eq_iff)
    define n where "n = (LEAST i. bit v i)"
    have n: "bit v n" "\<And>i. i < n \<Longrightarrow> \<not> bit v i"
      unfolding n_def by (rule LeastI [of "bit v", OF \<open>bit v k\<close>]) (rule not_less_Least)
    have lt: "i < LENGTH('a)" if "bit v i" for i using that by (rule bit_imp_le_length)
    have fin: "finite {i. bit v i}" by (rule finite_subset [of _ "{..<LENGTH('a)}"]) (auto dest: lt)
    have "bit (v AND (v - 1)) i \<longleftrightarrow> bit v i \<and> i \<noteq> n" for i
    proof -
      have "v AND (v - 1) = v AND NOT (push_bit n 1)" by (rule and_pred_clears) (use n in blast)+
      then show ?thesis using lt [OF n(1)] by (simp only:) (auto simp: bit_simps dest: lt)
    qed
    then have "{i. bit (v AND (v - 1)) i} = {i. bit v i} - {n}" by blast
    then have "card {i. bit v i} = Suc (card {i. bit (v AND (v - 1)) i})"
      using n(1) card_Suc_Diff1 [OF fin, of n] by simp
    then show ?thesis using 1 [OF False] False by (subst CountBytes.simps) simp
  qed
qed

lemma CountBytes_ByteSwap: "CountBytes (ByteSwap (v :: u32)) = CountBytes v"
proof -
  let ?f = "\<lambda>k::nat. 8 * (3 - k div 8) + k mod 8"
  have inv: "?f (?f k) = k" if "k < 32" for k using that by (auto simp: div_mult2_eq) 
  have dvd: "8 dvd LENGTH(32)" by simp
  have sub: "{i. bit v i} \<subseteq> {..<32}" by (auto dest: bit_imp_le_length)
  have "bij_betw ?f {i. bit (ByteSwap v) i} {i. bit v i}"
  proof (rule bij_betw_byWitness [where f' = ?f])
    show "\<forall>a\<in>{i. bit (ByteSwap v) i}. ?f (?f a) = a" "\<forall>a\<in>{i. bit v i}. ?f (?f a) = a"
      using sub by (auto simp: bit_ByteSwap [OF dvd] inv)
    show "?f ` {i. bit (ByteSwap v) i} \<subseteq> {i. bit v i}" by (auto simp: bit_ByteSwap [OF dvd])
    show "?f ` {i. bit v i} \<subseteq> {i. bit (ByteSwap v) i}"
      using sub by (auto simp: bit_ByteSwap [OF dvd] inv)
  qed
  then show ?thesis unfolding CountBytes_card by (rule bij_betw_same_card)
qed

section \<open>Masks of 32 bits\<close>

lemma sint_push_one: "k < 31 \<Longrightarrow> sint (push_bit k 1 :: 32 word) = 2 ^ k"
proof -
  assume "k < 31"
  then have "(2 :: int) ^ k < 2 ^ 31" by (intro power_strict_increasing) simp_all
  then have "signed_take_bit 31 ((2 :: int) ^ k) = 2 ^ k"
    by (intro signed_take_bit_int_eq_self) (simp_all add: order_trans [of _ 0])
  moreover have "(push_bit k 1 :: 32 word) = word_of_int (2 ^ k)" by (simp add: push_bit_eq_mult)
  ultimately show ?thesis by (simp add: sint_sbintrunc' del: of_int_power)
qed

lemma CreateMask32:
  assumes "2 \<le> unat p" "unat p \<le> 32"
  shows "CreateMask p = Inr (mask (32 - unat p) :: u32)"
proof -
  define k where "k = 32 - unat p"
  have "uint p = int (unat p)" by simp
  then have k: "k < 31" "uint p = 32 - int k" using assms by (simp_all only: k_def of_nat_diff)
  have "(int LENGTH(32) - uint p) mod 2 ^ 64 = int k" using k by simp
  moreover have "\<not> int k \<ge> 32" "\<not> (2 ^ k - 1 < - (2 ^ 31 :: int))" using k(1) by (simp_all add: not_less order_trans [of _ 0])
  ultimately have "CreateMask p = (Inr (word_of_int (2 ^ k - 1)) :: u32 res)"
    unfolding CreateMask_def Let_def by (simp only: if_False nat_int sint_push_one [OF k(1)])
  then show ?thesis by (simp add: k_def mask_eq_exp_minus_1)
qed

lemma CreateMask32_faults: "CreateMask (0 :: u32) = (Inl BadShift :: u32 res)" "CreateMask (1 :: u32) = (Inl SignedOverflow :: u32 res)"
  by (simp_all add: CreateMask_def)

text \<open>The IPv4 address as the number it stands for.\<close>

definition host_order :: "sockaddr_in \<Rightarrow> u32" where
  "host_order s = ByteSwapOnLittleEndian (sin_addr s)"

lemma CountBytes_not_mask: "k \<le> 32 \<Longrightarrow> CountBytes (NOT (mask k :: u32)) = 32 - k"
proof -
  assume k: "k \<le> 32"
  have "{i. bit (NOT (mask k :: u32)) i} = {k..<32}" by (auto simp: bit_simps dest: bit_imp_le_length)
  then show ?thesis by (simp add: CountBytes_card)
qed

section \<open>Searching texts\<close>

lemma index_of_None: "index_of c xs = None \<longleftrightarrow> c \<notin> set xs"
  by (induction xs) auto

lemma index_of_append: "c \<notin> set xs \<Longrightarrow> index_of c (xs @ ys) = map_option (\<lambda>j. length xs + j) (index_of c ys)"
proof (induction xs)
  case Nil
  then show ?case by (cases "index_of c ys") simp_all
next
  case (Cons x xs)
  then show ?case by (cases "index_of c ys") auto
qed

section \<open>Memory and structures\<close>

fun address_wf :: "address \<Rightarrow> bool" where
  "address_wf (IPv4Address s) \<longleftrightarrow> uint (sin_family s) = AF_INET \<and> length (sin_zero s) = 8"
| "address_wf (IPv6Address s) \<longleftrightarrow> uint (sin6_family s) = AF_INET6 \<and> length (sin6_addr s) = 16"
| "address_wf (UnixAddress s n) \<longleftrightarrow> uint (sun_family s) = AF_UNIX \<and> length (sun_path s) = 108 \<and> n \<le> 110"
| "address_wf (UnknownAddress s) \<longleftrightarrow> uint (sa_family s) \<notin> {AF_INET, AF_INET6} \<and> length (sa_data s) = 14"

lemma take_word_bytes [simp]:
  "take 2 (word_bytes (w :: u16) @ xs) = word_bytes w" "drop 2 (word_bytes (w :: u16) @ xs) = xs"
  "take 4 (word_bytes (v :: u32) @ xs) = word_bytes v" "drop 4 (word_bytes (v :: u32) @ xs) = xs"
  by simp_all

lemma sin_of_bytes: "length (sin_zero s) = 8 \<Longrightarrow> sin_of (sin_bytes s) = s"
  by (simp add: sin_of_def sin_bytes_def)

lemma sin6_of_bytes: "length (sin6_addr s) = 16 \<Longrightarrow> sin6_of (sin6_bytes s) = s"
  by (simp add: sin6_of_def sin6_bytes_def)

lemma constructors_wf:
  "address_wf (IPv4Address (newIPv4Address a p))" "address_wf (IPv6Address newIPv6Address)" "address_wf newUnixAddress"
  "newUnixAddress_path path = Inr u \<Longrightarrow> address_wf u"
  by (auto simp: newIPv4Address_def newIPv6Address_def newUnixAddress_def newUnixAddress_path_def family_defs
      MAX_PATH_LEN_def Let_def split: if_splits)

section \<open>Properties\<close>

text \<open>
  C38. The mask operations on IPv4 addresses: for a prefix length from 2 to 32, in host order, the
  broadcast address is the address with all host bits set, \<open>SubnetAddress\<close> is the netmask, whose bits
  counted by \<open>CountBytes\<close> give the prefix length back, and \<open>NetworkAddress\<close> keeps the host bits and clears the
  network bits.  A prefix length of 0 shifts by the width of the type and one of 1 overflows.
\<close>

theorem ipv4_masks:
  assumes "2 \<le> unat p" "unat p \<le> 32"
  shows "(\<exists>b n m. IPv4_BroadcastAddress p s = Inr (Some b) \<and> host_order b = host_order s OR mask (32 - unat p)
      \<and> IPv4_NetworkAddress p s = Inr (Some n) \<and> host_order n = host_order s AND mask (32 - unat p)
      \<and> IPv4_SubnetAddress p = Inr m \<and> host_order m = NOT (mask (32 - unat p)) \<and> CountBytes (sin_addr m) = unat p)
    \<and> IPv4_BroadcastAddress 0 s = Inl BadShift \<and> IPv4_BroadcastAddress 1 s = Inl SignedOverflow"
proof -
  have dvd: "8 dvd LENGTH(32)" by simp
  have p: "\<not> p > 32" using assms by (simp add: word_less_nat_alt)
  note swap = ByteSwap_bitwise [OF dvd]
  have "CountBytes (NOT (ByteSwap (mask (32 - unat p)) :: u32)) = unat p"
    using assms by (simp add: swap(3) [symmetric] CountBytes_ByteSwap CountBytes_not_mask)
  then show ?thesis
    using p by (simp add: IPv4_BroadcastAddress_def IPv4_NetworkAddress_def IPv4_SubnetAddress_def
        CreateMask32 [OF assms] CreateMask32_faults host_order_def swap)
qed

theorem ipv4_masks_witness:
  "\<exists>m. IPv4_SubnetAddress 24 = Inr m \<and> host_order m = NOT (mask 8) \<and> CountBytes (sin_addr m) = 24"
  using ipv4_masks [of 24 "newIPv4Address 0 0"] by auto

text \<open>
  Addresses survive the way through memory: creating an address from the memory of a well-formed
  IPv4, IPv6 or unknown address gives the same address, with the port that was set last, and fewer
  bytes than the structure has are read past their end.
\<close>

theorem address_memory_roundtrip:
  assumes "address_wf a" "\<forall>s n. a \<noteq> UnixAddress s n"
  shows "Address_Create (Some (GetAddr a)) = Inr (Some a)
    \<and> (is_ip a \<longrightarrow> GetPort (SetPort v a) = ucast v \<and> address_wf (SetPort v a))
    \<and> (n < length (GetAddr a) \<longrightarrow> Address_Create (Some (take n (GetAddr a))) = Inl OutOfBounds)"
proof (cases a)
  case (IPv4Address s)
  then show ?thesis using assms(1)
    by (auto simp: Address_Create_def Let_def sin_of_bytes) (auto simp: sin_bytes_def take_append)
next
  case (IPv6Address s)
  then show ?thesis using assms(1)
    by (auto simp: Address_Create_def Let_def sin6_of_bytes) (auto simp: sin6_bytes_def family_defs take_append)
next
  case (UnknownAddress s)
  then show ?thesis using assms(1) by (auto simp: Address_Create_def Let_def take_append)
qed (use assms(2) in simp)

theorem address_memory_roundtrip_witness:
  "Address_Create (Some (GetAddr (IPv4Address (newIPv4Address 1 80)))) = Inr (Some (IPv4Address (newIPv4Address 1 80)))"
  using address_memory_roundtrip [OF constructors_wf(1), of 1 80] by simp

text \<open>
  Splitting a host text: without brackets and colons the whole text is the node and there is no
  service; with exactly one colon, after a node that is not empty, the parts around it are node and
  service; with two colons or more and no bracket the whole text is the node, but the service is the
  text from the first colon on; a bracketed address loses a port that follows it, and without one the
  service points past the end of the text.
\<close>

theorem split_host_spec:
  assumes "CHR '':'' \<notin> set a" "CHR '':'' \<notin> set b" "a \<noteq> []" "hd a \<noteq> CHR ''[''" "CHR '']'' \<notin> set v" "v \<noteq> []"
  shows "split_host a = (a, None)
    \<and> split_host (a @ '':'' @ b) = (a, Some (length a + 1))
    \<and> split_host (a @ '':'' @ c @ '':'' @ d) = (a @ '':'' @ c @ '':'' @ d, Some (length a))
    \<and> split_host (''['' @ v @ '']:'' @ b) = (v, None)
    \<and> Lookup gai r (''['' @ v @ '']'') hints = Inl OutOfBounds"
proof -
  have hd: "hd (a @ xs) = hd a" "a @ xs \<noteq> []" for xs using assms(3) by simp_all
  have nobr: "split_brackets (a @ xs) = ([], None)" for xs
    using assms(3,4) by (simp add: split_brackets_def)
  have none: "split_colon a = ([], None)"
    using index_of_None [of "CHR '':''" a] assms(1) by (simp add: split_colon_def memchr_from_def)
  have one: "split_colon (a @ '':'' @ b) = (a, Some (length a + 1))"
    using assms(1,2) by (simp add: split_colon_def memchr_from_def index_of_append index_of_None)
  have two: "split_colon (a @ '':'' @ c @ '':'' @ d) = ([], Some (length a))"
    using assms(1) by (simp add: split_colon_def memchr_from_def index_of_append index_of_None)
  have br: "split_brackets (''['' @ v @ '']'' @ xs) =
      (v, if xs = [] \<or> hd xs = CHR 0x00 then Some (length v + 3) else None)" for xs
    using assms(5) by (auto simp: split_brackets_def memchr_from_def index_of_append nth_append neq_Nil_conv)
  show ?thesis
    using nobr [of "[]"] nobr [of "'':'' @ b"] nobr [of "'':'' @ c @ '':'' @ d"] none one two
      br [of "'':'' @ b"] br [of "[]"] assms(3,6)
    by (simp add: split_host_def Lookup_def service_text_def)
qed

theorem split_host_spec_witness:
  "split_host ''localhost:80'' = (''localhost'', Some 10) \<and> split_host ''[::1]:80'' = (''::1'', None)"
  using split_host_spec [of "''localhost''" "''80''" "''::1''"] by (simp add: numeral_eq_Suc)

end
