(* ===== verification/Socket.thy ===== *)
theory Socket
  imports Address Hook IOManager
begin

text \<open>
  Sockets (\<open>gudov/socket.{h,cpp}\<close>): creation, connecting, binding, listening, accepting, closing, the
  transfer calls and their guard, timeouts, and the cached addresses.  System calls go through the
  hooked ones; what the system answers is an argument of each operation: the descriptor from
  \<open>socket()\<close>, the scripts of a connect or transfer, and the memory that \<open>getsockname\<close> and \<open>getpeername\<close>
  fill.  A descriptor is open while the system has status flags for it.

  The lemmas show that timeouts can be read back, what closing releases and that it keeps the
  cached addresses.
\<close>

section \<open>State\<close>

definition SOCK_STREAM :: int where "SOCK_STREAM = 1"
definition SOCK_DGRAM :: int where "SOCK_DGRAM = 2"
definition TCP_ESTABLISHED :: int where "TCP_ESTABLISHED = 1"
definition SO_REUSEADDR :: int where "SO_REUSEADDR = 2"
definition IPPROTO_TCP :: int where "IPPROTO_TCP = 6"
definition TCP_NODELAY :: int where "TCP_NODELAY = 1"

record sock =
  sk_sock :: int
  sk_family :: int
  sk_type :: int
  sk_protocol :: int
  sk_connected :: bool
  sk_local :: "address option"
  sk_remote :: "address option"

definition newSocket :: "int \<Rightarrow> int \<Rightarrow> int \<Rightarrow> sock" where
  "newSocket family type protocol =
     \<lparr>sk_sock = -1, sk_family = family, sk_type = type, sk_protocol = protocol, sk_connected = False,
      sk_local = None, sk_remote = None\<rparr>"

definition IsValid :: "sock \<Rightarrow> bool" where "IsValid s \<longleftrightarrow> sk_sock s \<noteq> -1"
definition IsConnected :: "sock \<Rightarrow> bool" where "IsConnected s \<longleftrightarrow> sk_connected s"

section \<open>Options and timeouts\<close>

text \<open>The result of the system call is \<open>ok\<close>; a time value is given as seconds and microseconds.\<close>

definition SetOption :: "bool \<Rightarrow> int \<Rightarrow> int \<Rightarrow> int \<times> int \<Rightarrow> sock \<Rightarrow> hstate \<Rightarrow> (bool \<times> hstate) res" where
  "SetOption ok level option tv s h =
     bindR (hook_setsockopt (sk_sock s) level option tv h) (\<lambda>h'. Inr (ok, h'))"

text \<open>\<open>int(v / 1000)\<close> and \<open>int(v % 1000 * 1000)\<close>.\<close>

definition timeval_of :: "int \<Rightarrow> int \<times> int" where
  "timeval_of v = (to_int32 (v sdiv 1000), to_int32 ((v smod 1000) * 1000))"

definition SetSendTimeout :: "bool \<Rightarrow> int \<Rightarrow> sock \<Rightarrow> hstate \<Rightarrow> hstate res" where
  "SetSendTimeout ok v s h =
     bindR (SetOption ok SOL_SOCKET SO_SNDTIMEO (timeval_of v) s h) (\<lambda>(_, h'). Inr h')"

definition SetRecvTimeout :: "bool \<Rightarrow> int \<Rightarrow> sock \<Rightarrow> hstate \<Rightarrow> hstate res" where
  "SetRecvTimeout ok v s h =
     bindR (SetOption ok SOL_SOCKET SO_RCVTIMEO (timeval_of v) s h) (\<lambda>(_, h'). Inr h')"

definition GetSendTimeout :: "sock \<Rightarrow> hstate \<Rightarrow> int res" where
  "GetSendTimeout s h =
     bindR (FdMgr_Get (sk_sock s) False (fdtab h) (osys h)) (\<lambda>(ctx, _, _).
       Inr (case ctx of Some c \<Rightarrow> sint (GetTimeout SO_SNDTIMEO c) | None \<Rightarrow> -1))"

definition GetRecvTimeout :: "sock \<Rightarrow> hstate \<Rightarrow> int res" where
  "GetRecvTimeout s h =
     bindR (FdMgr_Get (sk_sock s) False (fdtab h) (osys h)) (\<lambda>(ctx, _, _).
       Inr (case ctx of Some c \<Rightarrow> sint (GetTimeout SO_RCVTIMEO c) | None \<Rightarrow> -1))"

text \<open>\<open>InitSock\<close> sets options that the model does not track.\<close>

definition InitSock :: "sock \<Rightarrow> hstate \<Rightarrow> hstate res" where
  "InitSock s h =
     bindR (SetOption True SOL_SOCKET SO_REUSEADDR (1, 0) s h) (\<lambda>(_, h1).
       if sk_type s = SOCK_STREAM then
         bindR (SetOption True IPPROTO_TCP TCP_NODELAY (1, 0) s h1) (\<lambda>(_, h2). Inr h2)
       else Inr h1)"

definition NewSock :: "int \<Rightarrow> sock \<Rightarrow> hstate \<Rightarrow> (sock \<times> hstate) res" where
  "NewSock fd s h =
     bindR (hook_socket fd h) (\<lambda>(r, h1).
       (let s1 = s\<lparr>sk_sock := r\<rparr> in
        if r \<noteq> -1 then bindR (InitSock s1 h1) (\<lambda>h2. Inr (s1, h2)) else Inr (s1, h1)))"

section \<open>Creation\<close>

definition CreateTCP :: "address \<Rightarrow> sock" where
  "CreateTCP a = newSocket (GetFamily a) SOCK_STREAM 0"

definition udp_ready :: "int \<Rightarrow> sock \<Rightarrow> hstate \<Rightarrow> (sock \<times> hstate) res" where
  "udp_ready fd s h = bindR (NewSock fd s h) (\<lambda>(s1, h1). Inr (s1\<lparr>sk_connected := True\<rparr>, h1))"

definition CreateUDP :: "int \<Rightarrow> address \<Rightarrow> hstate \<Rightarrow> (sock \<times> hstate) res" where
  "CreateUDP fd a h = udp_ready fd (newSocket (GetFamily a) SOCK_DGRAM 0) h"

definition CreateTCPSocket :: sock where "CreateTCPSocket = newSocket AF_INET SOCK_STREAM 0"
definition CreateUDPSocket :: "int \<Rightarrow> hstate \<Rightarrow> (sock \<times> hstate) res" where
  "CreateUDPSocket fd h = udp_ready fd (newSocket AF_INET SOCK_DGRAM 0) h"
definition CreateTCPSocket6 :: sock where "CreateTCPSocket6 = newSocket AF_INET6 SOCK_STREAM 0"
definition CreateUDPSocket6 :: "int \<Rightarrow> hstate \<Rightarrow> (sock \<times> hstate) res" where
  "CreateUDPSocket6 fd h = udp_ready fd (newSocket AF_INET6 SOCK_DGRAM 0) h"
definition CreateUnixTCPSocket :: sock where "CreateUnixTCPSocket = newSocket AF_UNIX SOCK_STREAM 0"
definition CreateUnixUDPSocket :: sock where "CreateUnixUDPSocket = newSocket AF_UNIX SOCK_DGRAM 0"

section \<open>Addresses\<close>

text \<open>The address object of the socket's family over the memory and length the system filled in.\<close>

definition addr_of_family :: "int \<Rightarrow> byte list \<Rightarrow> nat \<Rightarrow> address" where
  "addr_of_family family m len =
     (if family = AF_INET then IPv4Address (sin_of m)
      else if family = AF_INET6 then IPv6Address (sin6_of m)
      else if family = AF_UNIX then
        SetAddrLen len (UnixAddress \<lparr>sun_family = bytes_word (take 2 m), sun_path = take 108 (drop 2 m)\<rparr> 109)
      else UnknownAddress \<lparr>sa_family = bytes_word (take 2 m), sa_data = take 14 (drop 2 m)\<rparr>)"

definition GetRemoteAddress :: "(byte list \<times> nat) option \<Rightarrow> sock \<Rightarrow> address \<times> sock" where
  "GetRemoteAddress peer s =
     (case sk_remote s of
        Some a \<Rightarrow> (a, s)
      | None \<Rightarrow>
          (case peer of
             None \<Rightarrow> (newUnknownAddress (sk_family s), s)
           | Some (m, len) \<Rightarrow>
               (let a = addr_of_family (sk_family s) m len in (a, s\<lparr>sk_remote := Some a\<rparr>))))"

definition GetLocalAddress :: "(byte list \<times> nat) option \<Rightarrow> sock \<Rightarrow> address \<times> sock" where
  "GetLocalAddress name s =
     (case sk_local s of
        Some a \<Rightarrow> (a, s)
      | None \<Rightarrow>
          (case name of
             None \<Rightarrow> (newUnknownAddress (sk_family s), s)
           | Some (m, len) \<Rightarrow>
               (let a = addr_of_family (sk_family s) m len in (a, s\<lparr>sk_local := Some a\<rparr>))))"

section \<open>Operations\<close>

definition Close :: "sock \<Rightarrow> hstate \<Rightarrow> (bool \<times> haction list \<times> sock \<times> hstate) res" where
  "Close s h =
     (if \<not> sk_connected s \<and> sk_sock s = -1 then Inr (True, [], s, h)
      else let s1 = s\<lparr>sk_connected := False\<rparr> in
        if sk_sock s1 \<noteq> -1 then
          bindR (hook_close (sk_sock s1) h) (\<lambda>(acts, h1). Inr (False, acts, s1\<lparr>sk_sock := -1\<rparr>, h1))
        else Inr (False, [], s1, h))"

text \<open>A descriptor is made when there is none; \<open>fd\<close> is what \<open>socket()\<close> would give.\<close>

definition ensure_sock :: "int \<Rightarrow> sock \<Rightarrow> hstate \<Rightarrow> (sock \<times> hstate) res" where
  "ensure_sock fd s h = (if IsValid s then Inr (s, h) else NewSock fd s h)"

definition Bind :: "int \<Rightarrow> bool \<Rightarrow> (byte list \<times> nat) option \<Rightarrow> address \<Rightarrow> sock \<Rightarrow> hstate \<Rightarrow> (bool \<times> sock \<times> hstate) res" where
  "Bind fd ok name addr s h =
     bindR (ensure_sock fd s h) (\<lambda>(s1, h1).
       if \<not> IsValid s1 then Inr (False, s1, h1)
       else if GetFamily addr \<noteq> sk_family s1 then Inr (False, s1, h1)
       else if \<not> ok then Inr (False, s1, h1)
       else Inr (True, snd (GetLocalAddress name s1), h1))"

definition Connect ::
  "int \<Rightarrow> u64 \<Rightarrow> outcome list \<Rightarrow> parking list \<Rightarrow> outcome \<Rightarrow> (byte list \<times> nat) option \<Rightarrow> (byte list \<times> nat) option \<Rightarrow>
     address \<Rightarrow> sock \<Rightarrow> hstate \<Rightarrow> (bool \<times> haction list \<times> sock \<times> hstate) res" where
  "Connect fd timeoutMs os ps so_error peer name addr s h =
     bindR (ensure_sock fd s h) (\<lambda>(s1, h1).
       if \<not> IsValid s1 then Inr (False, [], s1, h1)
       else if GetFamily addr \<noteq> sk_family s1 then Inr (False, [], s1, h1)
       else bindR (if timeoutMs = -1 then hook_connect (sk_sock s1) os ps so_error h1
                   else connectWithTimeout (sk_sock s1) timeoutMs os ps so_error h1) (\<lambda>(r, acts).
         if r \<noteq> Ret 0 then
           bindR (Close s1 h1) (\<lambda>(_, acts2, s2, h2). Inr (False, acts @ acts2, s2, h2))
         else let s2 = s1\<lparr>sk_connected := True\<rparr>;
                  s3 = snd (GetRemoteAddress peer s2);
                  s4 = snd (GetLocalAddress name s3)
              in Inr (True, acts, s4, h1)))"

definition Listen :: "bool \<Rightarrow> sock \<Rightarrow> bool" where
  "Listen ok s \<longleftrightarrow> IsValid s \<and> ok"

definition Init :: "int \<Rightarrow> (byte list \<times> nat) option \<Rightarrow> (byte list \<times> nat) option \<Rightarrow> sock \<Rightarrow> hstate \<Rightarrow> (bool \<times> sock \<times> hstate) res" where
  "Init fd peer name s h =
     bindR (FdMgr_Get fd False (fdtab h) (osys h)) (\<lambda>(ctx, _, _).
       if managed ctx (osys h) then
         (let s1 = s\<lparr>sk_sock := fd, sk_connected := True\<rparr> in
          bindR (InitSock s1 h) (\<lambda>h1. Inr (True, snd (GetRemoteAddress peer (snd (GetLocalAddress name s1))), h1)))
       else Inr (False, s, h))"

definition Accept ::
  "outcome list \<Rightarrow> parking list \<Rightarrow> (byte list \<times> nat) option \<Rightarrow> (byte list \<times> nat) option \<Rightarrow> sock \<Rightarrow> hstate \<Rightarrow>
     (sock option \<times> haction list \<times> hstate) res" where
  "Accept os ps peer name s h =
     bindR (hook_accept (sk_sock s) os ps h) (\<lambda>(r, acts, h1).
       case r of
         Err e \<Rightarrow> Inr (None, acts, h1)
       | Ret fd \<Rightarrow>
           bindR (Init fd peer name (newSocket (sk_family s) (sk_type s) (sk_protocol s)) h1) (\<lambda>(ok, c, h2).
             Inr (if ok then Some c else None, acts, h2)))"

text \<open>
  \<open>None\<close> is -1 without a system call; the four calls of each direction differ in what they transfer.
  The \<open>ssize_t\<close> of the call is returned as an \<open>int\<close>.
\<close>

definition narrow :: "outcome \<Rightarrow> outcome" where
  "narrow r = (case r of Ret n \<Rightarrow> Ret (to_int32 n) | Err e \<Rightarrow> Err e)"

definition guarded :: "(int \<Rightarrow> (outcome \<times> haction list) res) \<Rightarrow> sock \<Rightarrow> (outcome option \<times> haction list) res" where
  "guarded call s =
     (if IsConnected s then bindR (call (sk_sock s)) (\<lambda>(r, acts). Inr (Some (narrow r), acts)) else Inr (None, []))"

definition Send :: "outcome list \<Rightarrow> parking list \<Rightarrow> sock \<Rightarrow> hstate \<Rightarrow> (outcome option \<times> haction list) res" where
  "Send os ps s h = guarded (\<lambda>fd. hook_write fd os ps h) s"
definition Send_iov :: "outcome list \<Rightarrow> parking list \<Rightarrow> sock \<Rightarrow> hstate \<Rightarrow> (outcome option \<times> haction list) res" where
  "Send_iov os ps s h = guarded (\<lambda>fd. hook_write fd os ps h) s"
definition SendTo :: "outcome list \<Rightarrow> parking list \<Rightarrow> sock \<Rightarrow> hstate \<Rightarrow> (outcome option \<times> haction list) res" where
  "SendTo os ps s h = guarded (\<lambda>fd. hook_write fd os ps h) s"
definition SendTo_iov :: "outcome list \<Rightarrow> parking list \<Rightarrow> sock \<Rightarrow> hstate \<Rightarrow> (outcome option \<times> haction list) res" where
  "SendTo_iov os ps s h = guarded (\<lambda>fd. hook_write fd os ps h) s"
definition Recv :: "outcome list \<Rightarrow> parking list \<Rightarrow> sock \<Rightarrow> hstate \<Rightarrow> (outcome option \<times> haction list) res" where
  "Recv os ps s h = guarded (\<lambda>fd. hook_read fd os ps h) s"
definition Recv_iov :: "outcome list \<Rightarrow> parking list \<Rightarrow> sock \<Rightarrow> hstate \<Rightarrow> (outcome option \<times> haction list) res" where
  "Recv_iov os ps s h = guarded (\<lambda>fd. hook_read fd os ps h) s"
definition RecvFrom :: "outcome list \<Rightarrow> parking list \<Rightarrow> sock \<Rightarrow> hstate \<Rightarrow> (outcome option \<times> haction list) res" where
  "RecvFrom os ps s h = guarded (\<lambda>fd. hook_read fd os ps h) s"
definition RecvFrom_iov :: "outcome list \<Rightarrow> parking list \<Rightarrow> sock \<Rightarrow> hstate \<Rightarrow> (outcome option \<times> haction list) res" where
  "RecvFrom_iov os ps s h = guarded (\<lambda>fd. hook_read fd os ps h) s"

text \<open>When the option cannot be read, the state is taken from an uninitialised structure.\<close>

definition CheckConnected :: "int option \<Rightarrow> sock \<Rightarrow> (bool \<times> sock) res" where
  "CheckConnected tcpi_state s =
     (case tcpi_state of
        None \<Rightarrow> Inl Indeterminate
      | Some st \<Rightarrow> Inr (st = TCP_ESTABLISHED, s\<lparr>sk_connected := (st = TCP_ESTABLISHED)\<rparr>))"

text \<open>\<open>r\<close> is what the system answers; the variable the option is read into keeps its value on failure.\<close>

definition GetOption :: "outcome \<Rightarrow> int \<Rightarrow> bool \<times> int" where
  "GetOption r result = (case r of Ret v \<Rightarrow> (True, v) | Err _ \<Rightarrow> (False, result))"

definition GetError :: "outcome \<Rightarrow> int" where
  "GetError r =
     (let (ok, error) = GetOption r 0 in if ok then error else (case r of Err e \<Rightarrow> e | Ret _ \<Rightarrow> error))"

definition CancelRead :: "bool \<Rightarrow> sock \<Rightarrow> 'cb iomgr \<Rightarrow> (bool \<times> 'cb iomgr) res" where
  "CancelRead ok s io = CancelEvent (sk_sock s) EV_READ ok io"
definition CancelWrite :: "bool \<Rightarrow> sock \<Rightarrow> 'cb iomgr \<Rightarrow> (bool \<times> 'cb iomgr) res" where
  "CancelWrite ok s io = CancelEvent (sk_sock s) EV_WRITE ok io"
definition CancelAccept :: "bool \<Rightarrow> sock \<Rightarrow> 'cb iomgr \<Rightarrow> (bool \<times> 'cb iomgr) res" where
  "CancelAccept ok s io = CancelEvent (sk_sock s) EV_READ ok io"
definition sock_CancelAll :: "bool \<Rightarrow> sock \<Rightarrow> 'cb iomgr \<Rightarrow> (bool \<times> 'cb iomgr) res" where
  "sock_CancelAll ok s io = CancelAll (sk_sock s) ok io"

section \<open>Printing\<close>

definition opt_addr :: "string \<Rightarrow> address option \<Rightarrow> string res" where
  "opt_addr label a = (case a of None \<Rightarrow> Inr [] | Some x \<Rightarrow> bindR (Address_Insert x) (\<lambda>t. Inr (label @ t)))"

definition Dump_socket :: "sock \<Rightarrow> string res" where
  "Dump_socket s =
     bindR (opt_addr '' local_address='' (sk_local s)) (\<lambda>l.
     bindR (opt_addr '' remote_address='' (sk_remote s)) (\<lambda>r.
       Inr (''[Socket sock='' @ sdec (sk_sock s) @ '' is_connected='' @ (if sk_connected s then ''1'' else ''0'') @
         '' family='' @ sdec (sk_family s) @ '' type='' @ sdec (sk_type s) @ '' protocol='' @ sdec (sk_protocol s) @
         l @ r @ '']'')))"

section \<open>Lemmas\<close>

lemma sdiv_smod_pos: "0 \<le> (a :: int) \<Longrightarrow> 0 < b \<Longrightarrow> a sdiv b = a div b \<and> a smod b = a mod b"
  by (cases "a = 0") (simp_all add: signed_divide_int_def signed_modulo_int_def minus_div_mult_eq_mod sgn_if)

lemma timeval_ms:
  assumes "-1 \<le> v" "v < 2147483648000"
  shows "fst (timeval_of v) * 1000 + (snd (timeval_of v) sdiv 1000) = v"
proof (cases "v = -1")
  case True
  then show ?thesis
    by (simp add: timeval_of_def signed_divide_int_def signed_modulo_int_def)
next
  case False
  then have v: "0 \<le> v" using assms(1) by simp
  have b: "v div 1000 < 2 ^ 31" "0 \<le> v div 1000" "v mod 1000 * 1000 < 2 ^ 31" "0 \<le> v mod 1000 * 1000"
    using assms(2) v pos_mod_bound [of 1000 v] by (simp_all add: pos_imp_zdiv_nonneg_iff)
  have "timeval_of v = (v div 1000, v mod 1000 * 1000)"
    unfolding timeval_of_def using sdiv_smod_pos [OF v, of 1000] to_int32_small [of "v div 1000"]
      to_int32_small [of "v mod 1000 * 1000"] b by (simp only:)
  moreover have "v mod 1000 * 1000 sdiv 1000 = v mod 1000" using sdiv_smod_pos [OF b(4), of 1000] by simp
  ultimately show ?thesis by simp
qed

lemma SetOption_timeout:
  assumes "hook_enable h" "fdt_lookup (fdtab h) (sk_sock s) = Some c" "so = SO_RCVTIMEO \<or> so = SO_SNDTIMEO"
  shows "SetOption ok SOL_SOCKET so tv s h = Inr (ok, h\<lparr>fdtab := fdt_update (sk_sock s)
    (SetTimeout so (word_of_int (fst tv * 1000 + (snd tv sdiv 1000)))) (fdtab h)\<rparr>)"
  using assms by (auto simp: SetOption_def hook_setsockopt_def FdMgr_Get_lookup)

lemma SetTimeout_Get:
  "GetTimeout so (SetTimeout so' v c) =
     (if (so = SO_RCVTIMEO) = (so' = SO_RCVTIMEO) then v else GetTimeout so c)"
  by (simp add: GetTimeout_def SetTimeout_def)

lemma address_cache:
  "sk_remote s = Some a \<Longrightarrow> sk_remote (snd (GetRemoteAddress peer s)) = Some a"
  "sk_remote (snd (GetLocalAddress name s)) = sk_remote s"
  by (simp_all add: GetRemoteAddress_def GetLocalAddress_def Let_def split: option.splits)

lemma NewSock_remote: "NewSock fd s h = Inr (s', h') \<Longrightarrow> sk_remote s' = sk_remote s"
  by (auto simp: NewSock_def Let_def bindR_def split: sum.splits if_splits)

lemma Connect_keeps_remote:
  assumes "Connect fd t os ps so_error peer name addr s h = Inr (True, acts, s', h')" "sk_remote s = Some a"
  shows "sk_remote s' = Some a"
proof -
  from assms(1) obtain s1 h1 where e: "ensure_sock fd s h = Inr (s1, h1)"
    and s': "s' = snd (GetLocalAddress name (snd (GetRemoteAddress peer (s1\<lparr>sk_connected := True\<rparr>))))"
    by (auto simp: Connect_def Let_def bindR_def split: sum.splits if_splits)
  have "sk_remote s1 = Some a" using e assms(2) NewSock_remote by (auto simp: ensure_sock_def split: if_splits)
  then show ?thesis using s' by (simp add: address_cache)
qed

lemma timeout_set_get:
  assumes "hook_enable h" "fdt_lookup (fdtab h) (sk_sock s) = Some c" "-1 \<le> v" "v < 2147483648000"
  shows "(\<exists>h'. SetRecvTimeout ok v s h = Inr h' \<and> GetRecvTimeout s h' = Inr v \<and> GetSendTimeout s h' = GetSendTimeout s h)
    \<and> (\<exists>h'. SetSendTimeout ok v s h = Inr h' \<and> GetSendTimeout s h' = Inr v \<and> GetRecvTimeout s h' = GetRecvTimeout s h)"
proof -
  have "sint (word_of_int v :: u64) = v" using assms(3,4) by (intro sint_word64_small) simp_all
  moreover have "SO_SNDTIMEO \<noteq> SO_RCVTIMEO" by (simp add: SO_SNDTIMEO_def SO_RCVTIMEO_def)
  ultimately show ?thesis
    using SetOption_timeout [OF assms(1,2), where tv = "timeval_of v", unfolded timeval_ms [OF assms(3,4)]] assms(2)
    by (simp add: SetRecvTimeout_def SetSendTimeout_def GetRecvTimeout_def GetSendTimeout_def FdMgr_Get_lookup
        fdt_lookup_update SetTimeout_Get)
qed

section \<open>Properties\<close>

text \<open>
  Timeouts can be read back: on a socket whose descriptor has a context, with the hooks enabled,
  a receive timeout from -1 (none) up to \<open>2 ^ 31\<close> seconds that is set is the one read afterwards, and
  the send timeout is untouched; and the other way round.
\<close>

theorem timeout_roundtrip:
  assumes "hook_enable h" "fdt_lookup (fdtab h) (sk_sock s) = Some c" "-1 \<le> v" "v < 2147483648000"
  shows "(\<exists>h'. SetRecvTimeout ok v s h = Inr h' \<and> GetRecvTimeout s h' = Inr v \<and> GetSendTimeout s h' = GetSendTimeout s h)
    \<and> (\<exists>h'. SetSendTimeout ok v s h = Inr h' \<and> GetSendTimeout s h' = Inr v \<and> GetRecvTimeout s h' = GetRecvTimeout s h)"
  using timeout_set_get [OF assms] .

theorem timeout_roundtrip_witness:
  "\<exists>h'. SetRecvTimeout True 1500 (CreateTCPSocket\<lparr>sk_sock := 1\<rparr>) demo_hook = Inr h' \<and>
     GetRecvTimeout (CreateTCPSocket\<lparr>sk_sock := 1\<rparr>) h' = Inr 1500"
  using timeout_roundtrip [of demo_hook "CreateTCPSocket\<lparr>sk_sock := 1\<rparr>" _ 1500 True] demo_hook_ctx
  by (auto simp: demo_hook_def)

text \<open>
  C37. Closing a socket closes its descriptor and reports \<open>false\<close>.  With the hooks enabled on the
  calling thread it also removes the descriptor's context, cancels what waits on it when the thread
  has an I/O manager, and touches no other context; with the hooks disabled nothing is cancelled and
  the context of the closed descriptor stays in the table.  The cached addresses are kept either way:
  after connecting the same socket object again, the remote address is still that of the first
  connection.
\<close>

theorem close_releases:
  assumes "0 \<le> sk_sock s" "fdt_lookup (fdtab h) (sk_sock s) = Some c" "sk_remote s = Some a"
  shows "\<exists>acts s' h'. Close s h = Inr (False, acts, s', h')
    \<and> sk_sock s' = -1 \<and> \<not> sk_connected s' \<and> flags (osys h') (sk_sock s) = None
    \<and> (hook_enable h \<longrightarrow> acts = (if has_iom h then [ACancelAll (sk_sock s)] else [])
        \<and> (\<forall>fd. fdt_lookup (fdtab h') fd = (if fd = sk_sock s then None else fdt_lookup (fdtab h) fd)))
    \<and> (\<not> hook_enable h \<longrightarrow> acts = [] \<and> fdt_lookup (fdtab h') (sk_sock s) = Some c)
    \<and> (\<forall>fd t os ps e peer name addr acts s2 h2.
        Connect fd t os ps e peer name addr s' h' = Inr (True, acts, s2, h2) \<longrightarrow> sk_remote s2 = Some a)"
proof -
  let ?s = "s\<lparr>sk_connected := False, sk_sock := -1\<rparr>"
  let ?h = "h\<lparr>fdtab := (if hook_enable h then FdMgr_Del (sk_sock s) (fdtab h) else fdtab h),
    osys := os_close (sk_sock s) (osys h)\<rparr>"
  have "Close s h = Inr (False, if hook_enable h \<and> has_iom h then [ACancelAll (sk_sock s)] else [], ?s, ?h)"
    using assms by (auto simp: Close_def hook_close_def FdMgr_Get_lookup Let_def)
  moreover have "fdt_lookup (FdMgr_Del (sk_sock s) (fdtab h)) fd =
      (if fd = sk_sock s then None else fdt_lookup (fdtab h) fd)" for fd
    using assms(1,2) by (auto simp: fdt_lookup_def FdMgr_Del_def nth_list_update eq_nat_nat_iff split: if_splits)
  moreover have "sk_remote s2 = Some a"
    if "Connect fd t os ps e peer name addr ?s ?h = Inr (True, acts, s2, h2)"
    for fd t os ps e peer name addr acts s2 h2
    using Connect_keeps_remote [OF that] assms(3) by simp
  ultimately show ?thesis using assms(2) by (auto simp: os_close_def)
qed

theorem close_releases_witness:
  "\<exists>s' h'. Close (CreateTCPSocket\<lparr>sk_sock := 1, sk_connected := True, sk_remote := Some newUnixAddress\<rparr>) demo_hook =
     Inr (False, [ACancelAll 1], s', h') \<and> sk_sock s' = -1 \<and> fdt_lookup (fdtab h') 1 = None"
  using close_releases [of
      "CreateTCPSocket\<lparr>sk_sock := 1, sk_connected := True, sk_remote := Some newUnixAddress\<rparr>" demo_hook _ newUnixAddress]
    demo_hook_ctx
  by (auto simp: demo_hook_def)

end
