(* ===== verification/TcpServer.thy ===== *)
theory TcpServer
  imports Socket
begin

text \<open>
  The TCP server (\<open>gudov/tcp_server.{h,cpp}\<close>): binding a list of addresses, starting and stopping, and the
  loop that accepts clients.  Sockets are objects in a store, shared by the server and the tasks it
  schedules on its two I/O managers; the tasks are kept until they end.  What the system answers is an
  argument: one script per address to bind and one per round of the accept loop.

  The lemmas show that binding is all or nothing and leaves no descriptor open when it fails, and that
  every accepted client is handed to the worker with the server's timeout.
\<close>

section \<open>State\<close>

datatype tcp_task = TStartAccept nat | THandleClient nat | TStop

record tcps =
  heap :: "sock list"
  socks :: "nat list"
  io_tasks :: "tcp_task list"
  accept_tasks :: "tcp_task list"
  ts_recv_timeout :: u64
  ts_name :: string
  ts_type :: string
  is_stop :: bool

text \<open>\<open>read_timeout\<close> is the value of the variable \<open>tcp_server.read_timeout\<close>.\<close>

definition newTcpServer :: "u64 \<Rightarrow> tcps" where
  "newTcpServer read_timeout =
     \<lparr>heap = [], socks = [], io_tasks = [], accept_tasks = [], ts_recv_timeout = read_timeout, ts_name = ''gudov/1.0.0'',
      ts_type = [], is_stop = True\<rparr>"

section \<open>Binding\<close>

record bscript =
  b_fd :: int
  b_ok :: bool
  b_name :: "(byte list \<times> nat) option"
  b_listen :: bool

text \<open>Closing the socket object \<open>p\<close>.\<close>

definition close_at :: "nat \<Rightarrow> tcps \<times> hstate \<Rightarrow> (tcps \<times> hstate) res" where
  "close_at p th =
     bindR (Close (heap (fst th) ! p) (snd th)) (\<lambda>(_, _, s, h).
       Inr ((fst th)\<lparr>heap := (heap (fst th))[p := s]\<rparr>, h))"

fun close_all :: "nat list \<Rightarrow> tcps \<times> hstate \<Rightarrow> (tcps \<times> hstate) res" where
  "close_all [] th = Inr th"
| "close_all (p # ps) th = bindR (close_at p th) (close_all ps)"

text \<open>\<open>socks_.clear()\<close> destroys the sockets that no task holds; the destructor of a socket closes it.\<close>

definition held :: "tcps \<Rightarrow> nat \<Rightarrow> bool" where
  "held t p \<longleftrightarrow> TStartAccept p \<in> set (accept_tasks t)"

definition clear_socks :: "tcps \<times> hstate \<Rightarrow> (tcps \<times> hstate) res" where
  "clear_socks th =
     bindR (close_all (filter (\<lambda>p. \<not> held (fst th) p) (socks (fst th))) th) (\<lambda>(t, h). Inr (t\<lparr>socks := []\<rparr>, h))"

text \<open>A socket that cannot be bound or cannot listen is dropped at the end of its round.\<close>

fun Bind_loop :: "(address \<times> bscript) list \<Rightarrow> address list \<Rightarrow> tcps \<times> hstate \<Rightarrow> (address list \<times> tcps \<times> hstate) res" where
  "Bind_loop [] fails th = Inr (fails, th)"
| "Bind_loop ((addr, b) # xs) fails th =
     bindR (Bind (b_fd b) (b_ok b) (b_name b) addr (CreateTCP addr) (snd th)) (\<lambda>(ok, s, h).
       if \<not> ok \<or> \<not> Listen (b_listen b) s then
         bindR (Close s h) (\<lambda>(_, _, _, h2). Bind_loop xs (fails @ [addr]) (fst th, h2))
       else Bind_loop xs fails
         ((fst th)\<lparr>heap := heap (fst th) @ [s], socks := socks (fst th) @ [length (heap (fst th))]\<rparr>, h))"

definition Bind_addrs ::
  "(address \<times> bscript) list \<Rightarrow> address list \<Rightarrow> tcps \<times> hstate \<Rightarrow> (bool \<times> address list \<times> tcps \<times> hstate) res" where
  "Bind_addrs addrs fails th =
     bindR (Bind_loop addrs fails th) (\<lambda>(fails, th1).
       if fails \<noteq> [] then bindR (clear_socks th1) (\<lambda>th2. Inr (False, fails, th2))
       else Inr (True, fails, th1))"

definition Bind_addr :: "address \<times> bscript \<Rightarrow> tcps \<times> hstate \<Rightarrow> (bool \<times> tcps \<times> hstate) res" where
  "Bind_addr addr th = bindR (Bind_addrs [addr] [] th) (\<lambda>(ok, _, th1). Inr (ok, th1))"

section \<open>Starting and stopping\<close>

definition TcpServer_Start :: "tcps \<Rightarrow> bool \<times> tcps" where
  "TcpServer_Start t =
     (if \<not> is_stop t then (True, t)
      else (True, t\<lparr>is_stop := False, accept_tasks := accept_tasks t @ map TStartAccept (socks t)\<rparr>))"

definition TcpServer_Stop :: "tcps \<Rightarrow> tcps" where
  "TcpServer_Stop t = t\<lparr>is_stop := True, accept_tasks := accept_tasks t @ [TStop]\<rparr>"

text \<open>The task that \<open>Stop\<close> schedules; \<open>CancelAll\<close> wakes what waits on the socket and has no effect on the state here.\<close>

definition run_stop :: "tcps \<times> hstate \<Rightarrow> (tcps \<times> hstate) res" where
  "run_stop th = bindR (close_all (socks (fst th)) th) (\<lambda>(t, h). Inr (t\<lparr>socks := []\<rparr>, h))"

definition deleteTcpServer :: "tcps \<times> hstate \<Rightarrow> (tcps \<times> hstate) res" where
  "deleteTcpServer th = bindR (close_all (socks (fst th)) th) (\<lambda>(t, h). Inr (t\<lparr>socks := []\<rparr>, h))"

section \<open>Accepting\<close>

text \<open>
  A round: whether the server is stopped when the round begins, the script of \<open>accept\<close>, the addresses of
  the client and the result of setting its timeout.
\<close>

record around =
  r_stop :: bool
  r_os :: "outcome list"
  r_ps :: "parking list"
  r_peer :: "(byte list \<times> nat) option"
  r_name :: "(byte list \<times> nat) option"
  r_opt :: bool

definition accept_round :: "nat \<Rightarrow> around \<Rightarrow> tcps \<times> hstate \<Rightarrow> (tcps \<times> hstate) res" where
  "accept_round p r th =
     bindR (Accept (r_os r) (r_ps r) (r_peer r) (r_name r) (heap (fst th) ! p) (snd th)) (\<lambda>(client, _, h).
       case client of
         None \<Rightarrow> Inr (fst th, h)
       | Some c \<Rightarrow>
           bindR (SetRecvTimeout (r_opt r) (sint (ts_recv_timeout (fst th))) c h) (\<lambda>h2.
             (let t = fst th; q = length (heap t) in
              Inr (t\<lparr>heap := heap t @ [c], io_tasks := io_tasks t @ [THandleClient q]\<rparr>, h2))))"

fun StartAccept :: "nat \<Rightarrow> around list \<Rightarrow> tcps \<times> hstate \<Rightarrow> (tcps \<times> hstate) res" where
  "StartAccept p [] th = Inl Diverges"
| "StartAccept p (r # rs) th =
     (if r_stop r then Inr th else bindR (accept_round p r th) (StartAccept p rs))"

section \<open>Printing\<close>

fun dump_socks :: "string \<Rightarrow> sock list \<Rightarrow> string res" where
  "dump_socks pfx [] = Inr []"
| "dump_socks pfx (s # ss) =
     bindR (Dump_socket s) (\<lambda>d. bindR (dump_socks pfx ss) (\<lambda>r. Inr (pfx @ pfx @ d @ ''\<newline>'' @ r)))"

definition TcpServer_ToString :: "string \<Rightarrow> string \<Rightarrow> string \<Rightarrow> tcps \<Rightarrow> string res" where
  "TcpServer_ToString io_worker accept_worker prefix t =
     bindR (dump_socks (if prefix = [] then ''    '' else prefix) (map (nth (heap t)) (socks t))) (\<lambda>d.
       Inr (prefix @ ''[type='' @ ts_type t @ '' name='' @ ts_name t @ '' io_worker='' @ io_worker @ '' accept='' @
         accept_worker @ '' recv_timeout='' @ dec (unat (ts_recv_timeout t)) @ '']\<newline>'' @ d))"

section \<open>Lemmas\<close>

text \<open>Whether the system lets an address be bound and listened on.\<close>

definition good :: "address \<times> bscript \<Rightarrow> bool" where
  "good x \<longleftrightarrow> b_fd (snd x) \<noteq> -1 \<and> b_ok (snd x) \<and> b_listen (snd x)"

lemma hook_socket_ok:
  assumes "fdt_wf (fdtab h)"
  shows "\<exists>h'. hook_socket fd h = Inr (fd, h') \<and> fdt_wf (fdtab h') \<and> hook_enable h' = hook_enable h \<and>
    (\<forall>g. g \<noteq> fd \<or> fd = -1 \<longrightarrow> flags (osys h') g = flags (osys h) g)"
proof -
  have w: "flags (snd (newFdCtx fd w)) g = flags w g" if "g \<noteq> fd" for w g
    using that by (simp add: newFdCtx_def FdCtx_Init_def Let_def os_setfl_def split: option.splits)
  have fl: "flags w' g = flags w g" if "FdMgr_Get fd True t w = Inr (r, t', w')" "g \<noteq> fd" for t w r t' w' g
    using that w [of g w] by (auto simp: FdMgr_Get_def Let_def split: if_splits prod.splits)
  obtain r t' w' where g: "FdMgr_Get fd True (fdtab h) (os_open fd (osys h)) = Inr (r, t', w')" "fdt_wf t'"
    using FdMgr_Get_ok [OF assms, of fd True "os_open fd (osys h)"] by blast
  show ?thesis using assms g fl [OF g(1)] by (auto simp: hook_socket_def Let_def os_open_def)
qed

lemma InitSock_id: "InitSock s h = Inr h"
  by (simp add: InitSock_def SetOption_def hook_setsockopt_def SO_REUSEADDR_def SO_RCVTIMEO_def SO_SNDTIMEO_def
      IPPROTO_TCP_def SOL_SOCKET_def)

lemma CreateTCP_simps [simp]:
  "sk_sock (CreateTCP a) = -1" "sk_family (CreateTCP a) = GetFamily a" "sk_connected (CreateTCP a) = False"
  by (simp_all add: CreateTCP_def newSocket_def)

lemma GetLocalAddress_keeps [simp]:
  "sk_sock (snd (GetLocalAddress n s)) = sk_sock s" "sk_connected (snd (GetLocalAddress n s)) = sk_connected s"
  by (simp_all add: GetLocalAddress_def Let_def split: option.splits prod.splits)

lemma Bind_fresh:
  assumes "fdt_wf (fdtab h)"
  shows "\<exists>s h'. Bind fd ok name addr (CreateTCP addr) h = Inr (fd \<noteq> -1 \<and> ok, s, h') \<and> sk_sock s = fd \<and> \<not> sk_connected s \<and>
    fdt_wf (fdtab h') \<and> (\<forall>g. g \<noteq> fd \<or> fd = -1 \<longrightarrow> flags (osys h') g = flags (osys h) g)"
proof -
  obtain h1 where h1: "hook_socket fd h = Inr (fd, h1)" "fdt_wf (fdtab h1)" "\<forall>g. g \<noteq> fd \<or> fd = -1 \<longrightarrow> flags (osys h1) g = flags (osys h) g"
    using hook_socket_ok [OF assms] by blast
  then have "ensure_sock fd (CreateTCP addr) h = Inr ((CreateTCP addr)\<lparr>sk_sock := fd\<rparr>, h1)"
    by (simp add: ensure_sock_def IsValid_def NewSock_def InitSock_id Let_def)
  then show ?thesis using h1(2,3) by (auto simp: Bind_def IsValid_def)
qed

lemma Close_ok:
  assumes "fdt_wf (fdtab h)"
  shows "\<exists>r acts s' h'. Close s h = Inr (r, acts, s', h') \<and> fdt_wf (fdtab h') \<and>
    (\<forall>g. flags (osys h') g = (if sk_sock s \<noteq> -1 \<and> g = sk_sock s then None else flags (osys h) g))"
proof -
  have del: "fdt_wf (FdMgr_Del fd t)" if "fdt_wf t" for fd t
    using that by (auto simp: FdMgr_Del_def fdt_wf_def nth_list_update)
  have "\<exists>acts h'. hook_close fd h = Inr (acts, h') \<and> fdt_wf (fdtab h') \<and>
      flags (osys h') = (flags (osys h))(fd := None)" for fd
    using assms del by (auto simp: hook_close_def FdMgr_Get_lookup os_close_def split: option.splits)
  then obtain acts h' where "hook_close (sk_sock s) h = Inr (acts, h')" "fdt_wf (fdtab h')"
    "flags (osys h') = (flags (osys h))(sk_sock s := None)" by blast
  then show ?thesis using assms by (auto simp: Close_def Let_def)
qed

text \<open>
  During the loop every descriptor made so far is closed or belongs to a socket of the server that no
  task holds.
\<close>

definition owned :: "int set \<Rightarrow> tcps \<Rightarrow> hstate \<Rightarrow> bool" where
  "owned F t h \<longleftrightarrow> (\<forall>fd \<in> F. flags (osys h) fd = None \<or>
     (\<exists>p \<in> set (socks t). p < length (heap t) \<and> \<not> held t p \<and> sk_sock (heap t ! p) = fd))"

definition tasks_wf :: "tcps \<Rightarrow> bool" where
  "tasks_wf t \<longleftrightarrow> (\<forall>p. TStartAccept p \<in> set (accept_tasks t) \<longrightarrow> p < length (heap t)) \<and> (\<forall>p \<in> set (socks t). p < length (heap t))"

definition fds_of :: "(address \<times> bscript) list \<Rightarrow> int set" where
  "fds_of xs = (b_fd \<circ> snd) ` set xs - {-1}"

lemma fds_of_simps [simp]:
  "fds_of [] = {}" "fds_of (x # xs) = (if b_fd (snd x) \<noteq> -1 then {b_fd (snd x)} else {}) \<union> fds_of xs"
  by (auto simp: fds_of_def)

lemma owned_push:
  assumes "owned F t h" "\<not> held (t\<lparr>heap := heap t @ [s], socks := socks t @ [length (heap t)]\<rparr>) (length (heap t))"
    "\<forall>g. g \<noteq> sk_sock s \<longrightarrow> flags (osys h1) g = flags (osys h) g"
  shows "owned (insert (sk_sock s) F) (t\<lparr>heap := heap t @ [s], socks := socks t @ [length (heap t)]\<rparr>) h1"
  unfolding owned_def
proof
  let ?t = "t\<lparr>heap := heap t @ [s], socks := socks t @ [length (heap t)]\<rparr>"
  fix fd
  assume "fd \<in> insert (sk_sock s) F"
  show "flags (osys h1) fd = None \<or> (\<exists>p \<in> set (socks ?t). p < length (heap ?t) \<and> \<not> held ?t p \<and> sk_sock (heap ?t ! p) = fd)"
  proof (cases "fd = sk_sock s")
    case True
    then show ?thesis using assms(2) by (intro disjI2 bexI [of _ "length (heap t)"]) simp_all
  next
    case False
    then have "fd \<in> F" "flags (osys h1) fd = flags (osys h) fd" using \<open>fd \<in> _\<close> assms(3) by auto
    then show ?thesis using assms(1) unfolding owned_def by (auto simp: nth_append held_def intro: less_SucI)
  qed
qed

lemma Bind_loop_ok:
  assumes "fdt_wf (fdtab h)" "tasks_wf t" "owned F t h"
  shows "\<exists>t' h'. Bind_loop xs fails (t, h) = Inr (fails @ map fst (filter (\<lambda>x. \<not> good x) xs), t', h')
    \<and> fdt_wf (fdtab h') \<and> tasks_wf t' \<and> accept_tasks t' = accept_tasks t
    \<and> owned (F \<union> fds_of xs) t' h'
    \<and> socks t' = socks t @ [length (heap t)..<length (heap t) + length (filter good xs)]
    \<and> map sk_sock (heap t') = map sk_sock (heap t) @ map (b_fd \<circ> snd) (filter good xs)"
  using assms
proof (induction xs arbitrary: fails t h F)
  case Nil
  then show ?case by (simp add: fds_of_def)
next
  case (Cons x xs)
  obtain addr b where x: "x = (addr, b)" by (cases x)
  let ?fd = "b_fd b"
  obtain s h1 where B: "Bind ?fd (b_ok b) (b_name b) addr (CreateTCP addr) h = Inr (?fd \<noteq> -1 \<and> b_ok b, s, h1)"
    "sk_sock s = ?fd" "fdt_wf (fdtab h1)" "\<forall>g. g \<noteq> ?fd \<or> ?fd = -1 \<longrightarrow> flags (osys h1) g = flags (osys h) g"
    using Bind_fresh [OF Cons.prems(1)] by blast
  show ?case
  proof (cases "good x")
    case True
    then have g: "?fd \<noteq> -1" "b_ok b" "b_listen b" by (simp_all add: good_def x)
    let ?t = "t\<lparr>heap := heap t @ [s], socks := socks t @ [length (heap t)]\<rparr>"
    have "tasks_wf ?t" using Cons.prems(2) by (auto simp: tasks_wf_def intro: less_SucI)
    moreover have "\<not> held ?t (length (heap t))" using Cons.prems(2) by (auto simp: held_def tasks_wf_def)
    then have "owned (insert ?fd F) ?t h1" using owned_push [OF Cons.prems(3), of s h1] B(2,4) by simp
    moreover have "Bind_loop (x # xs) fails (t, h) = Bind_loop xs fails (?t, h1)"
      using B g by (simp add: x Listen_def IsValid_def)
    ultimately show ?thesis using Cons.IH [OF B(3), of ?t "insert ?fd F" fails] True g(1)
      by (auto simp: x B(2) upt_conv_Cons simp del: upt_Suc Bind_loop.simps)
  next
    case False
    obtain r acts s' h2 where C: "Close s h1 = Inr (r, acts, s', h2)" "fdt_wf (fdtab h2)"
      "\<forall>g. flags (osys h2) g = (if sk_sock s \<noteq> -1 \<and> g = sk_sock s then None else flags (osys h1) g)"
      using Close_ok [OF B(3)] by blast
    have "owned (F \<union> (if ?fd \<noteq> -1 then {?fd} else {})) t h2"
      using Cons.prems(3) B(2,4) C(3) unfolding owned_def by auto
    moreover have "Bind_loop (x # xs) fails (t, h) = Bind_loop xs (fails @ [addr]) (t, h2)"
      using B C False by (auto simp: x good_def Listen_def IsValid_def)
    ultimately show ?thesis using Cons.IH [OF C(2) Cons.prems(2), of "F \<union> (if ?fd \<noteq> -1 then {?fd} else {})" "fails @ [addr]"] False
      by (auto simp: x Un_assoc simp del: Bind_loop.simps)
  qed
qed

lemma close_all_ok:
  assumes "fdt_wf (fdtab h)" "\<forall>p \<in> set ps. p < length (heap t)"
  shows "\<exists>t' h'. close_all ps (t, h) = Inr (t', h') \<and> fdt_wf (fdtab h') \<and> socks t' = socks t \<and> length (heap t') = length (heap t)
    \<and> (\<forall>fd. flags (osys h) fd = None \<longrightarrow> flags (osys h') fd = None)
    \<and> (\<forall>p \<in> set ps. sk_sock (heap t ! p) \<noteq> -1 \<longrightarrow> flags (osys h') (sk_sock (heap t ! p)) = None)"
  using assms
proof (induction ps arbitrary: t h)
  case (Cons p ps)
  obtain r acts s h1 where C: "Close (heap t ! p) h = Inr (r, acts, s, h1)" "fdt_wf (fdtab h1)"
    "\<forall>g. flags (osys h1) g = (if sk_sock (heap t ! p) \<noteq> -1 \<and> g = sk_sock (heap t ! p) then None else flags (osys h) g)"
    using Close_ok [OF Cons.prems(1)] by blast
  let ?t = "t\<lparr>heap := (heap t)[p := s]\<rparr>"
  obtain t' h' where I: "close_all ps (?t, h1) = Inr (t', h')" "fdt_wf (fdtab h')" "socks t' = socks t" "length (heap t') = length (heap t)"
    "\<forall>fd. flags (osys h1) fd = None \<longrightarrow> flags (osys h') fd = None"
    "\<forall>q \<in> set ps. sk_sock (heap ?t ! q) \<noteq> -1 \<longrightarrow> flags (osys h') (sk_sock (heap ?t ! q)) = None"
    using Cons.IH [OF C(2), of ?t] Cons.prems(2) by auto
  have "flags (osys h') (sk_sock (heap t ! q)) = None" if "q \<in> set (p # ps)" "sk_sock (heap t ! q) \<noteq> -1" for q
  proof (cases "q = p")
    case True
    then show ?thesis using C(3) I(5) that(2) by simp
  next
    case False
    then show ?thesis using I(6) that by auto
  qed
  then show ?case using I C(3) by (auto simp: close_at_def C(1))
qed simp

section \<open>Properties\<close>

text \<open>
  C28. Binding a list of addresses always returns and is all or nothing: it succeeds exactly when every
  address can be bound and listened on, and then the server has one more socket per address, in order,
  on the descriptors the system gave.  Otherwise it lists the addresses that failed in order, the
  server is left with no socket at all, not even those of earlier calls, and every descriptor made by
  the call is closed.
\<close>

theorem bind_all_or_nothing:
  assumes "fdt_wf (fdtab h)" "tasks_wf t"
  shows "\<exists>t' h'. Bind_addrs xs [] (t, h) = Inr (list_all good xs, map fst (filter (\<lambda>x. \<not> good x) xs), t', h')
    \<and> (list_all good xs \<longrightarrow> socks t' = socks t @ [length (heap t)..<length (heap t) + length xs] \<and>
         map sk_sock (heap t') = map sk_sock (heap t) @ map (b_fd \<circ> snd) xs)
    \<and> (\<not> list_all good xs \<longrightarrow> socks t' = [] \<and>
         (\<forall>x \<in> set xs. b_fd (snd x) \<noteq> -1 \<longrightarrow> flags (osys h') (b_fd (snd x)) = None))"
proof -
  obtain t1 h1 where L: "Bind_loop xs [] (t, h) = Inr (map fst (filter (\<lambda>x. \<not> good x) xs), t1, h1)"
    "fdt_wf (fdtab h1)" "tasks_wf t1" "owned (fds_of xs) t1 h1"
    "socks t1 = socks t @ [length (heap t)..<length (heap t) + length (filter good xs)]"
    "map sk_sock (heap t1) = map sk_sock (heap t) @ map (b_fd \<circ> snd) (filter good xs)"
    using Bind_loop_ok [OF assms, of "{}" xs "[]"] by (auto simp: owned_def)
  show ?thesis
  proof (cases "list_all good xs")
    case True
    then have "filter good xs = xs" "filter (\<lambda>x. \<not> good x) xs = []" by (auto simp: list_all_iff filter_id_conv filter_empty_conv)
    then show ?thesis using L True by (simp add: Bind_addrs_def)
  next
    case False
    let ?ps = "filter (\<lambda>p. \<not> held t1 p) (socks t1)"
    have "\<forall>p \<in> set ?ps. p < length (heap t1)" using L(3) by (auto simp: tasks_wf_def)
    from close_all_ok [OF L(2) this] obtain t2 h2 where C: "close_all ?ps (t1, h1) = Inr (t2, h2)"
      "\<forall>fd. flags (osys h1) fd = None \<longrightarrow> flags (osys h2) fd = None"
      "\<forall>p \<in> set ?ps. sk_sock (heap t1 ! p) \<noteq> -1 \<longrightarrow> flags (osys h2) (sk_sock (heap t1 ! p)) = None" by blast
    have "flags (osys h2) (b_fd (snd x)) = None" if "x \<in> set xs" "b_fd (snd x) \<noteq> -1" for x
    proof -
      have "b_fd (snd x) \<in> fds_of xs" using that by (auto simp: fds_of_def)
      then show ?thesis using L(4) C(2,3) that(2) unfolding owned_def by fastforce
    qed
    moreover have "filter (\<lambda>x. \<not> good x) xs \<noteq> []" using False by (auto simp: list_all_iff filter_empty_conv)
    ultimately show ?thesis using L(1) C(1) False by (simp add: Bind_addrs_def clear_socks_def)
  qed
qed

definition demo_addr :: address where "demo_addr = IPv4Address (newIPv4Address 0 80)"

theorem bind_all_or_nothing_witness:
  "\<exists>t' h'. Bind_addrs
       [(demo_addr, \<lparr>b_fd = 5, b_ok = True, b_name = None, b_listen = True\<rparr>),
        (demo_addr, \<lparr>b_fd = 6, b_ok = False, b_name = None, b_listen = True\<rparr>)] [] (newTcpServer 0, demo_hook) =
     Inr (False, [demo_addr], t', h') \<and> socks t' = [] \<and> flags (osys h') 5 = None \<and> flags (osys h') 6 = None"
  using bind_all_or_nothing [of demo_hook "newTcpServer 0"
      "[(demo_addr, \<lparr>b_fd = 5, b_ok = True, b_name = None, b_listen = True\<rparr>),
        (demo_addr, \<lparr>b_fd = 6, b_ok = False, b_name = None, b_listen = True\<rparr>)]"]
  by (simp add: good_def tasks_wf_def newTcpServer_def demo_hook_def fdt_wf_def less_Suc_eq numeral_2_eq_2)

text \<open>
  C29. Every accepted client is handed to the worker: with the hooks enabled, a round in which \<open>accept\<close> gives
  a new descriptor schedules exactly one \<open>HandleClient\<close>, on a connected socket of that descriptor whose
  receive timeout is the server's.
\<close>

theorem accepted_client_scheduled:
  assumes "hook_enable h" "fdt_wf (fdtab h)"
    "doIO (sk_sock (heap t ! p)) 1 SO_RCVTIMEO (r_os r) (r_ps r) h = Inr (Ret fd, acts)"
    "0 \<le> fd" "fdt_lookup (fdtab h) fd = None"
    "-1 \<le> sint (ts_recv_timeout t)" "sint (ts_recv_timeout t) < 2147483648000"
  shows "\<exists>t' h' c. accept_round p r (t, h) = Inr (t', h') \<and> heap t' = heap t @ [c]
    \<and> io_tasks t' = io_tasks t @ [THandleClient (length (heap t))]
    \<and> sk_sock c = fd \<and> IsConnected c \<and> Socket.GetRecvTimeout c h' = Inr (sint (ts_recv_timeout t))"
proof -
  let ?w = "os_open fd (osys h)"
  obtain k w1 where n: "newFdCtx fd ?w = (k, w1)" by fastforce
  obtain t1 w' where g: "FdMgr_Get fd True (fdtab h) ?w = Inr (Some k, t1, w')" "fdt_lookup t1 fd = Some k"
    using FdMgr_Get_ok [OF assms(2), of fd True ?w] assms(4,5) n by auto
  let ?h = "h\<lparr>fdtab := t1, osys := w'\<rparr>"
  have w': "w' = w1" using g(1) n assms(4,5) by (auto simp: FdMgr_Get_def fdt_lookup_def Let_def split: if_splits)
  have k: "fdc_fd k = fd" "is_socket k" using newFdCtx_props [OF n] by (simp_all add: os_open_def)
  have "flags w1 fd = Some (2 OR O_NONBLOCK)"
    using n by (auto simp: newFdCtx_def FdCtx_Init_def Let_def os_open_def os_getfl_def os_setfl_def O_NONBLOCK_def)
  then have m: "managed (Some k) w'" using k w' by (simp add: managed_def IsClose_def os_getfl_def O_NONBLOCK_def)
  let ?c = "snd (GetRemoteAddress (r_peer r) (snd (GetLocalAddress (r_name r)
    (newSocket (sk_family (heap t ! p)) (sk_type (heap t ! p)) (sk_protocol (heap t ! p))\<lparr>sk_sock := fd, sk_connected := True\<rparr>))))"
  have A: "Accept (r_os r) (r_ps r) (r_peer r) (r_name r) (heap t ! p) h = Inr (Some ?c, acts, ?h)"
    using assms(3,4) g m by (simp add: Accept_def hook_accept_def Init_def FdMgr_Get_lookup InitSock_id)
  have c: "sk_sock ?c = fd" "sk_connected ?c"
    by (simp_all add: GetRemoteAddress_def Let_def split: option.splits prod.splits)
  have "hook_enable ?h" "fdt_lookup (fdtab ?h) (sk_sock ?c) = Some k" using assms(1) g(2) c(1) by simp_all
  from timeout_set_get [OF this assms(6,7), of "r_opt r"] obtain h' where
    "SetRecvTimeout (r_opt r) (sint (ts_recv_timeout t)) ?c ?h = Inr h'" "Socket.GetRecvTimeout ?c h' = Inr (sint (ts_recv_timeout t))" by blast
  then show ?thesis using A c by (simp add: accept_round_def Let_def IsConnected_def)
qed

definition demo_round :: around where
  "demo_round = \<lparr>r_stop = False, r_os = [Err EAGAIN, Ret 7], r_ps = [Woken], r_peer = None, r_name = None, r_opt = True\<rparr>"

theorem accepted_client_scheduled_witness:
  "\<exists>t' h' c. accept_round 0 demo_round ((newTcpServer 120000)\<lparr>heap := [CreateTCPSocket\<lparr>sk_sock := 1\<rparr>]\<rparr>, demo_hook) = Inr (t', h')
    \<and> io_tasks t' = [THandleClient 1] \<and> sk_sock c = 7 \<and> Socket.GetRecvTimeout c h' = Inr 120000"
proof -
  let ?t = "(newTcpServer 120000)\<lparr>heap := [CreateTCPSocket\<lparr>sk_sock := 1\<rparr>]\<rparr>"
  have "doIO 1 1 SO_RCVTIMEO [Err EAGAIN, Ret 7] [Woken] demo_hook = Inr (Ret 7, park_actions 500 1 Woken)"
    by (simp add: doIO_def FdMgr_Get_lookup demo_hook_ctx IsClose_def doIO_retry.simps errno_defs GetTimeout_def SO_RCVTIMEO_def)
       (simp add: demo_hook_def os_getfl_def O_NONBLOCK_def)
  then show ?thesis
    using accepted_client_scheduled [of demo_hook ?t 0 demo_round 7 "park_actions 500 1 Woken"]
    by (auto simp: demo_round_def newTcpServer_def demo_hook_def fdt_wf_def fdt_lookup_def less_Suc_eq numeral_2_eq_2)
qed

end
