(* ===== verification/Settings.thy ===== *)
theory Settings
  imports Config TcpServer
begin

text \<open>
  The configuration variables of the library and the static variables that follow them
  (\<open>gudov/hook.cpp\<close>, \<open>gudov/http/http_parser.cpp\<close>, \<open>gudov/tcp_server.cpp\<close>, \<open>gudov/fiber.cpp\<close>,
  \<open>gudov/stream.cpp\<close>).  Each of these files looks up its variables when the program starts; the hooks and
  the HTTP parsers copy the values into statics and register listeners that copy every later value.
  The streams keep the value that they saw at their first call.  Programs may register variables of
  other types with listeners of their own; \<open>boost::lexical_cast\<close> and the conversions of those types
  are arguments.

  The lemmas show that after the initialisation the statics equal the configured values at all
  times, what a loaded document makes of them, and that the limit of a stream is fixed by its first
  use.
\<close>

section \<open>Types and values\<close>

datatype 'ty sty = TInt | TU32 | TU64 | TOther 'ty

datatype 'v sval = VInt u32 | VU32 u32 | VU64 u64 | VOther 'v

fun has_type :: "'ty sty \<Rightarrow> 'v sval \<Rightarrow> bool" where
  "has_type TInt (VInt _) = True"
| "has_type TU32 (VU32 _) = True"
| "has_type TU64 (VU64 _) = True"
| "has_type (TOther _) (VOther _) = True"
| "has_type _ _ = False"

text \<open>The conversion of an assignment to \<open>uint64_t\<close>; no static takes a value of another type.\<close>

fun widen :: "'v sval \<Rightarrow> u64" where
  "widen (VInt i) = signed i"
| "widen (VU32 n) = ucast n"
| "widen (VU64 n) = n"
| "widen (VOther _) = 0"

record ('ty, 'v) casts =
  to_i32 :: "string \<Rightarrow> u32 option"
  to_u32 :: "string \<Rightarrow> u32 option"
  to_u64 :: "string \<Rightarrow> u64 option"
  others :: "('ty, 'v) traits"

fun setting_from_str :: "('ty, 'v) casts \<Rightarrow> 'ty sty \<Rightarrow> string \<Rightarrow> 'v sval option" where
  "setting_from_str C TInt s = map_option VInt (to_i32 C s)"
| "setting_from_str C TU32 s = map_option VU32 (to_u32 C s)"
| "setting_from_str C TU64 s = map_option VU64 (to_u64 C s)"
| "setting_from_str C (TOther t) s = map_option VOther (FromStr (others C) t s)"

fun setting_to_str :: "('ty, 'v) casts \<Rightarrow> 'ty sty \<Rightarrow> 'v sval \<Rightarrow> string option" where
  "setting_to_str C (TOther t) (VOther v) = ToStr (others C) t v"
| "setting_to_str C _ (VInt i) = Some (sdec (sint i))"
| "setting_to_str C _ (VU32 n) = Some (dec (unat n))"
| "setting_to_str C _ (VU64 n) = Some (dec (unat n))"
| "setting_to_str C _ (VOther v) = None"

fun setting_eq :: "('ty, 'v) casts \<Rightarrow> 'ty sty \<Rightarrow> 'v sval \<Rightarrow> 'v sval \<Rightarrow> bool" where
  "setting_eq C (TOther t) (VOther v) (VOther w) = val_eq (others C) t v w"
| "setting_eq C _ v w = (v = w)"

definition setting_traits :: "('ty, 'v) casts \<Rightarrow> ('ty sty, 'v sval) traits" where
  "setting_traits C = \<lparr>FromStr = setting_from_str C, ToStr = setting_to_str C, val_eq = setting_eq C\<rparr>"

section \<open>The variables of the library\<close>

datatype gvar =
    g_tcpConnectTimeout
  | g_http_request_buffer_size
  | g_http_request_max_body_size
  | g_http_response_buffer_size
  | g_http_response_max_body_size
  | g_tcp_server_read_timeout
  | g_fiber_stack_size
  | g_socket_buff_size

fun gvar_type :: "gvar \<Rightarrow> 'ty sty" where
  "gvar_type g_tcpConnectTimeout = TInt"
| "gvar_type g_fiber_stack_size = TU32"
| "gvar_type g_socket_buff_size = TInt"
| "gvar_type _ = TU64"

fun gvar_name :: "gvar \<Rightarrow> string" where
  "gvar_name g_tcpConnectTimeout = ''tcp.connect.timeout''"
| "gvar_name g_http_request_buffer_size = ''http.request.buffer_size''"
| "gvar_name g_http_request_max_body_size = ''http.request.max_body_size''"
| "gvar_name g_http_response_buffer_size = ''http.response.buffer_size''"
| "gvar_name g_http_response_max_body_size = ''http.response.max_body_size''"
| "gvar_name g_tcp_server_read_timeout = ''tcp_server.read_timeout''"
| "gvar_name g_fiber_stack_size = ''fiber.stack_size''"
| "gvar_name g_socket_buff_size = ''socket.buff_size''"

fun gvar_default :: "gvar \<Rightarrow> 'v sval" where
  "gvar_default g_tcpConnectTimeout = VInt 5000"
| "gvar_default g_http_request_buffer_size = VU64 (4 * 1024)"
| "gvar_default g_http_request_max_body_size = VU64 (64 * 1024 * 1024)"
| "gvar_default g_http_response_buffer_size = VU64 (4 * 1024)"
| "gvar_default g_http_response_max_body_size = VU64 (64 * 1024 * 1024)"
| "gvar_default g_tcp_server_read_timeout = VU64 (60 * 1000 * 2)"
| "gvar_default g_fiber_stack_size = VU32 (1024 * 1024)"
| "gvar_default g_socket_buff_size = VInt (1024 * 16)"

fun gvar_description :: "gvar \<Rightarrow> string" where
  "gvar_description g_tcpConnectTimeout = ''tcp connect timeout''"
| "gvar_description g_http_request_buffer_size = ''http request buffer size''"
| "gvar_description g_http_request_max_body_size = ''http request max body size''"
| "gvar_description g_http_response_buffer_size = ''http response buffer size''"
| "gvar_description g_http_response_max_body_size = ''http response max body size''"
| "gvar_description g_tcp_server_read_timeout = ''tcp server read timeout''"
| "gvar_description g_fiber_stack_size = ''fiber stack size''"
| "gvar_description g_socket_buff_size = ''socket buff size''"

text \<open>
  A listener of the library assigns the new value to the static of a variable; the others belong to
  the program.  \<open>MAX_LEN\<close> is a static of each of the four functions that transfer a fixed size.
\<close>

datatype 'cb listener = Assigns gvar | Client 'cb

datatype fixsize = ReadBuffer | ReadByteArray | WriteBuffer | WriteByteArray

record ('ty, 'v, 'cb) program =
  conf :: "('ty sty, 'v sval, 'cb listener) cfg"
  watched :: "gvar \<Rightarrow> nat option"
  statics :: "gvar \<Rightarrow> u64"
  MAX_LEN :: "fixsize \<Rightarrow> u64 option"

definition newProgram :: "('ty, 'v, 'cb) program" where
  "newProgram = \<lparr>conf = newConfig, watched = (\<lambda>_. None),
     statics = (\<lambda>x. if x = g_tcpConnectTimeout then -1 else 0), MAX_LEN = (\<lambda>_. None)\<rparr>"

fun run_listener :: "'cb listener \<Rightarrow> 'v sval \<Rightarrow> (gvar \<Rightarrow> u64) \<Rightarrow> (gvar \<Rightarrow> u64)" where
  "run_listener (Assigns x) new_value s = s(x := widen new_value)"
| "run_listener (Client _) new_value s = s"

definition notify :: "('v sval, 'cb listener) notice list \<Rightarrow> (gvar \<Rightarrow> u64) \<Rightarrow> (gvar \<Rightarrow> u64)" where
  "notify ns s = fold (\<lambda>(cb, _, v). run_listener cb v) ns s"

text \<open>A change of the configuration, with the listeners that it calls.\<close>

definition settle ::
  "('v sval, 'cb listener) notice list \<times> ('ty sty, 'v sval, 'cb listener) cfg \<Rightarrow>
     ('ty, 'v, 'cb) program \<Rightarrow> ('ty, 'v, 'cb) program" where
  "settle r st = st\<lparr>conf := snd r, statics := notify (fst r) (statics st)\<rparr>"

section \<open>Initialisation\<close>

definition define_var :: "gvar \<Rightarrow> ('ty, 'v, 'cb) program \<Rightarrow> ('ty, 'v, 'cb) program res" where
  "define_var x st =
     bindR (Lookup_default (gvar_type x) (gvar_name x) (gvar_default x) (gvar_description x) (conf st))
       (\<lambda>(p, c). Inr (st\<lparr>conf := c, watched := (watched st)(x := p)\<rparr>))"

definition value_of :: "gvar \<Rightarrow> ('ty, 'v, 'cb) program \<Rightarrow> 'v sval res" where
  "value_of x st = (case watched st x of None \<Rightarrow> Inl NullDeref | Some p \<Rightarrow> Inr (GetValue p (conf st)))"

definition read_var :: "gvar \<Rightarrow> ('ty, 'v, 'cb) program \<Rightarrow> ('ty, 'v, 'cb) program res" where
  "read_var x st = bindR (value_of x st) (\<lambda>v. Inr (st\<lparr>statics := (statics st)(x := widen v)\<rparr>))"

definition listen_var :: "gvar \<Rightarrow> ('ty, 'v, 'cb) program \<Rightarrow> ('ty, 'v, 'cb) program res" where
  "listen_var x st =
     (case watched st x of None \<Rightarrow> Inl NullDeref
      | Some p \<Rightarrow> Inr (st\<lparr>conf := snd (AddListener p (Assigns x) (conf st))\<rparr>))"

primrec forR :: "('a \<Rightarrow> 's \<Rightarrow> 's res) \<Rightarrow> 'a list \<Rightarrow> 's \<Rightarrow> 's res" where
  "forR f [] s = Inr s"
| "forR f (x # xs) s = bindR (f x s) (forR f xs)"

definition follow_vars :: "gvar list \<Rightarrow> ('ty, 'v, 'cb) program \<Rightarrow> ('ty, 'v, 'cb) program res" where
  "follow_vars xs st = bindR (forR define_var xs st) (\<lambda>st1. bindR (forR read_var xs st1) (forR listen_var xs))"

definition hook_vars :: "gvar list" where "hook_vars = [g_tcpConnectTimeout]"

definition http_vars :: "gvar list" where
  "http_vars = [g_http_request_buffer_size, g_http_request_max_body_size, g_http_response_buffer_size, g_http_response_max_body_size]"

definition HookIniter :: "('ty, 'v, 'cb) program \<Rightarrow> ('ty, 'v, 'cb) program res" where
  "HookIniter st = follow_vars hook_vars st"

definition RequestSizeIniter :: "('ty, 'v, 'cb) program \<Rightarrow> ('ty, 'v, 'cb) program res" where
  "RequestSizeIniter st = follow_vars http_vars st"

section \<open>Uses\<close>

definition GetHttpRequestBufferSize :: "('ty, 'v, 'cb) program \<Rightarrow> u64" where
  "GetHttpRequestBufferSize st = statics st g_http_request_buffer_size"

definition GetHttpRequestMaxBodySize :: "('ty, 'v, 'cb) program \<Rightarrow> u64" where
  "GetHttpRequestMaxBodySize st = statics st g_http_request_max_body_size"

definition GetHttpResponseBufferSize :: "('ty, 'v, 'cb) program \<Rightarrow> u64" where
  "GetHttpResponseBufferSize st = statics st g_http_response_buffer_size"

definition GetHttpResponseMaxBodySize :: "('ty, 'v, 'cb) program \<Rightarrow> u64" where
  "GetHttpResponseMaxBodySize st = statics st g_http_response_max_body_size"

definition configured_server :: "('ty, 'v, 'cb) program \<Rightarrow> tcps res" where
  "configured_server st = bindR (value_of g_tcp_server_read_timeout st) (\<lambda>v. Inr (newTcpServer (widen v)))"

definition stack_size_of :: "u64 \<Rightarrow> ('ty, 'v, 'cb) program \<Rightarrow> u64 res" where
  "stack_size_of stack_size st =
     (if stack_size \<noteq> 0 then Inr stack_size else bindR (value_of g_fiber_stack_size st) (\<lambda>v. Inr (widen v)))"

definition use_MAX_LEN :: "fixsize \<Rightarrow> ('ty, 'v, 'cb) program \<Rightarrow> (u64 \<times> ('ty, 'v, 'cb) program) res" where
  "use_MAX_LEN f st =
     (case MAX_LEN st f of
        Some n \<Rightarrow> Inr (n, st)
      | None \<Rightarrow> bindR (value_of g_socket_buff_size st) (\<lambda>v. Inr (widen v, st\<lparr>MAX_LEN := (MAX_LEN st)(f := Some (widen v))\<rparr>)))"

section \<open>Runs of a program\<close>

text \<open>
  The initialisers run once each, in any order and between any other operations.  The program changes
  the configuration with values of the right type, and removes no listener of the library; the
  numbers of listeners do not run out.
\<close>

inductive settings_step ::
  "('ty, 'v) casts \<Rightarrow> (yaml \<Rightarrow> string) \<Rightarrow> ('ty, 'v, 'cb) program \<Rightarrow> ('ty, 'v, 'cb) program \<Rightarrow> bool" for C emit where
  hook_init: "watched st g_tcpConnectTimeout = None \<Longrightarrow> unat (s_fun_id (conf st) TInt) + 1 < 2 ^ 64 \<Longrightarrow>
    HookIniter st = Inr st' \<Longrightarrow> settings_step C emit st st'"
| http_init: "\<forall>x \<in> set http_vars. watched st x = None \<Longrightarrow> unat (s_fun_id (conf st) TU64) + 4 < 2 ^ 64 \<Longrightarrow>
    RequestSizeIniter st = Inr st' \<Longrightarrow> settings_step C emit st st'"
| plain_init: "x \<in> {g_tcp_server_read_timeout, g_fiber_stack_size, g_socket_buff_size} \<Longrightarrow> watched st x = None \<Longrightarrow>
    define_var x st = Inr st' \<Longrightarrow> settings_step C emit st st'"
| lookup: "has_type ty v \<Longrightarrow> Lookup_default ty name v d (conf st) = Inr (r, c') \<Longrightarrow>
    settings_step C emit st (st\<lparr>conf := c'\<rparr>)"
| set_value: "p < length (vars (conf st)) \<Longrightarrow> has_type (cv_type (vars (conf st) ! p)) v \<Longrightarrow>
    settings_step C emit st (settle (SetValue (setting_traits C) p v (conf st)) st)"
| from_string: "p < length (vars (conf st)) \<Longrightarrow>
    settings_step C emit st (settle (snd (fromString (setting_traits C) p t (conf st))) st)"
| add_listener: "p < length (vars (conf st)) \<Longrightarrow> s_fun_id (conf st) (cv_type (vars (conf st) ! p)) \<noteq> - 1 \<Longrightarrow>
    settings_step C emit st (st\<lparr>conf := snd (AddListener p (Client cb) (conf st))\<rparr>)"
| del_listener: "p < length (vars (conf st)) \<Longrightarrow> \<forall>x. (k, Assigns x) \<notin> set (callbacks (vars (conf st) ! p)) \<Longrightarrow>
    settings_step C emit st (st\<lparr>conf := DelListener p k (conf st)\<rparr>)"
| clear_listener: "p < length (vars (conf st)) \<Longrightarrow> \<forall>x. watched st x \<noteq> Some p \<Longrightarrow>
    settings_step C emit st (st\<lparr>conf := clearListener p (conf st)\<rparr>)"
| load_yaml: "settings_step C emit st (settle (LoadFromYaml (setting_traits C) emit root (conf st)) st)"
| load_dir: "settings_step C emit st (settle (LoadFromConfDir (setting_traits C) emit mtime file force files (conf st)) st)"
| clear: "settings_step C emit st (st\<lparr>conf := Config_Clear (conf st)\<rparr>)"
| first_use: "use_MAX_LEN f st = Inr (n, st') \<Longrightarrow> settings_step C emit st st'"

text \<open>
  The invariant in two parts: a listener of the library stands only at the variable that its static
  follows, and the static has its value; and every followed variable that was looked up has its
  listener.  The first part holds during the initialisation as well.
\<close>

definition heard :: "gvar \<Rightarrow> nat \<Rightarrow> ('ty sty, 'v sval, 'cb listener) cfg \<Rightarrow> bool" where
  "heard x q c \<longleftrightarrow> Assigns x \<in> snd ` set (callbacks (vars c ! q))"

definition in_step :: "('ty, 'v, 'cb) program \<Rightarrow> bool" where
  "in_step st \<longleftrightarrow> cfg_wf (conf st) \<and> list_all (\<lambda>y. has_type (cv_type y) (cv_value y)) (vars (conf st)) \<and>
     (\<forall>x q. q < length (vars (conf st)) \<longrightarrow> heard x q (conf st) \<longrightarrow>
        watched st x = Some q \<and> statics st x = widen (GetValue q (conf st))) \<and>
     (\<forall>x p. watched st x = Some p \<longrightarrow> p < length (vars (conf st)) \<and> cv_type (vars (conf st) ! p) = gvar_type x)"

definition heard_by :: "gvar set \<Rightarrow> ('ty, 'v, 'cb) program \<Rightarrow> bool" where
  "heard_by S st \<longleftrightarrow> (\<forall>x \<in> S. \<forall>p. watched st x = Some p \<longrightarrow> heard x p (conf st))"

definition followed :: "gvar set" where "followed = set (hook_vars @ http_vars)"

abbreviation settings_inv :: "('ty, 'v, 'cb) program \<Rightarrow> bool" where
  "settings_inv st \<equiv> in_step st \<and> heard_by followed st"

section \<open>Lemmas\<close>

lemma notify_append [simp]: "notify (ns @ ms) s = notify ms (notify ns s)"
  by (simp add: notify_def)

lemma settle_settle [simp]: "settle (ms, c') (settle (ns, c) st) = settle (ns @ ms, c') st"
  by (simp add: settle_def)

lemma settle_simps [simp]:
  "conf (settle r st) = snd r" "watched (settle r st) = watched st" "MAX_LEN (settle r st) = MAX_LEN st"
  "settle ([], conf st) st = st"
  by (simp_all add: settle_def notify_def)

lemma notify_assigns:
  "notify (map (\<lambda>(_, cb). (cb, ov, v)) cbs) s x = (if Assigns x \<in> snd ` set cbs then widen v else s x)"
proof (induction cbs arbitrary: s)
  case (Cons e cbs)
  obtain k cb where "e = (k, cb)" by (cases e)
  then show ?case using Cons.IH by (cases cb) (auto simp: notify_def)
qed (simp add: notify_def)

lemma heard_same: "same_but_value c c' \<Longrightarrow> q < length (vars c) \<Longrightarrow> heard x q c' \<longleftrightarrow> heard x q c"
  by (fastforce simp: same_but_value_def heard_def)

lemma in_stepD:
  assumes "in_step st"
  shows "cfg_wf (conf st)" "q < length (vars (conf st)) \<Longrightarrow> has_type (cv_type (vars (conf st) ! q)) (cv_value (vars (conf st) ! q))"
    "q < length (vars (conf st)) \<Longrightarrow> heard x q (conf st) \<Longrightarrow> watched st x = Some q"
    "q < length (vars (conf st)) \<Longrightarrow> heard x q (conf st) \<Longrightarrow> statics st x = widen (GetValue q (conf st))"
    "watched st x = Some p \<Longrightarrow> p < length (vars (conf st))" "watched st x = Some p \<Longrightarrow> cv_type (vars (conf st) ! p) = gvar_type x"
  using assms unfolding in_step_def list_all_length by blast+

lemma in_stepI:
  assumes "cfg_wf (conf st)" "\<And>q. q < length (vars (conf st)) \<Longrightarrow> has_type (cv_type (vars (conf st) ! q)) (cv_value (vars (conf st) ! q))"
    "\<And>x q. q < length (vars (conf st)) \<Longrightarrow> heard x q (conf st) \<Longrightarrow> watched st x = Some q \<and> statics st x = widen (GetValue q (conf st))"
    "\<And>x p. watched st x = Some p \<Longrightarrow> p < length (vars (conf st)) \<and> cv_type (vars (conf st) ! p) = gvar_type x"
  shows "in_step st"
  using assms unfolding in_step_def list_all_length by blast

lemma in_step_SetValue:
  assumes "in_step st" "p < length (vars (conf st))" "has_type (cv_type (vars (conf st) ! p)) v"
  shows "in_step (settle (SetValue T p v (conf st)) st)"
proof (cases "val_eq T (cv_type (vars (conf st) ! p)) v (cv_value (vars (conf st) ! p))")
  case True
  then have "SetValue T p v (conf st) = ([], conf st)" by (simp add: SetValue_def)
  then show ?thesis using assms(1) by simp
next
  case False
  let ?c = "conf st"
  have sv: "SetValue T p v ?c = (map (\<lambda>(_, cb). (cb, cv_value (vars ?c ! p), v)) (callbacks (vars ?c ! p)), upd_var p (\<lambda>x. x\<lparr>cv_value := v\<rparr>) ?c)"
    using False by (simp add: SetValue_def Let_def)
  note ok = in_stepD [OF assms(1)]
  show ?thesis
  proof (rule in_stepI)
    show "cfg_wf (conf (settle (SetValue T p v ?c) st))"
      using cfg_wf_same_but_value [OF ok(1) same_but_value_SetValue] by simp
    show "has_type (cv_type (vars (conf (settle (SetValue T p v ?c) st)) ! q)) (cv_value (vars (conf (settle (SetValue T p v ?c) st)) ! q))"
      if "q < length (vars (conf (settle (SetValue T p v ?c) st)))" for q
      using that assms(2,3) ok(2) [of q] by (auto simp: sv nth_list_update)
    show "q < length (vars (conf (settle (SetValue T p v ?c) st))) \<and> cv_type (vars (conf (settle (SetValue T p v ?c) st)) ! q) = gvar_type x"
      if "watched (settle (SetValue T p v ?c) st) x = Some q" for x q
      using that assms(2) ok(5,6) [of x q] by (auto simp: sv nth_list_update)
    fix x q
    assume q: "q < length (vars (conf (settle (SetValue T p v ?c) st)))" "heard x q (conf (settle (SetValue T p v ?c) st))"
    then have "q < length (vars ?c)" by (simp add: sv)
    with q(2) have h: "heard x q ?c" using heard_same [OF same_but_value_SetValue \<open>q < length (vars ?c)\<close>] by fastforce
    note w = ok(3,4) [OF \<open>q < length (vars ?c)\<close> h]
    have "q = p" if "heard x p ?c" using ok(3) [OF assms(2) that] w(1) by simp
    then show "watched (settle (SetValue T p v ?c) st) x = Some q \<and>
        statics (settle (SetValue T p v ?c) st) x = widen (GetValue q (conf (settle (SetValue T p v ?c) st)))"
      using w h assms(2) by (cases "q = p") (auto simp: sv settle_def notify_assigns GetValue_def heard_def)
  qed
qed

text \<open>What the texts of a variable give has its type, so every kind of loading keeps the program in step.\<close>

lemma setting_from_str_type: "setting_from_str C ty s = Some v \<Longrightarrow> has_type ty v"
  by (cases ty) auto

lemma in_step_fromString:
  assumes "in_step st" "p < length (vars (conf st))"
  shows "in_step (settle (snd (fromString (setting_traits C) p t (conf st))) st)"
proof (cases "setting_from_str C (cv_type (vars (conf st) ! p)) t")
  case None
  then show ?thesis using assms(1) by (simp add: fromString_def setting_traits_def)
next
  case (Some v)
  from in_step_SetValue [OF assms setting_from_str_type [OF this]] Some show ?thesis
    by (simp add: fromString_def setting_traits_def)
qed

lemma in_step_load_entry:
  assumes "in_step (settle s st)"
  shows "in_step (settle (load_entry (setting_traits C) emit e s) st)"
proof (cases "fst e = [] \<or> LookupBase (map tolower (fst e)) (snd s) = None")
  case True
  then show ?thesis using assms by (auto simp: load_entry_def Let_def split: prod.splits)
next
  case False
  then obtain p where p: "fst e \<noteq> []" "LookupBase (map tolower (fst e)) (snd s) = Some p" by auto
  then have "p < length (vars (conf (settle s st)))" using lookup_wf in_stepD(1) [OF assms] by fastforce
  from in_step_fromString [OF assms this, of C "node_text emit (snd e)"] p show ?thesis
    by (auto simp: load_entry_def Let_def split: prod.splits)
qed

lemma in_step_LoadFromYaml:
  assumes "in_step st"
  shows "in_step (settle (LoadFromYaml (setting_traits C) emit root (conf st)) st)"
proof -
  have "in_step (settle s st) \<Longrightarrow> in_step (settle (fold (load_entry (setting_traits C) emit) es s) st)" for es s
    by (induction es arbitrary: s) (simp_all add: in_step_load_entry)
  from this [of "([], conf st)"] show ?thesis using assms by (simp add: LoadFromYaml_def)
qed

lemma in_step_cong:
  assumes "in_step st" "vars (conf st') = vars (conf st)" "cfg_wf (conf st')"
    "watched st' = watched st" "statics st' = statics st"
  shows "in_step st'"
  using assms(1,3) unfolding in_step_def heard_def GetValue_def assms(2,4,5) by blast

lemma heard_by_same:
  assumes "in_step st" "heard_by S st" "same_but_value (conf st) (snd r)"
  shows "heard_by S (settle r st)"
  using assms heard_same [OF assms(3)] in_stepD(5) [OF assms(1)] unfolding heard_by_def by simp

lemma load_file_in_step:
  assumes "in_step (settle s st) \<and> heard_by S (settle s st)"
  shows "in_step (settle (load_file (setting_traits C) emit mtime file force i s) st) \<and>
    heard_by S (settle (load_file (setting_traits C) emit mtime file force i s) st)"
proof -
  obtain ns c where s: "s = (ns, c)" by (cases s)
  let ?c = "c\<lparr>file2modifytime := AList.update i (mtime i) (file2modifytime c)\<rparr>"
  have rec: "in_step (settle (ns, ?c) st)"
    using in_stepD(1) [OF assms [THEN conjunct1]] by (intro in_step_cong [OF assms [THEN conjunct1]]) (simp_all add: s settle_def cfg_wf_def)
  have h: "heard_by S (settle (ns, ?c) st)" using assms by (simp add: s heard_by_def heard_def)
  have "in_step (settle (ns @ ns', c2) st)" "heard_by S (settle (ns @ ns', c2) st)"
    if "LoadFromYaml (setting_traits C) emit root ?c = (ns', c2)" for root ns' c2
    using in_step_LoadFromYaml [OF rec, of C emit root] that heard_by_same [OF rec h, of "(ns', c2)"]
      same_but_value_LoadFromYaml [of ?c "setting_traits C" emit root] by simp_all
  with rec h assms show ?thesis by (auto simp: s load_file_def Let_def split: option.splits prod.splits)
qed

lemma LoadFromConfDir_in_step:
  assumes "in_step st" "heard_by S st"
  shows "in_step (settle (LoadFromConfDir (setting_traits C) emit mtime file force files (conf st)) st) \<and>
    heard_by S (settle (LoadFromConfDir (setting_traits C) emit mtime file force files (conf st)) st)"
proof -
  let ?P = "\<lambda>s. in_step (settle s st) \<and> heard_by S (settle s st)"
  have "?P s \<Longrightarrow> ?P (fold (load_file (setting_traits C) emit mtime file force) fs s)" for fs s
  proof (induction fs arbitrary: s)
    case (Cons i fs)
    from Cons.IH [OF load_file_in_step [OF Cons.prems]] show ?case by simp
  qed simp
  from this [of "([], conf st)"] show ?thesis using assms by (simp add: LoadFromConfDir_def)
qed

text \<open>Operations that leave the values alone: no static is listened for at a new place unless it already has the value.\<close>

lemma in_step_conf:
  assumes "in_step st" "cfg_wf c'" "length (vars (conf st)) \<le> length (vars c')"
    "\<And>q. q < length (vars (conf st)) \<Longrightarrow> cv_type (vars c' ! q) = cv_type (vars (conf st) ! q) \<and> cv_value (vars c' ! q) = cv_value (vars (conf st) ! q)"
    "\<And>q. length (vars (conf st)) \<le> q \<Longrightarrow> q < length (vars c') \<Longrightarrow> has_type (cv_type (vars c' ! q)) (cv_value (vars c' ! q)) \<and> callbacks (vars c' ! q) = []"
    "\<And>x q. q < length (vars (conf st)) \<Longrightarrow> heard x q c' \<Longrightarrow>
       heard x q (conf st) \<or> watched st x = Some q \<and> statics st x = widen (GetValue q (conf st))"
  shows "in_step (st\<lparr>conf := c'\<rparr>)"
proof (rule in_stepI)
  note ok = in_stepD [OF assms(1)]
  show "cfg_wf (conf (st\<lparr>conf := c'\<rparr>))" using assms(2) by simp
  show "has_type (cv_type (vars (conf (st\<lparr>conf := c'\<rparr>)) ! q)) (cv_value (vars (conf (st\<lparr>conf := c'\<rparr>)) ! q))"
    if "q < length (vars (conf (st\<lparr>conf := c'\<rparr>)))" for q
    using that assms(4) [of q] assms(5) [of q] ok(2) [of q] by (cases "q < length (vars (conf st))") simp_all
  show "p < length (vars (conf (st\<lparr>conf := c'\<rparr>))) \<and> cv_type (vars (conf (st\<lparr>conf := c'\<rparr>)) ! p) = gvar_type x"
    if "watched (st\<lparr>conf := c'\<rparr>) x = Some p" for x p
    using that ok(5,6) [of x p] assms(3) assms(4) [of p] by simp
  fix x q
  assume q: "q < length (vars (conf (st\<lparr>conf := c'\<rparr>)))" "heard x q (conf (st\<lparr>conf := c'\<rparr>))"
  then have old: "q < length (vars (conf st))" using assms(5) [of q] by (auto simp: heard_def not_le [symmetric])
  then have "watched st x = Some q \<and> statics st x = widen (GetValue q (conf st))"
    using assms(6) [of q x] q(2) ok(3,4) [of q x] by auto
  then show "watched (st\<lparr>conf := c'\<rparr>) x = Some q \<and> statics (st\<lparr>conf := c'\<rparr>) x = widen (GetValue q (conf (st\<lparr>conf := c'\<rparr>)))"
    using assms(4) [OF old] by (simp add: GetValue_def)
qed

lemma Lookup_default_cases:
  assumes "Lookup_default ty name v d c = Inr (r, c')"
  obtains (found) p where "c' = c" "LookupBase name c = Some p" "r = (if cv_type (vars c ! p) = ty then Some p else None)"
  | (added) "vars c' = vars c @ [newConfigVar ty name v d]" "r = Some (length (vars c))"
  using assms by (auto simp: Lookup_default_def LookupBase_def split: option.splits if_splits)

lemma in_step_lookup:
  assumes "in_step st" "has_type ty v" "Lookup_default ty name v d (conf st) = Inr (r, c')"
  shows "in_step (st\<lparr>conf := c'\<rparr>)"
    "r = Some p \<Longrightarrow> p < length (vars c') \<and> cv_type (vars c' ! p) = ty"
    "q < length (vars (conf st)) \<Longrightarrow> heard x q c' \<longleftrightarrow> heard x q (conf st)"
proof -
  have wf: "cfg_wf c'" using cfg_wf_lookup [OF in_stepD(1) [OF assms(1)] assms(3)] .
  have "in_step (st\<lparr>conf := c'\<rparr>) \<and> (r = Some p \<longrightarrow> p < length (vars c') \<and> cv_type (vars c' ! p) = ty) \<and>
      (q < length (vars (conf st)) \<longrightarrow> heard x q c' = heard x q (conf st))"
    using assms(3)
  proof (cases rule: Lookup_default_cases)
    case (found p')
    then show ?thesis using assms(1) lookup_wf [OF in_stepD(1) [OF assms(1)] found(2)] by (auto split: if_splits)
  next
    case added
    have "in_step (st\<lparr>conf := c'\<rparr>)"
      using assms(2) by (intro in_step_conf [OF assms(1) wf])
        (auto simp: added(1) nth_append heard_def newConfigVar_def less_Suc_eq)
    then show ?thesis using added by (auto simp: nth_append heard_def newConfigVar_def)
  qed
  then show "in_step (st\<lparr>conf := c'\<rparr>)" "r = Some p \<Longrightarrow> p < length (vars c') \<and> cv_type (vars c' ! p) = ty"
    "q < length (vars (conf st)) \<Longrightarrow> heard x q c' \<longleftrightarrow> heard x q (conf st)" by blast+
qed

lemma in_step_AddListener:
  assumes "in_step st" "p < length (vars (conf st))" "s_fun_id (conf st) (cv_type (vars (conf st) ! p)) \<noteq> - 1"
    "\<And>x. cb = Assigns x \<Longrightarrow> watched st x = Some p \<and> statics st x = widen (GetValue p (conf st))"
  shows "in_step (st\<lparr>conf := snd (AddListener p cb (conf st))\<rparr>)"
    "heard x q (snd (AddListener p cb (conf st))) \<longleftrightarrow> heard x q (conf st) \<or> q = p \<and> cb = Assigns x"
proof -
  note cbs = AddListener_callbacks [OF in_stepD(1) [OF assms(1)] assms(2,3), of cb]
  show heard: "heard x q (snd (AddListener p cb (conf st))) \<longleftrightarrow> heard x q (conf st) \<or> q = p \<and> cb = Assigns x" for x q
    using assms(2) by (cases "q = p") (auto simp: heard_def cbs)
  show "in_step (st\<lparr>conf := snd (AddListener p cb (conf st))\<rparr>)"
    using assms(2,4) by (intro in_step_conf [OF assms(1) cfg_wf_AddListener [OF in_stepD(1) [OF assms(1)] assms(2,3)]])
      (auto simp: cbs heard nth_list_update)
qed

text \<open>The three rounds of an initialiser: look up, read, listen.\<close>

definition synced :: "gvar \<Rightarrow> ('ty, 'v, 'cb) program \<Rightarrow> bool" where
  "synced x st \<longleftrightarrow> (\<exists>p. watched st x = Some p \<and> statics st x = widen (GetValue p (conf st)))"

lemma has_type_default: "has_type (gvar_type x) (gvar_default x)"
  by (cases x) simp_all

lemma define_var_in_step:
  assumes "in_step st" "watched st x = None" "define_var x st = Inr st'" "heard_by S st"
  shows "in_step st'" "heard_by (S - {x}) st'" "s_fun_id (conf st') = s_fun_id (conf st)"
    "y \<noteq> x \<Longrightarrow> watched st' y = watched st y"
proof -
  obtain r c' where l: "Lookup_default (gvar_type x) (gvar_name x) (gvar_default x) (gvar_description x) (conf st) = Inr (r, c')"
    and st': "st' = st\<lparr>conf := c', watched := (watched st)(x := r)\<rparr>"
    using assms(3) by (auto simp: define_var_def bindR_eq_Inr)
  note lk = in_step_lookup [OF assms(1) has_type_default l]
  note ok = in_stepD [OF lk(1)]
  show "in_step st'"
  proof (rule in_stepI)
    fix y q
    assume "q < length (vars (conf st'))" "heard y q (conf st')"
    then show "watched st' y = Some q \<and> statics st' y = widen (GetValue q (conf st'))"
      using ok(3,4) [of q y] assms(2) by (auto simp: st')
  qed (use ok(1,2,5,6) lk(2) in \<open>auto simp: st' split: if_splits\<close>)
  show "heard_by (S - {x}) st'" using assms(4) in_stepD(5) [OF assms(1)] lk(3) by (auto simp: heard_by_def st')
  show "s_fun_id (conf st') = s_fun_id (conf st)"
    using l by (auto simp: st' Lookup_default_def split: option.splits if_splits)
  show "y \<noteq> x \<Longrightarrow> watched st' y = watched st y" by (simp add: st')
qed

lemma forR_define_in_step:
  assumes "in_step st" "\<forall>x \<in> set xs. watched st x = None" "distinct xs" "forR define_var xs st = Inr st'" "heard_by S st"
  shows "in_step st' \<and> heard_by (S - set xs) st' \<and> s_fun_id (conf st') = s_fun_id (conf st)"
  using assms
proof (induction xs arbitrary: st S)
  case (Cons x xs)
  obtain st1 where st1: "define_var x st = Inr st1" "forR define_var xs st1 = Inr st'"
    using Cons.prems(4) by (auto simp: bindR_eq_Inr)
  have "watched st x = None" using Cons.prems(2) by simp
  note d = define_var_in_step [OF Cons.prems(1) this st1(1) Cons.prems(5)]
  have "\<forall>y \<in> set xs. watched st1 y = None"
  proof
    fix y
    assume "y \<in> set xs"
    then show "watched st1 y = None" using d(4) [of y] Cons.prems(2,3) by auto
  qed
  moreover have "distinct xs" using Cons.prems(3) by simp
  ultimately have "in_step st' \<and> heard_by (S - {x} - set xs) st' \<and> s_fun_id (conf st') = s_fun_id (conf st1)"
    by (rule Cons.IH [OF d(1) _ _ st1(2) d(2)])
  moreover have "S - {x} - set xs = S - set (x # xs)" by auto
  ultimately show ?case using d(3) by simp
qed auto

lemma read_var_in_step:
  assumes "in_step st" "read_var x st = Inr st'"
  shows "in_step st'" "synced x st'" "conf st' = conf st" "watched st' = watched st" "synced y st \<Longrightarrow> synced y st'"
proof -
  obtain p where p: "watched st x = Some p" and st': "st' = st\<lparr>statics := (statics st)(x := widen (GetValue p (conf st)))\<rparr>"
    using assms(2) by (auto simp: read_var_def value_of_def bindR_eq_Inr split: option.splits)
  note ok = in_stepD [OF assms(1)]
  show "in_step st'"
  proof (rule in_stepI)
    fix y q
    assume "q < length (vars (conf st'))" "heard y q (conf st')"
    then show "watched st' y = Some q \<and> statics st' y = widen (GetValue q (conf st'))"
      using ok(3,4) [of q y] p by (auto simp: st')
  qed (use ok(1,2,5,6) in \<open>auto simp: st'\<close>)
qed (use assms(2) in \<open>auto simp: synced_def read_var_def value_of_def bindR_eq_Inr split: option.splits\<close>)

lemma forR_read_in_step:
  assumes "in_step st" "forR read_var xs st = Inr st'"
  shows "in_step st' \<and> (\<forall>x. x \<in> set xs \<or> synced x st \<longrightarrow> synced x st') \<and> conf st' = conf st \<and> watched st' = watched st"
  using assms
proof (induction xs arbitrary: st)
  case (Cons x xs)
  obtain st1 where st1: "read_var x st = Inr st1" "forR read_var xs st1 = Inr st'"
    using Cons.prems(2) by (auto simp: bindR_eq_Inr)
  note r = read_var_in_step [OF Cons.prems(1) st1(1)]
  from Cons.IH [OF r(1) st1(2)] r(2-5) show ?case by auto
qed simp

lemma AddListener_simps [simp]:
  "GetValue q (snd (AddListener p cb c)) = GetValue q c" "length (vars (snd (AddListener p cb c))) = length (vars c)"
  "s_fun_id (snd (AddListener p cb c)) =
     (s_fun_id c)(cv_type (vars c ! p) := s_fun_id c (cv_type (vars c ! p)) + 1)"
proof -
  show "GetValue q (snd (AddListener p cb c)) = GetValue q c"
    by (cases "p < length (vars c)"; cases "q = p") (simp_all add: AddListener_def Let_def GetValue_def list_update_beyond)
qed (simp_all add: AddListener_def Let_def)

lemma listen_var_in_step:
  assumes "in_step st" "synced x st" "listen_var x st = Inr st'" "s_fun_id (conf st) (gvar_type x) \<noteq> - 1" "heard_by S st"
  shows "in_step st'" "heard_by (insert x S) st'" "synced y st' = synced y st"
    "s_fun_id (conf st') = (s_fun_id (conf st))(gvar_type x := s_fun_id (conf st) (gvar_type x) + 1)"
proof -
  obtain p where p: "watched st x = Some p" "statics st x = widen (GetValue p (conf st))" using assms(2) by (auto simp: synced_def)
  then have st': "st' = st\<lparr>conf := snd (AddListener p (Assigns x) (conf st))\<rparr>" using assms(3) by (simp add: listen_var_def)
  note ok = in_stepD(5,6) [OF assms(1) p(1)]
  have cnt: "s_fun_id (conf st) (cv_type (vars (conf st) ! p)) \<noteq> - 1" using assms(4) ok(2) by simp
  note add = in_step_AddListener [OF assms(1) ok(1) cnt, of "Assigns x"]
  show "in_step st'" using add(1) p by (simp add: st')
  show "heard_by (insert x S) st'" using assms(5) add(2) p by (auto simp: heard_by_def st')
  show "synced y st' = synced y st" by (simp add: synced_def st')
  show "s_fun_id (conf st') = (s_fun_id (conf st))(gvar_type x := s_fun_id (conf st) (gvar_type x) + 1)"
    using ok(2) by (simp add: st')
qed

lemma forR_listen_in_step:
  assumes "in_step st" "\<forall>x \<in> set xs. synced x st \<and> gvar_type x = ty" "forR listen_var xs st = Inr st'"
    "unat (s_fun_id (conf st) ty) + length xs < 2 ^ 64" "heard_by S st"
  shows "in_step st' \<and> heard_by (S \<union> set xs) st'"
  using assms
proof (induction xs arbitrary: st S)
  case (Cons x xs)
  obtain st1 where st1: "listen_var x st = Inr st1" "forR listen_var xs st1 = Inr st'"
    using Cons.prems(3) by (auto simp: bindR_eq_Inr)
  have x: "synced x st" "gvar_type x = ty" using Cons.prems(2) by auto
  let ?k = "s_fun_id (conf st) ty"
  have up: "unat (?k + 1) = Suc (unat ?k)" using Cons.prems(4) by (simp add: unat_word_ariths)
  then have top: "?k \<noteq> - 1" by auto
  note l = listen_var_in_step [OF Cons.prems(1) x(1) st1(1) _ Cons.prems(5)]
  have "\<forall>y \<in> set xs. synced y st1 \<and> gvar_type y = ty" using l(3) top x(2) Cons.prems(2) by simp
  moreover have "unat (s_fun_id (conf st1) ty) + length xs < 2 ^ 64" using l(4) top x(2) up Cons.prems(4) by simp
  ultimately show ?case using Cons.IH [OF l(1) _ st1(2) _ l(2)] top x(2) by simp
qed simp

lemma follow_vars_in_step:
  assumes "in_step st" "heard_by S st" "\<forall>x \<in> set xs. watched st x = None \<and> gvar_type x = ty" "distinct xs" "set xs \<subseteq> S"
    "unat (s_fun_id (conf st) ty) + length xs < 2 ^ 64" "follow_vars xs st = Inr st'"
  shows "in_step st' \<and> heard_by S st'"
proof -
  obtain st1 st2 where r: "forR define_var xs st = Inr st1" "forR read_var xs st1 = Inr st2" "forR listen_var xs st2 = Inr st'"
    using assms(7) by (auto simp: follow_vars_def bindR_eq_Inr)
  have d: "in_step st1" "heard_by (S - set xs) st1" "s_fun_id (conf st1) = s_fun_id (conf st)"
    using forR_define_in_step [OF assms(1) _ assms(4) r(1) assms(2)] assms(3) by auto
  have rd: "in_step st2" "\<forall>x \<in> set xs. synced x st2" "conf st2 = conf st1" "watched st2 = watched st1"
    using forR_read_in_step [OF d(1) r(2)] by auto
  then have "heard_by (S - set xs) st2" using d(2) by (simp add: heard_by_def)
  moreover have "S - set xs \<union> set xs = S" using assms(5) by auto
  ultimately show ?thesis
    using forR_listen_in_step [OF rd(1) _ r(3), of ty] rd(2,3) d(3) assms(3,6) by fastforce
qed

text \<open>Taking away listeners of the program keeps those of the library.\<close>

lemma map_erase_other: "e \<in> set m \<Longrightarrow> fst e \<noteq> k \<Longrightarrow> e \<in> set (map_erase ((<) :: u64 \<Rightarrow> u64 \<Rightarrow> bool) k m)"
  by (induction "(<) :: u64 \<Rightarrow> u64 \<Rightarrow> bool" k m rule: map_erase.induct) (auto simp: not_less)

lemma in_step_fewer:
  assumes "in_step st" "p < length (vars (conf st))" "cfg_wf (upd_var p (\<lambda>x. x\<lparr>callbacks := f (callbacks x)\<rparr>) (conf st))"
    "\<And>e. e \<in> set (f (callbacks (vars (conf st) ! p))) \<Longrightarrow> e \<in> set (callbacks (vars (conf st) ! p))"
  shows "in_step (st\<lparr>conf := upd_var p (\<lambda>x. x\<lparr>callbacks := f (callbacks x)\<rparr>) (conf st)\<rparr>)"
  using assms(2,4) by (intro in_step_conf [OF assms(1,3)]) (auto simp: heard_def nth_list_update split: if_splits)

lemma heard_by_conf:
  assumes "in_step st" "heard_by S st" "\<And>x q. q < length (vars (conf st)) \<Longrightarrow> heard x q (conf st) \<Longrightarrow> heard x q c'"
  shows "heard_by S (st\<lparr>conf := c'\<rparr>)"
  unfolding heard_by_def
proof (intro ballI allI impI)
  fix x p
  assume "x \<in> S" "watched (st\<lparr>conf := c'\<rparr>) x = Some p"
  then have "p < length (vars (conf st))" "heard x p (conf st)"
    using assms(2) in_stepD(5) [OF assms(1), of x p] by (auto simp: heard_by_def)
  then show "heard x p (conf (st\<lparr>conf := c'\<rparr>))" using assms(3) [of p x] by simp
qed

lemma forR_keeps:
  assumes "\<And>x s s'. f x s = Inr s' \<Longrightarrow> g s' = g s"
  shows "forR f xs s = Inr s' \<Longrightarrow> g s' = g s"
  by (induction xs arbitrary: s) (auto simp: bindR_eq_Inr dest: assms)

lemma follow_vars_MAX_LEN:
  assumes "follow_vars xs st = Inr st'"
  shows "MAX_LEN st' = MAX_LEN st"
proof -
  obtain st1 st2 where r: "forR define_var xs st = Inr st1" "forR read_var xs st1 = Inr st2" "forR listen_var xs st2 = Inr st'"
    using assms by (auto simp: follow_vars_def bindR_eq_Inr)
  have "MAX_LEN st1 = MAX_LEN st"
    by (rule forR_keeps [OF _ r(1)]) (auto simp: define_var_def bindR_eq_Inr)
  moreover have "MAX_LEN st2 = MAX_LEN st1"
    by (rule forR_keeps [OF _ r(2)]) (auto simp: read_var_def bindR_eq_Inr)
  moreover have "MAX_LEN st' = MAX_LEN st2"
    by (rule forR_keeps [OF _ r(3)]) (auto simp: listen_var_def split: option.splits)
  ultimately show ?thesis by simp
qed

lemma settings_step_inv: "settings_step C emit st st' \<Longrightarrow> settings_inv st \<Longrightarrow> settings_inv st'"
proof (induction rule: settings_step.induct)
  case (hook_init st st')
  then show ?case using follow_vars_in_step [of st followed hook_vars TInt st']
    by (auto simp: HookIniter_def hook_vars_def followed_def)
next
  case (http_init st st')
  then show ?case using follow_vars_in_step [of st followed http_vars TU64 st']
    by (auto simp: RequestSizeIniter_def http_vars_def followed_def)
next
  case (plain_init x st st')
  then have "followed - {x} = followed" by (auto simp: followed_def hook_vars_def http_vars_def)
  then show ?case using define_var_in_step [of st x st' followed] plain_init by simp
next
  case (lookup ty v name d st r c')
  then show ?case using in_step_lookup [of st ty v name d r c'] by (blast intro: heard_by_conf)
next
  case (set_value p st v)
  then show ?case by (intro conjI in_step_SetValue heard_by_same same_but_value_SetValue) simp_all
next
  case (from_string p st t)
  then show ?case by (intro conjI in_step_fromString heard_by_same same_but_value_fromString) simp_all
next
  case (add_listener p st cb)
  then show ?case using in_step_AddListener [of st p "Client cb"] by (blast intro: heard_by_conf)
next
  case (load_yaml st root)
  then show ?case by (intro conjI in_step_LoadFromYaml heard_by_same same_but_value_LoadFromYaml) simp_all
next
  case (load_dir st mtime contents force files)
  then show ?case by (intro LoadFromConfDir_in_step) simp_all
next
  case (clear st)
  then have "cfg_wf (Config_Clear (conf st))" using in_stepD(1) [of st] by (simp add: Config_Clear_def cfg_wf_def)
  then have "in_step (st\<lparr>conf := Config_Clear (conf st)\<rparr>)"
    using in_step_cong [of st "st\<lparr>conf := Config_Clear (conf st)\<rparr>"] clear by (simp add: Config_Clear_def)
  moreover have "heard_by followed (st\<lparr>conf := Config_Clear (conf st)\<rparr>)"
    using clear by (intro heard_by_conf) (simp_all add: Config_Clear_def heard_def)
  ultimately show ?case ..
next
  case (first_use f st n st')
  then have "conf st' = conf st" "watched st' = watched st" "statics st' = statics st"
    by (auto simp: use_MAX_LEN_def bindR_eq_Inr split: option.splits)
  moreover from this have "in_step st'" using in_step_cong [of st st'] first_use in_stepD(1) [of st] by simp
  ultimately show ?case using first_use by (simp add: heard_by_def)
next
  case (del_listener p st k)
  let ?c = "DelListener p k (conf st)"
  have "cfg_wf ?c" using del_listener in_stepD(1) cfg_step_wf [OF cfg_step.del_listener] by blast
  then have "in_step (st\<lparr>conf := ?c\<rparr>)"
    using del_listener unfolding DelListener_def by (intro in_step_fewer) (auto dest: map_erase_set)
  moreover have "heard x q ?c" if "q < length (vars (conf st))" "heard x q (conf st)" for x q
    using that del_listener(1,2) map_erase_other [of "(_, Assigns x)" "callbacks (vars (conf st) ! p)" k]
    by (cases "q = p") (force simp: heard_def DelListener_def image_iff)+
  ultimately show ?case using del_listener(3) by (blast intro: heard_by_conf)
next
  case (clear_listener p st)
  let ?c = "clearListener p (conf st)"
  have "cfg_wf ?c" using clear_listener in_stepD(1) cfg_step_wf [OF cfg_step.clear_listener] by blast
  then have "in_step (st\<lparr>conf := ?c\<rparr>)"
    using clear_listener in_step_fewer [of st p "\<lambda>_. []"] by (simp add: clearListener_def)
  moreover have "heard x q ?c" if "q < length (vars (conf st))" "heard x q (conf st)" for x q
    using that clear_listener(1,2) in_stepD(3) [OF conjunct1 [OF clear_listener(3)] that]
    by (cases "q = p") (auto simp: heard_def clearListener_def)
  ultimately show ?case using clear_listener(3) by (blast intro: heard_by_conf)
qed

lemma newProgram_inv: "settings_inv newProgram"
  by (simp add: in_step_def heard_by_def newProgram_def) (simp add: newConfig_def)

interpretation settings: transition_system newProgram "settings_step C emit" settings_inv for C emit
  by unfold_locales (auto simp: newProgram_inv [simplified] dest: settings_step_inv)

lemma MAX_LEN_step: "settings_step C emit st st' \<Longrightarrow> MAX_LEN st f = Some n \<Longrightarrow> MAX_LEN st' f = Some n"
  by (induction rule: settings_step.induct)
    (auto simp: HookIniter_def RequestSizeIniter_def define_var_def use_MAX_LEN_def bindR_eq_Inr
      dest!: follow_vars_MAX_LEN split: option.splits)

section \<open>Properties\<close>

text \<open>
  C16. The limits of the hooks and of the HTTP parsers follow the configuration.  Whatever a program has
  done to its configuration since it started (without removing the listeners of the library), the
  static of every variable that has been initialised has the configured value, a signed timeout
  extended to 64 bits; and after loading a document it has the value that the texts of the document
  under the name of the variable give.
\<close>

theorem settings_follow:
  assumes "(settings_step C emit)\<^sup>*\<^sup>* newProgram st" "x \<in> followed" "watched st x = Some p"
  shows "statics st x = widen (GetValue p (conf st))
    \<and> cv_type (vars (conf st) ! p) = gvar_type x \<and> has_type (cv_type (vars (conf st) ! p)) (GetValue p (conf st))
    \<and> (LookupBase (gvar_name x) (conf st) = Some p \<longrightarrow>
        statics (settle (LoadFromYaml (setting_traits C) emit root (conf st)) st) x =
        widen (foldl (assign_text (setting_traits C) (gvar_type x)) (GetValue p (conf st))
          (texts_for emit (gvar_name x) (ListAllMember [] root))))"
proof -
  have at: "statics st' x = widen (GetValue p (conf st')) \<and> has_type (cv_type (vars (conf st') ! p)) (GetValue p (conf st'))"
    if "settings_inv st'" "watched st' x = Some p" for st' :: "('a, 'b, 'c) program"
  proof -
    have ok: "in_step st'" "heard x p (conf st')" using that assms(2) by (auto simp: heard_by_def)
    note p = in_stepD(5) [OF ok(1) that(2)]
    show ?thesis using in_stepD(4) [OF ok(1) p ok(2)] in_stepD(2) [OF ok(1) p] by (simp add: GetValue_def)
  qed
  have inv: "settings_inv st" using assms(1) by (rule settings.reachable_inv)
  let ?st = "settle (LoadFromYaml (setting_traits C) emit root (conf st)) st"
  have "settings_inv ?st" using settings_step_inv [OF settings_step.load_yaml inv] .
  from at [OF this] have loaded: "statics ?st x = widen (GetValue p (conf ?st))" using assms(3) by simp
  have ty: "cv_type (vars (conf st) ! p) = gvar_type x" using in_stepD(6) [of st x p] inv assms(3) by simp
  from LoadFromYaml_value [OF in_stepD(1) [of st], of "gvar_name x" p "setting_traits C" emit root] inv
  show ?thesis using at [OF inv assms(3)] loaded ty by simp
qed

definition demo_casts :: "(unit, unit) casts" where
  "demo_casts = \<lparr>to_i32 = (\<lambda>s. if s = ''-1'' then Some (-1) else None), to_u32 = (\<lambda>_. None), to_u64 = (\<lambda>_. None),
     others = \<lparr>FromStr = (\<lambda>_ _. None), ToStr = (\<lambda>_ _. None), val_eq = (\<lambda>_. (=))\<rparr>\<rparr>"

definition demo_program :: "(unit, unit, unit) program" where
  "demo_program = (case HookIniter newProgram of Inl _ \<Rightarrow> newProgram | Inr st \<Rightarrow> st)"

lemma demo_program_init: "HookIniter newProgram = Inr demo_program"
  "watched demo_program g_tcpConnectTimeout = Some 0" "statics demo_program g_tcpConnectTimeout = 5000"
  "GetValue 0 (conf demo_program) = VInt 5000" "LookupBase ''tcp.connect.timeout'' (conf demo_program) = Some 0"
  by (simp_all add: demo_program_def HookIniter_def follow_vars_def hook_vars_def define_var_def read_var_def listen_var_def
      value_of_def newProgram_def newConfig_def Lookup_default_def valid_name_def name_chars_def newConfigVar_def GetValue_def LookupBase_def
      AddListener_def Let_def upd_var_def)

theorem settings_follow_witness:
  "statics demo_program g_tcpConnectTimeout = 5000 \<and>
   statics (settle (LoadFromYaml (setting_traits demo_casts) Scalar
     (YMap [(YScalar ''tcp.connect.timeout'', YScalar ''-1'')]) (conf demo_program)) demo_program) g_tcpConnectTimeout = -1"
proof -
  have "settings_step demo_casts Scalar newProgram demo_program"
    by (rule settings_step.hook_init) (simp_all add: demo_program_init, simp_all add: newProgram_def newConfig_def)
  then have "(settings_step demo_casts Scalar)\<^sup>*\<^sup>* newProgram demo_program" by simp
  moreover have "texts_for Scalar ''tcp.connect.timeout'' (ListAllMember [] (YMap [(YScalar ''tcp.connect.timeout'', YScalar ''-1'')])) = [''-1'']"
    by (simp add: ListAllMember.simps texts_for_def Scalar_def valid_name_def name_chars_def node_text_def)
  ultimately show ?thesis
    using settings_follow [of demo_casts Scalar demo_program g_tcpConnectTimeout 0 "YMap [(YScalar ''tcp.connect.timeout'', YScalar ''-1'')]"]
    by (simp add: demo_program_init followed_def hook_vars_def assign_text_def setting_traits_def demo_casts_def)
qed

text \<open>
  The limit of a stream is read once: whatever happens to the configuration after the first
  transfer of a function, the function goes on with the limit that it saw then.
\<close>

theorem stream_limit_fixed:
  assumes "(settings_step C emit)\<^sup>*\<^sup>* st st'" "use_MAX_LEN f st0 = Inr (n, st)"
  shows "use_MAX_LEN f st' = Inr (n, st')"
proof -
  have "MAX_LEN st f = Some n" using assms(2) by (auto simp: use_MAX_LEN_def bindR_eq_Inr split: option.splits)
  with assms(1) have "MAX_LEN st' f = Some n" by (induction rule: rtranclp_induct) (auto intro: MAX_LEN_step)
  then show ?thesis by (simp add: use_MAX_LEN_def)
qed

end
