(* ===== verification/Log_Format.thy ===== *)
theory Log_Format
  imports Text
begin

text \<open>
  Log levels, log events and the pattern language of the log formatter (\<open>gudov/log.{h,cpp}\<close>): the
  scanner with its positions and states, the items it produces and how they print an event.
  \<open>strftime\<close> on the local time is an argument; \<open>None\<close> is a text that does not fit its buffer.

  The lemmas show that the names of levels are read back, and that the scanner finds exactly the
  directives and literals of every pattern built from them, together with what it does to a doubled
  percent sign.
\<close>

section \<open>Levels\<close>

datatype level = UNKNOWN | DEBUG | INFO | WARN | ERROR | FATAL

fun level_num :: "level \<Rightarrow> nat" where
  "level_num UNKNOWN = 0" | "level_num DEBUG = 1" | "level_num INFO = 2"
| "level_num WARN = 3" | "level_num ERROR = 4" | "level_num FATAL = 5"

lemma level_num_inject: "level_num a = level_num b \<longleftrightarrow> a = b"
  by (cases a; cases b) simp_all

text \<open>Levels are compared by their numbers.\<close>

instantiation level :: linorder
begin

definition less_eq_level :: "level \<Rightarrow> level \<Rightarrow> bool" where "less_eq_level a b \<longleftrightarrow> level_num a \<le> level_num b"
definition less_level :: "level \<Rightarrow> level \<Rightarrow> bool" where "less_level a b \<longleftrightarrow> level_num a < level_num b"

instance
  by standard (auto simp: less_eq_level_def less_level_def level_num_inject)

end

fun Level_ToString :: "level \<Rightarrow> string" where
  "Level_ToString DEBUG = ''DEBUG''"
| "Level_ToString INFO = ''INFO''"
| "Level_ToString WARN = ''WARN''"
| "Level_ToString ERROR = ''ERROR''"
| "Level_ToString FATAL = ''FATAL''"
| "Level_ToString UNKNOWN = ''UNKNOWN''"

definition level_names :: "(string \<times> level) list" where
  "level_names =
     [(''debug'', DEBUG), (''info'', INFO), (''warn'', WARN), (''error'', ERROR), (''fatal'', FATAL),
      (''DEBUG'', DEBUG), (''INFO'', INFO), (''WARN'', WARN), (''ERROR'', ERROR), (''FATAL'', FATAL)]"

definition Level_FromString :: "string \<Rightarrow> level" where
  "Level_FromString str = (case map_of level_names str of Some l \<Rightarrow> l | None \<Rightarrow> UNKNOWN)"

section \<open>Events\<close>

text \<open>\<open>ev_name\<close> is the name of the logger of the event, \<open>ev_content\<close> what was streamed into it.\<close>

record event =
  ev_file :: string
  ev_line :: int
  ev_elapse :: u32
  ev_thread_id :: u32
  ev_fiber_id :: u32
  ev_time :: u64
  ev_content :: string
  ev_name :: string
  ev_level :: level

definition newLogEvent :: "string \<Rightarrow> level \<Rightarrow> string \<Rightarrow> int \<Rightarrow> u32 \<Rightarrow> u32 \<Rightarrow> u32 \<Rightarrow> u64 \<Rightarrow> event" where
  "newLogEvent name level filename line elapse threadId fiberId time =
     \<lparr>ev_file = filename, ev_line = line, ev_elapse = elapse, ev_thread_id = threadId, ev_fiber_id = fiberId,
      ev_time = time, ev_content = [], ev_name = name, ev_level = level\<rparr>"

text \<open>\<open>fmtd\<close> is what \<open>vasprintf\<close> makes of the format and its arguments, \<open>None\<close> when it fails.\<close>

definition LogEvent_format :: "string option \<Rightarrow> event \<Rightarrow> event" where
  "LogEvent_format fmtd e = (case fmtd of None \<Rightarrow> e | Some s \<Rightarrow> e\<lparr>ev_content := ev_content e @ s\<rparr>)"

section \<open>Items\<close>

datatype item =
    MessageItem | LevelItem | ElapseItem | NameItem | ThreadIdItem | FiberIdItem
  | DateTimeItem string
  | FilenameItem | LineItem | NewLineItem
  | StringItem string
  | TabItem

definition default_time_format :: string where "default_time_format = ''%Y-%m-%d %H:%M:%S''"

definition newDateTimeItem :: "string \<Rightarrow> item" where
  "newDateTimeItem format = DateTimeItem (if format = [] then default_time_format else format)"

text \<open>A time that does not fit its buffer leaves the buffer uninitialised.\<close>

fun item_format :: "(string \<Rightarrow> u64 \<Rightarrow> string option) \<Rightarrow> event \<Rightarrow> item \<Rightarrow> string res" where
  "item_format time_text e MessageItem = Inr (ev_content e)"
| "item_format time_text e LevelItem = Inr (Level_ToString (ev_level e))"
| "item_format time_text e ElapseItem = Inr (dec (unat (ev_elapse e)))"
| "item_format time_text e NameItem = Inr (ev_name e)"
| "item_format time_text e ThreadIdItem = Inr (dec (unat (ev_thread_id e)))"
| "item_format time_text e FiberIdItem = Inr (dec (unat (ev_fiber_id e)))"
| "item_format time_text e (DateTimeItem f) =
     (case time_text (cstr f) (ev_time e) of Some s \<Rightarrow> Inr s | None \<Rightarrow> Inl Indeterminate)"
| "item_format time_text e FilenameItem = Inr (ev_file e)"
| "item_format time_text e LineItem = Inr (sdec (ev_line e))"
| "item_format time_text e NewLineItem = Inr ''\<newline>''"
| "item_format time_text e (StringItem s) = Inr s"
| "item_format time_text e TabItem = Inr [CHR 0x09]"

section \<open>The scanner\<close>

definition isalpha :: "char \<Rightarrow> bool" where
  "isalpha c \<longleftrightarrow> (65 \<le> (of_char c :: nat) \<and> (of_char c :: nat) \<le> 90) \<or> (97 \<le> (of_char c :: nat) \<and> (of_char c :: nat) \<le> 122)"

definition substr :: "string \<Rightarrow> nat \<Rightarrow> nat \<Rightarrow> string" where
  "substr s pos n = take n (drop pos s)"

text \<open>
  The loop over a directive that starts at position \<open>i\<close>: \<open>n\<close> is the position, \<open>status\<close> is 1 inside
  braces.  It returns the last position, the status, the letters and the format.
\<close>

function scan ::
  "string \<Rightarrow> nat \<Rightarrow> nat \<Rightarrow> nat \<Rightarrow> nat \<Rightarrow> string \<Rightarrow> string \<Rightarrow> nat \<times> nat \<times> string \<times> string" where
  "scan p i n status fb str fmt =
     (if n < length p then
        if status = 0 \<and> \<not> isalpha (p ! n) \<and> p ! n \<noteq> CHR ''{'' \<and> p ! n \<noteq> CHR ''}'' then
          (n, status, substr p (i + 1) (n - i - 1), fmt)
        else if status = 0 \<and> p ! n = CHR ''{'' then
          scan p i (n + 1) 1 n (substr p (i + 1) (n - i - 1)) fmt
        else if status = 1 \<and> p ! n = CHR ''}'' then
          (n + 1, 0, str, substr p (fb + 1) (n - fb - 1))
        else scan p i (n + 1) status fb
          (if n + 1 = length p \<and> str = [] then drop (i + 1) p else str) fmt
      else (n, status, str, fmt))"
  by pat_completeness auto

termination scan
  by (relation "measure (\<lambda>(p, i, n, _). length p - n)") auto

declare scan.simps [simp del]

lemma scan_ge: "scan p i n status fb str fmt = (n', r) \<Longrightarrow> n \<le> n'"
proof (induction p i n status fb str fmt rule: scan.induct)
  case (1 p i n status fb str fmt)
  then show ?case by (subst (asm) (3) scan.simps) (fastforce split: if_splits)
qed

text \<open>A token is a literal text, or the letters and the format of a directive.\<close>

datatype token = Lit string | Dir string string

function pattern_loop :: "string \<Rightarrow> nat \<Rightarrow> string \<Rightarrow> token list \<Rightarrow> bool \<Rightarrow> token list \<times> bool" where
  "pattern_loop p i nstr vec err =
     (if i < length p then
        if p ! i \<noteq> CHR ''%'' then pattern_loop p (i + 1) (nstr @ [p ! i]) vec err
        else if i + 1 < length p \<and> p ! (i + 1) = CHR ''%'' then pattern_loop p (i + 1) (nstr @ ''%'') vec err
        else (case scan p i (i + 1) 0 0 [] [] of
            (n, status, str, fmt) \<Rightarrow>
              if status = 0 then
                pattern_loop p n [] (vec @ (if nstr = [] then [] else [Lit nstr]) @ [Dir str fmt]) err
              else pattern_loop p (i + 1) nstr (vec @ [Lit ''<<pattern_error>>'']) True)
      else (vec @ (if nstr = [] then [] else [Lit nstr]), err))"
  by pat_completeness auto

termination pattern_loop
  by (relation "measure (\<lambda>(p, i, _). length p - i)") (auto dest: scan_ge [OF sym])

declare pattern_loop.simps [simp del]

definition format_items :: "(string \<times> (string \<Rightarrow> item)) list" where
  "format_items =
     [(''m'', \<lambda>_. MessageItem), (''p'', \<lambda>_. LevelItem), (''r'', \<lambda>_. ElapseItem), (''c'', \<lambda>_. NameItem),
      (''t'', \<lambda>_. ThreadIdItem), (''n'', \<lambda>_. NewLineItem), (''d'', newDateTimeItem), (''f'', \<lambda>_. FilenameItem),
      (''l'', \<lambda>_. LineItem), (''T'', \<lambda>_. TabItem), (''F'', \<lambda>_. FiberIdItem)]"

definition token_item :: "token \<Rightarrow> item \<times> bool" where
  "token_item t = (case t of
     Lit s \<Rightarrow> (StringItem s, False)
   | Dir str fmt \<Rightarrow>
       (case map_of format_items str of
          None \<Rightarrow> (StringItem (''<<error_format %'' @ str @ ''>>''), True)
        | Some f \<Rightarrow> (f fmt, False)))"

record formatter =
  fm_pattern :: string
  fm_items :: "item list"
  fm_error :: bool

definition newLogFormatter :: "string \<Rightarrow> formatter" where
  "newLogFormatter pattern =
     (let (vec, err) = pattern_loop pattern 0 [] [] False; its = map token_item vec in
      \<lparr>fm_pattern = pattern, fm_items = map fst its, fm_error = (err \<or> (\<exists>x \<in> set its. snd x))\<rparr>)"

fun format_loop :: "(string \<Rightarrow> u64 \<Rightarrow> string option) \<Rightarrow> event \<Rightarrow> item list \<Rightarrow> string \<Rightarrow> string res" where
  "format_loop time_text e [] ss = Inr ss"
| "format_loop time_text e (x # xs) ss =
     bindR (item_format time_text e x) (\<lambda>s. format_loop time_text e xs (ss @ s))"

definition LogFormatter_format :: "(string \<Rightarrow> u64 \<Rightarrow> string option) \<Rightarrow> event \<Rightarrow> formatter \<Rightarrow> string res" where
  "LogFormatter_format time_text e f = format_loop time_text e (fm_items f) []"

section \<open>Patterns by their parts\<close>

text \<open>
  What a pattern is meant to say: literal texts, directives of one letter, and directives with a
  format in braces.
\<close>

datatype seg = SLit string | SDir char | SFmt char string

fun unparse :: "seg \<Rightarrow> string" where
  "unparse (SLit s) = s"
| "unparse (SDir c) = [CHR ''%'', c]"
| "unparse (SFmt c f) = CHR ''%'' # c # CHR ''{'' # f @ ''}''"

fun seg_token :: "seg \<Rightarrow> token" where
  "seg_token (SLit s) = Lit s"
| "seg_token (SDir c) = Dir [c] []"
| "seg_token (SFmt c f) = Dir [c] f"

text \<open>
  Literals are not empty and hold no percent sign, formats hold no closing brace, no two literals
  follow each other, and the text after a directive without format does not go on with a letter or a
  brace.
\<close>

definition ends_letters :: "string \<Rightarrow> bool" where
  "ends_letters s = (case s of [] \<Rightarrow> True | c # _ \<Rightarrow> \<not> isalpha c \<and> c \<noteq> CHR ''{'' \<and> c \<noteq> CHR ''}'')"

fun is_lit :: "seg \<Rightarrow> bool" where
  "is_lit (SLit s) = True" | "is_lit (SDir c) = False" | "is_lit (SFmt c f) = False"

fun starts_lit :: "seg list \<Rightarrow> bool" where
  "starts_lit [] = False" | "starts_lit (x # xs) = is_lit x"

fun segs_wf :: "seg list \<Rightarrow> bool" where
  "segs_wf [] = True"
| "segs_wf (SLit s # xs) = (s \<noteq> [] \<and> CHR ''%'' \<notin> set s \<and> \<not> starts_lit xs \<and> segs_wf xs)"
| "segs_wf (SDir c # xs) = (isalpha c \<and> ends_letters (concat (map unparse xs)) \<and> segs_wf xs)"
| "segs_wf (SFmt c f # xs) = (isalpha c \<and> CHR ''}'' \<notin> set f \<and> segs_wf xs)"

section \<open>Lemmas\<close>

lemma isalpha_not [simp]: "\<not> isalpha CHR ''%''" "\<not> isalpha CHR ''{''" "\<not> isalpha CHR ''}''"
  by (simp_all add: isalpha_def)

lemma loop_literal:
  "CHR ''%'' \<notin> set s \<Longrightarrow> pattern_loop (pre @ s @ post) (length pre) nstr vec err =
     pattern_loop (pre @ s @ post) (length pre + length s) (nstr @ s) vec err"
proof (induction s arbitrary: pre nstr)
  case (Cons c s)
  have "c \<noteq> CHR ''%''" using Cons.prems by auto
  then have "pattern_loop (pre @ (c # s) @ post) (length pre) nstr vec err =
      pattern_loop ((pre @ [c]) @ s @ post) (length (pre @ [c])) (nstr @ [c]) vec err"
    by (subst pattern_loop.simps) (simp add: nth_append)
  also have "\<dots> = pattern_loop ((pre @ [c]) @ s @ post) (length (pre @ [c]) + length s) ((nstr @ [c]) @ s) vec err"
    using Cons by (intro Cons.IH) simp
  finally show ?case by simp
qed simp

lemma scan_letter:
  assumes "isalpha c" "ends_letters post"
  shows "scan (pre @ CHR ''%'' # c # post) (length pre) (Suc (length pre)) 0 0 [] [] = (length pre + 2, 0, [c], [])"
proof -
  let ?p = "pre @ CHR ''%'' # c # post"
  have "c \<noteq> CHR ''{''" using assms(1) by auto
  then have "scan ?p (length pre) (Suc (length pre)) 0 0 [] [] =
      scan ?p (length pre) (length pre + 2) 0 0 (if post = [] then [c] else []) []"
    using assms(1) by (subst scan.simps) (auto simp: nth_append)
  also have "\<dots> = (length pre + 2, 0, [c], [])"
    using assms(2) by (subst scan.simps) (cases post; simp add: nth_append ends_letters_def substr_def)
  finally show ?thesis .
qed

lemma scan_braces:
  "CHR ''}'' \<notin> set f \<Longrightarrow> str \<noteq> [] \<Longrightarrow> fb < length pre \<Longrightarrow>
    scan (pre @ f @ CHR ''}'' # post) i (length pre) 1 fb str [] =
      (length pre + length f + 1, 0, str, substr (pre @ f) (fb + 1) (length pre + length f - fb - 1))"
proof (induction f arbitrary: pre)
  case Nil
  then show ?case by (subst scan.simps) (simp add: nth_append substr_def)
next
  case (Cons c f)
  have "c \<noteq> CHR ''}''" using Cons.prems by auto
  then have "scan (pre @ (c # f) @ CHR ''}'' # post) i (length pre) 1 fb str [] =
      scan ((pre @ [c]) @ f @ CHR ''}'' # post) i (length (pre @ [c])) 1 fb str []"
    using Cons.prems by (subst scan.simps) (simp add: nth_append)
  also have "\<dots> = (length (pre @ [c]) + length f + 1, 0, str,
      substr ((pre @ [c]) @ f) (fb + 1) (length (pre @ [c]) + length f - fb - 1))"
    using Cons by (intro Cons.IH) auto
  finally show ?case by simp
qed

lemma scan_format:
  assumes "isalpha c" "CHR ''}'' \<notin> set f"
  shows "scan (pre @ CHR ''%'' # c # CHR ''{'' # f @ CHR ''}'' # post) (length pre) (Suc (length pre)) 0 0 [] [] =
    (length pre + 4 + length f, 0, [c], f)"
proof -
  let ?p = "pre @ CHR ''%'' # c # CHR ''{'' # f @ CHR ''}'' # post"
  let ?q = "pre @ [CHR ''%'', c, CHR ''{'']"
  have p: "?p = ?q @ f @ CHR ''}'' # post" by simp
  have "c \<noteq> CHR ''{''" using assms(1) by auto
  then have "scan ?p (length pre) (Suc (length pre)) 0 0 [] [] = scan ?p (length pre) (length pre + 2) 0 0 [] []"
    using assms(1) by (subst scan.simps) (auto simp: nth_append)
  also have "\<dots> = scan ?p (length pre) (length ?q) 1 (length pre + 2) [c] []"
    by (subst scan.simps) (simp add: nth_append substr_def numeral_2_eq_2 eval_nat_numeral)
  also have "\<dots> = (length ?q + length f + 1, 0, [c], substr (?q @ f) (length pre + 3) (length f))"
    unfolding p using scan_braces [of f "[c]" "length pre + 2" ?q post "length pre"] assms(2) by (simp add: eval_nat_numeral)
  also have "\<dots> = (length pre + 4 + length f, 0, [c], f)" by (simp add: substr_def)
  finally show ?thesis .
qed

lemma loop_directive:
  assumes "isalpha c" "scan p i (Suc i) 0 0 [] [] = (n, 0, str, fmt)" "Suc i < length p" "p ! i = CHR ''%''" "p ! Suc i = c"
  shows "pattern_loop p i nstr vec err =
    pattern_loop p n [] (vec @ (if nstr = [] then [] else [Lit nstr]) @ [Dir str fmt]) err"
proof -
  have "c \<noteq> CHR ''%''" using assms(1) by auto
  with assms show ?thesis by (subst pattern_loop.simps) simp
qed

lemma loop_end: "length p \<le> i \<Longrightarrow> pattern_loop p i nstr vec err = (vec @ (if nstr = [] then [] else [Lit nstr]), err)"
  by (subst pattern_loop.simps) simp

lemma loop_segs:
  "segs_wf xs \<Longrightarrow> nstr = [] \<or> \<not> starts_lit xs \<Longrightarrow>
     pattern_loop (pre @ concat (map unparse xs)) (length pre) nstr vec err =
       (vec @ (if nstr = [] then [] else [Lit nstr]) @ map seg_token xs, err)"
proof (induction xs arbitrary: pre nstr vec)
  case Nil
  show ?case by (subst pattern_loop.simps) simp
next
  case (Cons x xs)
  let ?post = "concat (map unparse xs)"
  show ?case
  proof (cases x)
    case (SLit s)
    then have n: "nstr = []" "s \<noteq> []" "CHR ''%'' \<notin> set s" "segs_wf xs" "\<not> starts_lit xs" using Cons.prems by auto
    then show ?thesis using loop_literal [of s pre ?post "[]" vec err] Cons.IH [of s "pre @ s" vec] by (simp add: SLit)
  next
    case (SDir c)
    then have c: "isalpha c" "ends_letters ?post" "segs_wf xs" using Cons.prems by auto
    show ?thesis
      using loop_directive [OF c(1) scan_letter [OF c(1,2), of pre], of nstr vec err]
        Cons.IH [of "[]" "pre @ [CHR ''%'', c]"] c(3)
      by (simp add: SDir nth_append)
  next
    case (SFmt c f)
    then have c: "isalpha c" "CHR ''}'' \<notin> set f" "segs_wf xs" using Cons.prems by auto
    show ?thesis
      using loop_directive [OF c(1) scan_format [OF c(1,2), of pre ?post], of nstr vec err]
        Cons.IH [of "[]" "pre @ CHR ''%'' # c # CHR ''{'' # f @ ''}''"] c(3)
      by (simp add: SFmt nth_append eval_nat_numeral)
  qed
qed

section \<open>Properties\<close>

text \<open>
  The names of levels are read back, in upper and in lower case.
\<close>

theorem level_roundtrip:
  "Level_FromString (Level_ToString l) = l \<and> Level_FromString (map tolower (Level_ToString l)) = l"
  by (cases l) (simp_all only:, code_simp+)

text \<open>
  C36. The formatter understands patterns written from literals and directives: the items are those of
  the parts in order, an unknown letter giving the item of an error message, and there is an error
  exactly when a letter is unknown.  Literals are not empty, contain no percent sign and do not follow
  one another; a directive is one letter, after a percent sign, with or without an argument in braces
  (which contains no closing brace), and one without argument is not followed directly by a letter
  or a brace, because the scanner takes all the letters that follow as its name.
\<close>

theorem pattern_understood:
  assumes "segs_wf xs"
  shows "fm_items (newLogFormatter (concat (map unparse xs))) = map (fst \<circ> token_item \<circ> seg_token) xs
    \<and> (fm_error (newLogFormatter (concat (map unparse xs))) \<longleftrightarrow> (\<exists>x \<in> set xs. snd (token_item (seg_token x))))"
  using loop_segs [OF assms, of "[]" "[]" "[]" False] by (simp add: newLogFormatter_def comp_assoc)

definition demo_pattern :: "seg list" where
  "demo_pattern = [SFmt CHR ''d'' ''%H:%M'', SLit '' ['', SDir CHR ''p'', SLit ''] '', SDir CHR ''m'', SDir CHR ''n'']"

theorem pattern_understood_witness:
  "fm_items (newLogFormatter ''%d{%H:%M} [%p] %m%n'') =
     [DateTimeItem ''%H:%M'', StringItem '' ['', LevelItem, StringItem ''] '', MessageItem, NewLineItem]"
  using pattern_understood [of demo_pattern]
  by (simp add: demo_pattern_def isalpha_def ends_letters_def token_item_def format_items_def newDateTimeItem_def)

text \<open>
  A doubled percent sign is not a literal percent sign: the first one is printed and the second one
  still starts a directive, so that \<open>%%d\<close> prints a percent sign and the date, and a doubled percent
  sign at the end of a pattern is an error.
\<close>

theorem doubled_percent:
  assumes "CHR ''%'' \<notin> set s" "isalpha c"
  shows "pattern_loop (s @ ''%%'' @ [c]) 0 [] [] False = ([Lit (s @ ''%''), Dir [c] []], False)
    \<and> fm_error (newLogFormatter (s @ ''%%''))"
proof -
  have lit: "pattern_loop (s @ ''%%'' @ t) 0 [] [] False = pattern_loop ((s @ ''%'') @ ''%'' @ t) (length (s @ ''%'')) (s @ ''%'') [] False" for t
    using loop_literal [OF assms(1), of "[]" "''%%'' @ t" "[]" "[]" False]
    by (simp, subst pattern_loop.simps, simp add: nth_append)
  have "scan ((s @ ''%'') @ CHR ''%'' # [c]) (length (s @ ''%'')) (Suc (length (s @ ''%''))) 0 0 [] [] =
      (length (s @ ''%'') + 2, 0, [c], [])"
    by (rule scan_letter [OF assms(2)]) (simp add: ends_letters_def)
  then have one: "pattern_loop (s @ ''%%'' @ [c]) 0 [] [] False = ([Lit (s @ ''%''), Dir [c] []], False)"
    unfolding lit by (subst loop_directive [OF assms(2)]) (auto simp: nth_append loop_end)
  have "scan ((s @ ''%'') @ ''%'') (length (s @ ''%'')) (Suc (length (s @ ''%''))) 0 0 [] [] = (length s + 2, 0, [], [])"
    by (subst scan.simps) simp
  then have "pattern_loop (s @ ''%%'') 0 [] [] False = ([Lit (s @ ''%''), Dir [] []], False)"
    using lit [of "[]"] by (simp, subst pattern_loop.simps) (simp add: nth_append loop_end)
  with one show ?thesis by (simp add: newLogFormatter_def token_item_def format_items_def)
qed

theorem doubled_percent_witness:
  "pattern_loop ''100%%d'' 0 [] [] False = ([Lit ''100%'', Dir ''d'' []], False)"
  using doubled_percent [of "''100''" "CHR ''d''"] by (simp add: isalpha_def)

end
