(* ===== verification/Log.thy ===== *)
theory Log
  imports Log_Format Config
begin

text \<open>
  Loggers, appenders, their manager, and the configuration of all of them through the variable
  \<open>logs\<close> (\<open>gudov/log.{h,cpp}\<close>).  Loggers and appenders are objects in stores; what is printed goes to
  \<open>out\<close> and to the contents of files.  The clock, the opening and writing of files and \<open>strftime\<close> are
  arguments, collected in \<open>sys\<close>.

  The lemmas show where an event is written in every reachable state, that logging never meets a
  cycle of loggers, nor a missing formatter unless a null one was set, what a configuration keeps of its text, and what the
  listener of the variable does to an entry that has not changed.
\<close>

section \<open>Appenders\<close>

datatype akind = FileLogAppender string | StdoutLogAppender

record appender =
  ap_kind :: akind
  ap_level :: level
  ap_formatter :: "formatter option"
  ap_last_time :: u64
  ap_open :: bool
  ap_good :: bool

record logger =
  lg_name :: string
  lg_level :: level
  lg_appenders :: "nat list"
  lg_formatter :: "formatter option"
  lg_root :: "nat option"

record lstate =
  lgs :: "logger list"
  aps :: "appender list"
  loggers :: "(string \<times> nat) list"
  root :: nat
  out :: string
  files :: "string \<Rightarrow> string"

record sys =
  time_text :: "string \<Rightarrow> u64 \<Rightarrow> string option"
  now :: u64
  can_open :: "string \<Rightarrow> bool"
  can_write :: "string \<Rightarrow> bool"

definition upd_ap :: "nat \<Rightarrow> (appender \<Rightarrow> appender) \<Rightarrow> lstate \<Rightarrow> lstate" where
  "upd_ap a f st = st\<lparr>aps := (aps st)[a := f (aps st ! a)]\<rparr>"

definition upd_lg :: "nat \<Rightarrow> (logger \<Rightarrow> logger) \<Rightarrow> lstate \<Rightarrow> lstate" where
  "upd_lg l f st = st\<lparr>lgs := (lgs st)[l := f (lgs st ! l)]\<rparr>"

definition newStdoutLogAppender :: "level \<Rightarrow> appender" where
  "newStdoutLogAppender level =
     \<lparr>ap_kind = StdoutLogAppender, ap_level = level, ap_formatter = None, ap_last_time = 0, ap_open = False, ap_good = True\<rparr>"

text \<open>
  \<open>ap_open\<close>: the stream has its file open; \<open>ap_good\<close>: it has had no error.  A good stream is closed first and
  opening clears its errors when it succeeds.  A stream that failed is not closed: if its file is still
  open, because a write failed, opening it again fails and the error stays.
\<close>

definition reopen :: "sys \<Rightarrow> appender \<Rightarrow> appender" where
  "reopen S a =
     (case ap_kind a of
        FileLogAppender f \<Rightarrow>
          if \<not> ap_good a \<and> ap_open a then a else a\<lparr>ap_open := can_open S f, ap_good := can_open S f\<rparr>
      | StdoutLogAppender \<Rightarrow> a)"

definition newFileLogAppender :: "sys \<Rightarrow> string \<Rightarrow> level \<Rightarrow> appender" where
  "newFileLogAppender S filename level =
     reopen S \<lparr>ap_kind = FileLogAppender filename, ap_level = level, ap_formatter = None, ap_last_time = 0, ap_open = False, ap_good = True\<rparr>"

definition Appender_SetFormatter :: "formatter option \<Rightarrow> nat \<Rightarrow> lstate \<Rightarrow> lstate" where
  "Appender_SetFormatter f a st = upd_ap a (\<lambda>x. x\<lparr>ap_formatter := f\<rparr>) st"

definition Appender_SetLevel :: "level \<Rightarrow> nat \<Rightarrow> lstate \<Rightarrow> lstate" where
  "Appender_SetLevel v a st = upd_ap a (\<lambda>x. x\<lparr>ap_level := v\<rparr>) st"

definition formatted :: "sys \<Rightarrow> event \<Rightarrow> appender \<Rightarrow> string res" where
  "formatted S e a =
     (case ap_formatter a of None \<Rightarrow> Inl NullDeref | Some f \<Rightarrow> LogFormatter_format (time_text S) e f)"

text \<open>The file appender does not look at its level.\<close>

definition ap_output :: "sys \<Rightarrow> event \<Rightarrow> nat \<Rightarrow> lstate \<Rightarrow> lstate res" where
  "ap_output S e a st =
     (let x = aps st ! a in
      case ap_kind x of
        FileLogAppender f \<Rightarrow>
          (let x1 = (if now S \<noteq> ap_last_time x then (reopen S x)\<lparr>ap_last_time := now S\<rparr> else x);
               st1 = st\<lparr>aps := (aps st)[a := x1]\<rparr>
           in bindR (formatted S e x1) (\<lambda>s.
             if ap_good x1 \<and> can_write S f then Inr (st1\<lparr>files := (files st1)(f := files st1 f @ s)\<rparr>)
             else Inr (st1\<lparr>aps := (aps st1)[a := x1\<lparr>ap_good := False\<rparr>], out := out st1 @ ''error\<newline>''\<rparr>)))
      | StdoutLogAppender \<Rightarrow>
          if ev_level e \<ge> ap_level x then bindR (formatted S e x) (\<lambda>s. Inr (st\<lparr>out := out st @ s\<rparr>))
          else Inr st)"

section \<open>Loggers\<close>

definition default_pattern :: string where
  "default_pattern = ''%d{%Y-%m-%d %H:%M:%S}%T%t%T%F%T[%p]%T[%c]%T%f:%l%T%m%n''"

definition newLogger :: "string \<Rightarrow> logger" where
  "newLogger name =
     \<lparr>lg_name = name, lg_level = DEBUG, lg_appenders = [], lg_formatter = Some (newLogFormatter default_pattern), lg_root = None\<rparr>"

definition SetLevel :: "level \<Rightarrow> nat \<Rightarrow> lstate \<Rightarrow> lstate" where
  "SetLevel v l st = upd_lg l (\<lambda>x. x\<lparr>lg_level := v\<rparr>) st"

text \<open>Appenders of the logger that have no formatter get the new one.\<close>

definition give_formatter :: "formatter option \<Rightarrow> nat \<Rightarrow> lstate \<Rightarrow> lstate" where
  "give_formatter f a st =
     (if ap_formatter (aps st ! a) = None then upd_ap a (\<lambda>x. x\<lparr>ap_formatter := f\<rparr>) st else st)"

definition SetFormatter :: "formatter option \<Rightarrow> nat \<Rightarrow> lstate \<Rightarrow> lstate" where
  "SetFormatter val l st =
     fold (give_formatter val) (lg_appenders (lgs st ! l)) (upd_lg l (\<lambda>x. x\<lparr>lg_formatter := val\<rparr>) st)"

definition SetFormatter_text :: "string \<Rightarrow> nat \<Rightarrow> lstate \<Rightarrow> lstate" where
  "SetFormatter_text val l st =
     (let f = newLogFormatter val in
      if fm_error f then
        st\<lparr>out := out st @ ''Logger SetFormatter name='' @ lg_name (lgs st ! l) @ '' value='' @ val @ '' invalid formatter\<newline>''\<rparr>
      else SetFormatter (Some f) l st)"

definition AddAppender :: "nat \<Rightarrow> nat \<Rightarrow> lstate \<Rightarrow> lstate" where
  "AddAppender a l st =
     (let st1 = give_formatter (lg_formatter (lgs st ! l)) a st in
      upd_lg l (\<lambda>x. x\<lparr>lg_appenders := lg_appenders x @ [a]\<rparr>) st1)"

definition DelAppender :: "nat \<Rightarrow> nat \<Rightarrow> lstate \<Rightarrow> lstate" where
  "DelAppender a l st = upd_lg l (\<lambda>x. x\<lparr>lg_appenders := remove1 a (lg_appenders x)\<rparr>) st"

definition clearAppenders :: "nat \<Rightarrow> lstate \<Rightarrow> lstate" where
  "clearAppenders l st = upd_lg l (\<lambda>x. x\<lparr>lg_appenders := []\<rparr>) st"

fun output_all :: "sys \<Rightarrow> event \<Rightarrow> nat list \<Rightarrow> lstate \<Rightarrow> lstate res" where
  "output_all S e [] st = Inr st"
| "output_all S e (a # as) st = bindR (ap_output S e a st) (output_all S e as)"

text \<open>A logger without appenders passes the event to its root; the fuel bounds that chain.\<close>

fun log_event :: "sys \<Rightarrow> nat \<Rightarrow> event \<Rightarrow> nat \<Rightarrow> lstate \<Rightarrow> lstate res" where
  "log_event S 0 e l st = Inl Diverges"
| "log_event S (Suc fuel) e l st =
     (let x = lgs st ! l in
      if ev_level e \<ge> lg_level x then
        if lg_appenders x \<noteq> [] then output_all S e (lg_appenders x) st
        else (case lg_root x of None \<Rightarrow> Inr st | Some r \<Rightarrow> log_event S fuel e r st)
      else Inr st)"

text \<open>\<open>LOG_LEVEL\<close>: the event is made when the logger's level allows it and logged when the statement ends.\<close>

definition LOG_LEVEL :: "sys \<Rightarrow> nat \<Rightarrow> event \<Rightarrow> nat \<Rightarrow> lstate \<Rightarrow> lstate res" where
  "LOG_LEVEL S fuel e l st =
     (if lg_level (lgs st ! l) \<le> ev_level e then log_event S fuel (e\<lparr>ev_name := lg_name (lgs st ! l)\<rparr>) l st else Inr st)"

text \<open>\<open>LOG_FMT_LEVEL\<close>: the content is what \<open>vasprintf\<close> makes of the arguments.\<close>

definition LOG_FMT_LEVEL :: "sys \<Rightarrow> nat \<Rightarrow> string option \<Rightarrow> event \<Rightarrow> nat \<Rightarrow> lstate \<Rightarrow> lstate res" where
  "LOG_FMT_LEVEL S fuel fmtd e l st =
     (if lg_level (lgs st ! l) \<le> ev_level e
      then log_event S fuel (LogEvent_format fmtd (e\<lparr>ev_name := lg_name (lgs st ! l)\<rparr>)) l st
      else Inr st)"

section \<open>The manager\<close>

definition new_ap :: "appender \<Rightarrow> lstate \<Rightarrow> nat \<times> lstate" where
  "new_ap a st = (length (aps st), st\<lparr>aps := aps st @ [a]\<rparr>)"

definition newLoggerManager :: lstate where
  "newLoggerManager =
     (let st = \<lparr>lgs = [newLogger ''root''], aps = [], loggers = [], root = 0, out = [], files = (\<lambda>_. [])\<rparr>;
          (a, st1) = new_ap (newStdoutLogAppender DEBUG) st;
          st2 = AddAppender a 0 st1
      in st2\<lparr>loggers := map_assign (<) (lg_name (lgs st2 ! 0)) 0 (loggers st2)\<rparr>)"

definition GetLogger :: "string \<Rightarrow> lstate \<Rightarrow> nat \<times> lstate" where
  "GetLogger name st =
     (case map_find (<) name (loggers st) of
        Some l \<Rightarrow> (l, st)
      | None \<Rightarrow> (length (lgs st),
          st\<lparr>lgs := lgs st @ [(newLogger name)\<lparr>lg_root := Some (root st)\<rparr>],
             loggers := map_assign (<) name (length (lgs st)) (loggers st)\<rparr>))"

section \<open>As YAML\<close>

definition level_entry :: "level \<Rightarrow> yaml \<Rightarrow> yaml" where
  "level_entry l n = (if l \<noteq> UNKNOWN then set_key ''level'' (YScalar (Level_ToString l)) n else n)"

definition formatter_entry :: "formatter option \<Rightarrow> yaml \<Rightarrow> yaml" where
  "formatter_entry f n = (case f of None \<Rightarrow> n | Some x \<Rightarrow> set_key ''formatter'' (YScalar (fm_pattern x)) n)"

definition appender_node :: "appender \<Rightarrow> yaml" where
  "appender_node a =
     formatter_entry (ap_formatter a) (level_entry (ap_level a)
       (case ap_kind a of
          FileLogAppender f \<Rightarrow> set_key ''file'' (YScalar f) (set_key ''type'' (YScalar ''FileLogAppender'') YNull)
        | StdoutLogAppender \<Rightarrow> set_key ''type'' (YScalar ''StdoutLogAppender'') YNull))"

text \<open>\<open>node["appenders"].push_back(x)\<close>\<close>

definition push_key :: "string \<Rightarrow> yaml \<Rightarrow> yaml \<Rightarrow> yaml" where
  "push_key k x n =
     (case n of
        YMap m \<Rightarrow> set_key k (push_back (case map_of m (YScalar k) of Some y \<Rightarrow> y | None \<Rightarrow> YNull) x) n
      | _ \<Rightarrow> set_key k (push_back YNull x) n)"

fun load_all :: "('bt, 'b, 'z) lexenv_scheme \<Rightarrow> string list \<Rightarrow> yaml list option" where
  "load_all E [] = Some []"
| "load_all E (s # ss) = Option.bind (y_load E s) (\<lambda>n. map_option ((#) n) (load_all E ss))"

definition Appender_toYamlString :: "('bt, 'b, 'z) lexenv_scheme \<Rightarrow> appender \<Rightarrow> string" where
  "Appender_toYamlString E a = y_emit E (appender_node a)"

definition Logger_toYamlString :: "('bt, 'b, 'z) lexenv_scheme \<Rightarrow> nat \<Rightarrow> lstate \<Rightarrow> string option" where
  "Logger_toYamlString E l st =
     (let x = lgs st ! l;
          n = formatter_entry (lg_formatter x) (level_entry (lg_level x) (set_key ''name'' (YScalar (lg_name x)) YNull))
      in map_option (\<lambda>ns. y_emit E (fold (push_key ''appenders'') ns n))
           (load_all E (map (\<lambda>a. Appender_toYamlString E (aps st ! a)) (lg_appenders x))))"

definition LoggerManager_toYamlString :: "('bt, 'b, 'z) lexenv_scheme \<Rightarrow> lstate \<Rightarrow> string option" where
  "LoggerManager_toYamlString E st =
     Option.bind (those (map (\<lambda>(_, l). Logger_toYamlString E l st) (loggers st))) (\<lambda>ss.
       map_option (\<lambda>ns. y_emit E (fold (\<lambda>x n. push_back n x) ns YNull)) (load_all E ss))"

section \<open>The configuration variable\<close>

record aconf =
  ac_type :: nat
  ac_level :: level
  ac_formatter :: string
  ac_file :: string

record lconf =
  lc_name :: string
  lc_level :: level
  lc_formatter :: string
  lc_appenders :: "aconf list"

definition aconf_eq :: "aconf \<Rightarrow> aconf \<Rightarrow> bool" where
  "aconf_eq a b \<longleftrightarrow> ac_type a = ac_type b \<and> ac_level a = ac_level b \<and> ac_formatter a = ac_formatter b \<and> ac_file a = ac_file b"

text \<open>\<open>operator==\<close> compares the appenders of the left side with themselves.\<close>

definition lconf_eq :: "lconf \<Rightarrow> lconf \<Rightarrow> bool" where
  "lconf_eq a b \<longleftrightarrow> lc_name a = lc_name b \<and> lc_level a = lc_level b \<and> lc_formatter a = lc_formatter b \<and>
     list_all2 aconf_eq (lc_appenders a) (lc_appenders a)"

definition lconf_less :: "lconf \<Rightarrow> lconf \<Rightarrow> bool" where
  "lconf_less a b \<longleftrightarrow> lc_name a < lc_name b"

subsection \<open>From text\<close>

text \<open>
  \<open>n[key]\<close>: indexing a scalar throws; a null or sequence node has no keys.  \<open>as<std::string>()\<close> gives the
  text of a scalar; what it gives for a null node is the argument \<open>null_text\<close>, other nodes throw.
\<close>

definition key_of :: "string \<Rightarrow> yaml \<Rightarrow> yaml option option" where
  "key_of k n = (case n of YMap m \<Rightarrow> Some (map_of m (YScalar k)) | YScalar _ \<Rightarrow> None | _ \<Rightarrow> Some None)"

definition as_string :: "string option \<Rightarrow> yaml \<Rightarrow> string option" where
  "as_string null_text n = (case n of YScalar s \<Rightarrow> Some s | YNull \<Rightarrow> null_text | _ \<Rightarrow> None)"

definition text_or :: "string option \<Rightarrow> string \<Rightarrow> yaml option \<Rightarrow> string option" where
  "text_or null_text d x = (case x of None \<Rightarrow> Some d | Some n \<Rightarrow> as_string null_text n)"

text \<open>One entry of \<open>appenders\<close>; \<open>Some None\<close> is an entry that is skipped.\<close>

definition read_appender :: "string option \<Rightarrow> yaml \<Rightarrow> aconf option option" where
  "read_appender nt a =
     Option.bind (key_of ''type'' a) (\<lambda>ty.
     case ty of
       None \<Rightarrow> Some None
     | Some t \<Rightarrow>
         Option.bind (as_string nt t) (\<lambda>type.
         if type = ''FileLogAppender'' then
           Option.bind (key_of ''file'' a) (\<lambda>fl.
           case fl of
             None \<Rightarrow> Some None
           | Some f \<Rightarrow>
               Option.bind (as_string nt f) (\<lambda>file.
               Option.bind (key_of ''formatter'' a) (\<lambda>fm.
               Option.bind (text_or nt [] fm) (\<lambda>formatter.
                 Some (Some \<lparr>ac_type = 1, ac_level = UNKNOWN, ac_formatter = formatter, ac_file = file\<rparr>)))))
         else if type = ''StdoutLogAppender'' then
           Some (Some \<lparr>ac_type = 2, ac_level = UNKNOWN, ac_formatter = [], ac_file = []\<rparr>)
         else Some None))"

fun read_appenders :: "string option \<Rightarrow> yaml list \<Rightarrow> aconf list option" where
  "read_appenders nt [] = Some []"
| "read_appenders nt (a # as) =
     Option.bind (read_appender nt a) (\<lambda>r.
     Option.bind (read_appenders nt as) (\<lambda>rs. Some (case r of None \<Rightarrow> rs | Some x \<Rightarrow> x # rs)))"

definition read_conf :: "('bt, 'b, 'z) lexenv_scheme \<Rightarrow> string option \<Rightarrow> yaml \<Rightarrow> lconf option option" where
  "read_conf E nt n =
     Option.bind (key_of ''name'' n) (\<lambda>nm.
     case nm of
       None \<Rightarrow> Some None
     | Some x \<Rightarrow>
         Option.bind (as_string nt x) (\<lambda>name.
         Option.bind (key_of ''level'' n) (\<lambda>lv.
         Option.bind (text_or nt [] lv) (\<lambda>level.
         Option.bind (key_of ''formatter'' n) (\<lambda>fm.
         Option.bind (text_or nt [] fm) (\<lambda>formatter.
         Option.bind (key_of ''appenders'' n) (\<lambda>aps.
         Option.bind (case aps of None \<Rightarrow> Some [] | Some y \<Rightarrow> Option.bind (elements E y) (read_appenders nt)) (\<lambda>appenders.
           Some (Some \<lparr>lc_name = name, lc_level = Level_FromString level, lc_formatter = formatter, lc_appenders = appenders\<rparr>)))))))))"

fun read_confs :: "('bt, 'b, 'z) lexenv_scheme \<Rightarrow> string option \<Rightarrow> yaml list \<Rightarrow> lconf list \<Rightarrow> lconf list option" where
  "read_confs E nt [] vec = Some vec"
| "read_confs E nt (n # ns) vec =
     Option.bind (read_conf E nt n) (\<lambda>r.
       read_confs E nt ns (case r of None \<Rightarrow> vec | Some x \<Rightarrow> set_insert lconf_less x vec))"

definition logs_from_str :: "('bt, 'b, 'z) lexenv_scheme \<Rightarrow> string option \<Rightarrow> string \<Rightarrow> lconf list option" where
  "logs_from_str E nt v =
     Option.bind (y_load E v) (\<lambda>node. Option.bind (elements E node) (\<lambda>ns. read_confs E nt ns []))"

subsection \<open>To text\<close>

definition aconf_node :: "aconf \<Rightarrow> yaml" where
  "aconf_node a =
     (let n1 = (if ac_type a = 1 then set_key ''file'' (YScalar (ac_file a)) (set_key ''type'' (YScalar ''FileLogAppender'') YNull)
                else if ac_type a = 2 then set_key ''type'' (YScalar ''StdoutLogAppender'') YNull
                else YNull);
          n2 = level_entry (ac_level a) n1
      in if ac_formatter a \<noteq> [] then set_key ''formatter'' (YScalar (ac_formatter a)) n2 else n2)"

text \<open>The formatter is written when it is empty.\<close>

definition lconf_node :: "lconf \<Rightarrow> yaml" where
  "lconf_node i =
     (let n1 = level_entry (lc_level i) (set_key ''name'' (YScalar (lc_name i)) YNull);
          n2 = (if lc_formatter i = [] then set_key ''formatter'' (YScalar (lc_formatter i)) n1 else n1)
      in fold (\<lambda>a n. push_key ''appenders'' (aconf_node a) n) (lc_appenders i) n2)"

definition logs_to_str :: "('bt, 'b, 'z) lexenv_scheme \<Rightarrow> lconf list \<Rightarrow> string" where
  "logs_to_str E v = y_emit E (fold (\<lambda>i n. push_back n (lconf_node i)) v YNull)"

text \<open>The traits of the variable; \<open>==\<close> of sets compares their elements in order.\<close>

definition logs_traits :: "('bt, 'b, 'z) lexenv_scheme \<Rightarrow> string option \<Rightarrow> (unit, lconf list) traits" where
  "logs_traits E nt = \<lparr>FromStr = (\<lambda>_. logs_from_str E nt), ToStr = (\<lambda>_ v. Some (logs_to_str E v)),
     val_eq = (\<lambda>_. list_all2 lconf_eq)\<rparr>"

section \<open>Applying a configuration\<close>

definition apply_appender :: "sys \<Rightarrow> string \<Rightarrow> nat \<Rightarrow> aconf \<Rightarrow> lstate \<Rightarrow> lstate res" where
  "apply_appender S name l a st =
     (if ac_type a \<noteq> 1 \<and> ac_type a \<noteq> 2 then Inl NullDeref
      else
        let x = (if ac_type a = 1 then newFileLogAppender S (ac_file a) DEBUG else newStdoutLogAppender DEBUG);
            (p, st1) = new_ap x st;
            st2 = Appender_SetLevel (ac_level a) p st1;
            st3 = (if ac_formatter a \<noteq> [] then
                     let f = newLogFormatter (ac_formatter a) in
                     if \<not> fm_error f then Appender_SetFormatter (Some f) p st2
                     else st2\<lparr>out := out st2 @ ''log.name='' @ name @ '' appender type='' @ dec (ac_type a) @
                            '' formatter='' @ ac_formatter a @ '' is invalid\<newline>''\<rparr>
                   else st2)
        in Inr (AddAppender p l st3))"

fun apply_appenders :: "sys \<Rightarrow> string \<Rightarrow> nat \<Rightarrow> aconf list \<Rightarrow> lstate \<Rightarrow> lstate res" where
  "apply_appenders S name l [] st = Inr st"
| "apply_appenders S name l (a # as) st =
     bindR (apply_appender S name l a st) (apply_appenders S name l as)"

text \<open>An entry that is equal to the old one leaves the pointer to its logger null.\<close>

definition apply_new :: "sys \<Rightarrow> lconf list \<Rightarrow> lconf \<Rightarrow> lstate \<Rightarrow> lstate res" where
  "apply_new S old i st =
     bindR (case find (\<lambda>j. lc_name j = lc_name i) old of
              None \<Rightarrow> Inr (GetLogger (lc_name i) st)
            | Some j \<Rightarrow> if \<not> lconf_eq i j then Inr (GetLogger (lc_name i) st) else Inl NullDeref) (\<lambda>(l, st1).
       let st2 = SetLevel (lc_level i) l st1;
           st3 = (if lc_formatter i \<noteq> [] then SetFormatter_text (lc_formatter i) l st2 else st2);
           st4 = clearAppenders l st3
       in apply_appenders S (lc_name i) l (lc_appenders i) st4)"

fun apply_news :: "sys \<Rightarrow> lconf list \<Rightarrow> lconf list \<Rightarrow> lstate \<Rightarrow> lstate res" where
  "apply_news S old [] st = Inr st"
| "apply_news S old (i # is) st = bindR (apply_new S old i st) (apply_news S old is)"

definition apply_old :: "lconf list \<Rightarrow> lconf \<Rightarrow> lstate \<Rightarrow> lstate" where
  "apply_old new i st =
     (if find (\<lambda>j. lc_name j = lc_name i) new = None then
        let (l, st1) = GetLogger (lc_name i) st in clearAppenders l (SetLevel UNKNOWN l st1)
      else st)"

text \<open>The listener of \<open>LogIniter\<close>; \<open>e\<close> is the event it logs first.\<close>

definition on_logs_changed :: "sys \<Rightarrow> nat \<Rightarrow> event \<Rightarrow> lconf list \<Rightarrow> lconf list \<Rightarrow> lstate \<Rightarrow> lstate res" where
  "on_logs_changed S fuel e old new st =
     bindR (LOG_LEVEL S fuel e (root st) st) (\<lambda>st1.
     bindR (apply_news S old new st1) (\<lambda>st2.
       Inr (fold (apply_old new) old st2)))"

section \<open>Reachable states\<close>

text \<open>
  The root of a logger is the manager's or none, and the root logger has none; names are registered for
  the loggers that carry them.  \<open>SetFormatter\<close> takes a pointer, which may be null; \<open>nn\<close> says that only
  formatters are passed, never null: then every logger and each of its appenders has a formatter.
\<close>

definition lg_ok :: "bool \<Rightarrow> lstate \<Rightarrow> logger \<Rightarrow> bool" where
  "lg_ok nn st x \<longleftrightarrow> (lg_root x = None \<or> lg_root x = Some (root st)) \<and> (nn \<longrightarrow> lg_formatter x \<noteq> None) \<and>
     (\<forall>a \<in> set (lg_appenders x). a < length (aps st) \<and> (nn \<longrightarrow> ap_formatter (aps st ! a) \<noteq> None))"

definition lwf :: "bool \<Rightarrow> lstate \<Rightarrow> bool" where
  "lwf nn st \<longleftrightarrow> root st < length (lgs st) \<and> lg_root (lgs st ! root st) = None \<and> list_all (lg_ok nn st) (lgs st) \<and>
     sorted_wrt (<) (map fst (loggers st)) \<and>
     list_all (\<lambda>e. snd e < length (lgs st) \<and> lg_name (lgs st ! snd e) = fst e) (loggers st)"

inductive log_step :: "bool \<Rightarrow> lstate \<Rightarrow> lstate \<Rightarrow> bool" for nn where
  get_logger: "log_step nn st (snd (GetLogger name st))"
| set_level: "l < length (lgs st) \<Longrightarrow> log_step nn st (SetLevel v l st)"
| set_formatter: "l < length (lgs st) \<Longrightarrow> (nn \<longrightarrow> f \<noteq> None) \<Longrightarrow> log_step nn st (SetFormatter f l st)"
| set_formatter_text: "l < length (lgs st) \<Longrightarrow> log_step nn st (SetFormatter_text val l st)"
| new_appender: "log_step nn st (snd (new_ap x st))"
| appender_formatter: "a < length (aps st) \<Longrightarrow> (nn \<longrightarrow> f \<noteq> None) \<Longrightarrow> log_step nn st (Appender_SetFormatter f a st)"
| appender_level: "a < length (aps st) \<Longrightarrow> log_step nn st (Appender_SetLevel v a st)"
| add_appender: "l < length (lgs st) \<Longrightarrow> a < length (aps st) \<Longrightarrow> log_step nn st (AddAppender a l st)"
| del_appender: "l < length (lgs st) \<Longrightarrow> log_step nn st (DelAppender a l st)"
| clear_appenders: "l < length (lgs st) \<Longrightarrow> log_step nn st (clearAppenders l st)"
| log: "l < length (lgs st) \<Longrightarrow> LOG_LEVEL S fuel e l st = Inr st' \<Longrightarrow> log_step nn st st'"
| log_fmt: "l < length (lgs st) \<Longrightarrow> LOG_FMT_LEVEL S fuel fmtd e l st = Inr st' \<Longrightarrow> log_step nn st st'"
| logs_changed: "on_logs_changed S fuel e old new st = Inr st' \<Longrightarrow> log_step nn st st'"

section \<open>Lemmas\<close>

lemma lstate_upd_simps [simp]:
  "lgs (upd_ap a f st) = lgs st" "loggers (upd_ap a f st) = loggers st" "root (upd_ap a f st) = root st"
  "length (aps (upd_ap a f st)) = length (aps st)"
  "aps (upd_lg l g st) = aps st" "loggers (upd_lg l g st) = loggers st" "root (upd_lg l g st) = root st"
  "length (lgs (upd_lg l g st)) = length (lgs st)"
  by (simp_all add: upd_ap_def upd_lg_def)

lemma lwf_nth: "lwf nn st \<Longrightarrow> l < length (lgs st) \<Longrightarrow> lg_ok nn st (lgs st ! l)"
  by (simp add: lwf_def list_all_length)

lemma lwf_upd_lg:
  assumes "lwf nn st" "l < length (lgs st)" "lg_name (f (lgs st ! l)) = lg_name (lgs st ! l)"
    "lg_root (f (lgs st ! l)) = lg_root (lgs st ! l)" "lg_ok nn st (f (lgs st ! l))"
  shows "lwf nn (upd_lg l f st)"
proof -
  have ok: "lg_ok nn (st\<lparr>lgs := ys\<rparr>) x = lg_ok nn st x" for x ys by (simp add: lg_ok_def)
  show ?thesis using assms by (auto simp: lwf_def ok list_all_length upd_lg_def nth_list_update)
qed

lemma lwf_upd_ap:
  assumes "lwf nn st" "nn \<Longrightarrow> ap_formatter (aps st ! a) \<noteq> None \<Longrightarrow> ap_formatter (f (aps st ! a)) \<noteq> None"
  shows "lwf nn (upd_ap a f st)"
proof -
  have "lg_ok nn st x \<Longrightarrow> lg_ok nn (upd_ap a f st) x" for x
    using assms(2) by (auto simp: lg_ok_def upd_ap_def) (metis nth_list_update nth_list_update_neq)+
  then show ?thesis using assms(1) by (auto simp: lwf_def list_all_length)
qed

lemma lwf_text [simp]: "lwf nn (st\<lparr>out := t\<rparr>) = lwf nn st" "lwf nn (st\<lparr>files := g\<rparr>) = lwf nn st"
  by (simp_all add: lwf_def lg_ok_def list_all_length)

lemma lwf_new_ap [keeps]: "lwf nn st \<Longrightarrow> lwf nn (snd (new_ap x st))"
  by (fastforce simp: lwf_def lg_ok_def new_ap_def list_all_length nth_append intro: less_SucI)

lemma lwf_GetLogger [keeps]:
  assumes "lwf nn st"
  shows "lwf nn (snd (GetLogger name st)) \<and> fst (GetLogger name st) < length (lgs (snd (GetLogger name st)))"
proof (cases "map_find (<) name (loggers st)")
  case None
  let ?st = "snd (GetLogger name st)"
  let ?x = "(newLogger name)\<lparr>lg_root := Some (root st)\<rparr>"
  have st: "lgs ?st = lgs st @ [?x]" "aps ?st = aps st" "root ?st = root st"
    "loggers ?st = map_assign (<) name (length (lgs st)) (loggers st)" using None by (simp_all add: GetLogger_def)
  have x: "lg_ok nn st ?x" "lg_name ?x = name" by (simp_all add: lg_ok_def newLogger_def)
  have "lg_ok nn ?st y = lg_ok nn st y" for y by (simp add: lg_ok_def st)
  then have ok: "list_all (lg_ok nn ?st) (lgs ?st)" using assms x(1) by (simp add: st lwf_def list_all_iff)
  have "snd e < length (lgs ?st) \<and> lg_name (lgs ?st ! snd e) = fst e" if e: "e \<in> set (loggers ?st)" for e
  proof -
    consider "e = (name, length (lgs st))" | "e \<in> set (loggers st)" using map_assign_new [OF None, of e] e by (auto simp: st)
    then show ?thesis
    proof cases
      case 1
      then show ?thesis by (simp add: st x(2))
    next
      case 2
      then have "snd e < length (lgs st)" "lg_name (lgs st ! snd e) = fst e" using assms by (auto simp: lwf_def list_all_iff)
      then show ?thesis by (simp add: st nth_append)
    qed
  qed
  moreover have "sorted_wrt (<) (map fst (loggers ?st))"
    using assms names.mp.inv_assign [of "loggers st" name "length (lgs st)"] by (simp add: st lwf_def)
  ultimately show ?thesis using assms ok None by (simp add: lwf_def st list_all_iff nth_append GetLogger_def)
next
  case (Some l)
  then obtain k where "(k, l) \<in> set (loggers st)" using map_find_in [OF Some] by auto
  then show ?thesis using assms Some by (auto simp: GetLogger_def lwf_def list_all_iff)
qed

lemma lwf_give_formatter:
  "lwf nn st \<Longrightarrow> (nn \<longrightarrow> f \<noteq> None) \<Longrightarrow> lwf nn (give_formatter f a st)"
  by (auto simp: give_formatter_def intro: lwf_upd_ap)

lemma give_formatter_simps [simp]:
  "lgs (give_formatter f a st) = lgs st" "root (give_formatter f a st) = root st"
  "length (aps (give_formatter f a st)) = length (aps st)"
  by (simp_all add: give_formatter_def)

lemma lwf_SetFormatter [keeps]:
  assumes "lwf nn st" "l < length (lgs st)" "nn \<longrightarrow> f \<noteq> None"
  shows "lwf nn (SetFormatter f l st)"
proof -
  have "lwf nn (fold (give_formatter f) as st)" if "lwf nn st" for as st
    using that assms(3) by (induction as arbitrary: st) (simp_all add: lwf_give_formatter)
  moreover have "lwf nn (upd_lg l (\<lambda>x. x\<lparr>lg_formatter := f\<rparr>) st)"
    using assms lwf_nth [OF assms(1,2)] by (intro lwf_upd_lg) (auto simp: lg_ok_def)
  ultimately show ?thesis by (simp add: SetFormatter_def)
qed

lemma SetFormatter_lgs: "length (lgs (SetFormatter f l st)) = length (lgs st)"
proof -
  have "lgs (fold (give_formatter f) as st) = lgs st" for as st by (induction as arbitrary: st) simp_all
  then show ?thesis by (simp add: SetFormatter_def)
qed

lemma lwf_SetFormatter_text [keeps]:
  assumes "lwf nn st" "l < length (lgs st)"
  shows "lwf nn (SetFormatter_text val l st) \<and> length (lgs (SetFormatter_text val l st)) = length (lgs st)"
  using assms lwf_SetFormatter SetFormatter_lgs by (simp add: SetFormatter_text_def Let_def)

lemma lwf_SetLevel [keeps]: "lwf nn st \<Longrightarrow> l < length (lgs st) \<Longrightarrow> lwf nn (SetLevel v l st)"
  using lwf_nth [of nn st l] by (auto simp: SetLevel_def lg_ok_def intro: lwf_upd_lg)

lemma lwf_clearAppenders [keeps]: "lwf nn st \<Longrightarrow> l < length (lgs st) \<Longrightarrow> lwf nn (clearAppenders l st)"
  using lwf_nth [of nn st l] by (auto simp: clearAppenders_def lg_ok_def intro: lwf_upd_lg)

lemma lwf_DelAppender [keeps]: "lwf nn st \<Longrightarrow> l < length (lgs st) \<Longrightarrow> lwf nn (DelAppender a l st)"
  using lwf_nth [of nn st l] by (auto simp: DelAppender_def lg_ok_def dest: notin_set_remove1 [rotated] intro!: lwf_upd_lg)
     (metis in_set_remove1 notin_set_remove1)+

lemma lwf_AddAppender [keeps]:
  assumes "lwf nn st" "l < length (lgs st)" "a < length (aps st)"
  shows "lwf nn (AddAppender a l st)"
proof -
  let ?st = "give_formatter (lg_formatter (lgs st ! l)) a st"
  have f: "nn \<longrightarrow> lg_formatter (lgs st ! l) \<noteq> None" using lwf_nth [OF assms(1,2)] by (simp add: lg_ok_def)
  then have wf: "lwf nn ?st" using assms(1) by (intro lwf_give_formatter)
  have "nn \<longrightarrow> ap_formatter (aps ?st ! a) \<noteq> None" using f assms(3) by (auto simp: give_formatter_def upd_ap_def)
  then show ?thesis using lwf_upd_lg [OF wf, of l] lwf_nth [OF wf, of l] assms(2,3) unfolding AddAppender_def Let_def
    by (auto simp: lg_ok_def)
qed

text \<open>What printing an event leaves as it was.\<close>

definition same_loggers :: "lstate \<Rightarrow> lstate \<Rightarrow> bool" where
  "same_loggers st st' \<longleftrightarrow> lgs st' = lgs st \<and> loggers st' = loggers st \<and> root st' = root st \<and>
     length (aps st') = length (aps st) \<and> map ap_formatter (aps st') = map ap_formatter (aps st)"

lemma same_loggers_refl [simp]: "same_loggers st st"
  by (simp add: same_loggers_def)

lemma same_loggers_trans: "same_loggers st st1 \<Longrightarrow> same_loggers st1 st2 \<Longrightarrow> same_loggers st st2"
  by (simp add: same_loggers_def)

lemma same_loggers_formatter:
  "same_loggers st st' \<Longrightarrow> a < length (aps st) \<Longrightarrow> ap_formatter (aps st' ! a) = ap_formatter (aps st ! a)"
  unfolding same_loggers_def by (metis nth_map)

lemma lwf_same_loggers:
  assumes "lwf nn st" "same_loggers st st'"
  shows "lwf nn st'"
proof -
  have "lg_ok nn st' x" if "lg_ok nn st x" for x
    using that assms(2) same_loggers_formatter [OF assms(2)] by (auto simp: lg_ok_def same_loggers_def)
  then show ?thesis using assms by (auto simp: lwf_def same_loggers_def list_all_iff)
qed

lemma format_loop_result: "(\<exists>s. format_loop tt e xs ss = Inr s) \<or> format_loop tt e xs ss = Inl Indeterminate"
proof (induction xs arbitrary: ss)
  case (Cons x xs)
  have "(\<exists>s. item_format tt e x = Inr s) \<or> item_format tt e x = Inl Indeterminate"
    by (cases x) (auto split: option.splits)
  then show ?case
  proof (elim disjE exE)
    fix s assume "item_format tt e x = Inr s"
    then show ?thesis using Cons.IH [of "ss @ s"] by simp
  qed simp
qed simp

lemma formatted_result:
  assumes "ap_formatter x \<noteq> None"
  shows "(\<exists>s. formatted S e x = Inr s) \<or> formatted S e x = Inl Indeterminate"
proof -
  obtain f where "ap_formatter x = Some f" using assms by blast
  then show ?thesis using format_loop_result [of "time_text S" e "fm_items f" "[]"]
    by (simp add: formatted_def LogFormatter_format_def)
qed

lemma reopen_formatter [simp]: "ap_formatter (reopen S x) = ap_formatter x"
  by (simp add: reopen_def split: akind.splits)

lemma map_update_same: "f y = f (xs ! a) \<Longrightarrow> map f (xs[a := y]) = map f xs"
  by (metis list_update_id map_update)

lemma ap_output_same: "ap_output S e a st = Inr st' \<Longrightarrow> same_loggers st st'"
  by (auto simp: ap_output_def Let_def same_loggers_def map_update_same split: akind.splits if_splits)

lemma ap_output_result:
  assumes "ap_formatter (aps st ! a) \<noteq> None"
  shows "(\<exists>st'. ap_output S e a st = Inr st') \<or> ap_output S e a st = Inl Indeterminate"
proof (cases "ap_kind (aps st ! a)")
  case (FileLogAppender f)
  let ?x = "if now S \<noteq> ap_last_time (aps st ! a) then (reopen S (aps st ! a))\<lparr>ap_last_time := now S\<rparr> else aps st ! a"
  have "ap_formatter ?x \<noteq> None" using assms by simp
  from formatted_result [OF this, of S e] show ?thesis by (auto simp: ap_output_def Let_def FileLogAppender)
next
  case StdoutLogAppender
  with formatted_result [OF assms, of S e] show ?thesis by (auto simp: ap_output_def Let_def)
qed

lemma output_all_result:
  assumes "\<forall>a \<in> set as. a < length (aps st) \<and> ap_formatter (aps st ! a) \<noteq> None"
  shows "(\<exists>st'. output_all S e as st = Inr st' \<and> same_loggers st st') \<or> output_all S e as st = Inl Indeterminate"
  using assms
proof (induction as arbitrary: st)
  case (Cons a as)
  from Cons.prems have "ap_formatter (aps st ! a) \<noteq> None" by simp
  from ap_output_result [OF this, of S e] show ?case
  proof
    assume "\<exists>st'. ap_output S e a st = Inr st'"
    then obtain st1 where o: "ap_output S e a st = Inr st1" by blast
    note same = ap_output_same [OF o]
    then have "\<forall>a \<in> set as. a < length (aps st1) \<and> ap_formatter (aps st1 ! a) \<noteq> None"
      using Cons.prems same_loggers_formatter [OF same] by (auto simp: same_loggers_def)
    from Cons.IH [OF this] o show ?thesis using same_loggers_trans [OF same] by auto
  qed simp
qed simp

text \<open>Where an event of logger \<open>l\<close> goes.\<close>

definition route :: "event \<Rightarrow> nat \<Rightarrow> lstate \<Rightarrow> nat list" where
  "route e l st =
     (if ev_level e < lg_level (lgs st ! l) then []
      else if lg_appenders (lgs st ! l) \<noteq> [] then lg_appenders (lgs st ! l)
      else if lg_root (lgs st ! l) = None \<or> ev_level e < lg_level (lgs st ! root st) then []
      else lg_appenders (lgs st ! root st))"

lemma log_event_route:
  assumes "lwf nn st" "l < length (lgs st)" "2 \<le> fuel"
  shows "log_event S fuel e l st = output_all S e (route e l st) st"
proof -
  have r: "lg_root (lgs st ! l) = None \<or> lg_root (lgs st ! l) = Some (root st)" "lg_root (lgs st ! root st) = None"
    using lwf_nth [OF assms(1,2)] assms(1) by (auto simp: lg_ok_def lwf_def)
  obtain f where f: "fuel = Suc (Suc f)" using that [of "fuel - 2"] assms(3) by simp
  show ?thesis
  proof (cases "lg_root (lgs st ! l)")
    case None
    then show ?thesis by (auto simp: f route_def Let_def not_less not_le)
  next
    case (Some x)
    then have "x = root st" using r(1) by simp
    then show ?thesis using Some r(2) by (auto simp: f route_def Let_def not_less not_le)
  qed
qed

lemma route_ok:
  assumes "lwf nn st" "l < length (lgs st)"
  shows "\<forall>a \<in> set (route e l st). a < length (aps st) \<and> (nn \<longrightarrow> ap_formatter (aps st ! a) \<noteq> None)"
  using lwf_nth [OF assms] lwf_nth [OF assms(1), of "root st"] assms(1)
  by (auto simp: route_def lg_ok_def lwf_def split: if_splits)

lemma log_event_same: "log_event S fuel e l st = Inr st' \<Longrightarrow> same_loggers st st'"
proof (induction S fuel e l st rule: log_event.induct)
  case (2 S fuel e l st)
  have all: "output_all S e as st = Inr st' \<Longrightarrow> same_loggers st st'" for as st
  proof (induction as arbitrary: st)
    case (Cons a as)
    then show ?case using same_loggers_trans ap_output_same by fastforce
  qed simp
  show ?case using 2 all by (auto simp: Let_def split: if_splits option.splits)
qed simp

lemma LOG_LEVEL_same: "LOG_LEVEL S fuel e l st = Inr st' \<Longrightarrow> same_loggers st st'"
  by (auto simp: LOG_LEVEL_def dest: log_event_same split: if_splits)

lemma LOG_FMT_LEVEL_eq: "LOG_FMT_LEVEL S fuel fmtd e l st = LOG_LEVEL S fuel (LogEvent_format fmtd e) l st"
  by (cases e; cases fmtd) (simp_all add: LOG_FMT_LEVEL_def LOG_LEVEL_def LogEvent_format_def)

lemma AddAppender_lgs: "length (lgs (AddAppender a l st)) = length (lgs st)"
  by (simp add: AddAppender_def Let_def)

lemma lwf_apply_appender:
  assumes "lwf nn st" "l < length (lgs st)" "apply_appender S name l a st = Inr st'"
  shows "lwf nn st' \<and> length (lgs st') = length (lgs st)"
proof -
  let ?x = "if ac_type a = 1 then newFileLogAppender S (ac_file a) DEBUG else newStdoutLogAppender DEBUG"
  let ?p = "length (aps st)"
  define st1 where "st1 = snd (new_ap ?x st)"
  define st2 where "st2 = Appender_SetLevel (ac_level a) ?p st1"
  have 1: "lwf nn st1" "length (lgs st1) = length (lgs st)" "length (aps st1) = Suc ?p"
    using lwf_new_ap [OF assms(1)] by (simp_all add: st1_def, simp_all add: new_ap_def)
  have 2: "lwf nn st2" "length (lgs st2) = length (lgs st)" "length (aps st2) = Suc ?p"
    using lwf_upd_ap [OF 1(1)] 1 by (simp_all add: st2_def Appender_SetLevel_def)
  have 3: "lwf nn (Appender_SetFormatter (Some f) ?p st2)" for f
    unfolding Appender_SetFormatter_def using 2 by (intro lwf_upd_ap) auto
  consider f where "st' = AddAppender ?p l (Appender_SetFormatter (Some f) ?p st2)"
    | t where "st' = AddAppender ?p l (st2\<lparr>out := t\<rparr>)" | "st' = AddAppender ?p l st2"
    using assms(3) by (fastforce simp: apply_appender_def new_ap_def st1_def st2_def Let_def split: if_splits)
  then show ?thesis
    using 2 3 lwf_AddAppender assms(2) by cases (simp_all add: AddAppender_lgs Appender_SetFormatter_def)
qed

lemma lwf_apply_appenders:
  "lwf nn st \<Longrightarrow> l < length (lgs st) \<Longrightarrow> apply_appenders S name l as st = Inr st' \<Longrightarrow> lwf nn st'"
proof (induction as arbitrary: st)
  case (Cons a as)
  then obtain st1 where "apply_appender S name l a st = Inr st1" "apply_appenders S name l as st1 = Inr st'" by auto
  then show ?case using lwf_apply_appender [OF Cons.prems(1,2), of S name a st1] Cons.IH [of st1] Cons.prems(2) by simp
qed simp

lemma upd_lgs [simp]: "length (lgs (SetLevel v l st)) = length (lgs st)" "length (lgs (clearAppenders l st)) = length (lgs st)"
  by (simp_all add: SetLevel_def clearAppenders_def)

lemma lwf_apply_new:
  assumes "lwf nn st" "apply_new S old i st = Inr st'"
  shows "lwf nn st'"
proof -
  obtain l st1 where g: "GetLogger (lc_name i) st = (l, st1)" by fastforce
  then have 1: "lwf nn st1" "l < length (lgs st1)" using lwf_GetLogger [OF assms(1), of "lc_name i"] by auto
  let ?st2 = "SetLevel (lc_level i) l st1"
  let ?st3 = "if lc_formatter i \<noteq> [] then SetFormatter_text (lc_formatter i) l ?st2 else ?st2"
  have 3: "lwf nn ?st3" "l < length (lgs ?st3)"
    using lwf_SetFormatter_text [of nn ?st2 l] lwf_SetLevel [OF 1] 1(2) by auto
  have "apply_appenders S (lc_name i) l (lc_appenders i) (clearAppenders l ?st3) = Inr st'"
    using assms(2) g by (auto simp: apply_new_def Let_def split: option.splits if_splits)
  then show ?thesis using lwf_apply_appenders [OF lwf_clearAppenders [OF 3]] 3(2) by simp
qed

lemma lwf_apply_news: "lwf nn st \<Longrightarrow> apply_news S old new st = Inr st' \<Longrightarrow> lwf nn st'"
proof (induction new arbitrary: st)
  case (Cons i new)
  then obtain st1 where "apply_new S old i st = Inr st1" "apply_news S old new st1 = Inr st'" by auto
  then show ?case using lwf_apply_new [OF Cons.prems(1), of S old i st1] Cons.IH [of st1] by simp
qed simp

lemma lwf_apply_old: "lwf nn st \<Longrightarrow> lwf nn (apply_old new i st)"
  using lwf_GetLogger [of nn st "lc_name i"]
  by (auto simp: apply_old_def split: prod.splits intro!: lwf_clearAppenders lwf_SetLevel)

lemma lwf_on_logs_changed: "lwf nn st \<Longrightarrow> on_logs_changed S fuel e old new st = Inr st' \<Longrightarrow> lwf nn st'"
proof -
  assume wf: "lwf nn st" and ch: "on_logs_changed S fuel e old new st = Inr st'"
  then obtain st1 st2 where "LOG_LEVEL S fuel e (root st) st = Inr st1" "apply_news S old new st1 = Inr st2"
    "st' = fold (apply_old new) old st2" by (auto simp: on_logs_changed_def)
  moreover have "lwf nn (fold (apply_old new) xs st)" if "lwf nn st" for xs st
    using that by (induction xs arbitrary: st) (simp_all add: lwf_apply_old)
  ultimately show ?thesis using wf by (metis LOG_LEVEL_same lwf_same_loggers lwf_apply_news)
qed

lemma log_step_lwf: "log_step nn st st' \<Longrightarrow> lwf nn st \<Longrightarrow> lwf nn st'"
proof (induction rule: log_step.induct)
  case (appender_formatter a st f)
  then show ?case by (simp add: Appender_SetFormatter_def lwf_upd_ap)
next
  case (appender_level a st v)
  then show ?case by (simp add: Appender_SetLevel_def lwf_upd_ap)
next
  case (log l st S fuel e st')
  then show ?case using LOG_LEVEL_same lwf_same_loggers by blast
next
  case (log_fmt l st S fuel fmtd e st')
  then show ?case using LOG_LEVEL_same lwf_same_loggers by (auto simp: LOG_FMT_LEVEL_eq)
next
  case (logs_changed S fuel e old new st st')
  then show ?case using lwf_on_logs_changed by blast
qed (simp_all add: keeps)

lemma newLoggerManager_lwf: "lwf nn newLoggerManager"
  by (simp add: newLoggerManager_def new_ap_def AddAppender_def give_formatter_def upd_ap_def upd_lg_def Let_def
      newLogger_def newStdoutLogAppender_def lwf_def lg_ok_def)

interpretation logsys: transition_system newLoggerManager "log_step nn" "lwf nn" for nn
  by unfold_locales (auto simp: newLoggerManager_lwf intro: log_step_lwf)

section \<open>Properties\<close>

text \<open>
  C35. Routing by level: in every state the loggers reach, an event below the level of its logger is
  written nowhere; any other goes through the appenders of its logger, in their order, and when the
  logger has none, through those of the root logger, unless the event is below the level of the root
  logger or the logger is the root itself.  A fuel of 2 suffices.  When no null formatter is ever set,
  the call returns, or the only thing that goes wrong is a time that does not fit its buffer.
\<close>

theorem log_routing:
  assumes "(log_step nn)\<^sup>*\<^sup>* newLoggerManager st" "l < length (lgs st)" "2 \<le> fuel"
  shows "log_event S fuel e l st = output_all S e
      (if ev_level e < lg_level (lgs st ! l) then []
       else if lg_appenders (lgs st ! l) \<noteq> [] then lg_appenders (lgs st ! l)
       else if lg_root (lgs st ! l) = None \<or> ev_level e < lg_level (lgs st ! root st) then []
       else lg_appenders (lgs st ! root st)) st
    \<and> (nn \<longrightarrow> (\<exists>st'. log_event S fuel e l st = Inr st') \<or> log_event S fuel e l st = Inl Indeterminate)"
proof -
  have wf: "lwf nn st" using assms(1) by (rule logsys.reachable_inv)
  have "nn \<longrightarrow> (\<exists>st'. output_all S e (route e l st) st = Inr st') \<or> output_all S e (route e l st) st = Inl Indeterminate"
    using output_all_result [of "route e l st" st S e] route_ok [OF wf assms(2), of e] by auto
  then show ?thesis using log_event_route [OF wf assms(2,3)] unfolding route_def by simp
qed

definition demo_event :: event where
  "demo_event = \<lparr>ev_file = ''a.cc'', ev_line = 3, ev_elapse = 0, ev_thread_id = 1, ev_fiber_id = 2, ev_time = 0,
     ev_content = ''hi'', ev_name = ''x'', ev_level = INFO\<rparr>"

definition demo_sys :: sys where
  "demo_sys = \<lparr>time_text = (\<lambda>_ _. None), now = 0, can_open = (\<lambda>_. True), can_write = (\<lambda>_. True)\<rparr>"

text \<open>Logger \<open>x\<close> has no appenders; the root logger, which has one, writes only the message.\<close>

definition demo_loggers :: lstate where
  "demo_loggers = snd (GetLogger ''x'' (Appender_SetFormatter (Some (newLogFormatter ''%m%n'')) 0 newLoggerManager))"

lemma newLoggerManager_aps: "length (aps newLoggerManager) = 1" "length (lgs newLoggerManager) = 1"
  by (simp_all add: newLoggerManager_def Let_def new_ap_def AddAppender_def give_formatter_def upd_ap_def upd_lg_def)

lemma demo_loggers_reached: "(log_step True)\<^sup>*\<^sup>* newLoggerManager demo_loggers"
proof -
  let ?s1 = "Appender_SetFormatter (Some (newLogFormatter ''%m%n'')) 0 newLoggerManager"
  have "log_step True newLoggerManager ?s1" by (rule log_step.appender_formatter) (simp_all add: newLoggerManager_aps)
  moreover have "log_step True ?s1 demo_loggers" unfolding demo_loggers_def by (rule log_step.get_logger)
  ultimately show ?thesis by (meson converse_rtranclp_into_rtranclp rtranclp.rtrancl_refl)
qed

theorem log_routing_witness:
  "map_sum id out (log_event demo_sys 2 demo_event 1 demo_loggers) = Inr ''hi\<newline>'' \<and>
   map_sum id out (log_event demo_sys 2 (demo_event\<lparr>ev_level := UNKNOWN\<rparr>) 1 demo_loggers) = Inr []"
proof -
  have l: "1 < length (lgs demo_loggers)" by code_simp
  have r: "log_event demo_sys 2 e 1 demo_loggers = output_all demo_sys e
      (if ev_level e < lg_level (lgs demo_loggers ! 1) then []
       else if lg_appenders (lgs demo_loggers ! 1) \<noteq> [] then lg_appenders (lgs demo_loggers ! 1)
       else if lg_root (lgs demo_loggers ! 1) = None \<or> ev_level e < lg_level (lgs demo_loggers ! root demo_loggers) then []
       else lg_appenders (lgs demo_loggers ! root demo_loggers)) demo_loggers" for e
    using log_routing [OF demo_loggers_reached l, of 2 demo_sys e] by simp
  show ?thesis unfolding r by (rule conjI; code_simp)
qed

lemma apply_appender_result: "(\<exists>st'. apply_appender S name l a st = Inr st') \<or> apply_appender S name l a st = Inl NullDeref"
  by (auto simp: apply_appender_def Let_def case_prod_beta)

lemma apply_appenders_result:
  "(\<exists>st'. apply_appenders S name l as st = Inr st') \<or> apply_appenders S name l as st = Inl NullDeref"
proof (induction as arbitrary: st)
  case (Cons a as)
  then show ?case using apply_appender_result [of S name l a st] by fastforce
qed simp

lemma apply_new_result: "(\<exists>st'. apply_new S old i st = Inr st') \<or> apply_new S old i st = Inl NullDeref"
  using apply_appenders_result by (auto simp: apply_new_def Let_def split: option.splits prod.splits)

lemma apply_new_unchanged:
  "find (\<lambda>j. lc_name j = lc_name i) old = Some j \<Longrightarrow> lconf_eq i j \<Longrightarrow> apply_new S old i st = Inl NullDeref"
  by (simp add: apply_new_def)

text \<open>
  The listener of the logging configuration crashes on every entry that has not changed: when an entry
  of the new configuration is equal to the entry of the same name in the old one, the listener, once
  it has logged its message, dereferences a null pointer.
\<close>

theorem unchanged_entry_crashes:
  assumes "i \<in> set new" "find (\<lambda>j. lc_name j = lc_name i) old = Some j" "lconf_eq i j"
    "LOG_LEVEL S fuel e (root st) st = Inr st1"
  shows "on_logs_changed S fuel e old new st = Inl NullDeref"
proof -
  have "apply_news S old new st = Inl NullDeref" for st
    using assms(1)
  proof (induction new arbitrary: st)
    case (Cons k new)
    then show ?case using apply_new_result [of S old k st] apply_new_unchanged [OF assms(2,3)] by auto
  qed simp
  then show ?thesis using assms(4) by (simp add: on_logs_changed_def)
qed

definition demo_lconf :: lconf where
  "demo_lconf = \<lparr>lc_name = ''system'', lc_level = INFO, lc_formatter = [], lc_appenders = []\<rparr>"

theorem unchanged_entry_crashes_witness:
  "on_logs_changed demo_sys 2 (demo_event\<lparr>ev_level := UNKNOWN\<rparr>) [demo_lconf] [demo_lconf, demo_lconf\<lparr>lc_name := ''x''\<rparr>]
     newLoggerManager = Inl NullDeref"
proof (rule unchanged_entry_crashes [of demo_lconf _ _ demo_lconf _ _ _ _ newLoggerManager])
  show "LOG_LEVEL demo_sys 2 (demo_event\<lparr>ev_level := UNKNOWN\<rparr>) (root newLoggerManager) newLoggerManager = Inr newLoggerManager"
    by (simp add: LOG_LEVEL_def newLoggerManager_def Let_def new_ap_def AddAppender_def give_formatter_def upd_lg_def upd_ap_def
      newLogger_def newStdoutLogAppender_def less_eq_level_def)
qed (simp_all add: lconf_eq_def demo_lconf_def)

text \<open>
  A change of the appenders alone is not noticed: setting the variable to a configuration that differs
  from the current one only in the appenders of its entries calls no listener and keeps the old value.
\<close>

theorem appender_change_ignored:
  assumes "list_all2 (\<lambda>a b. lc_name a = lc_name b \<and> lc_level a = lc_level b \<and> lc_formatter a = lc_formatter b) v (GetValue p c)"
  shows "SetValue (logs_traits E nt) p v c = ([], c)"
proof -
  have "list_all2 aconf_eq xs xs" for xs by (induction xs) (simp_all add: aconf_eq_def)
  then have "list_all2 lconf_eq v (cv_value (vars c ! p))"
    using assms by (auto simp: GetValue_def lconf_eq_def list_all2_conv_all_nth)
  then show ?thesis by (simp add: SetValue_def logs_traits_def Let_def)
qed

definition demo_logs_cfg :: "(unit, lconf list, nat) cfg" where
  "demo_logs_cfg = \<lparr>vars = [\<lparr>cv_name = ''logs'', cv_description = [], cv_type = (), cv_value = [demo_lconf], callbacks = [(1, 0)]\<rparr>],
     datas = [(''logs'', 0)], s_fun_id = (\<lambda>_. 1), file2modifytime = []\<rparr>"

theorem appender_change_ignored_witness:
  "SetValue (logs_traits demo_lex None) 0
     [demo_lconf\<lparr>lc_appenders := [\<lparr>ac_type = 1, ac_level = UNKNOWN, ac_formatter = [], ac_file = ''log.txt''\<rparr>]\<rparr>] demo_logs_cfg =
   ([], demo_logs_cfg)"
  by (rule appender_change_ignored) (simp add: demo_logs_cfg_def GetValue_def)

text \<open>What is left of an entry after it is written and read.\<close>

definition forget_appender :: "aconf \<Rightarrow> aconf" where
  "forget_appender a = (if ac_type a = 1 then a\<lparr>ac_level := UNKNOWN\<rparr>
     else \<lparr>ac_type = 2, ac_level = UNKNOWN, ac_formatter = [], ac_file = []\<rparr>)"

definition forget :: "lconf \<Rightarrow> lconf" where
  "forget i = i\<lparr>lc_formatter := [], lc_appenders := map forget_appender (lc_appenders i)\<rparr>"

lemmas node_build = set_key_def level_entry_def Let_def
lemmas node_read = key_of_def as_string_def text_or_def

lemma read_aconf_node:
  "ac_type a = 1 \<or> ac_type a = 2 \<Longrightarrow> read_appender nt (aconf_node a) = Some (Some (forget_appender a))"
  by (auto simp: read_appender_def aconf_node_def forget_appender_def node_build node_read)

lemma read_aconf_nodes:
  "list_all (\<lambda>a. ac_type a = 1 \<or> ac_type a = 2) as \<Longrightarrow> read_appenders nt (map aconf_node as) = Some (map forget_appender as)"
  by (induction as) (simp_all add: read_aconf_node)

lemma map_of_append_other: "k \<notin> fst ` set m \<Longrightarrow> ([k \<mapsto> v] ++ map_of m) k = Some v"
  by (simp add: map_of_eq_None_iff [THEN iffD2] map_add_def)

lemma push_back_simps [simp]: "push_back YNull x = YSeq [x]" "push_back (YSeq xs) x = YSeq (xs @ [x])"
  by (simp_all add: push_back_def)

lemma set_entry_same: "YScalar k \<notin> fst ` set m \<Longrightarrow> set_entry k x (m @ [(YScalar k, y)]) = m @ [(YScalar k, x)]"
  by (induction m) auto

lemma fold_push_key:
  assumes "YScalar k \<notin> fst ` set m"
  shows "fold (\<lambda>a n. push_key k (f a) n) as (YMap m) = YMap (m @ (if as = [] then [] else [(YScalar k, YSeq (map f as))]))"
proof -
  have run: "fold (\<lambda>a n. push_key k (f a) n) as (YMap (m @ [(YScalar k, YSeq xs)])) = YMap (m @ [(YScalar k, YSeq (xs @ map f as))])" for as xs
    using assms
    by (induction as arbitrary: xs) (simp_all add: push_key_def set_key_def map_of_append_other set_entry_same)
  show ?thesis
  proof (cases as)
    case (Cons a as')
    have "map_of m (YScalar k) = None" using assms by (simp add: map_of_eq_None_iff)
    then show ?thesis using run [of as' "[f a]"] assms
      by (simp add: Cons push_key_def set_key_def set_entry_last)
  qed simp
qed

lemma read_lconf_node:
  assumes "list_all (\<lambda>a. ac_type a = 1 \<or> ac_type a = 2) (lc_appenders i)"
  shows "read_conf E nt (lconf_node i) = Some (Some (forget i))"
proof -
  let ?m = "[(YScalar ''name'', YScalar (lc_name i))] @
    (if lc_level i \<noteq> UNKNOWN then [(YScalar ''level'', YScalar (Level_ToString (lc_level i)))] else []) @
    (if lc_formatter i = [] then [(YScalar ''formatter'', YScalar [])] else [])"
  have n: "lconf_node i = YMap (?m @ (if lc_appenders i = [] then [] else [(YScalar ''appenders'', YSeq (map aconf_node (lc_appenders i)))]))"
    by (subst fold_push_key [symmetric]) (auto simp: lconf_node_def node_build)
  have l: "Level_FromString (Level_ToString (lc_level i)) = lc_level i" "Level_FromString [] = UNKNOWN"
    by (cases "lc_level i") (simp_all add: Level_FromString_def level_names_def)
  show ?thesis unfolding n using l read_aconf_nodes [OF assms, of nt]
    by (cases "lc_appenders i") (auto simp: read_conf_def node_read forget_def elements_def simp del: read_appenders.simps)
qed

lemma read_confs_nodes:
  assumes "list_all (\<lambda>i. list_all (\<lambda>a. ac_type a = 1 \<or> ac_type a = 2) (lc_appenders i)) is"
    "sorted_wrt lconf_less (vec @ is)" "vec' = map forget vec"
  shows "read_confs E nt (map lconf_node is) vec' = Some (vec' @ map forget is)"
  using assms
proof (induction "is" arbitrary: vec vec')
  case (Cons i "is")
  have "set_insert lconf_less (forget i) vec' = vec' @ [forget i]"
    using Cons.prems by (intro set_insert_last) (auto simp: lconf_less_def forget_def sorted_wrt_append)
  then show ?case using Cons.IH [of "vec @ [i]" "vec' @ [forget i]"] Cons.prems by (simp add: read_lconf_node)
qed simp

lemma fold_push_back: "fold (\<lambda>i n. push_back n (f i)) xs YNull = (if xs = [] then YNull else YSeq (map f xs))"
proof -
  have "fold (\<lambda>i n. push_back n (f i)) xs (YSeq ys) = YSeq (ys @ map f xs)" for xs ys
    by (induction xs arbitrary: ys) simp_all
  note run = this
  show ?thesis by (cases xs) (simp_all add: run)
qed

text \<open>
  What is lost when the logging configuration is written and read again: the formatter of every
  entry, the level of every appender and the formatter of an appender on standard output; names,
  levels, files and the formatters of file appenders come back.
\<close>

theorem logs_text_forgets:
  assumes "y_load E (logs_to_str E v) = Some (if v = [] then YNull else YSeq (map lconf_node v))"
    "sorted_wrt lconf_less v" "list_all (\<lambda>i. list_all (\<lambda>a. ac_type a = 1 \<or> ac_type a = 2) (lc_appenders i)) v"
  shows "logs_from_str E nt (logs_to_str E v) = Some (map forget v)"
  using read_confs_nodes [of v "[]" "[]" E nt] assms by (simp add: logs_from_str_def elements_def)

definition demo_logs :: "lconf list" where
  "demo_logs = [\<lparr>lc_name = ''a'', lc_level = INFO, lc_formatter = ''%m'',
     lc_appenders = [\<lparr>ac_type = 2, ac_level = ERROR, ac_formatter = ''%m'', ac_file = []\<rparr>]\<rparr>]"

theorem logs_text_forgets_witness:
  "logs_from_str (demo_lex\<lparr>y_load := (\<lambda>_. Some (YSeq (map lconf_node demo_logs)))\<rparr>) None
     (logs_to_str (demo_lex\<lparr>y_load := (\<lambda>_. Some (YSeq (map lconf_node demo_logs)))\<rparr>) demo_logs) =
   Some [\<lparr>lc_name = ''a'', lc_level = INFO, lc_formatter = [],
     lc_appenders = [\<lparr>ac_type = 2, ac_level = UNKNOWN, ac_formatter = [], ac_file = []\<rparr>]\<rparr>]"
  using logs_text_forgets [of "demo_lex\<lparr>y_load := (\<lambda>_. Some (YSeq (map lconf_node demo_logs)))\<rparr>" demo_logs None]
  by (simp add: demo_logs_def forget_def forget_appender_def)

end
