(* ===== verification/Log_Setup.thy ===== *)
theory Log_Setup
  imports Log
begin

text \<open>
  What the listener of the variable \<open>logs\<close> achieves (\<open>LogIniter\<close> in \<open>gudov/log.cpp\<close>): after it has run
  on a configuration whose entries are all new or changed, every entry is in force and every entry
  that is gone is switched off.  The operations on one logger are framed by \<open>frame\<close>: they leave the
  other loggers, the names and the appenders that already existed as they were.
\<close>

section \<open>Frames\<close>

definition frame :: "nat \<Rightarrow> lstate \<Rightarrow> lstate \<Rightarrow> bool" where
  "frame l st st' \<longleftrightarrow> loggers st' = loggers st \<and> length (lgs st') = length (lgs st) \<and>
     (\<forall>k. k \<noteq> l \<longrightarrow> lgs st' ! k = lgs st ! k) \<and> length (aps st) \<le> length (aps st') \<and>
     (\<forall>a < length (aps st). ap_kind (aps st' ! a) = ap_kind (aps st ! a) \<and> ap_level (aps st' ! a) = ap_level (aps st ! a))"

lemma frame_refl [simp]: "frame l st st"
  by (simp add: frame_def)

lemma frame_trans: "frame l st st1 \<Longrightarrow> frame l st1 st2 \<Longrightarrow> frame l st st2"
  by (fastforce simp: frame_def)

lemma frame_upd_lg [intro]: "frame l st (upd_lg l f st)"
  by (simp add: frame_def upd_lg_def)

lemma frame_text [simp]: "frame l st (st\<lparr>out := t\<rparr>)"
  by (simp add: frame_def)

lemma give_formatter_aps:
  "length (aps (give_formatter f a st)) = length (aps st) \<and> ap_kind (aps (give_formatter f a st) ! b) = ap_kind (aps st ! b) \<and>
   ap_level (aps (give_formatter f a st) ! b) = ap_level (aps st ! b)"
  by (cases "b = a"; cases "a < length (aps st)") (simp_all add: give_formatter_def upd_ap_def list_update_beyond)

lemma frame_give_formatter [intro]: "frame l st (give_formatter f a st)"
  using give_formatter_aps [of f a st] by (simp add: frame_def) (simp add: give_formatter_def)

lemma frame_SetFormatter: "frame l st (SetFormatter f l st)"
proof -
  have "frame l st (fold (give_formatter f) as st)" for as st
    by (induction as arbitrary: st) (auto intro: frame_trans)
  then show ?thesis unfolding SetFormatter_def by (blast intro: frame_trans)
qed

lemma SetFormatter_logger:
  "lg_level (lgs (SetFormatter f l st) ! l) = lg_level (lgs st ! l)"
proof -
  have "lgs (fold (give_formatter f) as st) = lgs st" for as st by (induction as arbitrary: st) simp_all
  then show ?thesis by (cases "l < length (lgs st)") (simp_all add: SetFormatter_def upd_lg_def list_update_beyond)
qed

lemma SetFormatter_text_frame:
  "frame l st (SetFormatter_text val l st)" "lg_level (lgs (SetFormatter_text val l st) ! l) = lg_level (lgs st ! l)"
  by (simp_all add: SetFormatter_text_def Let_def frame_SetFormatter SetFormatter_logger)

section \<open>One entry\<close>

text \<open>What an entry asks for: the kind and the level of each appender.\<close>

definition wanted :: "aconf \<Rightarrow> akind \<times> level" where
  "wanted a = (if ac_type a = 1 then FileLogAppender (ac_file a) else StdoutLogAppender, ac_level a)"

definition kinds :: "lstate \<Rightarrow> nat \<Rightarrow> (akind \<times> level) list" where
  "kinds st l = map (\<lambda>a. (ap_kind (aps st ! a), ap_level (aps st ! a))) (lg_appenders (lgs st ! l))"

definition in_force :: "lstate \<Rightarrow> string \<Rightarrow> level \<Rightarrow> (akind \<times> level) list \<Rightarrow> bool" where
  "in_force st name level ks \<longleftrightarrow> (\<exists>l. map_find (<) name (loggers st) = Some l \<and> l < length (lgs st) \<and>
     lg_level (lgs st ! l) = level \<and> kinds st l = ks)"

lemma kinds_frame:
  assumes "lwf nn st" "k < length (lgs st)" "frame l st st'" "lgs st' ! k = lgs st ! k"
  shows "kinds st' k = kinds st k"
  using lwf_nth [OF assms(1,2)] assms(3,4) by (auto simp: kinds_def frame_def lg_ok_def)

text \<open>Setting the level and the formatter of an appender that was just made.\<close>

lemma fresh_appender:
  "Appender_SetLevel v (length (aps st)) (st\<lparr>aps := aps st @ [x]\<rparr>) = st\<lparr>aps := aps st @ [x\<lparr>ap_level := v\<rparr>]\<rparr>"
  "Appender_SetFormatter f (length (aps st)) (st\<lparr>aps := aps st @ [x]\<rparr>) = st\<lparr>aps := aps st @ [x\<lparr>ap_formatter := f\<rparr>]\<rparr>"
  by (simp_all add: Appender_SetLevel_def Appender_SetFormatter_def upd_ap_def)

lemma apply_appender_cases:
  assumes "apply_appender S name l a st = Inr st'"
  obtains x t where "st' = AddAppender (length (aps st)) l (st\<lparr>aps := aps st @ [x], out := t\<rparr>)" "(ap_kind x, ap_level x) = wanted a"
proof -
  define x where "x = (if ac_type a = 1 then newFileLogAppender S (ac_file a) DEBUG else newStdoutLogAppender DEBUG)"
  let ?p = "length (aps st)"
  let ?st2 = "st\<lparr>aps := aps st @ [x\<lparr>ap_level := ac_level a\<rparr>]\<rparr>"
  have kind: "(ap_kind (x\<lparr>ap_level := ac_level a, ap_formatter := g\<rparr>), ap_level (x\<lparr>ap_level := ac_level a, ap_formatter := g\<rparr>)) = wanted a" for g
    by (simp add: x_def wanted_def newFileLogAppender_def newStdoutLogAppender_def reopen_def)
  have same: "ap_formatter_update (\<lambda>_. ap_formatter x) (x\<lparr>ap_level := v\<rparr>) = x\<lparr>ap_level := v\<rparr>" for v by simp
  have "apply_appender S name l a st = Inr (AddAppender ?p l
      (if ac_formatter a \<noteq> [] then
         let f = newLogFormatter (ac_formatter a) in
         if \<not> fm_error f then Appender_SetFormatter (Some f) ?p ?st2
         else ?st2\<lparr>out := out ?st2 @ ''log.name='' @ name @ '' appender type='' @ dec (ac_type a) @
                '' formatter='' @ ac_formatter a @ '' is invalid\<newline>''\<rparr>
       else ?st2))"
    using assms unfolding x_def [symmetric] apply_appender_def
    by (simp add: new_ap_def Let_def fresh_appender x_def split: if_splits)
  then consider (fmt) f where "st' = AddAppender ?p l (Appender_SetFormatter (Some f) ?p ?st2)"
    | (bad) t where "st' = AddAppender ?p l (?st2\<lparr>out := t\<rparr>)" | (none) "st' = AddAppender ?p l ?st2"
    using assms by (fastforce simp: Let_def split: if_splits)
  then show thesis
  proof cases
    case (fmt f)
    then show thesis using that [of "out st" "x\<lparr>ap_level := ac_level a, ap_formatter := Some f\<rparr>"] kind by (simp add: fresh_appender)
  next
    case (bad t)
    then show thesis using that [of t "x\<lparr>ap_level := ac_level a\<rparr>"] kind [of "ap_formatter x"] by simp
  next
    case none
    then show thesis using that [of "out st" "x\<lparr>ap_level := ac_level a\<rparr>"] kind [of "ap_formatter x"] by simp
  qed
qed

text \<open>An appender of the configuration is added at the end, with the kind and level it asks for.\<close>

lemma apply_appender_effect:
  assumes "lwf nn st" "l < length (lgs st)" "apply_appender S name l a st = Inr st'"
  shows "frame l st st' \<and> lg_level (lgs st' ! l) = lg_level (lgs st ! l) \<and> kinds st' l = kinds st l @ [wanted a]"
proof -
  let ?p = "length (aps st)"
  from assms(3) obtain x t where st': "st' = AddAppender ?p l (st\<lparr>aps := aps st @ [x], out := t\<rparr>)"
    and x: "(ap_kind x, ap_level x) = wanted a" by (rule apply_appender_cases)
  let ?st3 = "st\<lparr>aps := aps st @ [x], out := t\<rparr>"
  let ?st4 = "give_formatter (lg_formatter (lgs ?st3 ! l)) ?p ?st3"
  have "frame l st ?st3" by (simp add: frame_def nth_append)
  then have f: "frame l st st'" unfolding st' AddAppender_def Let_def
    by (rule frame_trans [OF frame_trans [OF _ frame_give_formatter] frame_upd_lg])
  have lg: "lgs st' ! l = (lgs st ! l)\<lparr>lg_appenders := lg_appenders (lgs st ! l) @ [?p]\<rparr>" and ap: "aps st' = aps ?st4"
    using assms(2) by (simp_all add: st' AddAppender_def Let_def) (simp add: upd_lg_def)
  have new: "ap_kind (aps st' ! ?p) = ap_kind x" "ap_level (aps st' ! ?p) = ap_level x"
    using give_formatter_aps [of "lg_formatter (lgs ?st3 ! l)" ?p ?st3 ?p] by (simp_all add: ap)
  have "\<forall>b \<in> set (lg_appenders (lgs st ! l)). b < ?p" using lwf_nth [OF assms(1,2)] by (simp add: lg_ok_def)
  then have "kinds st' l = kinds st l @ [wanted a]"
    using f new x by (auto simp: kinds_def lg frame_def)
  then show ?thesis using f lg by simp
qed

lemma apply_appenders_effect:
  "lwf nn st \<Longrightarrow> l < length (lgs st) \<Longrightarrow> apply_appenders S name l as st = Inr st' \<Longrightarrow>
     frame l st st' \<and> lg_level (lgs st' ! l) = lg_level (lgs st ! l) \<and> kinds st' l = kinds st l @ map wanted as"
proof (induction as arbitrary: st)
  case (Cons a as)
  then obtain st1 where 1: "apply_appender S name l a st = Inr st1" "apply_appenders S name l as st1 = Inr st'" by auto
  note wf = lwf_apply_appender [OF Cons.prems(1,2) 1(1)]
  note eff = apply_appender_effect [OF Cons.prems(1,2) 1(1)]
  from Cons.IH [of st1] wf Cons.prems(2) 1(2)
  have "frame l st1 st'" "lg_level (lgs st' ! l) = lg_level (lgs st1 ! l)" "kinds st' l = kinds st1 l @ map wanted as" by simp_all
  then show ?case using eff frame_trans [of l st st1 st'] by simp
qed simp

lemma map_find_key: "map_find (<) (k :: 'a :: linorder) m = Some v \<Longrightarrow> (k, v) \<in> set m"
  by (induction "(<) :: 'a \<Rightarrow> 'a \<Rightarrow> bool" k m rule: map_find.induct) (auto split: if_splits)

lemma found_name: "lwf nn st \<Longrightarrow> map_find (<) n (loggers st) = Some l \<Longrightarrow> l < length (lgs st) \<and> lg_name (lgs st ! l) = n"
  by (auto simp: lwf_def list_all_iff dest!: map_find_key)

lemma GetLogger_effect:
  assumes "lwf nn st" "GetLogger name st = (l, st1)"
  shows "map_find (<) name (loggers st1) = Some l \<and> aps st1 = aps st
    \<and> (n \<noteq> name \<longrightarrow> map_find (<) n (loggers st1) = map_find (<) n (loggers st))
    \<and> (k < length (lgs st) \<longrightarrow> k < length (lgs st1) \<and> lgs st1 ! k = lgs st ! k)"
proof (cases "map_find (<) name (loggers st)")
  case None
  have wf: "sorted_wrt (<) (map fst (loggers st))" using assms(1) by (simp add: lwf_def)
  have "n \<noteq> name \<Longrightarrow> \<not> equivalent (<) name n" by (auto simp: equivalent_def)
  then show ?thesis
    using None assms(2) names.mp.lookup_assign [OF wf, of n name "length (lgs st)"] names.mp.lookup_assign_same [OF wf]
    by (auto simp: GetLogger_def nth_append)
qed (use assms(2) in \<open>auto simp: GetLogger_def\<close>)

text \<open>What is in force under another name stays in force.\<close>

lemma in_force_other:
  assumes "lwf nn st" "GetLogger name st = (l, st1)" "frame l st1 st'" "n \<noteq> name" "in_force st n lv ks"
  shows "in_force st' n lv ks"
proof -
  from assms(5) obtain k where k: "map_find (<) n (loggers st) = Some k" "k < length (lgs st)"
    "lg_level (lgs st ! k) = lv" "kinds st k = ks" by (auto simp: in_force_def)
  note g = GetLogger_effect [OF assms(1,2), of n k]
  have wf: "lwf nn st1" using lwf_GetLogger [OF assms(1), of name] assms(2) by simp
  have k1: "map_find (<) n (loggers st1) = Some k" "k < length (lgs st1)" "lgs st1 ! k = lgs st ! k" "aps st1 = aps st"
    using g k assms(4) by auto
  then have "k \<noteq> l" using found_name [OF wf, of n k] found_name [OF wf, of name l] g assms(4) by auto
  then have "lgs st' ! k = lgs st1 ! k" using assms(3) by (simp add: frame_def)
  moreover have "kinds st1 k = ks" using k(4) k1 by (simp add: kinds_def)
  ultimately show ?thesis
    using kinds_frame [OF wf k1(2) assms(3)] k(3) k1 assms(3) by (auto simp: in_force_def frame_def)
qed

lemma SetLevel_logger [simp]: "l < length (lgs st) \<Longrightarrow> lgs (SetLevel v l st) ! l = (lgs st ! l)\<lparr>lg_level := v\<rparr>"
  by (simp add: SetLevel_def upd_lg_def)

lemma clearAppenders_logger [simp]: "l < length (lgs st) \<Longrightarrow> lgs (clearAppenders l st) ! l = (lgs st ! l)\<lparr>lg_appenders := []\<rparr>"
  by (simp add: clearAppenders_def upd_lg_def)

lemma apply_new_effect:
  assumes "lwf nn st" "apply_new S old i st = Inr st'"
  obtains l st1 where "GetLogger (lc_name i) st = (l, st1)" "frame l st1 st'"
    "in_force st' (lc_name i) (lc_level i) (map wanted (lc_appenders i))"
proof -
  obtain l st1 where g: "GetLogger (lc_name i) st = (l, st1)" by fastforce
  then have 1: "lwf nn st1" "l < length (lgs st1)" using lwf_GetLogger [OF assms(1), of "lc_name i"] by auto
  let ?st2 = "SetLevel (lc_level i) l st1"
  let ?st3 = "if lc_formatter i \<noteq> [] then SetFormatter_text (lc_formatter i) l ?st2 else ?st2"
  let ?st4 = "clearAppenders l ?st3"
  have run: "apply_appenders S (lc_name i) l (lc_appenders i) ?st4 = Inr st'"
    using assms(2) g by (auto simp: apply_new_def Let_def split: option.splits if_splits)
  have 3: "lwf nn ?st3" "l < length (lgs ?st3)" "frame l ?st2 ?st3" "lg_level (lgs ?st3 ! l) = lg_level (lgs ?st2 ! l)"
    using lwf_SetFormatter_text [of nn ?st2 l] lwf_SetLevel [OF 1] 1(2) by (auto simp: SetFormatter_text_frame)
  have 4: "lwf nn ?st4" "l < length (lgs ?st4)" "kinds ?st4 l = []" "lg_level (lgs ?st4 ! l) = lc_level i"
    using lwf_clearAppenders [OF 3(1,2)] clearAppenders_logger [OF 3(2)] 3(2,4) 1(2) by (simp_all add: kinds_def)
  have "frame l st1 ?st2" by (auto simp: SetLevel_def)
  moreover have "frame l ?st3 ?st4" by (auto simp: clearAppenders_def)
  moreover note eff = apply_appenders_effect [OF 4(1,2) run]
  ultimately have f: "frame l st1 st'" using 3(3) frame_trans by blast
  have "in_force st' (lc_name i) (lc_level i) (map wanted (lc_appenders i))"
    using eff 4 f 1(2) GetLogger_effect [OF assms(1) g] by (auto simp: in_force_def frame_def)
  with g f show thesis by (rule that)
qed

section \<open>All entries\<close>

lemma apply_news_effect:
  "lwf nn st \<Longrightarrow> distinct (map lc_name new) \<Longrightarrow> apply_news S old new st = Inr st' \<Longrightarrow>
     (\<forall>i \<in> set new. in_force st' (lc_name i) (lc_level i) (map wanted (lc_appenders i))) \<and>
     (\<forall>n lv ks. n \<notin> lc_name ` set new \<longrightarrow> in_force st n lv ks \<longrightarrow> in_force st' n lv ks)"
proof (induction new arbitrary: st)
  case (Cons i new)
  then obtain st1 where 1: "apply_new S old i st = Inr st1" "apply_news S old new st1 = Inr st'" by auto
  obtain l st0 where g: "GetLogger (lc_name i) st = (l, st0)" "frame l st0 st1"
    "in_force st1 (lc_name i) (lc_level i) (map wanted (lc_appenders i))" using apply_new_effect [OF Cons.prems(1) 1(1)] .
  note other = in_force_other [OF Cons.prems(1) g(1,2)]
  from Cons.IH [OF lwf_apply_new [OF Cons.prems(1) 1(1)] _ 1(2)] Cons.prems(2) g(3) other show ?case by auto
qed simp

lemma apply_old_effect:
  assumes "lwf nn st"
  shows "(lc_name i \<notin> lc_name ` set new \<longrightarrow> in_force (apply_old new i st) (lc_name i) UNKNOWN []) \<and>
    (n \<noteq> lc_name i \<or> n \<in> lc_name ` set new \<longrightarrow> in_force st n lv ks \<longrightarrow> in_force (apply_old new i st) n lv ks)"
proof -
  have found: "find (\<lambda>j. lc_name j = lc_name i) new = None \<longleftrightarrow> lc_name i \<notin> lc_name ` set new"
    by (auto simp: find_None_iff image_iff)
  obtain l st1 where g: "GetLogger (lc_name i) st = (l, st1)" by fastforce
  then have l: "lwf nn st1" "l < length (lgs st1)" using lwf_GetLogger [OF assms, of "lc_name i"] by auto
  let ?st = "clearAppenders l (SetLevel UNKNOWN l st1)"
  have f: "frame l st1 ?st" unfolding clearAppenders_def SetLevel_def by (blast intro: frame_trans)
  have "in_force ?st (lc_name i) UNKNOWN []"
    using l(2) f GetLogger_effect [OF assms g] by (auto simp: in_force_def kinds_def frame_def)
  then show ?thesis using in_force_other [OF assms g f] by (auto simp: apply_old_def found g)
qed

lemma apply_olds_effect:
  "lwf nn st \<Longrightarrow>
     (n \<in> lc_name ` set xs - lc_name ` set new \<longrightarrow> in_force (fold (apply_old new) xs st) n UNKNOWN []) \<and>
     (n \<notin> lc_name ` set xs \<or> n \<in> lc_name ` set new \<longrightarrow> in_force st n lv ks \<longrightarrow> in_force (fold (apply_old new) xs st) n lv ks)"
proof (induction xs arbitrary: st lv ks)
  case (Cons i xs)
  note IH = Cons.IH [OF lwf_apply_old [OF Cons.prems], of new i]
  show ?case
  proof (intro conjI impI)
    assume n: "n \<in> lc_name ` set (i # xs) - lc_name ` set new"
    show "in_force (fold (apply_old new) (i # xs) st) n UNKNOWN []"
    proof (cases "n \<in> lc_name ` set xs")
      case True
      then show ?thesis using IH n by simp
    next
      case False
      then have "in_force (apply_old new i st) n UNKNOWN []" using n apply_old_effect [OF Cons.prems, of i new] by auto
      then show ?thesis using IH [of UNKNOWN "[]"] False by simp
    qed
  next
    assume n: "n \<notin> lc_name ` set (i # xs) \<or> n \<in> lc_name ` set new" and now: "in_force st n lv ks"
    then have "n \<noteq> lc_name i \<or> n \<in> lc_name ` set new" by auto
    with now have "in_force (apply_old new i st) n lv ks" using apply_old_effect [OF Cons.prems, of i new n lv ks] by blast
    moreover have "n \<notin> lc_name ` set xs \<or> n \<in> lc_name ` set new" using n by auto
    ultimately show "in_force (fold (apply_old new) (i # xs) st) n lv ks" using IH [of lv ks] by simp
  qed
qed simp

text \<open>A configuration in which no entry is kept as it was is applied without an error.\<close>

definition applicable :: "lconf list \<Rightarrow> lconf list \<Rightarrow> bool" where
  "applicable old new \<longleftrightarrow> (\<forall>i \<in> set new. \<forall>j \<in> set old. lc_name i = lc_name j \<longrightarrow> \<not> lconf_eq i j) \<and>
     (\<forall>i \<in> set new. \<forall>a \<in> set (lc_appenders i). ac_type a = 1 \<or> ac_type a = 2)"

lemma apply_appenders_ok:
  "\<forall>a \<in> set as. ac_type a = 1 \<or> ac_type a = 2 \<Longrightarrow> \<exists>st'. apply_appenders S name l as st = Inr st'"
proof (induction as arbitrary: st)
  case (Cons a as)
  then have "\<exists>st1. apply_appender S name l a st = Inr st1" by (auto simp: apply_appender_def Let_def case_prod_beta)
  then show ?case using Cons by auto
qed simp

lemma apply_new_ok:
  assumes "applicable old new" "i \<in> set new"
  shows "\<exists>st'. apply_new S old i st = Inr st'"
proof -
  have "\<not> lconf_eq i j" if "find (\<lambda>j. lc_name j = lc_name i) old = Some j" for j
    using assms find_SomeD [OF that] by (auto simp: applicable_def)
  moreover have "\<forall>a \<in> set (lc_appenders i). ac_type a = 1 \<or> ac_type a = 2" using assms by (simp add: applicable_def)
  ultimately show ?thesis using apply_appenders_ok by (auto simp: apply_new_def Let_def case_prod_beta split: option.split)
qed

lemma apply_news_ok: "applicable old all \<Longrightarrow> set new \<subseteq> set all \<Longrightarrow> \<exists>st'. apply_news S old new st = Inr st'"
proof (induction new arbitrary: st)
  case (Cons i new)
  then obtain st1 where "apply_new S old i st = Inr st1" using apply_new_ok [of old all i S st] by auto
  then show ?case using Cons by auto
qed simp

text \<open>Where every time has a text, logging does not fail.\<close>

lemma LOG_LEVEL_ok:
  assumes "lwf True st" "l < length (lgs st)" "2 \<le> fuel" "\<And>f t. time_text S f t \<noteq> None"
  shows "\<exists>st'. LOG_LEVEL S fuel e l st = Inr st'"
proof -
  have fl: "\<exists>s. format_loop (time_text S) e xs ss = Inr s" for e xs ss
  proof (induction xs arbitrary: ss)
    case (Cons x xs)
    have "\<exists>s. item_format (time_text S) e x = Inr s" using assms(4) by (cases x) (auto split: option.split)
    then show ?case using Cons by auto
  qed simp
  have fd: "formatted S e x \<noteq> Inl Indeterminate" for e x
    using fl [of e _ "[]"] by (auto simp: formatted_def LogFormatter_format_def split: option.splits) (metis sum.distinct(1))
  have ao: "ap_output S e a st \<noteq> Inl Indeterminate" for e a st
  proof -
    have bd: "\<exists>s. g s = Inl Indeterminate" if "bindR (formatted S e x) g = Inl Indeterminate" for x and g :: "string \<Rightarrow> lstate res"
      using that fd [of e x] by (cases "formatted S e x") auto
    show ?thesis by (auto simp: ap_output_def Let_def split: akind.split if_splits dest!: bd)
  qed
  have "output_all S e as st \<noteq> Inl Indeterminate" for e as st
  proof (induction as arbitrary: st)
    case (Cons a as)
    then show ?case using ao [of e a st] by (cases "ap_output S e a st") auto
  qed simp
  moreover have "(\<exists>st'. output_all S e (route e l st) st = Inr st' \<and> same_loggers st st') \<or>
      output_all S e (route e l st) st = Inl Indeterminate" for e
    using route_ok [OF assms(1,2), of e] by (intro output_all_result) blast
  ultimately show ?thesis using log_event_route [OF assms(1-3)] by (metis LOG_LEVEL_def)
qed

lemma on_logs_changed_effect:
  assumes "lwf True st" "2 \<le> fuel" "\<And>f t. time_text S f t \<noteq> None" "distinct (map lc_name new)" "applicable old new"
  obtains st' where "on_logs_changed S fuel e old new st = Inr st'"
    "\<And>i. i \<in> set new \<Longrightarrow> in_force st' (lc_name i) (lc_level i) (map wanted (lc_appenders i))"
    "\<And>j. j \<in> set old \<Longrightarrow> lc_name j \<notin> lc_name ` set new \<Longrightarrow> in_force st' (lc_name j) UNKNOWN []"
proof -
  have "root st < length (lgs st)" using assms(1) by (simp add: lwf_def)
  then obtain st1 where 1: "LOG_LEVEL S fuel e (root st) st = Inr st1" using LOG_LEVEL_ok assms(1-3) by blast
  then have wf1: "lwf True st1" using assms(1) LOG_LEVEL_same lwf_same_loggers by blast
  obtain st2 where 2: "apply_news S old new st1 = Inr st2" using apply_news_ok [OF assms(5)] by blast
  then have wf2: "lwf True st2" using wf1 lwf_apply_news by blast
  note new = apply_news_effect [OF wf1 assms(4) 2]
  show thesis
  proof (rule that)
    show "on_logs_changed S fuel e old new st = Inr (fold (apply_old new) old st2)" using 1 2 by (simp add: on_logs_changed_def)
    show "in_force (fold (apply_old new) old st2) (lc_name i) (lc_level i) (map wanted (lc_appenders i))" if "i \<in> set new" for i
      using apply_olds_effect [OF wf2, of "lc_name i" old new] new that by blast
    show "in_force (fold (apply_old new) old st2) (lc_name j) UNKNOWN []" if "j \<in> set old" "lc_name j \<notin> lc_name ` set new" for j
      using apply_olds_effect [OF wf2, of "lc_name j" old new] that by blast
  qed
qed

section \<open>Configurations that are read\<close>

text \<open>What the cast reads has one entry per name, and appenders of the two kinds only.\<close>

interpretation confs: strict_weak lconf_less
  by unfold_locales (auto simp: lconf_less_def)

lemma read_appender_type: "read_appender nt n = Some (Some a) \<Longrightarrow> ac_type a = 1 \<or> ac_type a = 2"
  by (auto simp: read_appender_def Option.bind_eq_Some_conv split: option.splits if_splits)

lemma read_appenders_type: "read_appenders nt ns = Some as \<Longrightarrow> \<forall>a \<in> set as. ac_type a = 1 \<or> ac_type a = 2"
proof (induction ns arbitrary: as)
  case (Cons n ns)
  then show ?case using read_appender_type by (fastforce simp: Option.bind_eq_Some_conv split: option.splits)
qed simp

lemma read_conf_type: "read_conf E nt n = Some (Some i) \<Longrightarrow> \<forall>a \<in> set (lc_appenders i). ac_type a = 1 \<or> ac_type a = 2"
  by (auto simp: read_conf_def Option.bind_eq_Some_conv split: option.splits dest!: read_appenders_type) blast

lemma set_insert_subset: "set (set_insert lt x xs) \<subseteq> insert x (set xs)"
  by (induction xs) auto

lemma read_confs_wf:
  "read_confs E nt ns vec = Some new \<Longrightarrow> sorted_wrt lconf_less vec \<Longrightarrow>
     \<forall>i \<in> set vec. \<forall>a \<in> set (lc_appenders i). ac_type a = 1 \<or> ac_type a = 2 \<Longrightarrow>
     sorted_wrt lconf_less new \<and> (\<forall>i \<in> set new. \<forall>a \<in> set (lc_appenders i). ac_type a = 1 \<or> ac_type a = 2)"
proof (induction E nt ns vec rule: read_confs.induct)
  case (2 E nt n ns vec)
  from "2.prems"(1) obtain r where r: "read_conf E nt n = Some r"
    "read_confs E nt ns (case r of None \<Rightarrow> vec | Some x \<Rightarrow> set_insert lconf_less x vec) = Some new"
    by (auto simp: Option.bind_eq_Some_conv)
  show ?case
  proof (rule "2.IH" [OF _ r(2)])
    show "sorted_wrt lconf_less (case r of None \<Rightarrow> vec | Some x \<Rightarrow> set_insert lconf_less x vec)"
      using "2.prems"(2) confs.sorted_set_insert by (auto split: option.split)
    show "\<forall>i \<in> set (case r of None \<Rightarrow> vec | Some x \<Rightarrow> set_insert lconf_less x vec).
        \<forall>a \<in> set (lc_appenders i). ac_type a = 1 \<or> ac_type a = 2"
    proof (cases r)
      case (Some x)
      then have "\<forall>a \<in> set (lc_appenders x). ac_type a = 1 \<or> ac_type a = 2" using read_conf_type r(1) by blast
      then show ?thesis using "2.prems"(3) set_insert_subset [of lconf_less x vec] by (simp add: Some) blast
    qed (use "2.prems"(3) in simp)
  qed (use r(1) in simp)
qed simp

lemma distinct_names: "sorted_wrt lconf_less xs \<Longrightarrow> distinct (map lc_name xs)"
  by (induction xs) (auto simp: lconf_less_def)

lemma logs_from_str_wf:
  assumes "logs_from_str E nt v = Some new" "\<forall>i \<in> set new. \<forall>j \<in> set old. lc_name i = lc_name j \<longrightarrow> \<not> lconf_eq i j"
  shows "distinct (map lc_name new) \<and> applicable old new"
proof -
  obtain ns where "read_confs E nt ns [] = Some new" using assms(1) by (auto simp: logs_from_str_def Option.bind_eq_Some_conv)
  then show ?thesis using read_confs_wf [of E nt ns "[]" new] assms(2) distinct_names [of new] by (simp add: applicable_def)
qed

end
