(* ===== verification/FSUtil.thy ===== *)
theory FSUtil
  imports Text "HOL-Library.Sublist"
begin

text \<open>
  File-system helpers (\<open>gudov/util.{h,cpp}\<close>).  A directory is the tree that \<open>lstat\<close>, \<open>opendir\<close> and
  \<open>readdir\<close> show, with its entries in the order of \<open>readdir\<close>; what the system permits (opening a
  directory, unlinking, removing, renaming) is an argument.  \<open>Mkdir\<close> runs over an abstract state with
  \<open>access\<close> and \<open>mkdir\<close> as arguments.

  The lemmas show which files are listed, that \<open>Rm\<close> reports success only when nothing is left and
  removes everything where it may, that \<open>Mkdir\<close> makes every prefix of a path, and how paths are split.
\<close>

section \<open>Trees\<close>

text \<open>The kinds of file with the bits of \<open>st_mode\<close> that tell them apart.\<close>

datatype fkind = KReg | KLnk | KFifo | KChr | KBlk | KSock

fun mode_bits :: "fkind \<Rightarrow> nat" where
  "mode_bits KReg = 0x8000" | "mode_bits KLnk = 0xA000" | "mode_bits KFifo = 0x1000"
| "mode_bits KChr = 0x2000" | "mode_bits KBlk = 0x6000" | "mode_bits KSock = 0xC000"

definition S_IFDIR :: nat where "S_IFDIR = 0x4000"

datatype fsnode = File fkind | Directory "(string \<times> fsnode) list"

text \<open>The dot entries that \<open>readdir\<close> also gives are skipped by both loops and are not in the tree.\<close>

definition subpath :: "string \<Rightarrow> string \<Rightarrow> string" where
  "subpath path name = path @ ''/'' @ name"

section \<open>Listing files\<close>

definition has_suffix :: "string \<Rightarrow> string \<Rightarrow> bool" where
  "has_suffix subfix filename \<longleftrightarrow>
     subfix = [] \<or> (length subfix \<le> length filename \<and> drop (length filename - length subfix) filename = subfix)"

text \<open>\<open>may_open\<close> says whether a directory can be accessed and opened; anything but a directory cannot.\<close>

function ListAllFile :: "(string \<Rightarrow> bool) \<Rightarrow> string \<Rightarrow> string \<Rightarrow> fsnode \<Rightarrow> string list" where
  "ListAllFile may_open subfix path (File k) = []"
| "ListAllFile may_open subfix path (Directory es) =
     (if \<not> may_open path then []
      else concat (map (\<lambda>(name, n).
        case n of
          Directory ds \<Rightarrow> ListAllFile may_open subfix (subpath path name) n
        | File k \<Rightarrow> if k = KReg \<and> has_suffix subfix name then [subpath path name] else []) es))"
  by pat_completeness auto

lemma size_child: "(name, n) \<in> set es \<Longrightarrow> size n < Suc (size_list (size_prod (\<lambda>_. 0) size) es)"
  by (induction es) auto

termination ListAllFile
  by (relation "measure (\<lambda>(_, _, _, n). size n)") (auto dest: size_child)

section \<open>Removing\<close>

definition Unlink :: "(string \<Rightarrow> bool) \<Rightarrow> bool \<Rightarrow> string \<Rightarrow> fsnode option \<Rightarrow> bool \<times> fsnode option" where
  "Unlink may_unlink exist path n =
     (if \<not> exist \<and> n = None then (True, n)
      else case n of
          Some (File k) \<Rightarrow> if may_unlink path then (True, None) else (False, n)
        | _ \<Rightarrow> (False, n))"

record perms =
  may_open :: "string \<Rightarrow> bool"
  may_unlink :: "string \<Rightarrow> bool"
  may_rmdir :: "string \<Rightarrow> bool"

text \<open>
  The test \<open>st_mode & S_IFDIR\<close> also holds for sockets and block devices, which cannot be opened as
  directories.  The result for an entry overwrites that of the entries before it; \<open>rmdir\<close> fails on a
  directory that still has entries.
\<close>

function Rm :: "perms \<Rightarrow> string \<Rightarrow> fsnode \<Rightarrow> bool \<times> fsnode option" where
  "Rm P path (File k) =
     (if and (mode_bits k) S_IFDIR = 0 then Unlink (may_unlink P) False path (Some (File k))
      else (False, Some (File k)))"
| "Rm P path (Directory es) =
     (if \<not> may_open P path then (False, Some (Directory es))
      else
        let rs = map (\<lambda>(name, n). (name, Rm P (subpath path name) n)) es;
            ret = (if es = [] then True else fst (snd (last rs)));
            left = concat (map (\<lambda>(name, r). case snd r of None \<Rightarrow> [] | Some n \<Rightarrow> [(name, n)]) rs)
        in if left = [] \<and> may_rmdir P path then (ret, None) else (False, Some (Directory left)))"
  by pat_completeness auto

termination Rm
  by (relation "measure (\<lambda>(_, _, n). size n)") (auto dest: size_child)

definition Rm_path :: "perms \<Rightarrow> string \<Rightarrow> fsnode option \<Rightarrow> bool \<times> fsnode option" where
  "Rm_path P path n = (case n of None \<Rightarrow> (True, None) | Some x \<Rightarrow> Rm P path x)"

text \<open>\<open>real\<close> is what \<open>realpath\<close> gives, \<open>None\<close> when it fails.\<close>

definition Realpath :: "(string \<Rightarrow> fsnode option) \<Rightarrow> (string \<Rightarrow> string option) \<Rightarrow> string \<Rightarrow> string \<Rightarrow> bool \<times> string" where
  "Realpath lst real path rpath =
     (if lst (cstr path) = None then (False, rpath)
      else case real (cstr path) of None \<Rightarrow> (False, rpath) | Some s \<Rightarrow> (True, s))"

text \<open>Moving and linking: the destination is removed first; \<open>ok\<close> is what the system call answers.\<close>

definition Mv :: "perms \<Rightarrow> bool \<Rightarrow> string \<Rightarrow> fsnode option \<Rightarrow> fsnode option \<Rightarrow> bool \<times> fsnode option \<times> fsnode option" where
  "Mv P ok to from_node to_node =
     (let (r, left) = Rm_path P to to_node in
      if \<not> r then (False, from_node, left)
      else if ok \<and> from_node \<noteq> None then (True, None, from_node)
      else (False, from_node, left))"

definition Symlink :: "perms \<Rightarrow> bool \<Rightarrow> string \<Rightarrow> fsnode option \<Rightarrow> bool \<times> fsnode option" where
  "Symlink P ok to to_node =
     (let (r, left) = Rm_path P to to_node in
      if \<not> r then (False, left) else if ok then (True, Some (File KLnk)) else (False, left))"

section \<open>Making directories\<close>

text \<open>\<open>acc\<close> and \<open>mk\<close> are \<open>access(F_OK)\<close> and \<open>mkdir\<close>.\<close>

definition mkdir1 :: "(string \<Rightarrow> 's \<Rightarrow> bool) \<Rightarrow> (string \<Rightarrow> 's \<Rightarrow> 's option) \<Rightarrow> string \<Rightarrow> 's \<Rightarrow> 's option" where
  "mkdir1 acc mk dirname s = (if acc dirname s then Some s else mk dirname s)"

text \<open>The paths that end before a slash, from the second character on.\<close>

definition cuts :: "string \<Rightarrow> string list" where
  "cuts s = map (\<lambda>k. take k s) (filter (\<lambda>k. s ! k = CHR ''/'') [1..<length s])"

fun mkdir_all :: "(string \<Rightarrow> 's \<Rightarrow> bool) \<Rightarrow> (string \<Rightarrow> 's \<Rightarrow> 's option) \<Rightarrow> string list \<Rightarrow> 's \<Rightarrow> bool \<times> 's" where
  "mkdir_all acc mk [] s = (True, s)"
| "mkdir_all acc mk (p # ps) s =
     (case mkdir1 acc mk p s of None \<Rightarrow> (False, s) | Some s' \<Rightarrow> mkdir_all acc mk ps s')"

text \<open>
  The search for the first slash starts at the second character: of an empty path it reads past the
  end.  \<open>lst\<close> is \<open>lstat\<close>.
\<close>

definition Mkdir ::
  "(string \<Rightarrow> 's \<Rightarrow> bool) \<Rightarrow> (string \<Rightarrow> 's \<Rightarrow> bool) \<Rightarrow> (string \<Rightarrow> 's \<Rightarrow> 's option) \<Rightarrow> string \<Rightarrow> 's \<Rightarrow> (bool \<times> 's) res" where
  "Mkdir lst acc mk dirname s =
     (let d = cstr dirname in
      if lst d s then Inr (True, s)
      else if d = [] then Inl OutOfBounds
      else Inr (mkdir_all acc mk (cuts d @ [d]) s))"

section \<open>Names\<close>

text \<open>\<open>rfind('/')\<close>\<close>

definition rfind_slash :: "string \<Rightarrow> nat option" where
  "rfind_slash s = (if CHR ''/'' \<in> set s then Some (length s - 1 - length (takeWhile (\<lambda>c. c \<noteq> CHR ''/'') (rev s))) else None)"

definition Dirname :: "string \<Rightarrow> string" where
  "Dirname filename =
     (if filename = [] then ''.''
      else case rfind_slash filename of
          None \<Rightarrow> ''.''
        | Some pos \<Rightarrow> if pos = 0 then ''/'' else take pos filename)"

definition Basename :: "string \<Rightarrow> string" where
  "Basename filename =
     (if filename = [] then filename
      else case rfind_slash filename of
          None \<Rightarrow> filename
        | Some pos \<Rightarrow> drop (pos + 1) filename)"

section \<open>Opening files\<close>

text \<open>\<open>opn\<close> says whether a file can be opened in a state; opening for writing makes the directory and tries again.\<close>

definition OpenForRead :: "(string \<Rightarrow> 's \<Rightarrow> bool) \<Rightarrow> string \<Rightarrow> 's \<Rightarrow> bool" where
  "OpenForRead opn filename s = opn (cstr filename) s"

definition OpenForWrite ::
  "(string \<Rightarrow> 's \<Rightarrow> bool) \<Rightarrow> (string \<Rightarrow> 's \<Rightarrow> bool) \<Rightarrow> (string \<Rightarrow> 's \<Rightarrow> bool) \<Rightarrow> (string \<Rightarrow> 's \<Rightarrow> 's option) \<Rightarrow>
     string \<Rightarrow> 's \<Rightarrow> (bool \<times> 's) res" where
  "OpenForWrite opn lst acc mk filename s =
     (if opn (cstr filename) s then Inr (True, s)
      else bindR (Mkdir lst acc mk (Dirname filename) s) (\<lambda>(_, s'). Inr (opn (cstr filename) s', s')))"

text \<open>A file that cannot be opened reads as the empty text.\<close>

definition ReadFile :: "string option \<Rightarrow> string" where
  "ReadFile content = (case content of None \<Rightarrow> [] | Some s \<Rightarrow> s)"

section \<open>Processes and time\<close>

text \<open>
  \<open>content\<close> is the file's text, \<open>None\<close> when it does not exist or cannot be read; \<open>alive\<close> is whether
  \<open>kill(pid, 0)\<close> succeeds.
\<close>

definition IsRunningPidfile :: "(int \<Rightarrow> bool) \<Rightarrow> string option \<Rightarrow> bool" where
  "IsRunningPidfile alive content =
     (case content of
        None \<Rightarrow> False
      | Some t \<Rightarrow>
          if t = [] then False
          else let line = takeWhile (\<lambda>c. c \<noteq> CHR ''\<newline>'') t in
            if line = [] then False
            else let pid = atoi (cstr line) in
              if pid \<le> 1 then False else alive pid)"

definition GetCurrentMS :: "u64 \<Rightarrow> u64 \<Rightarrow> u64" where
  "GetCurrentMS tv_sec tv_usec = tv_sec * 1000 + tv_usec div 1000"

definition GetCurrentUS :: "u64 \<Rightarrow> u64 \<Rightarrow> u64" where
  "GetCurrentUS tv_sec tv_usec = tv_sec * 1000 * 1000 + tv_usec"

text \<open>\<open>symbols\<close> is what \<open>backtrace_symbols\<close> gives; \<open>skip\<close> becomes a \<open>size_t\<close>.\<close>

definition BackTrace :: "string list option \<Rightarrow> u32 \<Rightarrow> string list \<Rightarrow> string list" where
  "BackTrace symbols skip bt =
     (case symbols of
        None \<Rightarrow> bt
      | Some strings \<Rightarrow> bt @ drop (unat (scast skip :: u64)) strings)"

definition BacktraceToString :: "string list option \<Rightarrow> u32 \<Rightarrow> string \<Rightarrow> string" where
  "BacktraceToString symbols skip pre = concat (map (\<lambda>s. pre @ s @ ''\<newline>'') (BackTrace symbols skip []))"

section \<open>Lemmas\<close>

text \<open>The regular files of a tree that can be reached, with the path they are reached by and their name.\<close>

inductive file_at :: "(string \<Rightarrow> bool) \<Rightarrow> string \<Rightarrow> fsnode \<Rightarrow> string \<Rightarrow> string \<Rightarrow> bool" for mo where
  here: "mo path \<Longrightarrow> (name, File KReg) \<in> set es \<Longrightarrow> file_at mo path (Directory es) (subpath path name) name"
| down: "mo path \<Longrightarrow> (name, Directory ds) \<in> set es \<Longrightarrow> file_at mo (subpath path name) (Directory ds) f nm \<Longrightarrow>
    file_at mo path (Directory es) f nm"

lemma has_suffix_iff: "has_suffix x f \<longleftrightarrow> suffix x f"
proof
  assume "has_suffix x f"
  then show "suffix x f" unfolding has_suffix_def by (metis suffix_drop suffix_bot.extremum)
next
  assume "suffix x f"
  then show "has_suffix x f" by (auto simp: has_suffix_def suffix_def)
qed

lemma ListAllFile_sound: "f \<in> set (ListAllFile mo x path n) \<Longrightarrow> \<exists>nm. file_at mo path n f nm \<and> suffix x nm"
proof (induction mo x path n rule: ListAllFile.induct)
  case (2 mo x path es)
  then obtain name n where e: "mo path" "(name, n) \<in> set es"
    "f \<in> set (case n of Directory ds \<Rightarrow> ListAllFile mo x (subpath path name) n
        | File k \<Rightarrow> if k = KReg \<and> has_suffix x name then [subpath path name] else [])" by (auto split: if_splits)
  show ?case
  proof (cases n)
    case (File k)
    then show ?thesis using e by (auto simp: has_suffix_iff intro: here split: if_splits)
  next
    case (Directory ds)
    then show ?thesis using e 2(1) [OF _ e(2) refl] by (auto intro: down)
  qed
qed simp

lemma in_concat_map: "x \<in> set xs \<Longrightarrow> y \<in> set (g x) \<Longrightarrow> y \<in> set (concat (map g xs))"
  by auto

lemma ListAllFile_complete: "file_at mo path n f nm \<Longrightarrow> suffix x nm \<Longrightarrow> f \<in> set (ListAllFile mo x path n)"
proof (induction rule: file_at.induct)
  case (here path name es)
  have "has_suffix x name" using here(3) unfolding has_suffix_iff .
  let ?g = "\<lambda>(name, n). case n of
      Directory ds \<Rightarrow> ListAllFile mo x (subpath path name) n
    | File k \<Rightarrow> if k = KReg \<and> has_suffix x name then [subpath path name] else []"
  have "subpath path name \<in> set (?g (name, File KReg))" using \<open>has_suffix x name\<close> by simp
  from in_concat_map [where g = ?g, OF here(2) this] here(1) show ?case by (simp only: ListAllFile.simps not_True_eq_False if_False)
next
  case (down path name ds es f nm)
  then have f: "f \<in> set (ListAllFile mo x (subpath path name) (Directory ds))" by blast
  let ?g = "\<lambda>(name, n). case n of
      Directory ds \<Rightarrow> ListAllFile mo x (subpath path name) n
    | File k \<Rightarrow> if k = KReg \<and> has_suffix x name then [subpath path name] else []"
  have "f \<in> set (?g (name, Directory ds))" using f by (simp only: prod.case fsnode.case)
  from in_concat_map [where g = ?g, OF down(2) this] down(1) show ?case
    by (simp only: ListAllFile.simps not_True_eq_False if_False)
qed

lemma Rm_result: "fst (Rm P path n) \<longleftrightarrow> snd (Rm P path n) = None"
proof (induction P path n rule: Rm.induct)
  case (1 P path k)
  then show ?case by (simp add: Unlink_def)
next
  case (2 P path es)
  let ?rs = "map (\<lambda>(name, n). (name, Rm P (subpath path name) n)) es"
  let ?left = "concat (map (\<lambda>(name, r). case snd r of None \<Rightarrow> [] | Some n \<Rightarrow> [(name, n)]) ?rs)"
  have "fst (snd (last ?rs))" if "may_open P path" "?left = []" "es \<noteq> []"
  proof -
    obtain name n where l: "last es = (name, n)" by fastforce
    then have "(name, n) \<in> set es" using that(3) last_in_set by metis
    moreover from this have "snd (Rm P (subpath path name) n) = None" using that(2) by (fastforce split: option.splits)
    ultimately show ?thesis using 2 that(1,3) l by (auto simp: last_map)
  qed
  then show ?case by (auto simp: Let_def)
qed

text \<open>Trees in which everything may be removed.\<close>

function removable :: "perms \<Rightarrow> string \<Rightarrow> fsnode \<Rightarrow> bool" where
  "removable P path (File k) \<longleftrightarrow> k \<noteq> KSock \<and> k \<noteq> KBlk \<and> may_unlink P path"
| "removable P path (Directory es) \<longleftrightarrow>
     may_open P path \<and> may_rmdir P path \<and> list_all (\<lambda>(name, n). removable P (subpath path name) n) es"
  by pat_completeness auto

termination removable
  by (relation "measure (\<lambda>(_, _, n). size n)") (auto dest: size_child)

lemma Rm_removable: "removable P path n \<Longrightarrow> snd (Rm P path n) = None"
proof (induction P path n rule: Rm.induct)
  case (1 P path k)
  then show ?case by (cases k) (simp_all add: Unlink_def S_IFDIR_def)
next
  case (2 P path es)
  then have "snd (Rm P (subpath path name) n) = None" if "(name, n) \<in> set es" for name n
    using that by (auto simp: list_all_iff)
  then show ?case using 2(2) by (auto simp: Let_def split: option.splits)
qed

lemma mkdir_all_makes:
  assumes mk: "\<And>p s s'. mk p s = Some s' \<Longrightarrow> acc p s' \<and> (\<forall>q. acc q s \<longrightarrow> acc q s')"
  shows "mkdir_all acc mk ps s = (True, s') \<Longrightarrow> (\<forall>p \<in> set ps. acc p s') \<and> (\<forall>q. acc q s \<longrightarrow> acc q s')"
proof (induction ps arbitrary: s)
  case (Cons p ps)
  then obtain s1 where m: "mkdir1 acc mk p s = Some s1" "mkdir_all acc mk ps s1 = (True, s')" by (auto split: option.splits)
  from m(1) have "acc p s1 \<and> (\<forall>q. acc q s \<longrightarrow> acc q s1)" using mk by (auto simp: mkdir1_def split: if_splits)
  with Cons.IH [OF m(2)] show ?case by auto
qed simp

lemma mkdir_all_succeeds:
  assumes "\<And>p s. mk p s \<noteq> None"
  shows "fst (mkdir_all acc mk ps s)"
  using assms by (induction ps arbitrary: s) (simp_all add: mkdir1_def split: option.splits, metis option.distinct(1))

lemma rfind_slash_split:
  assumes "CHR ''/'' \<in> set s"
  shows "\<exists>d b. s = d @ ''/'' @ b \<and> CHR ''/'' \<notin> set b \<and> rfind_slash s = Some (length d)"
proof -
  obtain d b where s: "s = d @ CHR ''/'' # b" "CHR ''/'' \<notin> set b" using split_list_last [OF assms] by blast
  have "takeWhile (\<lambda>c. c \<noteq> CHR ''/'') (rev s) = rev b" using s by (subst s(1)) (auto simp: takeWhile_append)
  then show ?thesis using s by (intro exI [of _ d] exI [of _ b]) (simp add: rfind_slash_def)
qed

section \<open>Properties\<close>

text \<open>
  \<open>ListAllFile\<close> lists exactly the regular files below a directory whose names end in the suffix, at any
  depth that can be opened, each with its path.
\<close>

theorem ListAllFile_spec:
  "f \<in> set (ListAllFile mo x path n) \<longleftrightarrow> (\<exists>nm. file_at mo path n f nm \<and> suffix x nm)"
  using ListAllFile_sound ListAllFile_complete by blast

text \<open>
  \<open>Rm\<close> reports success exactly when nothing is left, although the results of all entries but the last
  are dropped; it removes a tree completely when every file and directory of it may be removed; and
  it never removes a socket, whose mode has the bit it takes for a directory's.
\<close>

theorem Rm_spec:
  "(fst (Rm P path n) \<longleftrightarrow> snd (Rm P path n) = None) \<and> (removable P path n \<longrightarrow> Rm P path n = (True, None))
    \<and> Rm P path (File KSock) = (False, Some (File KSock))"
  using Rm_result [of P path n] Rm_removable [of P path n] by (auto simp: S_IFDIR_def prod_eq_iff)

theorem Rm_spec_witness:
  "Rm \<lparr>may_open = (\<lambda>_. True), may_unlink = (\<lambda>_. True), may_rmdir = (\<lambda>_. True)\<rparr> ''d''
     (Directory [(''a'', File KReg), (''e'', Directory [(''b'', File KLnk)])]) = (True, None)"
  using Rm_spec [of "\<lparr>may_open = (\<lambda>_. True), may_unlink = (\<lambda>_. True), may_rmdir = (\<lambda>_. True)\<rparr>" "''d''"
      "Directory [(''a'', File KReg), (''e'', Directory [(''b'', File KLnk)])]"] by simp

text \<open>
  \<open>Mkdir\<close> of a path that does not exist: when it succeeds, the path and all paths cut before one of its
  slashes exist, and it succeeds whenever directories can be made; the empty path is read past its end.
\<close>

theorem Mkdir_makes_prefixes:
  assumes "\<And>p s s'. mk p s = Some s' \<Longrightarrow> acc p s' \<and> (\<forall>q. acc q s \<longrightarrow> acc q s')" "\<not> lst (cstr d) s"
  shows "(Mkdir lst acc mk d s = Inr (True, s') \<longrightarrow> acc (cstr d) s' \<and> (\<forall>p \<in> set (cuts (cstr d)). acc p s'))
    \<and> (cstr d \<noteq> [] \<and> (\<forall>p s. mk p s \<noteq> None) \<longrightarrow> (\<exists>s'. Mkdir lst acc mk d s = Inr (True, s')))
    \<and> (cstr d = [] \<longrightarrow> Mkdir lst acc mk d s = Inl OutOfBounds)"
  using mkdir_all_makes [of mk acc "cuts (cstr d) @ [cstr d]" s s', OF assms(1)]
    mkdir_all_succeeds [of mk acc "cuts (cstr d) @ [cstr d]" s] assms(2)
  by (auto simp: Mkdir_def Let_def prod_eq_iff)

theorem Mkdir_makes_prefixes_witness:
  "\<exists>s'. Mkdir (\<lambda>p s. p \<in> s) (\<lambda>p s. p \<in> s) (\<lambda>p s. Some (insert p s)) ''a/b'' {} = Inr (True, s')"
  using Mkdir_makes_prefixes [of "\<lambda>p s. Some (insert p s)" "\<lambda>p s. p \<in> s" "\<lambda>p s. p \<in> s" "''a/b''" "{}"]
  by (auto simp: cstr_def)

text \<open>
  A path with a slash is split at the last one: \<open>Basename\<close> is what follows it and holds no slash,
  \<open>Dirname\<close> is what comes before it, or the root; a name without a slash is its own base name in the
  directory \<open>.\<close>.
\<close>

theorem path_split:
  "(CHR ''/'' \<in> set s \<longrightarrow> (\<exists>d. s = d @ ''/'' @ Basename s \<and> CHR ''/'' \<notin> set (Basename s) \<and> Dirname s = (if d = [] then ''/'' else d)))
    \<and> (CHR ''/'' \<notin> set s \<longrightarrow> Basename s = s \<and> Dirname s = ''.'')"
proof (cases "CHR ''/'' \<in> set s")
  case True
  from rfind_slash_split [OF True] obtain d b where d: "s = d @ ''/'' @ b" "CHR ''/'' \<notin> set b" "rfind_slash s = Some (length d)" by blast
  then have "Basename s = b" "Dirname s = (if d = [] then ''/'' else d)" by (auto simp: Basename_def Dirname_def)
  then show ?thesis using d True by auto
next
  case False
  then show ?thesis by (simp add: Basename_def Dirname_def rfind_slash_def)
qed

theorem path_split_witness:
  "\<exists>d. ''/var/log'' = d @ ''/'' @ Basename ''/var/log'' \<and> Dirname ''/var/log'' = (if d = [] then ''/'' else d)"
proof -
  have "CHR ''/'' \<in> set ''/var/log''" by simp
  then show ?thesis using path_split [of "''/var/log''"] by blast
qed

text \<open>
  The process whose number a pid file holds on its first line is the one whose life is asked for; a
  number of at most 1 counts as not running, whatever the system says.
\<close>

theorem pidfile_read:
  assumes "- (2 ^ 31) \<le> pid" "pid < 2 ^ 31"
  shows "IsRunningPidfile alive (Some (sdec pid @ ''\<newline>'' @ rest)) \<longleftrightarrow> 1 < pid \<and> alive pid"
proof -
  have "c \<noteq> CHR ''\<newline>''" if "c \<in> set (sdec pid)" for c using sdec_plain [OF that] by (auto simp: is_digit_def)
  then have "takeWhile (\<lambda>c. c \<noteq> CHR ''\<newline>'') (sdec pid @ ''\<newline>'' @ rest) = sdec pid" by simp
  then show ?thesis using atoi_sdec [OF assms] by (auto simp: IsRunningPidfile_def Let_def)
qed

theorem pidfile_read_witness: "IsRunningPidfile (\<lambda>p. p = 4711) (Some (sdec 4711 @ ''\<newline>'' @ []))"
  using pidfile_read [of 4711 "\<lambda>p. p = 4711" "[]"] by simp

end
