(* ===== verification/Env.thy ===== *)
theory Env
  imports Config FSUtil
begin

text \<open>
  The program's environment (\<open>gudov/env.{h,cpp}\<close>): the command line as options with values, help texts,
  paths relative to the executable, and loading the configuration directory it names.  What the system
  says (the link to the executable, the process environment) is an argument.

  The lemmas show that every command line of options and values is read back, and which are refused.
\<close>

section \<open>State\<close>

record env =
  args :: "(string \<times> string) list"
  helps :: "(string \<times> string) list"
  program :: string
  exe :: string
  cwd :: string

definition newEnv :: env where
  "newEnv = \<lparr>args = [], helps = [], program = [], exe = [], cwd = []\<rparr>"

definition Env_Add :: "string \<Rightarrow> string \<Rightarrow> env \<Rightarrow> env" where
  "Env_Add key val e = e\<lparr>args := map_assign (<) key val (args e)\<rparr>"

definition Env_Has :: "string \<Rightarrow> env \<Rightarrow> bool" where
  "Env_Has key e \<longleftrightarrow> map_find (<) key (args e) \<noteq> None"

definition Env_Del :: "string \<Rightarrow> env \<Rightarrow> env" where
  "Env_Del key e = e\<lparr>args := map_erase (<) key (args e)\<rparr>"

definition Env_Get :: "string \<Rightarrow> string \<Rightarrow> env \<Rightarrow> string" where
  "Env_Get key default_value e = (case map_find (<) key (args e) of Some v \<Rightarrow> v | None \<Rightarrow> default_value)"

definition RemoveHelp :: "string \<Rightarrow> env \<Rightarrow> env" where
  "RemoveHelp key e = e\<lparr>helps := filter (\<lambda>h. fst h \<noteq> key) (helps e)\<rparr>"

definition AddHelp :: "string \<Rightarrow> string \<Rightarrow> env \<Rightarrow> env" where
  "AddHelp key desc e = (let e1 = RemoveHelp key e in e1\<lparr>helps := helps e1 @ [(key, desc)]\<rparr>)"

definition PrintHelp :: "env \<Rightarrow> string" where
  "PrintHelp e = ''Usage: '' @ program e @ '' [options]\<newline>'' @
     concat (map (\<lambda>(k, d). ''    -'' @ k @ '' : '' @ d @ ''\<newline>'') (helps e))"

section \<open>The command line\<close>

text \<open>\<open>now_key\<close> is the option that still waits for its value; the result is \<open>false\<close> at the first bad argument.\<close>

fun args_loop :: "string list \<Rightarrow> string option \<Rightarrow> env \<Rightarrow> bool \<times> env" where
  "args_loop [] now_key e = (True, case now_key of None \<Rightarrow> e | Some k \<Rightarrow> Env_Add k [] e)"
| "args_loop (a # as) now_key e =
     (if a \<noteq> [] \<and> hd a = CHR ''-'' then
        if length a > 1 then
          args_loop as (Some (tl a)) (case now_key of None \<Rightarrow> e | Some k \<Rightarrow> Env_Add k [] e)
        else (False, e)
      else
        (case now_key of
           Some k \<Rightarrow> args_loop as None (Env_Add k a e)
         | None \<Rightarrow> (False, e)))"

text \<open>
  \<open>link\<close> is the text of the link to the executable, \<open>None\<close> when it cannot be read.  The buffer has 1024
  bytes and a longer text is cut without a terminator, so that reading it as a string runs past its end.
\<close>

definition cwd_of :: "string \<Rightarrow> string" where
  "cwd_of s = (case rfind_slash s of Some pos \<Rightarrow> take pos s | None \<Rightarrow> s) @ ''/''"

definition Env_Init :: "string option \<Rightarrow> string \<Rightarrow> string list \<Rightarrow> env \<Rightarrow> (bool \<times> env) res" where
  "Env_Init link argv0 argv e =
     (case link of
        None \<Rightarrow> Inr (False, e)
      | Some path \<Rightarrow>
          if path = [] then Inr (False, e)
          else if 1024 \<le> length path then Inl OutOfBounds
          else Inr (args_loop argv None (e\<lparr>exe := path, cwd := cwd_of path, program := argv0\<rparr>)))"

section \<open>Paths\<close>

definition GetAbsolutePath :: "string \<Rightarrow> env \<Rightarrow> string" where
  "GetAbsolutePath path e =
     (case path of [] \<Rightarrow> ''/'' | c # _ \<Rightarrow> if c = CHR ''/'' then path else cwd e @ path)"

text \<open>The variable is looked up by its type \<open>ty\<close> of strings; when it is not registered a null pointer is used.\<close>

definition GetAbsoluteWorkPath :: "'ty \<Rightarrow> ('v \<Rightarrow> string) \<Rightarrow> ('ty, 'v, 'cb) cfg \<Rightarrow> string \<Rightarrow> string res" where
  "GetAbsoluteWorkPath ty str c path =
     (case path of
        [] \<Rightarrow> Inr ''/''
      | ch # _ \<Rightarrow>
          if ch = CHR ''/'' then Inr path
          else (case Lookup_var ty ''server.work_path'' c of
              None \<Rightarrow> Inl NullDeref
            | Some p \<Rightarrow> Inr (str (GetValue p c) @ ''/'' @ path)))"

definition GetConfigPath :: "env \<Rightarrow> string" where
  "GetConfigPath e = GetAbsolutePath (Env_Get ''c'' ''conf'' e) e"

text \<open>Loading the configuration directory: the files below it that end in \<open>.yml\<close>.\<close>

definition LoadFromConfPath ::
  "('ty, 'v) traits \<Rightarrow> (yaml \<Rightarrow> string) \<Rightarrow> (string \<Rightarrow> bool) \<Rightarrow> (string \<Rightarrow> fsnode) \<Rightarrow> (string \<Rightarrow> u64) \<Rightarrow> (string \<Rightarrow> yaml option) \<Rightarrow>
     bool \<Rightarrow> string \<Rightarrow> env \<Rightarrow> ('ty, 'v, 'cb) cfg \<Rightarrow> ('v, 'cb) notice list \<times> ('ty, 'v, 'cb) cfg" where
  "LoadFromConfPath T emit mo tree mtime file force path e c =
     (let p = GetAbsolutePath path e in
      LoadFromConfDir T emit mtime file force (ListAllFile mo ''.yml'' p (tree p)) c)"

section \<open>The process environment\<close>

text \<open>\<open>setenv\<close> refuses empty names and names with an equals sign.\<close>

definition SetEnv :: "string \<Rightarrow> string \<Rightarrow> (string \<rightharpoonup> string) \<Rightarrow> bool \<times> (string \<rightharpoonup> string)" where
  "SetEnv key val m =
     (let k = cstr key in
      if k = [] \<or> CHR ''='' \<in> set k then (False, m) else (True, m(k \<mapsto> cstr val)))"

definition GetEnv :: "string \<Rightarrow> string \<Rightarrow> (string \<rightharpoonup> string) \<Rightarrow> string" where
  "GetEnv key default_value m = (case m (cstr key) of Some v \<Rightarrow> v | None \<Rightarrow> default_value)"

section \<open>Lemmas\<close>

lemma equivalent_string: "equivalent (<) (a :: string) b \<longleftrightarrow> a = b"
  by (auto simp: equivalent_def)

text \<open>An option with or without a value, and how it is written.\<close>

fun opt_args :: "string \<times> string option \<Rightarrow> string list" where
  "opt_args (k, None) = [CHR ''-'' # k]"
| "opt_args (k, Some v) = [CHR ''-'' # k, v]"

definition is_value :: "string \<Rightarrow> bool" where
  "is_value v \<longleftrightarrow> v = [] \<or> hd v \<noteq> CHR ''-''"

definition opt_ok :: "string \<times> string option \<Rightarrow> bool" where
  "opt_ok x \<longleftrightarrow> fst x \<noteq> [] \<and> (case snd x of None \<Rightarrow> True | Some v \<Rightarrow> is_value v)"

definition opt_val :: "string \<times> string option \<Rightarrow> string" where
  "opt_val x = (case snd x of None \<Rightarrow> [] | Some v \<Rightarrow> v)"

definition add_opts :: "(string \<times> string option) list \<Rightarrow> env \<Rightarrow> env" where
  "add_opts xs e = fold (\<lambda>x. Env_Add (fst x) (opt_val x)) xs e"

definition flush_key :: "string option \<Rightarrow> env \<Rightarrow> env" where
  "flush_key now_key e = (case now_key of None \<Rightarrow> e | Some k \<Rightarrow> Env_Add k [] e)"

lemma args_loop_option: "k \<noteq> [] \<Longrightarrow> args_loop ((CHR ''-'' # k) # as) now_key e = args_loop as (Some k) (flush_key now_key e)"
  by (simp add: flush_key_def)

lemma args_loop_value: "is_value v \<Longrightarrow> args_loop (v # as) (Some k) e = args_loop as None (Env_Add k v e)"
  by (auto simp: is_value_def)

lemma args_loop_opts:
  "list_all opt_ok xs \<Longrightarrow> args_loop (concat (map opt_args xs)) now_key e = (True, add_opts xs (flush_key now_key e))"
proof (induction xs arbitrary: now_key e)
  case Nil
  then show ?case by (simp add: add_opts_def flush_key_def)
next
  case (Cons x xs)
  obtain k ov where x: "x = (k, ov)" by (cases x)
  then have k: "k \<noteq> []" using Cons.prems by (simp add: opt_ok_def)
  show ?case
  proof (cases ov)
    case None
    then show ?thesis using Cons.IH [of "Some k" "flush_key now_key e"] Cons.prems args_loop_option [OF k]
      by (simp add: x add_opts_def opt_val_def flush_key_def del: args_loop.simps)
  next
    case (Some v)
    then have "is_value v" using Cons.prems by (simp add: x opt_ok_def)
    then show ?thesis using Some Cons.IH [of None "Env_Add k v (flush_key now_key e)"] Cons.prems args_loop_option [OF k]
        args_loop_value [of v]
      by (simp add: x add_opts_def opt_val_def flush_key_def del: args_loop.simps)
  qed
qed

lemma args_loop_accepted:
  "fst (args_loop as now_key e) \<Longrightarrow>
     (\<exists>xs. list_all opt_ok xs \<and> as = concat (map opt_args xs)) \<or>
     (now_key \<noteq> None \<and> (\<exists>v xs. is_value v \<and> list_all opt_ok xs \<and> as = v # concat (map opt_args xs)))"
proof (induction as now_key e rule: args_loop.induct)
  case (1 now_key e)
  then show ?case by (intro disjI1 exI [of _ "[]"]) simp
next
  case (2 a as now_key e)
  show ?case
  proof (cases "is_value a")
    case True
    then obtain k where k: "now_key = Some k" "fst (args_loop as None (Env_Add k a e))"
      using 2(3) by (cases now_key) (auto simp: is_value_def split: if_splits)
    then have "\<exists>xs. list_all opt_ok xs \<and> as = concat (map opt_args xs)" using 2(2) [of k] True by (auto simp: is_value_def)
    with True k show ?thesis by blast
  next
    case False
    then have a: "a \<noteq> [] \<and> hd a = CHR ''-''" by (auto simp: is_value_def)
    then have len: "length a > 1" and l: "fst (args_loop as (Some (tl a)) (case now_key of None \<Rightarrow> e | Some k \<Rightarrow> Env_Add k [] e))"
      using 2(3) by (auto split: if_splits)
    from a len obtain k where k: "a = CHR ''-'' # k" "k \<noteq> []" by (cases a) auto
    from 2(1) [OF a len l] consider
      xs where "list_all opt_ok xs" "as = concat (map opt_args xs)"
      | v xs where "is_value v" "list_all opt_ok xs" "as = v # concat (map opt_args xs)" by blast
    then show ?thesis
    proof cases
      case 1
      then show ?thesis using k by (intro disjI1 exI [of _ "(k, None) # xs"]) (simp add: opt_ok_def [of "(k, None)"])
    next
      case 2
      then show ?thesis using k by (intro disjI1 exI [of _ "(k, Some v) # xs"]) (simp add: opt_ok_def [of "(k, Some v)"])
    qed
  qed
qed

lemma Env_Get_opts:
  assumes "sorted_wrt (<) (map fst (args e))"
  shows "Env_Get k d (add_opts xs e) =
    (case find (\<lambda>x. fst x = k) (rev xs) of Some x \<Rightarrow> opt_val x | None \<Rightarrow> Env_Get k d e)"
proof -
  have "args (add_opts xs e) = fold (\<lambda>(k, v). map_assign (<) k v) (map (\<lambda>x. (fst x, opt_val x)) xs) (args e)"
    by (induction xs arbitrary: e) (simp_all add: add_opts_def Env_Add_def)
  then have "map_find (<) k (args (add_opts xs e)) =
      (case find (\<lambda>(k', v). k' = k) (rev (map (\<lambda>x. (fst x, opt_val x)) xs)) of Some (_, v) \<Rightarrow> Some v | None \<Rightarrow> map_find (<) k (args e))"
    using names.mp.lookup_fold_assign [OF assms, of k] by (simp add: equivalent_string)
  moreover have "find (\<lambda>(k', v). k' = k) (map (\<lambda>x. (fst x, opt_val x)) ys) =
      map_option (\<lambda>x. (fst x, opt_val x)) (find (\<lambda>x. fst x = k) ys)" for ys
    by (induction ys) auto
  ultimately show ?thesis by (auto simp: Env_Get_def rev_map split: option.splits)
qed

section \<open>Properties\<close>

text \<open>
  Every command line made of options, each followed by at most one value that does not start with a
  dash, is accepted, and afterwards an option has the value given last, the empty text if it was given
  without one; an option that was not given has the default the caller names.
\<close>

theorem command_line_read:
  assumes "list_all opt_ok xs" "link \<noteq> []" "length link < 1024"
  shows "\<exists>e. Env_Init (Some link) argv0 (concat (map opt_args xs)) newEnv = Inr (True, e) \<and> exe e = link \<and>
    (\<forall>k d. Env_Get k d e = (case find (\<lambda>x. fst x = k) (rev xs) of Some x \<Rightarrow> opt_val x | None \<Rightarrow> d))"
proof -
  let ?e = "newEnv\<lparr>exe := link, cwd := cwd_of link, program := argv0\<rparr>"
  have "exe (add_opts xs e) = exe e" for e by (induction xs arbitrary: e) (simp_all add: add_opts_def Env_Add_def)
  moreover have "Env_Get k d ?e = d" for k d by (simp add: Env_Get_def newEnv_def)
  then have "Env_Get k d (add_opts xs ?e) = (case find (\<lambda>x. fst x = k) (rev xs) of Some x \<Rightarrow> opt_val x | None \<Rightarrow> d)" for k d
    using Env_Get_opts [of ?e k d xs] by (auto simp: newEnv_def split: option.splits)
  moreover have "Env_Init (Some link) argv0 (concat (map opt_args xs)) newEnv = Inr (True, add_opts xs ?e)"
    using args_loop_opts [OF assms(1), of None ?e] assms(2,3) by (simp add: Env_Init_def flush_key_def)
  ultimately show ?thesis by simp
qed

theorem command_line_read_witness:
  "\<exists>e. Env_Init (Some ''/bin/a'') ''a'' [''-c'', ''conf'', ''-d''] newEnv = Inr (True, e) \<and>
     Env_Get ''c'' ''x'' e = ''conf'' \<and> Env_Get ''d'' ''x'' e = [] \<and> Env_Get ''q'' ''x'' e = ''x''"
proof -
  have "concat (map opt_args [(''c'', Some ''conf''), (''d'', None)]) = [''-c'', ''conf'', ''-d'']" by simp
  then show ?thesis using command_line_read [of "[(''c'', Some ''conf''), (''d'', None)]" "''/bin/a''" "''a''"]
    by (auto simp: opt_ok_def is_value_def opt_val_def)
qed

text \<open>
  C40. A command line is accepted exactly when it is a sequence of options, each followed by at most one
  value that does not start with a dash.
\<close>

theorem command_line_accepted_iff:
  assumes "link \<noteq> []" "length link < 1024"
  shows "(\<exists>e. Env_Init (Some link) argv0 argv newEnv = Inr (True, e)) \<longleftrightarrow>
    (\<exists>xs. list_all opt_ok xs \<and> argv = concat (map opt_args xs))"
proof -
  let ?e = "newEnv\<lparr>exe := link, cwd := cwd_of link, program := argv0\<rparr>"
  have "Env_Init (Some link) argv0 argv newEnv = Inr (args_loop argv None ?e)" using assms by (simp add: Env_Init_def)
  moreover have "fst (args_loop argv None ?e) \<longleftrightarrow> (\<exists>xs. list_all opt_ok xs \<and> argv = concat (map opt_args xs))"
    using args_loop_accepted [of argv None ?e] args_loop_opts [of _ None ?e] by auto
  ultimately show ?thesis by (cases "args_loop argv None ?e") simp
qed

theorem command_line_accepted_iff_witness:
  "\<exists>e. Env_Init (Some ''/bin/a'') ''a'' [''-d''] newEnv = Inr (True, e)"
proof -
  have "list_all opt_ok [(''d'', None)] \<and> [''-d''] = concat (map opt_args [(''d'', None)])" by (simp add: opt_ok_def)
  moreover have "(\<exists>e. Env_Init (Some ''/bin/a'') ''a'' [''-d''] newEnv = Inr (True, e)) \<longleftrightarrow>
      (\<exists>xs. list_all opt_ok xs \<and> [''-d''] = concat (map opt_args xs))"
    by (rule command_line_accepted_iff) simp_all
  ultimately show ?thesis by blast
qed

end
