(* ===== verification/Sync.thy ===== *)
theory Sync
  imports Prelude
begin

text \<open>
  Locks and threads (\<open>gudov/mutex.h\<close>, \<open>gudov/thread.{h,cpp}\<close>).  The scoped guards are functions from the
  calls made on them to the calls they make on their lock.  The spin lock \<open>CASLock\<close> and the start of a
  thread are step relations in which one thread moves at a time.  The pthread locks, whose own code is
  elsewhere, occur only as the calls the guards make.

  The lemmas show that guards leave their lock balanced, that the spin lock excludes and that a free
  lock is taken by whoever tries next, that the constructor of a thread returns only after the
  thread has published its identity, that it does return unless a system call fails, and what is left
  when one fails: an interrupted wait leaves the new thread with a destroyed object.
\<close>

section \<open>Scoped guards\<close>

text \<open>The calls on a guard, and those on its lock: \<open>acq\<close> is \<open>Lock\<close>, \<open>rdlock\<close> or \<open>wrlock\<close>, \<open>rel\<close> the way back.\<close>

datatype guard_call = GLock | GUnlock

fun guard_step :: "'c \<Rightarrow> 'c \<Rightarrow> guard_call \<Rightarrow> bool \<Rightarrow> 'c list \<times> bool" where
  "guard_step acq rel GLock locked = (if \<not> locked then ([acq], True) else ([], locked))"
| "guard_step acq rel GUnlock locked = (if locked then ([rel], False) else ([], locked))"

fun guard_run :: "'c \<Rightarrow> 'c \<Rightarrow> guard_call list \<Rightarrow> bool \<Rightarrow> 'c list" where
  "guard_run acq rel [] locked = []"
| "guard_run acq rel (g # gs) locked =
     (let (cs, locked') = guard_step acq rel g locked in cs @ guard_run acq rel gs locked')"

text \<open>The life of a guard: the constructor locks, the destructor unlocks.\<close>

definition guard_life :: "'c \<Rightarrow> 'c \<Rightarrow> guard_call list \<Rightarrow> 'c list" where
  "guard_life acq rel gs = guard_run acq rel (GLock # gs @ [GUnlock]) False"

section \<open>The spin lock\<close>

datatype pc = Outside | Spinning | Inside

record cas =
  flag :: bool
  pcs :: "nat \<Rightarrow> pc"

definition newCASLock :: cas where
  "newCASLock = \<lparr>flag = False, pcs = (\<lambda>_. Outside)\<rparr>"

text \<open>\<open>test_and_set\<close> sets the flag and gives its old value; the loop ends when that was clear.\<close>

definition cas_try :: "nat \<Rightarrow> cas \<Rightarrow> cas" where
  "cas_try i s = s\<lparr>flag := True, pcs := (pcs s)(i := if flag s then Spinning else Inside)\<rparr>"

definition cas_Unlock :: "nat \<Rightarrow> cas \<Rightarrow> cas" where
  "cas_Unlock i s = s\<lparr>flag := False, pcs := (pcs s)(i := Outside)\<rparr>"

inductive cas_step :: "cas \<Rightarrow> cas \<Rightarrow> bool" where
  enter: "pcs s i = Outside \<Longrightarrow> cas_step s (s\<lparr>pcs := (pcs s)(i := Spinning)\<rparr>)"
| spin: "pcs s i = Spinning \<Longrightarrow> cas_step s (cas_try i s)"
| leave: "pcs s i = Inside \<Longrightarrow> cas_step s (cas_Unlock i s)"

section \<open>Semaphores\<close>

text \<open>\<open>fails\<close> says that the system call fails, as \<open>sem_wait\<close> does when a signal interrupts it.  Waiting on a count of 0 does not return.\<close>

definition Semaphore_Wait :: "bool \<Rightarrow> nat \<Rightarrow> nat res" where
  "Semaphore_Wait fails n = (if fails then Inl LogicError else if n = 0 then Inl Diverges else Inr (n - 1))"

definition Semaphore_Notify :: "bool \<Rightarrow> nat \<Rightarrow> nat res" where
  "Semaphore_Notify fails n = (if fails then Inl LogicError else Inr (n + 1))"

lemma Semaphore_simps [simp]:
  "Semaphore_Wait False n = Inr m \<longleftrightarrow> n = Suc m" "Semaphore_Notify False n = Inr m \<longleftrightarrow> m = Suc n"
  by (auto simp: Semaphore_Wait_def Semaphore_Notify_def)

section \<open>Starting a thread\<close>

text \<open>
  The parent is in the constructor: it creates the thread, waits on the semaphore and returns, or it
  throws, which destroys the object.  The child is in \<open>Run\<close>; \<open>Dangling\<close> is its use of an object that is
  gone, \<open>Terminated\<close> an exception that leaves \<open>Run\<close>, which ends the process.
\<close>

datatype parent = Creating | Waiting | Returned | Threw
datatype child = NotStarted | Started | Named | Swapped | Notified | Ran | Dangling | Terminated

record thread =
  th_name :: string
  th_id :: "nat option"
  th_callback :: bool
  th_handle :: bool
  sem :: nat
  parent_at :: parent
  child_at :: child
  sys_name :: string

definition newThread :: "string \<Rightarrow> thread" where
  "newThread name =
     \<lparr>th_name = (if name = [] then ''UNKNOWN'' else name), th_id = None, th_callback = True, th_handle = False, sem = 0,
      parent_at = Creating, child_at = NotStarted, sys_name = []\<rparr>"

text \<open>\<open>rt\<close> is what \<open>pthread_create\<close> returns: the constructor throws unless it is 0.\<close>

definition Thread_create :: "int \<Rightarrow> thread \<Rightarrow> thread res" where
  "Thread_create rt t =
     (if rt \<noteq> 0 then Inl LogicError else Inr (t\<lparr>parent_at := Waiting, child_at := Started, th_handle := True\<rparr>))"

text \<open>
  \<open>tid\<close> is the number the system gives the new thread; \<open>fl\<close> says whether the system calls may fail.  The
  child reaches the object until it has notified; from then on it uses only its own copy of the function.
\<close>

inductive thread_step :: "bool \<Rightarrow> nat \<Rightarrow> thread \<Rightarrow> thread \<Rightarrow> bool" for fl tid where
  create: "parent_at t = Creating \<Longrightarrow> Thread_create 0 t = Inr t' \<Longrightarrow> thread_step fl tid t t'"
| create_throws: "fl \<Longrightarrow> parent_at t = Creating \<Longrightarrow> Thread_create rt t = Inl e \<Longrightarrow>
    thread_step fl tid t (t\<lparr>parent_at := Threw\<rparr>)"
| wait: "parent_at t = Waiting \<Longrightarrow> child_at t \<noteq> Terminated \<Longrightarrow> Semaphore_Wait False (sem t) = Inr n \<Longrightarrow>
    thread_step fl tid t (t\<lparr>parent_at := Returned, sem := n\<rparr>)"
| wait_throws: "fl \<Longrightarrow> parent_at t = Waiting \<Longrightarrow> child_at t \<noteq> Terminated \<Longrightarrow>
    Semaphore_Wait True (sem t) = Inl e \<Longrightarrow> thread_step fl tid t (t\<lparr>parent_at := Threw\<rparr>)"
| publish: "parent_at t \<noteq> Threw \<Longrightarrow> child_at t = Started \<Longrightarrow>
    thread_step fl tid t (t\<lparr>child_at := Named, th_id := Some tid\<rparr>)"
| set_name: "parent_at t \<noteq> Threw \<Longrightarrow> child_at t = Named \<Longrightarrow>
    thread_step fl tid t (t\<lparr>child_at := Swapped, sys_name := take 15 (th_name t), th_callback := False\<rparr>)"
| notify: "parent_at t \<noteq> Threw \<Longrightarrow> child_at t = Swapped \<Longrightarrow> Semaphore_Notify False (sem t) = Inr n \<Longrightarrow>
    thread_step fl tid t (t\<lparr>child_at := Notified, sem := n\<rparr>)"
| notify_throws: "fl \<Longrightarrow> parent_at t \<noteq> Threw \<Longrightarrow> child_at t = Swapped \<Longrightarrow> Semaphore_Notify True (sem t) = Inl e \<Longrightarrow>
    thread_step fl tid t (t\<lparr>child_at := Terminated\<rparr>)"
| dangle: "parent_at t = Threw \<Longrightarrow> child_at t \<in> {Started, Named, Swapped} \<Longrightarrow>
    thread_step fl tid t (t\<lparr>child_at := Dangling\<rparr>)"
| run: "child_at t = Notified \<Longrightarrow> thread_step fl tid t (t\<lparr>child_at := Ran\<rparr>)"

lemma Thread_create_ok [simp]:
  "Thread_create 0 t = Inr t' \<longleftrightarrow> t' = t\<lparr>parent_at := Waiting, child_at := Started, th_handle := True\<rparr>"
  by (auto simp: Thread_create_def)

text \<open>\<open>Join\<close> and the destructor; \<open>rt\<close> is what \<open>pthread_join\<close> returns, and the result is whether \<open>pthread_detach\<close> is called.\<close>

definition Join :: "int \<Rightarrow> thread \<Rightarrow> thread res" where
  "Join rt t = (if th_handle t then if rt \<noteq> 0 then Inl LogicError else Inr (t\<lparr>th_handle := False\<rparr>) else Inr t)"

definition deleteThread :: "thread \<Rightarrow> bool" where
  "deleteThread t \<longleftrightarrow> th_handle t"

text \<open>The thread-local pointer to the running thread, null in a thread the library did not start, and its name.\<close>

definition SetRunningThreadName :: "string \<Rightarrow> thread option \<times> string \<Rightarrow> thread option \<times> string" where
  "SetRunningThreadName name tls = (map_option (\<lambda>t. t\<lparr>th_name := name\<rparr>) (fst tls), name)"

section \<open>Lemmas\<close>

lemma guard_run_alternates:
  "\<exists>n. guard_run acq rel (gs @ [GUnlock]) locked = (if locked then [rel] else []) @ concat (replicate n [acq, rel])"
proof (induction gs arbitrary: locked)
  case Nil
  show ?case by (cases locked) (auto intro: exI [of _ 0])
next
  case (Cons g gs)
  obtain n m where n: "guard_run acq rel (gs @ [GUnlock]) True = [rel] @ concat (replicate n [acq, rel])"
    and m: "guard_run acq rel (gs @ [GUnlock]) False = concat (replicate m [acq, rel])"
    using Cons [of True] Cons [of False] by auto
  show ?case
    by (cases g; cases locked) (auto simp: n m intro: exI [of _ n] exI [of _ m] exI [of _ "Suc n"])
qed

text \<open>The flag is set exactly when a thread is inside, and then only one is.\<close>

definition cas_inv :: "cas \<Rightarrow> bool" where
  "cas_inv s \<longleftrightarrow> (\<forall>i j. pcs s i = Inside \<longrightarrow> pcs s j = Inside \<longrightarrow> i = j) \<and> (flag s \<longleftrightarrow> (\<exists>i. pcs s i = Inside))"

lemma cas_inv_cong: "flag s' = flag s \<Longrightarrow> (\<And>j. pcs s' j = Inside \<longleftrightarrow> pcs s j = Inside) \<Longrightarrow> cas_inv s \<Longrightarrow> cas_inv s'"
  by (simp add: cas_inv_def)

lemma cas_step_inv: "cas_step s s' \<Longrightarrow> cas_inv s \<Longrightarrow> cas_inv s'"
proof (induction rule: cas_step.induct)
  case (enter s i)
  from enter(2) show ?case by (rule cas_inv_cong [rotated 2]) (use enter(1) in auto)
next
  case (spin s i)
  show ?case
  proof (cases "flag s")
    case True
    from spin(2) show ?thesis by (rule cas_inv_cong [rotated 2]) (use spin(1) True in \<open>auto simp: cas_try_def\<close>)
  next
    case False
    then have "pcs (cas_try i s) j = Inside \<longleftrightarrow> j = i" for j using spin(2) by (simp add: cas_inv_def cas_try_def)
    then show ?thesis by (simp add: cas_inv_def cas_try_def)
  qed
next
  case (leave s i)
  then have "pcs (cas_Unlock i s) j \<noteq> Inside" for j by (auto simp: cas_inv_def cas_Unlock_def)
  then show ?case by (simp add: cas_inv_def cas_Unlock_def)
qed

interpretation cas_sys: transition_system newCASLock cas_step cas_inv
  by unfold_locales (simp add: cas_inv_def newCASLock_def, rule cas_step_inv)

text \<open>What holds at each place of parent and child.\<close>

fun child_rank :: "child \<Rightarrow> nat" where
  "child_rank NotStarted = 5" | "child_rank Started = 4" | "child_rank Named = 3"
| "child_rank Swapped = 2" | "child_rank Notified = 1" | "child_rank Ran = 0"
| "child_rank Dangling = 0" | "child_rank Terminated = 0"

fun parent_rank :: "parent \<Rightarrow> nat" where
  "parent_rank Creating = 2" | "parent_rank Waiting = 1" | "parent_rank Returned = 0" | "parent_rank Threw = 0"

definition thread_inv :: "bool \<Rightarrow> nat \<Rightarrow> thread \<Rightarrow> bool" where
  "thread_inv fl tid t \<longleftrightarrow>
     (parent_at t = Creating \<longrightarrow> child_at t = NotStarted) \<and>
     (child_at t = NotStarted \<longrightarrow> parent_at t \<in> {Creating, Threw}) \<and>
     (th_handle t \<longleftrightarrow> child_at t \<noteq> NotStarted) \<and>
     (child_at t \<in> {Named, Swapped, Notified, Ran, Terminated} \<longrightarrow> th_id t = Some tid) \<and>
     (child_at t \<in> {Swapped, Notified, Ran, Terminated} \<longrightarrow>
        \<not> th_callback t \<and> sys_name t = take 15 (th_name t)) \<and>
     (child_at t = Dangling \<longrightarrow> parent_at t = Threw) \<and>
     (child_at t = Terminated \<longrightarrow> parent_at t = Waiting) \<and>
     (\<not> fl \<longrightarrow> parent_at t \<noteq> Threw \<and> child_at t \<noteq> Terminated) \<and>
     sem t + (if parent_at t = Returned then 1 else 0) = (if child_at t \<in> {Notified, Ran} then 1 else 0)"

lemma thread_step_inv: "thread_step fl tid t t' \<Longrightarrow> thread_inv fl tid t \<Longrightarrow> thread_inv fl tid t'"
proof (induction rule: thread_step.induct)
  case (wait t n)
  then show ?case by (cases "child_at t") (simp_all add: thread_inv_def)
next
  case (wait_throws t e)
  then show ?case by (cases "child_at t") (simp_all add: thread_inv_def)
next
  case (notify_throws t e)
  then show ?case by (cases "parent_at t") (simp_all add: thread_inv_def)
next
  case (dangle t)
  then show ?case by (cases "child_at t") (simp_all add: thread_inv_def)
qed (simp_all add: thread_inv_def)

lemma newThread_inv: "thread_inv fl tid (newThread name)"
  by (simp add: thread_inv_def newThread_def)

definition thread_rank :: "thread \<Rightarrow> nat" where
  "thread_rank t = parent_rank (parent_at t) + child_rank (child_at t)"

lemma thread_step_rank: "thread_step fl tid t t' \<Longrightarrow> thread_inv fl tid t \<Longrightarrow> thread_rank t' < thread_rank t"
proof (induction rule: thread_step.induct)
  case (dangle t)
  then show ?case by (cases "child_at t") (simp_all add: thread_rank_def)
qed (simp_all add: thread_rank_def thread_inv_def)

text \<open>The ways a start can end: as intended, or after one of the three system calls has failed.\<close>

definition start_over :: "bool \<Rightarrow> thread \<Rightarrow> bool" where
  "start_over fl t \<longleftrightarrow>
     parent_at t = Returned \<and> child_at t = Ran \<or>
     fl \<and> (parent_at t = Threw \<and> child_at t \<in> {NotStarted, Ran, Dangling} \<or>
           parent_at t = Waiting \<and> child_at t = Terminated)"

lemma thread_stuck:
  assumes "thread_inv fl tid t" "\<And>t'. \<not> thread_step fl tid t t'"
  shows "start_over fl t"
proof -
  have "parent_at t \<noteq> Creating" using assms(2) thread_step.create [of t _ fl tid] by auto
  moreover have "child_at t \<notin> {Started, Named, Swapped, Notified}"
    using assms(2) thread_step.notify [of t "Suc (sem t)" fl tid]
    by (cases "parent_at t = Threw") (auto intro: thread_step.intros)
  moreover have "parent_at t = Waiting \<Longrightarrow> child_at t = Terminated \<or> sem t = 0"
    using assms(2) thread_step.wait [of t "sem t - 1" fl tid] by (cases "sem t") auto
  ultimately show ?thesis using assms(1)
    by (cases "parent_at t"; cases "child_at t") (auto simp: thread_inv_def start_over_def)
qed

lemma thread_name_kept: "(thread_step fl tid)\<^sup>*\<^sup>* t t' \<Longrightarrow> th_name t' = th_name t"
  by (induction rule: rtranclp_induct) (auto elim: thread_step.cases)

interpretation threads: ranked_system "newThread name" "thread_step fl tid" "thread_inv fl tid" thread_rank for name fl tid
  by unfold_locales (auto intro: newThread_inv thread_step_inv thread_step_rank)

section \<open>Properties\<close>

text \<open>
  Whatever is called on a scoped guard between its construction and its destruction, the lock sees an
  alternation of acquisitions and releases that begins with an acquisition and ends with a release.
\<close>

theorem guard_balanced:
  "\<exists>n. guard_life acq rel gs = concat (replicate (Suc n) [acq, rel])"
  using guard_run_alternates [of acq rel gs True] by (auto simp: guard_life_def)

text \<open>
  C27. The spin lock excludes: in every reachable state at most one thread is inside and the flag is set
  exactly when one is; and it is not lost: when no thread is inside, a thread that spins gets in with
  its next step, whichever thread that is.
\<close>

theorem cas_lock:
  assumes "cas_step\<^sup>*\<^sup>* newCASLock s"
  shows "(\<forall>i j. pcs s i = Inside \<and> pcs s j = Inside \<longrightarrow> i = j) \<and> (flag s \<longleftrightarrow> (\<exists>i. pcs s i = Inside))
    \<and> ((\<forall>i. pcs s i \<noteq> Inside) \<and> pcs s k = Spinning \<longrightarrow> pcs (cas_try k s) k = Inside)"
  using cas_sys.reachable_inv [OF assms] by (auto simp: cas_inv_def cas_try_def)

theorem cas_lock_witness:
  "pcs (cas_try 1 (newCASLock\<lparr>pcs := (pcs newCASLock)(1 := Spinning)\<rparr>)) 1 = Inside"
  using cas_lock [of "newCASLock\<lparr>pcs := (pcs newCASLock)(1 := Spinning)\<rparr>" 1] cas_step.enter [of newCASLock 1]
  by (auto simp: newCASLock_def)

text \<open>
  C26. When the constructor of a thread has returned, the thread's number and name are published and its
  function has been taken out of the object.  No run of parent and child is infinite.  One that can go
  no further has returned from the constructor and called the function when no system call fails;
  otherwise it may also have ended with the constructor throwing (\<open>pthread_create\<close> or \<open>sem_wait\<close> failed),
  the thread then not started, run, or caught with a destroyed object, or with an exception leaving the
  thread's function (\<open>sem_post\<close> failed).
\<close>

theorem thread_start:
  assumes "(thread_step fl tid)\<^sup>*\<^sup>* (newThread name) t"
  shows "(parent_at t = Returned \<longrightarrow> th_id t = Some tid \<and> \<not> th_callback t \<and> sys_name t = take 15 (if name = [] then ''UNKNOWN'' else name))
    \<and> ((\<forall>t'. \<not> thread_step fl tid t t') \<longrightarrow>
        parent_at t = Returned \<and> child_at t = Ran \<or>
        fl \<and> (parent_at t = Threw \<and> child_at t \<in> {NotStarted, Ran, Dangling} \<or>
              parent_at t = Waiting \<and> child_at t = Terminated))
    \<and> (\<forall>f. f 0 = t \<longrightarrow> (\<exists>n. \<not> thread_step fl tid (f n) (f (Suc n))))"
proof -
  have inv: "thread_inv fl tid t" using assms by (rule threads.reachable_inv)
  have name: "th_name t = (if name = [] then ''UNKNOWN'' else name)"
    using thread_name_kept [OF assms] by (simp add: newThread_def)
  show ?thesis
  proof (intro conjI impI)
    assume "parent_at t = Returned"
    then show "th_id t = Some tid" "\<not> th_callback t" "sys_name t = take 15 (if name = [] then ''UNKNOWN'' else name)"
      unfolding name [symmetric] using inv by (cases "child_at t"; simp add: thread_inv_def)+
  next
    assume "\<forall>t'. \<not> thread_step fl tid t t'"
    then show "parent_at t = Returned \<and> child_at t = Ran \<or>
        fl \<and> (parent_at t = Threw \<and> child_at t \<in> {NotStarted, Ran, Dangling} \<or>
              parent_at t = Waiting \<and> child_at t = Terminated)"
      using thread_stuck [OF inv] unfolding start_over_def by blast
  next
    show "\<forall>f. f 0 = t \<longrightarrow> (\<exists>n. \<not> thread_step fl tid (f n) (f (Suc n)))"
      using inv threads.no_infinite_run [of fl tid] by blast
  qed
qed

definition started_thread :: thread where
  "started_thread = \<lparr>th_name = ''io'', th_id = Some 7, th_callback = False, th_handle = True, sem = 0,
     parent_at = Returned, child_at = Ran, sys_name = ''io''\<rparr>"

lemma started_thread_reached: "(thread_step fl 7)\<^sup>*\<^sup>* (newThread ''io'') started_thread"
proof -
  let ?t0 = "newThread ''io''"
  let ?t1 = "?t0\<lparr>parent_at := Waiting, child_at := Started, th_handle := True\<rparr>"
  let ?t2 = "?t1\<lparr>child_at := Named, th_id := Some 7\<rparr>"
  let ?t3 = "?t2\<lparr>child_at := Swapped, sys_name := take 15 (th_name ?t2), th_callback := False\<rparr>"
  let ?t4 = "?t3\<lparr>child_at := Notified, sem := 1\<rparr>"
  let ?t5 = "?t4\<lparr>parent_at := Returned, sem := 0\<rparr>"
  let ?t6 = "?t5\<lparr>child_at := Ran\<rparr>"
  have "thread_step fl 7 ?t0 ?t1" "thread_step fl 7 ?t1 ?t2" "thread_step fl 7 ?t2 ?t3" "thread_step fl 7 ?t3 ?t4" "thread_step fl 7 ?t4 ?t5"
    "thread_step fl 7 ?t5 ?t6" by (rule thread_step.intros; simp add: newThread_def)+
  moreover have "?t6 = started_thread" by (simp add: newThread_def started_thread_def)
  ultimately show ?thesis by (auto intro!: rtranclp.rtrancl_into_rtrancl [of "thread_step fl 7"] simp del: thread.simps)
qed

theorem thread_start_witness:
  "(thread_step False 7)\<^sup>*\<^sup>* (newThread ''io'') started_thread \<and> th_id started_thread = Some 7 \<and>
   sys_name started_thread = ''io''"
  using thread_start [OF started_thread_reached, of False] started_thread_reached [of False]
  by (simp add: started_thread_def)

text \<open>An interrupted wait: the constructor throws while the new thread is about to use the object.\<close>

lemma interrupted_start:
  "\<exists>t. (thread_step True tid)\<^sup>*\<^sup>* (newThread name) t \<and> parent_at t = Threw \<and> child_at t = Dangling"
proof -
  let ?t0 = "newThread name"
  let ?t1 = "?t0\<lparr>parent_at := Waiting, child_at := Started, th_handle := True\<rparr>"
  let ?t2 = "?t1\<lparr>parent_at := Threw\<rparr>"
  let ?t3 = "?t2\<lparr>child_at := Dangling\<rparr>"
  have "thread_step True tid ?t0 ?t1" by (rule thread_step.create) (simp_all add: newThread_def)
  moreover have "thread_step True tid ?t1 ?t2"
    by (rule thread_step.wait_throws [where e = LogicError]) (simp_all add: Semaphore_Wait_def)
  moreover have "thread_step True tid ?t2 ?t3" by (rule thread_step.dangle) simp_all
  ultimately have "(thread_step True tid)\<^sup>*\<^sup>* ?t0 ?t3"
    by (meson converse_rtranclp_into_rtranclp rtranclp.rtrancl_refl)
  then show ?thesis by (intro exI [of _ ?t3]) simp
qed

end
