(* ===== verification/Spec2Isabelle.thy ===== *)
theory Spec2Isabelle
  imports ByteArray_IO Hook_IO HttpConnection Servlet Http_Wire Uri_Parser Settings Log_Setup Env Sync
begin

text \<open>
  A verification development of Gudov, a C++ library for network programs over coroutines: a byte
  buffer, fibers scheduled over threads, timers and an epoll loop, system calls that yield instead of
  block, sockets and streams, HTTP on both sides, and what a program around them needs (configuration,
  logging, files, the command line).

  \<^bold>\<open>How the source is modelled.\<close>  A class is a record, an enumeration a datatype, a method a function
  that takes the object and returns it.  Objects that are shared through pointers (timers, loggers,
  appenders, configuration variables, the sockets of a server) live in stores and are named by their
  place in them.  Everything that can go wrong is a value \<open>Inl fault\<close> of the type \<open>res\<close>: an exception,
  a failed assertion, a null pointer, an access outside an object, an uninitialised value, a loop whose
  fuel is used up.  Integers have the width of the source where it matters.  What the kernel, pthread,
  yaml-cpp and boost do is an argument: a function, or a script with one answer per call.  Sessions and
  connections take the scanner of messages as an argument; for requests it is then instantiated.  Work that several threads share (the scheduler's workers, the spin lock, the start
  of a thread) is a step relation in which one thread moves at a time.

  \<^bold>\<open>Shared theories.\<close>  \<open>Prelude\<close>: machine types, faults, sequencing, lists and words, and the locales
  \<open>transition_system\<close> and \<open>ranked_system\<close> (an invariant of a step relation; a rank that ends every
  run), interpreted for the configuration, the settings, the loggers, the spin lock and threads.  \<open>Text\<close>: C strings
  and numbers as text, with reading as the inverse of printing.  \<open>Std_Ordered\<close>: \<open>std::set\<close> and \<open>std::map\<close>
  over a comparator; its locales \<open>strict_weak\<close> and \<open>dictionary\<close> carry the laws of every ordered
  container of the library (timers, headers, names, listeners, log configurations, servlets).

  \<^bold>\<open>The buffer\<close> (\<open>bytearray.{h,cpp}\<close>, \<open>endian.h\<close>).  \<open>Endian\<close>; \<open>Byte_Buffer\<close>, the contract of a seekable
  buffer as a locale; \<open>ByteArray\<close>, the chain of nodes that implements it; \<open>ByteArray_Codec\<close>, the typed
  readers and writers; \<open>ByteArray_IO\<close>, buffers for scatter and gather, files and dumps.  The chain
  refines the contract for every operation, every reachable chain is well formed, what a sequence of
  typed writes of encodable values stores the matching reads return, and it is shown when a dump to a
  file is right and when it faults.

  \<^bold>\<open>The runtime.\<close>  \<open>Timer\<close> (\<open>timer.{h,cpp}\<close>): the ordered set of timers never faults and expiry takes
  exactly what is due.  \<open>Fiber\<close> (\<open>fiber.{h,cpp}\<close>): states and control transfer of coroutines,
  exact for a main fiber that serves others, and what a nested resume loses.
  \<open>Scheduler\<close> (\<open>scheduler.{h,cpp}\<close>): clients are a parameter of the workers' steps; if they queue a fiber
  once, no two workers take or execute it up to the window inside its \<open>Yield\<close>; the counters are right and
  idle fibers end in a drained scheduler, which stays drained if nothing is queued after that.  \<open>FdManager\<close> (\<open>fdmanager.{h,cpp}\<close>) and \<open>IOManager\<close>
  (\<open>iomanager.{h,cpp}\<close>): the table of descriptors as the locale \<open>growing_table\<close>, the agreement of event
  contexts, pending counter and kernel interest under operations that do not overlap, delivery of an
  event once, and a race of two overlapping registrations.  \<open>Hook\<close>
  (\<open>hook.{h,cpp}\<close>): the system calls that park a fiber; \<open>Hook_IO\<close> runs such a call on the I/O manager and
  its timers and shows that it leaves neither an event nor a timer behind and resumes its fiber once.  \<open>Sync\<close> (\<open>mutex.h\<close>, \<open>thread.{h,cpp}\<close>): guards,
  the spin lock, and that the constructor of a thread returns, after the thread has published itself,
  unless a system call fails, and how it ends then.

  \<^bold>\<open>The network.\<close>  \<open>Address\<close> (\<open>address.{h,cpp}\<close>), \<open>Socket\<close> (\<open>socket.{h,cpp}\<close>) over the hooked calls,
  \<open>TcpServer\<close> (\<open>tcp_server.{h,cpp}\<close>) over sockets: binding is all or nothing, and an accepted client
  becomes one task with its timeout set.  \<open>Stream\<close> (\<open>stream.{h,cpp}\<close>, \<open>socket_stream.{h,cpp}\<close>): fixed-size
  transfers deliver every byte, stated in the locales \<open>byte_source\<close> and \<open>byte_sink\<close>.

  \<^bold>\<open>HTTP.\<close>  \<open>Http\<close> (\<open>http/http.{h,cpp}\<close>): messages and header maps.  \<open>HttpSession\<close> (\<open>http/http_parser.cpp\<close>,
  \<open>http/http_session.cpp\<close>) and \<open>HttpConnection\<close> (\<open>http/http_connection.{h,cpp}\<close>): both ends of a connection
  around the generated parsers, bodies of fixed length and in chunks, requests with their error codes,
  and the pool of connections, whose books balance.  \<open>Servlet\<close> (\<open>http/servlet.{h,cpp}\<close>,
  \<open>http/http_server.{h,cpp}\<close>): dispatch refines the rule "exact names first, then the patterns in their
  order", and the loop of the server.  \<open>Uri\<close> (\<open>uri.h\<close> and the functions of \<open>uri.rl\<close>).

  \<^bold>\<open>The scanners of requests and uris\<close> (\<open>http/http11_parser.{h,rl}\<close>, \<open>uri.rl\<close>).  \<open>Ragel\<close> gives the part of the Ragel language that the
  grammars use its meaning: an expression with embedded actions and priorities stands for what is
  left to match, a state of the machine is the list of the expressions that are still open.
  \<open>Http11_Grammar\<close> is the grammar, rule by rule and as Ragel reads it, with lemmas that follow the machine
  through a request; \<open>Http11_Parser\<close> has the actions and the functions around the generated loop, and is the
  scanner of a session.  \<open>Http_Wire\<close> puts both ends together: what \<open>Dump\<close> writes a session reads as the same
  request, and a field that is split over two reads is lost.  \<open>Uri_Parser\<close> is the grammar of uris with \<open>Uri::Create\<close>: a printed
  uri of plain characters is read back as the same uri, and one without a path is misread or refused with an exception.

  \<^bold>\<open>Around them.\<close>  \<open>Lexical_Cast\<close> and \<open>Config\<close> (\<open>config.{h,cpp}\<close>): values and their texts, the registry
  with its listeners, loading of documents and directories.  \<open>Log_Format\<close>, \<open>Log\<close> and \<open>Log_Setup\<close>
  (\<open>log.{h,cpp}\<close>): patterns, loggers and appenders, and the listener that configures them.  \<open>FSUtil\<close>
  (\<open>util.{h,cpp}\<close>): files, paths, pid files.  \<open>Env\<close> (\<open>env.{h,cpp}\<close>): the command line and where the
  configuration is found.  \<open>Settings\<close>: the variables that \<open>hook.cpp\<close>, \<open>http/http_parser.cpp\<close>, \<open>tcp_server.cpp\<close>,
  \<open>fiber.cpp\<close> and \<open>stream.cpp\<close> register, and that the statics of the library follow them.  This theory joins the last groups: from a document to the loggers it
  configures, and from a directory to the files it contributes.

  \<^bold>\<open>Fuel and scripts.\<close>  Logging takes fuel 2, because a logger without appenders passes an event to the
  root logger and the root has none above it.  Loops over a connection take fuel with the hypothesis
  that it covers the bytes that are still to come; the accept loop and the hooked calls run over
  scripts of answers and give \<open>Diverges\<close> when the script ends before they do.

  \<^bold>\<open>Not modelled.\<close>  The scanner of responses that Ragel generates from \<open>httpclient_parser.rl\<close> (an argument of
  the client side, which also takes \<open>Uri::Create\<close> as an argument); the pthread
  locks behind \<open>Mutex\<close>, \<open>RWMutex\<close> and \<open>Spinlock\<close>, so that races inside a method that holds the wrong
  lock are recorded as findings but not exhibited; the switch of machine contexts behind a fiber;
  singletons and macros; diagnostics that only log; examples, tests and benchmarks.
\<close>

section \<open>Configuring the loggers\<close>

text \<open>A document that holds the configuration of the loggers and nothing else.\<close>

abbreviation logs_document :: "yaml list \<Rightarrow> yaml" where
  "logs_document ns \<equiv> YMap [(YScalar ''logs'', YSeq ns)]"

lemma logs_members: "ListAllMember [] (logs_document ns) = [([], logs_document ns), (''logs'', YSeq ns)]"
  by (simp add: ListAllMember.simps Scalar_def valid_name_def name_chars_def)

text \<open>
  Loading such a document when one listener waits for the variable: the variable takes the value that
  the document gives, and the listener is told.
\<close>

lemma load_logs:
  assumes "p < length (vars c)" "LookupBase ''logs'' c = Some p" "callbacks (vars c ! p) = [(k, cb)]"
    "logs_from_str E nt (y_emit E (YSeq ns)) = Some new" "\<not> list_all2 lconf_eq new (GetValue p c)"
  shows "LoadFromYaml (logs_traits E nt) (y_emit E) (logs_document ns) c =
    ([(cb, GetValue p c, new)], upd_var p (\<lambda>x. x\<lparr>cv_value := new\<rparr>) c)"
proof -
  have "map tolower ''logs'' = ''logs''" by code_simp
  then show ?thesis using assms
    by (simp add: LoadFromYaml_def logs_members load_entry_def node_text_def fromString_def SetValue_def logs_traits_def GetValue_def)
qed

text \<open>
  C13. From the document to the loggers.  In every state that the configuration and the loggers reach, no
  null formatter ever being set, with the listener of the loggers registered and where every time has a text: loading a document with a list of loggers, none of which is
  kept exactly as it was, stores the list, calls the listener once with the old and the new list, and
  the listener returns with every logger of the list at its level and with its appenders in order, and
  every logger that is no longer listed without appenders and open to every level, so that its events are
  passed on to the root logger.
\<close>

theorem configured_logging:
  assumes "(cfg_step T emit)\<^sup>*\<^sup>* newConfig c" "LookupBase ''logs'' c = Some p" "callbacks (vars c ! p) = [(k, cb)]"
    "logs_from_str E nt (y_emit E (YSeq ns)) = Some new" "new \<noteq> [] \<or> GetValue p c \<noteq> []"
    "\<forall>i \<in> set new. \<forall>j \<in> set (GetValue p c). lc_name i = lc_name j \<longrightarrow> \<not> lconf_eq i j"
    "(log_step True)\<^sup>*\<^sup>* newLoggerManager st" "2 \<le> fuel" "\<And>f t. time_text S f t \<noteq> None"
  shows "\<exists>c' st'. LoadFromYaml (logs_traits E nt) (y_emit E) (logs_document ns) c = ([(cb, GetValue p c, new)], c')
    \<and> GetValue p c' = new \<and> on_logs_changed S fuel e (GetValue p c) new st = Inr st'
    \<and> (\<forall>i \<in> set new. in_force st' (lc_name i) (lc_level i) (map wanted (lc_appenders i)))
    \<and> (\<forall>j \<in> set (GetValue p c). lc_name j \<notin> lc_name ` set new \<longrightarrow> in_force st' (lc_name j) UNKNOWN [])"
proof -
  have "cfg_wf c" using assms(1) by (rule cfgs.reachable_inv)
  then have p: "p < length (vars c)" using lookup_wf assms(2) by blast
  have "\<not> list_all2 lconf_eq new (GetValue p c)"
    using assms(5,6) by (cases new; cases "GetValue p c") (auto simp: lconf_eq_def)
  note load = load_logs [OF p assms(2-4) this]
  have wf: "lwf True st" using assms(7) by (rule logsys.reachable_inv)
  obtain st' where "on_logs_changed S fuel e (GetValue p c) new st = Inr st'"
    "\<And>i. i \<in> set new \<Longrightarrow> in_force st' (lc_name i) (lc_level i) (map wanted (lc_appenders i))"
    "\<And>j. j \<in> set (GetValue p c) \<Longrightarrow> lc_name j \<notin> lc_name ` set new \<Longrightarrow> in_force st' (lc_name j) UNKNOWN []"
    using logs_from_str_wf [OF assms(4,6)] on_logs_changed_effect [OF wf assms(8,9)] by metis
  moreover have "GetValue p (upd_var p (\<lambda>x. x\<lparr>cv_value := new\<rparr>) c) = new" using p by (simp add: GetValue_def)
  ultimately show ?thesis using load by blast
qed

definition demo_doc :: "(unit, nat) lexenv" where
  "demo_doc = demo_lex\<lparr>y_load := (\<lambda>_. Some (YSeq (map lconf_node demo_logs)))\<rparr>"

lemma demo_doc_read: "logs_from_str demo_doc None (y_emit demo_doc (YSeq (map lconf_node demo_logs))) = Some (map forget demo_logs)"
  by (simp add: logs_from_str_def demo_doc_def elements_def demo_logs_def read_lconf_node)

lemma demo_logs_cfg_reached: "(cfg_step T emit)\<^sup>*\<^sup>* newConfig demo_logs_cfg"
proof -
  let ?c = "\<lparr>vars = [newConfigVar () ''logs'' [demo_lconf] []], datas = [(''logs'', 0)], s_fun_id = (\<lambda>_. 0), file2modifytime = []\<rparr> :: (unit, lconf list, nat) cfg"
  have "Lookup_default () ''logs'' [demo_lconf] [] newConfig = Inr (Some 0, ?c)"
    by (simp add: Lookup_default_def newConfig_def valid_name_def name_chars_def)
  then have "cfg_step T emit newConfig ?c" by (rule cfg_step.lookup)
  moreover have "map tolower ''logs'' = ''logs''" by code_simp
  then have "snd (AddListener 0 0 ?c) = demo_logs_cfg"
    by (auto simp: AddListener_def newConfigVar_def demo_logs_cfg_def upd_var_def)
  then have "cfg_step T emit ?c demo_logs_cfg" using cfg_step.add_listener [of 0 ?c T emit 0] by simp
  ultimately show ?thesis by (meson rtranclp.simps)
qed

theorem configured_logging_witness:
  "\<exists>st'. on_logs_changed (demo_sys\<lparr>time_text := (\<lambda>_ _. Some [])\<rparr>) 2 demo_event [demo_lconf] (map forget demo_logs) newLoggerManager = Inr st' \<and>
     in_force st' ''a'' INFO [(StdoutLogAppender, UNKNOWN)] \<and> in_force st' ''system'' UNKNOWN []"
proof -
  have v: "GetValue 0 demo_logs_cfg = [demo_lconf]" by (simp add: demo_logs_cfg_def GetValue_def)
  have cb: "callbacks (vars demo_logs_cfg ! 0) = [(1, 0)]" "LookupBase ''logs'' demo_logs_cfg = Some 0"
    by (simp_all add: demo_logs_cfg_def LookupBase_def)
  have diff: "\<forall>i \<in> set (map forget demo_logs). \<forall>j \<in> set (GetValue 0 demo_logs_cfg). lc_name i = lc_name j \<longrightarrow> \<not> lconf_eq i j"
    by (simp add: v demo_logs_def demo_lconf_def forget_def)
  show ?thesis
    using configured_logging [OF demo_logs_cfg_reached cb(2,1) demo_doc_read _ diff, of newLoggerManager 2
        "demo_sys\<lparr>time_text := (\<lambda>_ _. Some [])\<rparr>" demo_event]
    by (auto simp: v demo_logs_def demo_lconf_def forget_def forget_appender_def wanted_def)
qed

section \<open>Finding the configuration\<close>

text \<open>
  Which files a configuration directory contributes: after loading it, the recorded time of every
  regular file below it that can be reached and whose name ends in \<open>.yml\<close> is its time of
  modification, and no other file has been looked at.
\<close>

theorem config_files_loaded:
  "recorded f (snd (LoadFromConfPath T emit mo tree mtime file force path e c)) =
     (if \<exists>nm. file_at mo (GetAbsolutePath path e) (tree (GetAbsolutePath path e)) f nm \<and> suffix ''.yml'' nm
      then mtime f else recorded f c)"
  using ListAllFile_spec [of f mo "''.yml''" "GetAbsolutePath path e" "tree (GetAbsolutePath path e)"]
  by (simp add: LoadFromConfPath_def LoadFromConfDir_def Let_def fold_load_file_recorded fold_load_file_others)

end
